(* ===== verification/Prelude.thy ===== *)
theory Prelude
  imports Main "HOL-Library.Word" "HOL-Library.List_Lexorder"
begin

text \<open>
  Shared vocabulary of the development: JavaScript strings as UTF-16 code units, results as
  sums, and the generic list and option lemmas the component theories use.

  A JavaScript string is a sequence of 16-bit code units, so \<open>length\<close> counts what
  \<open>String.prototype.length\<close> counts and \<open>take n\<close> is \<open>slice(0, n)\<close> for a
  nonnegative \<open>n\<close>.  A source literal is written \<open>js ''text''\<close>.
  \<open>Result<T, E>\<close> of \<open>src/src/core/result.ts\<close> is the sum \<open>'e + 'a\<close>, with
  \<open>Inl\<close> for \<open>err\<close> and \<open>Inr\<close> for \<open>ok\<close>; a thrown exception is an \<open>Inl\<close> as well.
\<close>

named_theorems js_simps \<open>evaluation rules for JavaScript values\<close>
named_theorems inv_intros \<open>preservation lemmas of the component invariants\<close>

section \<open>Strings\<close>

type_synonym jstr = "16 word list"

definition js :: "string \<Rightarrow> jstr" where
  "js s = map (\<lambda>c. of_char c) s"

lemma of_char_word16_inject: "(of_char c :: 16 word) = of_char d \<longleftrightarrow> c = d"
proof
  assume eq: "(of_char c :: 16 word) = of_char d"
  have small: "unat (of_char e :: 16 word) = of_char e" for e
  proof -
    have "(of_char e :: nat) < 2 ^ LENGTH(16)"
      by (rule less_trans [OF nat_of_char_less_256]) simp
    then show ?thesis
      by (metis of_nat_of_char unsigned_of_nat take_bit_nat_eq_self)
  qed
  have "(of_char c :: nat) = of_char d"
    using eq small by metis
  then show "c = d" by simp
qed simp

lemma js_inject [simp]: "js s = js t \<longleftrightarrow> s = t"
  by (simp add: js_def inj_map_eq_map inj_def of_char_word16_inject)

lemma js_Nil [simp]: "js [] = []"
  by (simp add: js_def)

lemma js_eq_Nil [simp]: "js s = [] \<longleftrightarrow> s = []" "[] = js s \<longleftrightarrow> s = []"
  by (auto simp: js_def)

lemma length_js [simp]: "length (js s) = length s"
  by (simp add: js_def)

lemma js_append [simp]: "js (s @ t) = js s @ js t"
  by (simp add: js_def)

lemma js_Cons: "js (c # s) = of_char c # js s"
  by (simp add: js_def)

text \<open>\<open>isPrefix p s\<close> is \<open>s.startsWith(p)\<close>.\<close>

fun isPrefix :: "'a list \<Rightarrow> 'a list \<Rightarrow> bool" where
  "isPrefix [] s = True"
| "isPrefix (p # ps) [] = False"
| "isPrefix (p # ps) (c # s) = (p = c \<and> isPrefix ps s)"

lemma isPrefix_iff: "isPrefix p s \<longleftrightarrow> (\<exists>r. s = p @ r)"
  by (induction p s rule: isPrefix.induct) auto

text \<open>Character classes of the regular expressions the code uses, on code units.\<close>

definition isDigit :: "16 word \<Rightarrow> bool" where
  "isDigit c \<longleftrightarrow> 48 \<le> c \<and> c \<le> 57"

definition isLowerHex :: "16 word \<Rightarrow> bool" where
  "isLowerHex c \<longleftrightarrow> isDigit c \<or> (97 \<le> c \<and> c \<le> 102)"

definition isIdentStart :: "16 word \<Rightarrow> bool" where
  "isIdentStart c \<longleftrightarrow> (65 \<le> c \<and> c \<le> 90) \<or> (97 \<le> c \<and> c \<le> 122) \<or> c = 95 \<or> c = 36"

definition isIdentPart :: "16 word \<Rightarrow> bool" where
  "isIdentPart c \<longleftrightarrow> isIdentStart c \<or> isDigit c"

text \<open>\<open>/^[A-Za-z_$][A-Za-z0-9_$]*$/\<close> and \<open>/^[0-9a-f]{64}$/\<close>.\<close>

definition isIdentifier :: "jstr \<Rightarrow> bool" where
  "isIdentifier s = (case s of [] \<Rightarrow> False | c # cs \<Rightarrow> isIdentStart c \<and> list_all isIdentPart cs)"

definition isSha256 :: "jstr \<Rightarrow> bool" where
  "isSha256 s \<longleftrightarrow> length s = 64 \<and> list_all isLowerHex s"

section \<open>Lists\<close>

lemma list_all2_unique:
  assumes "list_all2 P xs ys" and "list_all2 Q xs zs" and "\<And>x y z. P x y \<Longrightarrow> Q x z \<Longrightarrow> z = y"
  shows "zs = ys"
  using assms by (auto simp: list_all2_conv_all_nth intro!: nth_equalityI)

lemma list_all2_left: "list_all2 P xs ys \<Longrightarrow> x \<in> set xs \<Longrightarrow> \<exists>y\<in>set ys. P x y"
  by (induction rule: list_all2_induct) auto

lemma list_all2_right: "list_all2 P xs ys \<Longrightarrow> y \<in> set ys \<Longrightarrow> \<exists>x\<in>set xs. P x y"
  by (induction rule: list_all2_induct) auto

section \<open>Results\<close>

type_synonym ('a, 'e) result = "'e + 'a"

text \<open>Chaining of fallible steps: the first failure is returned, as \<open>if (!r.ok) return r\<close> does.\<close>

definition resBind :: "'e + 'a \<Rightarrow> ('a \<Rightarrow> 'e + 'b) \<Rightarrow> 'e + 'b" where
  "resBind r f = (case r of Inl e \<Rightarrow> Inl e | Inr a \<Rightarrow> f a)"

lemma resBind_simps [simp]:
  "resBind (Inl e) f = Inl e"
  "resBind (Inr a) f = f a"
  by (simp_all add: resBind_def)

lemma resBind_eq_Inr: "resBind r f = Inr b \<longleftrightarrow> (\<exists>a. r = Inr a \<and> f a = Inr b)"
  by (cases r) auto

lemma resBind_eq_Inl: "resBind r f = Inl e \<longleftrightarrow> r = Inl e \<or> (\<exists>a. r = Inr a \<and> f a = Inl e)"
  by (cases r) auto

lemma resBind_cong [fundef_cong]:
  "r = r' \<Longrightarrow> (\<And>a. r' = Inr a \<Longrightarrow> f a = g a) \<Longrightarrow> resBind r f = resBind r' g"
  by (cases r') auto

lemma map_sum_eq_Inr [simp]: "map_sum id f r = Inr y \<longleftrightarrow> (\<exists>x. r = Inr x \<and> y = f x)"
  by (cases r) auto

lemma map_sum_eq_Inl [simp]: "map_sum id f r = Inl e \<longleftrightarrow> r = Inl e"
  by (cases r) auto

definition isOk :: "'e + 'a \<Rightarrow> bool" where
  "isOk r = (case r of Inl _ \<Rightarrow> False | Inr _ \<Rightarrow> True)"

lemma isOk_simps [simp]: "isOk (Inl e) = False" "isOk (Inr a) = True"
  by (simp_all add: isOk_def)

lemma isOk_iff: "isOk r \<longleftrightarrow> (\<exists>a. r = Inr a)"
  by (cases r) auto

end
