(* ===== verification/JsNumber.thy ===== *)
theory JsNumber
  imports Prelude Complex_Main "HOL-Library.Log_Nat"
begin

text \<open>
  JavaScript numbers.  A finite IEEE double is the rational it denotes (the two signed zeros
  are identified: no modelled code distinguishes them); the three other values are \<open>NaN\<close> and
  the infinities.  The arithmetic operators round to the nearest double, ties to even, which
  \<open>round64\<close> computes, so sums that leave the exactly representable range behave as in the
  program.  Comparisons with \<open>NaN\<close> are false.
\<close>

datatype jsnum = NaN | PosInf | NegInf | Num rat

definition MAX_SAFE_INTEGER :: int where
  "MAX_SAFE_INTEGER = 2 ^ 53 - 1"

abbreviation JI :: "int \<Rightarrow> jsnum" where
  "JI k \<equiv> Num (of_int k)"

section \<open>Rounding to the nearest double\<close>

definition pow2 :: "int \<Rightarrow> rat" where
  "pow2 e = (if 0 \<le> e then 2 ^ nat e else 1 / 2 ^ nat (- e))"

text \<open>The exponent \<open>k\<close> with \<open>2 ^ k \<le> x < 2 ^ (k + 1)\<close>, for positive \<open>x\<close>.\<close>

definition ilog2 :: "rat \<Rightarrow> int" where
  "ilog2 x = (if 1 \<le> x then bitlen \<lfloor>x\<rfloor> - 1 else - bitlen (\<lceil>1 / x\<rceil> - 1))"

definition roundHalfEven :: "rat \<Rightarrow> int" where
  "roundHalfEven x =
     (let f = \<lfloor>x\<rfloor>; d = x - of_int f
      in if d < 1 / 2 then f else if 1 / 2 < d then f + 1 else if even f then f else f + 1)"

definition round64 :: "rat \<Rightarrow> jsnum" where
  "round64 x =
     (if x = 0 then Num 0
      else let e = max (- 1074) (ilog2 \<bar>x\<bar> - 52);
               y = of_int (roundHalfEven (x / pow2 e)) * pow2 e
           in if 2 ^ 1024 \<le> y then PosInf else if y \<le> - (2 ^ 1024) then NegInf else Num y)"

lemma roundHalfEven_of_int [simp]: "roundHalfEven (of_int k) = k"
  by (simp add: roundHalfEven_def)

lemma bitlen_le_53:
  assumes "0 < k" and "k < 2 ^ 53"
  shows "bitlen k \<le> 53"
proof -
  have "2 ^ nat (bitlen k - 1) \<le> k"
    using bitlen_bounds [OF assms(1)] by simp
  then have "(2::int) ^ nat (bitlen k - 1) < 2 ^ 53"
    using assms(2) by linarith
  then have "nat (bitlen k - 1) < 53"
    by (rule power_less_imp_less_exp [rotated]) simp
  then show ?thesis by linarith
qed

lemma pow2_div_of_int:
  assumes "e \<le> 0"
  shows "(of_int k :: rat) / pow2 e = of_int (k * 2 ^ nat (- e))"
  using assms by (cases "e = 0") (auto simp: pow2_def)

lemma pow2_nonneg [simp]: "0 < pow2 e"
  by (simp add: pow2_def)

text \<open>A rational that is a multiple of its last-place unit is not changed by rounding.\<close>

lemma round64_exact:
  assumes "x \<noteq> 0" and "x / pow2 (max (- 1074) (ilog2 \<bar>x\<bar> - 52)) = of_int m" and "\<bar>x\<bar> < 2 ^ 1024"
  shows "round64 x = Num x"
proof -
  define u where "u = pow2 (max (- 1074) (ilog2 \<bar>x\<bar> - 52))"
  have "0 < u" by (simp add: u_def)
  moreover have "x / u = of_int m" using assms(2) by (simp add: u_def)
  ultimately have "of_int (roundHalfEven (x / u)) * u = x"
    by (simp add: field_simps)
  moreover have "x < 2 ^ 1024" "- (2 ^ 1024) < x" using assms(3) by linarith+
  ultimately show ?thesis
    using assms(1) unfolding round64_def Let_def u_def [symmetric] by simp
qed

lemma of_int_less_double_range:
  assumes "\<bar>k\<bar> \<le> 2 ^ 53"
  shows "\<bar>of_int k :: rat\<bar> < 2 ^ 1024"
proof -
  have "\<bar>of_int k :: rat\<bar> \<le> 2 ^ 53"
    using assms by (metis of_int_abs of_int_le_iff of_int_numeral of_int_power)
  also have "(2::rat) ^ 53 < 2 ^ 1024"
    by (rule power_strict_increasing) auto
  finally show ?thesis .
qed

lemma ilog2_two_pow_53: "ilog2 9007199254740992 = 53"
proof -
  have "bitlen (9007199254740992::int) = 54"
    by code_simp
  then show ?thesis by (simp add: ilog2_def)
qed

text \<open>Integers up to \<open>2 ^ 53\<close> are doubles, so sums and differences in that range are exact.\<close>

lemma round64_of_int:
  assumes "\<bar>k\<bar> \<le> 2 ^ 53"
  shows "round64 (of_int k) = JI k"
proof (cases "k = 0")
  case True
  then show ?thesis by (simp add: round64_def)
next
  case nz: False
  define e where "e = max (- 1074) (ilog2 \<bar>of_int k :: rat\<bar> - 52)"
  have "\<exists>m. (of_int k :: rat) / pow2 e = of_int m"
  proof (cases "\<bar>k\<bar> < 2 ^ 53")
    case True
    have "1 \<le> \<bar>k\<bar>" using nz by linarith
    then have "ilog2 \<bar>of_int k :: rat\<bar> = bitlen \<bar>k\<bar> - 1"
      by (simp add: ilog2_def flip: of_int_abs)
    moreover have "bitlen \<bar>k\<bar> \<le> 53"
      using nz True by (intro bitlen_le_53) auto
    ultimately have "e \<le> 0"
      by (simp add: e_def)
    then show ?thesis using pow2_div_of_int by blast
  next
    case False
    with assms have "k = 2 ^ 53 \<or> k = - (2 ^ 53)" by linarith
    then show ?thesis
    proof
      assume k: "k = 2 ^ 53"
      have "e = 1" by (simp add: e_def k ilog2_two_pow_53)
      then have "(of_int k :: rat) / pow2 e = of_int (2 ^ 52)" by (simp add: k pow2_def)
      then show ?thesis by blast
    next
      assume k: "k = - (2 ^ 53)"
      have "e = 1" by (simp add: e_def k ilog2_two_pow_53)
      then have "(of_int k :: rat) / pow2 e = of_int (- (2 ^ 52))" by (simp add: k pow2_def)
      then show ?thesis by blast
    qed
  qed
  then show ?thesis
    using nz of_int_less_double_range [OF assms] unfolding e_def by (auto intro: round64_exact)
qed

section \<open>Arithmetic and comparison\<close>

fun jadd :: "jsnum \<Rightarrow> jsnum \<Rightarrow> jsnum" where
  "jadd (Num a) (Num b) = round64 (a + b)"
| "jadd NaN y = NaN"
| "jadd x NaN = NaN"
| "jadd PosInf NegInf = NaN"
| "jadd NegInf PosInf = NaN"
| "jadd PosInf y = PosInf"
| "jadd x PosInf = PosInf"
| "jadd NegInf y = NegInf"
| "jadd x NegInf = NegInf"

fun jneg :: "jsnum \<Rightarrow> jsnum" where
  "jneg (Num a) = Num (- a)"
| "jneg NaN = NaN"
| "jneg PosInf = NegInf"
| "jneg NegInf = PosInf"

definition jsub :: "jsnum \<Rightarrow> jsnum \<Rightarrow> jsnum" where
  "jsub x y = jadd x (jneg y)"

fun jless :: "jsnum \<Rightarrow> jsnum \<Rightarrow> bool" where
  "jless (Num a) (Num b) = (a < b)"
| "jless NaN y = False"
| "jless x NaN = False"
| "jless PosInf y = False"
| "jless x NegInf = False"
| "jless x PosInf = True"
| "jless NegInf y = True"

text \<open>\<open>===\<close> on numbers: \<open>NaN\<close> differs from itself.\<close>

definition jeq :: "jsnum \<Rightarrow> jsnum \<Rightarrow> bool" where
  "jeq x y \<longleftrightarrow> x \<noteq> NaN \<and> x = y"

definition jleq :: "jsnum \<Rightarrow> jsnum \<Rightarrow> bool" where
  "jleq x y \<longleftrightarrow> jless x y \<or> jeq x y"

definition jmax :: "jsnum \<Rightarrow> jsnum \<Rightarrow> jsnum" where
  "jmax x y = (if x = NaN \<or> y = NaN then NaN else if jless x y then y else x)"

definition jmin :: "jsnum \<Rightarrow> jsnum \<Rightarrow> jsnum" where
  "jmin x y = (if x = NaN \<or> y = NaN then NaN else if jless y x then y else x)"

definition isFinite :: "jsnum \<Rightarrow> bool" where
  "isFinite x = (case x of Num _ \<Rightarrow> True | _ \<Rightarrow> False)"

definition isInteger :: "jsnum \<Rightarrow> bool" where
  "isInteger x = (case x of Num r \<Rightarrow> r = of_int \<lfloor>r\<rfloor> | _ \<Rightarrow> False)"

definition isSafeInteger :: "jsnum \<Rightarrow> bool" where
  "isSafeInteger x =
     (case x of Num r \<Rightarrow> r = of_int \<lfloor>r\<rfloor> \<and> \<bar>\<lfloor>r\<rfloor>\<bar> \<le> MAX_SAFE_INTEGER | _ \<Rightarrow> False)"

text \<open>The integer a safe-integer value denotes.\<close>

definition jint :: "jsnum \<Rightarrow> int" where
  "jint x = (case x of Num r \<Rightarrow> \<lfloor>r\<rfloor> | _ \<Rightarrow> 0)"

lemma jleq_Num [simp]: "jleq (Num a) (Num b) \<longleftrightarrow> a \<le> b"
  by (auto simp: jleq_def jeq_def)

lemma jeq_Num [simp]: "jeq (Num a) (Num b) \<longleftrightarrow> a = b"
  by (simp add: jeq_def)

lemma jint_JI [simp]: "jint (JI k) = k"
  by (simp add: jint_def)

lemma isFinite_simps [simp]: "isFinite (Num r)" "\<not> isFinite NaN" "\<not> isFinite PosInf" "\<not> isFinite NegInf"
  by (simp_all add: isFinite_def)

lemma isFinite_iff: "isFinite x \<longleftrightarrow> (\<exists>r. x = Num r)"
  by (cases x) auto

lemma isSafeInteger_JI [simp]: "isSafeInteger (JI k) \<longleftrightarrow> \<bar>k\<bar> \<le> MAX_SAFE_INTEGER"
  by (simp add: isSafeInteger_def)

lemma isSafeInteger_iff: "isSafeInteger x \<longleftrightarrow> (\<exists>k. x = JI k \<and> \<bar>k\<bar> \<le> MAX_SAFE_INTEGER)"
  by (cases x) (auto simp: isSafeInteger_def)

lemma isSafeIntegerE [elim?]:
  assumes "isSafeInteger x"
  obtains k where "x = JI k" and "\<bar>k\<bar> \<le> MAX_SAFE_INTEGER"
  using assms by (auto simp: isSafeInteger_iff)

lemma isSafeInteger_numeral [simp]:
  "isSafeInteger (Num (numeral n)) \<longleftrightarrow> numeral n \<le> MAX_SAFE_INTEGER"
  "isSafeInteger (Num 0)" "isSafeInteger (Num 1)"
  by (simp_all add: isSafeInteger_def MAX_SAFE_INTEGER_def)

lemma jadd_JI [js_simps]:
  "\<bar>a + b\<bar> \<le> 2 ^ 53 \<Longrightarrow> jadd (JI a) (JI b) = JI (a + b)"
  by (simp add: round64_of_int flip: of_int_add)

lemma jsub_JI [js_simps]:
  "\<bar>a - b\<bar> \<le> 2 ^ 53 \<Longrightarrow> jsub (JI a) (JI b) = JI (a - b)"
  using jadd_JI [of a "- b"] by (simp add: jsub_def)

lemma jless_JI: "jless (JI a) (JI b) \<longleftrightarrow> a < b"
  by simp

lemma jmax_Num: "jmax (Num a) (Num b) = Num (max a b)"
  by (auto simp: jmax_def max_def)

lemma jmin_Num: "jmin (Num a) (Num b) = Num (min a b)"
  by (auto simp: jmin_def min_def)

text \<open>Rounding keeps the sign, so a sum of nonnegative finite values is not negative.\<close>

lemma roundHalfEven_nonneg: "0 \<le> x \<Longrightarrow> 0 \<le> roundHalfEven x"
  by (auto simp: roundHalfEven_def Let_def)

lemma round64_nonneg:
  assumes "0 \<le> x"
  shows "round64 x = PosInf \<or> (\<exists>y. round64 x = Num y \<and> 0 \<le> y)"
proof (cases "x = 0")
  case False
  define e where "e = max (- 1074) (ilog2 \<bar>x\<bar> - 52)"
  define y where "y = of_int (roundHalfEven (x / pow2 e)) * pow2 e"
  have "0 \<le> y"
    unfolding y_def using assms
    by (intro mult_nonneg_nonneg of_int_0_le_iff [THEN iffD2] roundHalfEven_nonneg
      divide_nonneg_pos less_imp_le [OF pow2_nonneg] pow2_nonneg)
  moreover have "round64 x = (if 2 ^ 1024 \<le> y then PosInf else if y \<le> - (2 ^ 1024) then NegInf else Num y)"
    using False by (simp add: round64_def e_def y_def Let_def)
  moreover have "\<not> 0 \<le> y" if "y \<le> - (2 ^ 1024)"
    using that by (auto simp: not_le intro: le_less_trans)
  ultimately show ?thesis by auto
qed (simp add: round64_def)

section \<open>Printing: \<open>Number.prototype.toString\<close>\<close>

fun decNat :: "nat \<Rightarrow> string" where
  "decNat n = (if n < 10 then [char_of (48 + n)] else decNat (n div 10) @ [char_of (48 + n mod 10)])"

declare decNat.simps [simp del]

text \<open>The exponent \<open>n\<close> with \<open>10 ^ (n - 1) \<le> x < 10 ^ n\<close>, for positive \<open>x\<close>.\<close>

definition decExponent :: "rat \<Rightarrow> int" where
  "decExponent x =
     (if 1 \<le> x then int (floorlog 10 (nat \<lfloor>x\<rfloor>)) else 1 - int (floorlog 10 (nat (\<lceil>1 / x\<rceil> - 1))))"

definition pow10 :: "int \<Rightarrow> rat" where
  "pow10 e = (if 0 \<le> e then 10 ^ nat e else 1 / 10 ^ nat (- e))"

text \<open>
  The shortest decimal significand of at most 17 digits that reads back as the same double
  (the closer one of two), as (significand, digit count, exponent).
\<close>

fun shortestDigits :: "rat \<Rightarrow> int \<Rightarrow> nat list \<Rightarrow> int \<times> nat \<times> int" where
  "shortestDigits x n [] = (\<lfloor>x * pow10 (17 - n)\<rfloor>, 17, n)"
| "shortestDigits x n (k # ks) =
     (let scale = pow10 (n - int k);
          lo = \<lfloor>x / scale\<rfloor>;
          ok = (\<lambda>s. round64 (of_int s * scale) = Num x);
          best = (if ok lo \<and> (\<not> ok (lo + 1) \<or> x - of_int lo * scale \<le> of_int (lo + 1) * scale - x)
                  then Some lo else if ok (lo + 1) then Some (lo + 1) else None)
      in case best of
           None \<Rightarrow> shortestDigits x n ks
         | Some s \<Rightarrow> if s = 10 ^ k then (1, 1, n + 1) else (s, k, n))"

definition layoutDigits :: "string \<Rightarrow> nat \<Rightarrow> int \<Rightarrow> string" where
  "layoutDigits ds k n =
     (if int k \<le> n \<and> n \<le> 21 then ds @ replicate (nat (n - int k)) (CHR ''0'')
      else if 0 < n \<and> n \<le> 21 then take (nat n) ds @ ''.'' @ drop (nat n) ds
      else if - 6 < n \<and> n \<le> 0 then ''0.'' @ replicate (nat (- n)) (CHR ''0'') @ ds
      else take 1 ds @ (if k = 1 then [] else ''.'' @ drop 1 ds) @ ''e''
             @ (if 0 \<le> n - 1 then ''+'' else ''-'') @ decNat (nat \<bar>n - 1\<bar>))"

definition posNumString :: "rat \<Rightarrow> string" where
  "posNumString x =
     (case shortestDigits x (decExponent x) [1..<18] of (s, k, n) \<Rightarrow> layoutDigits (decNat (nat s)) k n)"

definition numString :: "jsnum \<Rightarrow> jstr" where
  "numString x =
     js (case x of
           NaN \<Rightarrow> ''NaN''
         | PosInf \<Rightarrow> ''Infinity''
         | NegInf \<Rightarrow> ''-Infinity''
         | Num r \<Rightarrow> if r = 0 then ''0'' else if r < 0 then ''-'' @ posNumString (- r) else posNumString r)"

definition natString :: "nat \<Rightarrow> jstr" where
  "natString n = js (decNat n)"

section \<open>Evaluation on numerals\<close>

lemma jadd_of_int: "\<bar>k + l\<bar> \<le> 2 ^ 53 \<Longrightarrow> x = of_int k \<Longrightarrow> y = of_int l \<Longrightarrow> jadd (Num x) (Num y) = Num (x + y)"
  using jadd_JI [of k l] by simp

lemma jadd_numerals [js_simps]:
  "jadd (Num 0) (Num 0) = Num 0" "jadd (Num 0) (Num 1) = Num 1" "jadd (Num 1) (Num 0) = Num 1" "jadd (Num 1) (Num 1) = Num 2"
  "(numeral n :: int) \<le> 2 ^ 53 \<Longrightarrow> jadd (Num 0) (Num (numeral n)) = Num (numeral n)"
  "(numeral n :: int) \<le> 2 ^ 53 \<Longrightarrow> jadd (Num (numeral n)) (Num 0) = Num (numeral n)"
  "1 + (numeral n :: int) \<le> 2 ^ 53 \<Longrightarrow> jadd (Num 1) (Num (numeral n)) = Num (1 + numeral n)"
  "(numeral n :: int) + 1 \<le> 2 ^ 53 \<Longrightarrow> jadd (Num (numeral n)) (Num 1) = Num (numeral n + 1)"
  "(numeral m :: int) + numeral n \<le> 2 ^ 53 \<Longrightarrow> jadd (Num (numeral m)) (Num (numeral n)) = Num (numeral m + numeral n)"
  using jadd_JI [of 0 0] jadd_JI [of 0 1] jadd_JI [of 1 0] jadd_JI [of 1 1] jadd_JI [of 0 "numeral n"]
    jadd_JI [of "numeral n" 0] jadd_JI [of 1 "numeral n"] jadd_JI [of "numeral n" 1] jadd_JI [of "numeral m" "numeral n"]
  by (simp_all del: jadd.simps)

lemma jsub_numerals [js_simps]:
  "jsub (Num 0) (Num 0) = Num 0" "jsub (Num 1) (Num 0) = Num 1" "jsub (Num 1) (Num 1) = Num 0"
  "(numeral n :: int) \<le> 2 ^ 53 \<Longrightarrow> jsub (Num (numeral n)) (Num 0) = Num (numeral n)"
  "\<bar>(numeral n :: int) - 1\<bar> \<le> 2 ^ 53 \<Longrightarrow> jsub (Num (numeral n)) (Num 1) = Num (numeral n - 1)"
  "\<bar>(numeral m :: int) - numeral n\<bar> \<le> 2 ^ 53 \<Longrightarrow> jsub (Num (numeral m)) (Num (numeral n)) = Num (numeral m - numeral n)"
  using jsub_JI [of 0 0] jsub_JI [of 1 0] jsub_JI [of 1 1] jsub_JI [of "numeral n" 0]
    jsub_JI [of "numeral n" 1] jsub_JI [of "numeral m" "numeral n"]
  by (simp_all only: of_int_numeral of_int_1 of_int_0 of_int_diff) simp_all

end
