(* ===== verification/JsonValue.thy ===== *)
theory JsonValue
  imports JsNumber
begin

text \<open>
  The JSON model and canonical serialisation of \<open>src/src/core/json.ts\<close>.

  Untrusted input is a JavaScript value in a heap: objects have identity, so sharing and cycles
  exist, an array slot may be a hole and a property may be an accessor.  \<open>parseJsonValue\<close>
  turns such a value into a tree of type \<open>json\<close>, whose objects list their properties in
  JavaScript's enumeration order (array indices ascending, then names by insertion).
\<close>

section \<open>JavaScript values and JSON trees\<close>

datatype jsval =
    VUndefined
  | VNull
  | VBool bool
  | VNum jsnum
  | VStr jstr
  | VBigint
  | VSymbol
  | VFunction
  | VRef nat

text \<open>
  The own property descriptor found at an array index or a key: absent, an accessor (with the
  value its getter returns), or a data property.
\<close>

datatype slot = Hole | Accessor jsval | Data jsval

datatype jsobj =
    OArray "slot list"
  | OObject "(jstr \<times> slot) list"

type_synonym heap = "nat \<Rightarrow> jsobj"

datatype json =
    JNull
  | JBool bool
  | JNum jsnum
  | JStr jstr
  | JArr "json list"
  | JObj "(jstr \<times> json) list"

datatype json_error = JsonError (errPath: jstr) (errReason: jstr)

text \<open>Exceptions the modelled code throws.\<close>

datatype js_exn = ThrowTypeError jstr | ThrowRangeError jstr | ThrowError jstr

definition MAX_JSON_DEPTH :: nat where
  "MAX_JSON_DEPTH = 100"

definition isJsonObject :: "json \<Rightarrow> bool" where
  "isJsonObject v = (case v of JObj _ \<Rightarrow> True | _ \<Rightarrow> False)"

definition isJsonArray :: "json \<Rightarrow> bool" where
  "isJsonArray v = (case v of JArr _ \<Rightarrow> True | _ \<Rightarrow> False)"

lemma isJsonObject_iff: "isJsonObject v \<longleftrightarrow> (\<exists>ps. v = JObj ps)"
  by (cases v) (auto simp: isJsonObject_def)

section \<open>Property order\<close>

text \<open>
  The array-index keys: canonical decimal numerals below \<open>2 ^ 32 - 1\<close>.
\<close>

definition digitsValue :: "jstr \<Rightarrow> nat" where
  "digitsValue s = foldl (\<lambda>n c. 10 * n + (unat c - 48)) 0 s"

definition arrayIndex :: "jstr \<Rightarrow> nat option" where
  "arrayIndex s =
     (if s \<noteq> [] \<and> list_all isDigit s \<and> (hd s = 48 \<longrightarrow> length s = 1) \<and> length s \<le> 10
         \<and> digitsValue s < 2 ^ 32 - 1
      then Some (digitsValue s) else None)"

datatype prop_key = IndexKey nat | NameKey jstr

definition propKey :: "jstr \<Rightarrow> prop_key" where
  "propKey k = (case arrayIndex k of Some i \<Rightarrow> IndexKey i | None \<Rightarrow> NameKey k)"

instantiation prop_key :: linorder
begin

definition less_eq_prop_key :: "prop_key \<Rightarrow> prop_key \<Rightarrow> bool" where
  "less_eq_prop_key a b =
     (case (a, b) of
        (IndexKey i, IndexKey j) \<Rightarrow> i \<le> j
      | (IndexKey _, NameKey _) \<Rightarrow> True
      | (NameKey _, IndexKey _) \<Rightarrow> False
      | (NameKey s, NameKey t) \<Rightarrow> s \<le> t)"

definition less_prop_key :: "prop_key \<Rightarrow> prop_key \<Rightarrow> bool" where
  "less_prop_key a b = (a \<le> b \<and> \<not> b \<le> (a :: prop_key))"

instance
  by intro_classes (auto simp: less_eq_prop_key_def less_prop_key_def split: prop_key.splits)

end

lemma prop_key_le_simps [simp]:
  "IndexKey i \<le> IndexKey j \<longleftrightarrow> i \<le> j"
  "IndexKey i \<le> NameKey s"
  "\<not> NameKey s \<le> IndexKey i"
  "NameKey s \<le> NameKey t \<longleftrightarrow> s \<le> t"
  by (simp_all add: less_eq_prop_key_def)

text \<open>
  \<open>o[k] = v\<close> on an ordinary object: an existing property keeps its place, a new array index
  goes before the larger indices and the names, a new name goes last.
\<close>

fun insertIndex :: "nat \<Rightarrow> jstr \<times> 'v \<Rightarrow> (jstr \<times> 'v) list \<Rightarrow> (jstr \<times> 'v) list" where
  "insertIndex i p [] = [p]"
| "insertIndex i p (q # qs) =
     (case arrayIndex (fst q) of
        Some j \<Rightarrow> if j < i then q # insertIndex i p qs else p # q # qs
      | None \<Rightarrow> p # q # qs)"

definition propSet :: "(jstr \<times> 'v) list \<Rightarrow> jstr \<Rightarrow> 'v \<Rightarrow> (jstr \<times> 'v) list" where
  "propSet ps k v =
     (if k \<in> fst ` set ps then map (\<lambda>(k', v'). (k', if k' = k then v else v')) ps
      else case arrayIndex k of
             Some i \<Rightarrow> insertIndex i (k, v) ps
           | None \<Rightarrow> ps @ [(k, v)])"

definition objOf :: "(jstr \<times> 'v) list \<Rightarrow> (jstr \<times> 'v) list" where
  "objOf ps = foldl (\<lambda>acc (k, v). propSet acc k v) [] ps"

text \<open>The property lists JavaScript objects can have.\<close>

definition propsOrdered :: "(jstr \<times> 'v) list \<Rightarrow> bool" where
  "propsOrdered ps \<longleftrightarrow>
     distinct (map fst ps)
     \<and> sorted_wrt (\<lambda>k l. case (arrayIndex k, arrayIndex l) of
                            (Some i, Some j) \<Rightarrow> i < j
                          | (None, Some _) \<Rightarrow> False
                          | _ \<Rightarrow> True) (map fst ps)"

section \<open>Decimal numerals\<close>

lemma js_decimal_digit: "d < 10 \<Longrightarrow> js [char_of (48 + d)] = [word_of_nat (48 + d)]"
proof -
  assume "d < 10"
  have "(of_char (char_of (48 + d)) :: 16 word) = of_nat (of_char (char_of (48 + d) :: char))"
    by (simp only: of_nat_of_char)
  also have "(of_char (char_of (48 + d) :: char) :: nat) = 48 + d"
    using \<open>d < 10\<close> by simp
  finally show ?thesis by (simp add: js_def)
qed

lemma isDigit_iff: "isDigit c \<longleftrightarrow> 48 \<le> unat c \<and> unat c \<le> 57"
  by (simp add: isDigit_def word_le_nat_alt)

lemma digitsValue_snoc: "digitsValue (s @ [c]) = 10 * digitsValue s + (unat c - 48)"
  by (simp add: digitsValue_def)

lemma digitsValue_single [simp]: "digitsValue [c] = unat c - 48"
  by (simp add: digitsValue_def)

lemma digitsValue_Nil [simp]: "digitsValue [] = 0"
  by (simp add: digitsValue_def)

lemma digitsValue_pos:
  "s \<noteq> [] \<Longrightarrow> list_all isDigit s \<Longrightarrow> hd s \<noteq> 48 \<Longrightarrow> 0 < digitsValue s"
proof (induction s rule: rev_induct)
  case (snoc c s)
  show ?case
  proof (cases "s = []")
    case True
    with snoc.prems have "c \<noteq> 48" "48 \<le> unat c" by (auto simp: isDigit_iff)
    then have "unat c \<noteq> 48" by (simp add: word_unat_eq_iff)
    with \<open>48 \<le> unat c\<close> True show ?thesis by (simp add: digitsValue_snoc)
  next
    case False
    with snoc show ?thesis by (simp add: digitsValue_snoc)
  qed
qed simp

lemma natString_small: "n < 10 \<Longrightarrow> natString n = [word_of_nat (48 + n)]"
  by (subst natString_def, subst decNat.simps) (simp add: js_decimal_digit)

lemma natString_large: "10 \<le> n \<Longrightarrow> natString n = natString (n div 10) @ [word_of_nat (48 + n mod 10)]"
  by (subst natString_def, subst decNat.simps) (simp add: natString_def js_decimal_digit)

text \<open>A numeral without leading zeros is the decimal text of its value.\<close>

lemma natString_digitsValue:
  "s \<noteq> [] \<Longrightarrow> list_all isDigit s \<Longrightarrow> (hd s = 48 \<longrightarrow> length s = 1) \<Longrightarrow> natString (digitsValue s) = s"
proof (induction s rule: rev_induct)
  case (snoc c s)
  obtain d where d: "unat c = 48 + d" "d < 10"
    using snoc.prems by (auto simp: isDigit_iff dest: le_Suc_ex)
  then have c: "word_of_nat (48 + d) = c"
    by (metis of_nat_unat ucast_id)
  show ?case
  proof (cases "s = []")
    case True
    with d c show ?thesis
      by (simp add: natString_small del: of_nat_add)
  next
    case False
    with snoc.prems have ne: "hd s \<noteq> 48" by auto
    with False snoc.prems have "0 < digitsValue s" by (intro digitsValue_pos) auto
    moreover have "digitsValue (s @ [c]) = 10 * digitsValue s + d"
      using d by (simp add: digitsValue_snoc)
    ultimately have "natString (digitsValue (s @ [c])) = natString (digitsValue s) @ [c]"
      using c d(2) by (subst natString_large) (auto simp del: of_nat_add)
    also have "natString (digitsValue s) = s"
      using snoc False ne by auto
    finally show ?thesis .
  qed
qed simp

lemma digitsValue_natString: "digitsValue (natString n) = n"
proof (induction n rule: less_induct)
  case (less n)
  have "unat (word_of_nat (48 + d) :: 16 word) = 48 + d" if "d < 10" for d
    using that by (simp add: unsigned_of_nat take_bit_nat_eq_self del: of_nat_add)
  then show ?case
    using less [of "n div 10"]
    by (cases "n < 10") (auto simp: natString_small natString_large digitsValue_snoc simp del: of_nat_add)
qed

lemma natString_inject [simp]: "natString m = natString n \<longleftrightarrow> m = n"
  by (metis digitsValue_natString)

lemma arrayIndex_inject: "arrayIndex s = Some i \<Longrightarrow> arrayIndex t = Some i \<Longrightarrow> s = t"
  by (metis (no_types, lifting) arrayIndex_def natString_digitsValue option.inject option.simps(3))

lemma propKey_inject [simp]: "propKey s = propKey t \<longleftrightarrow> s = t"
  by (auto simp: propKey_def split: option.splits dest: arrayIndex_inject)

section \<open>Assignment in enumeration order\<close>

lemma insertIndex_end:
  "(\<And>k. k \<in> fst ` set ps \<Longrightarrow> \<exists>j. arrayIndex k = Some j \<and> j < i) \<Longrightarrow> insertIndex i p ps = ps @ [p]"
  by (induction ps) force+

lemma propSet_append:
  assumes "propsOrdered (ps @ [(k, v)])"
  shows "propSet ps k v = ps @ [(k, v)]"
proof -
  have new: "k \<notin> fst ` set ps"
    using assms by (auto simp: propsOrdered_def)
  show ?thesis
  proof (cases "arrayIndex k")
    case None
    with new show ?thesis by (simp add: propSet_def)
  next
    case (Some i)
    have "\<exists>j. arrayIndex k' = Some j \<and> j < i" if "k' \<in> fst ` set ps" for k'
      using assms that Some
      by (fastforce simp: propsOrdered_def sorted_wrt_append split: option.splits)
    with new Some show ?thesis by (simp add: propSet_def insertIndex_end)
  qed
qed

lemma propsOrdered_prefix: "propsOrdered (ps @ qs) \<Longrightarrow> propsOrdered ps"
  by (auto simp: propsOrdered_def sorted_wrt_append)

lemma objOf_snoc: "objOf (ps @ [(k, v)]) = propSet (objOf ps) k v"
  by (simp add: objOf_def)

lemma objOf_Nil [simp]: "objOf [] = []"
  by (simp add: objOf_def)

text \<open>Copying the properties of an object in enumeration order reproduces it.\<close>

lemma objOf_ordered: "propsOrdered ps \<Longrightarrow> objOf ps = ps"
proof (induction ps rule: rev_induct)
  case (snoc p ps)
  then show ?case
    using propsOrdered_prefix [of ps "[p]"]
    by (cases p) (auto simp: objOf_snoc propSet_append)
qed simp


section \<open>Printing strings and paths\<close>

definition hexDigit :: "nat \<Rightarrow> 16 word" where
  "hexDigit d = word_of_nat (if d < 10 then 48 + d else 87 + d)"

definition hex4 :: "nat \<Rightarrow> jstr" where
  "hex4 n = [hexDigit (n div 4096 mod 16), hexDigit (n div 256 mod 16), hexDigit (n div 16 mod 16), hexDigit (n mod 16)]"

definition isHighSurrogate :: "16 word \<Rightarrow> bool" where
  "isHighSurrogate c \<longleftrightarrow> 0xD800 \<le> c \<and> c \<le> 0xDBFF"

definition isLowSurrogate :: "16 word \<Rightarrow> bool" where
  "isLowSurrogate c \<longleftrightarrow> 0xDC00 \<le> c \<and> c \<le> 0xDFFF"

definition escapeUnit :: "16 word \<Rightarrow> jstr" where
  "escapeUnit c =
     (if c = 8 then [92, 98] else if c = 9 then [92, 116] else if c = 10 then [92, 110]
      else if c = 12 then [92, 102] else if c = 13 then [92, 114]
      else if c = 34 then [92, 34] else if c = 92 then [92, 92]
      else if c < 32 then [92, 117] @ hex4 (unat c)
      else [c])"

fun quoteUnits :: "jstr \<Rightarrow> jstr" where
  "quoteUnits [] = []"
| "quoteUnits [c] =
     (if isHighSurrogate c \<or> isLowSurrogate c then [92, 117] @ hex4 (unat c) else escapeUnit c)"
| "quoteUnits (c # d # cs) =
     (if isHighSurrogate c \<and> isLowSurrogate d then c # d # quoteUnits cs
      else if isHighSurrogate c \<or> isLowSurrogate c then [92, 117] @ hex4 (unat c) @ quoteUnits (d # cs)
      else escapeUnit c @ quoteUnits (d # cs))"

definition quoteString :: "jstr \<Rightarrow> jstr" where
  "quoteString s = [34] @ quoteUnits s @ [34]"

definition childPath :: "jstr \<Rightarrow> jstr \<Rightarrow> jstr" where
  "childPath path key =
     (if isIdentifier key then path @ js ''.'' @ key else path @ js ''['' @ quoteString key @ js '']'')"

definition indexPath :: "jstr \<Rightarrow> nat \<Rightarrow> jstr" where
  "indexPath path i = path @ js ''['' @ natString i @ js '']''"

section \<open>parseJsonValue\<close>

definition depthMessage :: jstr where
  "depthMessage = js ''maximum JSON depth of 100 exceeded''"

text \<open>
  The depth-first walk.  \<open>seen\<close> holds the objects on the current path (an object leaves it
  when its visit ends), so a repeated object is rejected only when it is its own ancestor.
\<close>

function (sequential)
  walk :: "heap \<Rightarrow> nat list \<Rightarrow> jsval \<Rightarrow> jstr \<Rightarrow> nat \<Rightarrow> json_error + json"
  and walkItems :: "heap \<Rightarrow> nat list \<Rightarrow> slot list \<Rightarrow> jstr \<Rightarrow> nat \<Rightarrow> nat \<Rightarrow> json_error + json list"
  and walkProps :: "heap \<Rightarrow> nat list \<Rightarrow> (jstr \<times> slot) list \<Rightarrow> jstr \<Rightarrow> nat \<Rightarrow> json_error + (jstr \<times> json) list"
where
  "walk h seen v path depth =
     (if MAX_JSON_DEPTH < depth then Inl (JsonError path depthMessage)
      else case v of
        VNull \<Rightarrow> Inr JNull
      | VStr s \<Rightarrow> Inr (JStr s)
      | VBool b \<Rightarrow> Inr (JBool b)
      | VNum n \<Rightarrow> if isFinite n then Inr (JNum n) else Inl (JsonError path (js ''non-finite number''))
      | VUndefined \<Rightarrow> Inl (JsonError path (js ''undefined is not JSON''))
      | VBigint \<Rightarrow> Inl (JsonError path (js ''bigint is not JSON''))
      | VSymbol \<Rightarrow> Inl (JsonError path (js ''symbol is not JSON''))
      | VFunction \<Rightarrow> Inl (JsonError path (js ''function is not JSON''))
      | VRef a \<Rightarrow>
          if a \<in> set seen then Inl (JsonError path (js ''cyclic reference''))
          else case h a of
            OArray slots \<Rightarrow> map_sum id JArr (walkItems h (a # seen) slots path 0 (Suc depth))
          | OObject props \<Rightarrow>
              map_sum id (\<lambda>ps. JObj (objOf ps)) (walkProps h (a # seen) props path (Suc depth)))"
| "walkItems h seen [] path i depth = Inr []"
| "walkItems h seen (s # ss) path i depth =
     (case s of
        Hole \<Rightarrow> Inl (JsonError (indexPath path i) (js ''array holes are not JSON''))
      | Accessor _ \<Rightarrow> Inl (JsonError (indexPath path i) (js ''accessor properties are not JSON''))
      | Data v \<Rightarrow>
          (case walk h seen v (indexPath path i) depth of
             Inl e \<Rightarrow> Inl e
           | Inr x \<Rightarrow> map_sum id (\<lambda>xs. x # xs) (walkItems h seen ss path (Suc i) depth)))"
| "walkProps h seen [] path depth = Inr []"
| "walkProps h seen ((k, s) # ps) path depth =
     (case s of
        Data v \<Rightarrow>
          (case walk h seen v (childPath path k) depth of
             Inl e \<Rightarrow> Inl e
           | Inr x \<Rightarrow> map_sum id (\<lambda>xs. (k, x) # xs) (walkProps h seen ps path depth))
      | _ \<Rightarrow> Inl (JsonError (childPath path k) (js ''accessor properties are not JSON'')))"
  by pat_completeness auto
termination
  by (relation "measures [\<lambda>x. case x of Inl (h, seen, v, path, depth) \<Rightarrow> 102 - depth
                           | Inr (Inl (h, seen, ss, path, i, depth)) \<Rightarrow> 102 - depth
                           | Inr (Inr (h, seen, ps, path, depth)) \<Rightarrow> 102 - depth,
                         \<lambda>x. case x of Inl _ \<Rightarrow> 0
                           | Inr (Inl (h, seen, ss, path, i, depth)) \<Rightarrow> length ss
                           | Inr (Inr (h, seen, ps, path, depth)) \<Rightarrow> length ps]")
     (auto simp: MAX_JSON_DEPTH_def)

declare walk.simps [simp del]

definition parseJsonValue :: "heap \<Rightarrow> jsval \<Rightarrow> json_error + json" where
  "parseJsonValue h v = walk h [] v (js ''$'') 0"

text \<open>
  The same walk over a value that is already a tree of JSON nodes (the argument of
  \<open>parseJsonValue\<close> where the code passes it a \<open>JsonValue\<close>).
\<close>

fun recheck :: "json \<Rightarrow> jstr \<Rightarrow> nat \<Rightarrow> json_error + json"
  and recheckItems :: "json list \<Rightarrow> jstr \<Rightarrow> nat \<Rightarrow> nat \<Rightarrow> json_error + json list"
  and recheckProps :: "(jstr \<times> json) list \<Rightarrow> jstr \<Rightarrow> nat \<Rightarrow> json_error + (jstr \<times> json) list"
where
  "recheck v path depth =
     (if MAX_JSON_DEPTH < depth then Inl (JsonError path depthMessage)
      else case v of
        JNum n \<Rightarrow> if isFinite n then Inr (JNum n) else Inl (JsonError path (js ''non-finite number''))
      | JArr vs \<Rightarrow> map_sum id JArr (recheckItems vs path 0 (Suc depth))
      | JObj ps \<Rightarrow> map_sum id (\<lambda>ps. JObj (objOf ps)) (recheckProps ps path (Suc depth))
      | _ \<Rightarrow> Inr v)"
| "recheckItems [] path i depth = Inr []"
| "recheckItems (v # vs) path i depth =
     (case recheck v (indexPath path i) depth of
        Inl e \<Rightarrow> Inl e
      | Inr x \<Rightarrow> map_sum id (\<lambda>xs. x # xs) (recheckItems vs path (Suc i) depth))"
| "recheckProps [] path depth = Inr []"
| "recheckProps ((k, v) # ps) path depth =
     (case recheck v (childPath path k) depth of
        Inl e \<Rightarrow> Inl e
      | Inr x \<Rightarrow> map_sum id (\<lambda>xs. (k, x) # xs) (recheckProps ps path depth))"

declare recheck.simps [simp del]

definition parseJsonTree :: "json \<Rightarrow> json_error + json" where
  "parseJsonTree v = recheck v (js ''$'') 0"

section \<open>Canonical form\<close>

text \<open>\<open>Object.keys(value).sort()\<close> orders by code units; the copy is rebuilt by assignment.\<close>

fun collectProps :: "(jstr \<times> (js_exn + json)) list \<Rightarrow> js_exn + (jstr \<times> json) list" where
  "collectProps [] = Inr []"
| "collectProps ((k, r) # rs) =
     (case r of Inl e \<Rightarrow> Inl e | Inr v \<Rightarrow> map_sum id (\<lambda>ps. (k, v) # ps) (collectProps rs))"

fun collectItems :: "(js_exn + json) list \<Rightarrow> js_exn + json list" where
  "collectItems [] = Inr []"
| "collectItems (r # rs) = (case r of Inl e \<Rightarrow> Inl e | Inr v \<Rightarrow> map_sum id (\<lambda>vs. v # vs) (collectItems rs))"

function canonicalizeAt :: "json \<Rightarrow> jstr \<Rightarrow> nat \<Rightarrow> js_exn + json" where
  "canonicalizeAt v path depth =
     (if MAX_JSON_DEPTH < depth then Inl (ThrowRangeError (depthMessage @ js '' at '' @ path))
      else case v of
        JArr vs \<Rightarrow>
          map_sum id JArr
            (collectItems (map (\<lambda>(i, x). canonicalizeAt x (indexPath path i) (Suc depth)) (enumerate 0 vs)))
      | JObj ps \<Rightarrow>
          map_sum id (\<lambda>qs. JObj (objOf qs))
            (collectProps (map (\<lambda>(k, x). (k, canonicalizeAt x (childPath path k) (Suc depth))) (sort_key fst ps)))
      | _ \<Rightarrow> Inr v)"
  by pat_completeness auto
termination
  by (relation "measure (\<lambda>(v, path, depth). 101 - depth)") (auto simp: MAX_JSON_DEPTH_def)

declare canonicalizeAt.simps [simp del]

definition canonicalize :: "json \<Rightarrow> js_exn + json" where
  "canonicalize v = canonicalizeAt v (js ''$'') 0"

text \<open>\<open>JSON.stringify\<close> without indentation.\<close>

fun joinWith :: "jstr \<Rightarrow> jstr list \<Rightarrow> jstr" where
  "joinWith sep [] = []"
| "joinWith sep [s] = s"
| "joinWith sep (s # t # ts) = s @ sep @ joinWith sep (t # ts)"

primrec jsonText :: "json \<Rightarrow> jstr" where
  "jsonText JNull = js ''null''"
| "jsonText (JBool b) = (if b then js ''true'' else js ''false'')"
| "jsonText (JNum n) = (if isFinite n then numString n else js ''null'')"
| "jsonText (JStr s) = quoteString s"
| "jsonText (JArr vs) = js ''['' @ joinWith (js '','') (map jsonText vs) @ js '']''"
| "jsonText (JObj ps) =
     js ''{'' @ joinWith (js '','') (map (\<lambda>(k, t). quoteString k @ js '':'' @ t) (map (map_prod id jsonText) ps))
       @ js ''}''"

definition canonicalStringify :: "json \<Rightarrow> js_exn + jstr" where
  "canonicalStringify v = map_sum id jsonText (canonicalize v)"


section \<open>What parseJsonValue accepts\<close>

text \<open>\<open>represents h v j\<close>: unfolding the value \<open>v\<close> in the heap gives the finite tree \<open>j\<close>.\<close>

inductive represents :: "heap \<Rightarrow> jsval \<Rightarrow> json \<Rightarrow> bool" for h where
  rep_null: "represents h VNull JNull"
| rep_bool: "represents h (VBool b) (JBool b)"
| rep_num: "represents h (VNum n) (JNum n)"
| rep_str: "represents h (VStr s) (JStr s)"
| rep_array: "h a = OArray slots
    \<Longrightarrow> list_all2 (\<lambda>s x. \<exists>w. s = Data w \<and> represents h w x) slots xs
    \<Longrightarrow> represents h (VRef a) (JArr xs)"
| rep_object: "h a = OObject props
    \<Longrightarrow> list_all2 (\<lambda>p q. fst p = fst q \<and> (\<exists>w. snd p = Data w \<and> represents h w (snd q))) props ps
    \<Longrightarrow> represents h (VRef a) (JObj ps)"

inductive_cases rep_refE: "represents h (VRef a) j"
inductive_simps rep_simps [simp]:
  "represents h VNull j" "represents h (VBool b) j" "represents h (VNum n) j" "represents h (VStr s) j"
  "represents h VUndefined j" "represents h VBigint j" "represents h VSymbol j" "represents h VFunction j"

definition heapOrdered :: "heap \<Rightarrow> bool" where
  "heapOrdered h \<longleftrightarrow> (\<forall>a props. h a = OObject props \<longrightarrow> propsOrdered props)"

primrec jsonDepth :: "json \<Rightarrow> nat" where
  "jsonDepth JNull = 0"
| "jsonDepth (JBool b) = 0"
| "jsonDepth (JNum n) = 0"
| "jsonDepth (JStr s) = 0"
| "jsonDepth (JArr vs) = foldr max (map (Suc \<circ> jsonDepth) vs) 0"
| "jsonDepth (JObj ps) = foldr max (map (Suc \<circ> snd) (map (map_prod id jsonDepth) ps)) 0"

primrec jsonFinite :: "json \<Rightarrow> bool" where
  "jsonFinite JNull = True"
| "jsonFinite (JBool b) = True"
| "jsonFinite (JNum n) = isFinite n"
| "jsonFinite (JStr s) = True"
| "jsonFinite (JArr vs) = list_all id (map jsonFinite vs)"
| "jsonFinite (JObj ps) = list_all snd (map (map_prod id jsonFinite) ps)"

primrec jsonOrdered :: "json \<Rightarrow> bool" where
  "jsonOrdered JNull = True"
| "jsonOrdered (JBool b) = True"
| "jsonOrdered (JNum n) = True"
| "jsonOrdered (JStr s) = True"
| "jsonOrdered (JArr vs) = list_all id (map jsonOrdered vs)"
| "jsonOrdered (JObj ps) = (propsOrdered ps \<and> list_all snd (map (map_prod id jsonOrdered) ps))"

lemma add_foldr_max_le:
  "d + foldr max xs (0::nat) \<le> n \<longleftrightarrow> d \<le> n \<and> (\<forall>x\<in>set xs. d + x \<le> n)"
  by (induction xs) auto

lemma propsOrdered_keys: "map fst ps = map fst qs \<Longrightarrow> propsOrdered ps = propsOrdered qs"
  by (simp add: propsOrdered_def)

text \<open>The tree check succeeds exactly on finite trees of bounded depth, and copies them.\<close>

lemma recheck_ok:
  "d + jsonDepth v \<le> MAX_JSON_DEPTH \<Longrightarrow> jsonFinite v \<Longrightarrow> jsonOrdered v \<Longrightarrow> recheck v p d = Inr v"
  "list_all (\<lambda>v. d + jsonDepth v \<le> MAX_JSON_DEPTH \<and> jsonFinite v \<and> jsonOrdered v) vs
     \<Longrightarrow> recheckItems vs p i d = Inr vs"
  "list_all (\<lambda>(k, v). d + jsonDepth v \<le> MAX_JSON_DEPTH \<and> jsonFinite v \<and> jsonOrdered v) ps
     \<Longrightarrow> recheckProps ps p d = Inr ps"
proof (induction v p d and vs p i d and ps p d rule: recheck_recheckItems_recheckProps.induct)
  case (1 v path depth)
  then show ?case
    by (subst recheck.simps)
      (auto simp: list_all_iff case_prod_beta add_foldr_max_le objOf_ordered split: json.splits)
qed auto

lemma recheck_Inr:
  "recheck v p d = Inr j \<Longrightarrow> d + jsonDepth v \<le> MAX_JSON_DEPTH \<and> jsonFinite v"
  "recheckItems vs p i d = Inr xs \<Longrightarrow> \<forall>v\<in>set vs. d + jsonDepth v \<le> MAX_JSON_DEPTH \<and> jsonFinite v"
  "recheckProps ps p d = Inr qs \<Longrightarrow> \<forall>(k, v)\<in>set ps. d + jsonDepth v \<le> MAX_JSON_DEPTH \<and> jsonFinite v"
proof (induction v p d and vs p i d and ps p d arbitrary: j and xs and qs
    rule: recheck_recheckItems_recheckProps.induct)
  case (1 v path depth)
  show ?case
    using 1(1,2) 1(3) [unfolded recheck.simps [of v path depth]]
    by (auto simp: list_all_iff case_prod_beta add_foldr_max_le split: json.splits if_splits)
qed (auto simp: case_prod_beta split: sum.splits)

lemma represents_det: "represents h v j \<Longrightarrow> represents h v k \<Longrightarrow> k = j"
proof (induction arbitrary: k rule: represents.induct)
  case (rep_array a slots xs)
  then obtain ys where k: "k = JArr ys"
    and ys: "list_all2 (\<lambda>s x. \<exists>w. s = Data w \<and> represents h w x) slots ys"
    by (auto elim: rep_refE)
  have "ys = xs"
    by (rule list_all2_unique [OF rep_array(2) ys]) auto
  with k show ?case by simp
next
  case (rep_object a props ps)
  then obtain qs where k: "k = JObj qs"
    and qs: "list_all2 (\<lambda>p q. fst p = fst q \<and> (\<exists>w. snd p = Data w \<and> represents h w (snd q))) props qs"
    by (auto elim: rep_refE)
  have "qs = ps"
    by (rule list_all2_unique [OF rep_object(2) qs]) (auto simp: prod_eq_iff)
  with k show ?case by simp
qed auto

text \<open>
  On a value that unfolds to a tree the heap walk is the tree check: no shared object is
  mistaken for a cycle, because an object on the current path unfolds to a larger tree.
\<close>

lemma size_JArr_member: "x \<in> set xs \<Longrightarrow> size x < size (JArr xs)"
  by (induction xs) auto

lemma size_JObj_member: "(k, x) \<in> set ps \<Longrightarrow> size x < size (JObj ps)"
  by (induction ps) auto

lemma walkItems_recheck:
  "list_all2 (\<lambda>s x. \<exists>w. s = Data w \<and> (\<forall>p d. walk h seen w p d = recheck x p d)) slots xs
    \<Longrightarrow> walkItems h seen slots p i d = recheckItems xs p i d"
  by (induction arbitrary: i rule: list_all2_induct) (auto split: sum.splits)

lemma walkProps_recheck:
  "list_all2 (\<lambda>q r. fst q = fst r \<and> (\<exists>w. snd q = Data w \<and> (\<forall>p d. walk h seen w p d = recheck (snd r) p d))) props ps
    \<Longrightarrow> walkProps h seen props p d = recheckProps ps p d"
  by (induction rule: list_all2_induct) (auto split: sum.splits)

lemma walk_represents:
  "represents h v j \<Longrightarrow> (\<forall>a\<in>set seen. \<exists>t. represents h (VRef a) t \<and> size j < size t)
     \<Longrightarrow> walk h seen v p d = recheck j p d"
proof (induction arbitrary: seen p d rule: represents.induct)
  case (rep_array a slots xs)
  have ra: "represents h (VRef a) (JArr xs)"
    using rep_array(1,2) by (auto intro!: represents.rep_array elim: list_all2_mono)
  have fresh: "a \<notin> set seen"
    using rep_array(3) represents_det [OF ra] by fastforce
  have bigger: "\<forall>x\<in>set xs. \<forall>b\<in>set (a # seen). \<exists>t. represents h (VRef b) t \<and> size x < size t"
    using rep_array(3) ra size_JArr_member by (fastforce dest: less_trans)
  have "walkItems h (a # seen) slots p i (Suc d) = recheckItems xs p i (Suc d)" for i
    using rep_array(2) bigger
    by (intro walkItems_recheck) (auto elim!: list.rel_mono_strong simp del: list.set)
  with fresh rep_array(1) show ?case
    by (simp add: walk.simps recheck.simps)
next
  case (rep_object a props ps)
  have ra: "represents h (VRef a) (JObj ps)"
    using rep_object(1,2) by (auto intro!: represents.rep_object elim: list_all2_mono)
  have fresh: "a \<notin> set seen"
    using rep_object(3) represents_det [OF ra] by fastforce
  have bigger: "\<forall>(k, x)\<in>set ps. \<forall>b\<in>set (a # seen). \<exists>t. represents h (VRef b) t \<and> size x < size t"
    using rep_object(3) ra size_JObj_member by (fastforce dest: less_trans)
  have "walkProps h (a # seen) props p (Suc d) = recheckProps ps p (Suc d)"
    using rep_object(2) bigger
    by (intro walkProps_recheck) (fastforce elim!: list.rel_mono_strong simp del: list.set)
  with fresh rep_object(1) show ?case
    by (simp add: walk.simps recheck.simps)
qed (simp_all add: walk.simps recheck.simps)

lemma walk_sound:
  "heapOrdered h \<Longrightarrow> walk h seen v p d = Inr j \<Longrightarrow> represents h v j \<and> jsonOrdered j"
  "heapOrdered h \<Longrightarrow> walkItems h seen ss p i d = Inr xs
     \<Longrightarrow> list_all2 (\<lambda>s x. \<exists>w. s = Data w \<and> represents h w x) ss xs \<and> list_all jsonOrdered xs"
  "heapOrdered h \<Longrightarrow> walkProps h seen props p d = Inr ps
     \<Longrightarrow> list_all2 (\<lambda>p q. fst p = fst q \<and> (\<exists>w. snd p = Data w \<and> represents h w (snd q))) props ps
         \<and> list_all (jsonOrdered \<circ> snd) ps"
proof (induction h seen v p d and h seen ss p i d and h seen props p d arbitrary: j and xs and ps
    rule: walk_walkItems_walkProps.induct)
  case (1 h seen v path depth)
  show ?case
  proof (cases v)
    case (VRef a)
    show ?thesis
    proof (cases "h a")
      case (OArray slots)
      then show ?thesis
        using 1 VRef by (auto simp: walk.simps list_all_iff split: if_splits intro: rep_array)
    next
      case (OObject props)
      then obtain ps where ps: "walkProps h (a # seen) props path (Suc depth) = Inr ps" "j = JObj (objOf ps)"
        using 1(4) VRef by (auto simp: walk.simps split: if_splits)
      moreover have "\<not> MAX_JSON_DEPTH < depth" "a \<notin> set seen"
        using 1(4) VRef by (auto simp: walk.simps split: if_splits)
      ultimately have rel: "list_all2 (\<lambda>p q. fst p = fst q \<and> (\<exists>w. snd p = Data w \<and> represents h w (snd q))) props ps"
        and ord: "list_all (jsonOrdered \<circ> snd) ps"
        using 1(2) VRef OObject 1(3) by blast+
      have "map fst props = map fst ps"
        using rel by (induction rule: list_all2_induct) auto
      moreover have "propsOrdered props"
        using 1(3) OObject by (auto simp: heapOrdered_def)
      ultimately have "propsOrdered ps"
        using propsOrdered_keys by blast
      then show ?thesis
        using ps rel ord VRef OObject by (auto simp: objOf_ordered list_all_iff intro: rep_object)
    qed
  qed (use 1 in \<open>auto simp: walk.simps split: if_splits\<close>)
qed (auto split: slot.splits sum.splits)

text \<open>
  Acceptance: the parser returns \<open>j\<close> exactly when the value unfolds to \<open>j\<close>, all numbers are
  finite and the nesting is at most the limit.
\<close>

lemma parseJsonValue_iff:
  assumes "heapOrdered h"
  shows "parseJsonValue h v = Inr j
    \<longleftrightarrow> represents h v j \<and> jsonFinite j \<and> jsonDepth j \<le> MAX_JSON_DEPTH \<and> jsonOrdered j"
proof
  assume ok: "parseJsonValue h v = Inr j"
  then have rep: "represents h v j" and ord: "jsonOrdered j"
    using walk_sound(1) [OF assms] by (auto simp: parseJsonValue_def)
  have "recheck j (js ''$'') 0 = Inr j"
    using ok walk_represents [OF rep, of "[]"] by (simp add: parseJsonValue_def)
  then show "represents h v j \<and> jsonFinite j \<and> jsonDepth j \<le> MAX_JSON_DEPTH \<and> jsonOrdered j"
    using rep ord recheck_Inr(1) by fastforce
next
  assume "represents h v j \<and> jsonFinite j \<and> jsonDepth j \<le> MAX_JSON_DEPTH \<and> jsonOrdered j"
  then show "parseJsonValue h v = Inr j"
    using walk_represents [of h v j "[]"] recheck_ok(1) [of 0 j] by (simp add: parseJsonValue_def)
qed


end
