(* ===== verification/JsonCanonical.thy ===== *)
theory JsonCanonical
  imports JsonValue
begin

text \<open>
  What \<open>canonicalize\<close> of \<open>src/src/core/json.ts\<close> promises: values that differ only in the
  order of object properties have the same canonical form and hence the same canonical text,
  canonical forms are fixed points with strictly increasing keys, and the only failure is the
  depth limit.  The key order is the one a rebuilt JavaScript object enumerates: array indices by
  number, then the other names by code units.
\<close>

section \<open>Canonical form is unique up to property order\<close>

text \<open>Equality of JSON values when the order of an object's properties does not count.\<close>

inductive sameJson :: "json \<Rightarrow> json \<Rightarrow> bool" where
  same_refl: "sameJson v v"
| same_array: "list_all2 sameJson vs ws \<Longrightarrow> sameJson (JArr vs) (JArr ws)"
| same_object: "distinct (map fst ps) \<Longrightarrow> distinct (map fst qs)
    \<Longrightarrow> (\<And>k. rel_option sameJson (map_of ps k) (map_of qs k)) \<Longrightarrow> sameJson (JObj ps) (JObj qs)"

lemma canonicalizeAt_deep: "MAX_JSON_DEPTH < d \<Longrightarrow> canonicalizeAt v p d = Inl (ThrowRangeError (depthMessage @ js '' at '' @ p))"
  by (simp add: canonicalizeAt.simps)

lemma collectProps_Inr:
  "collectProps rs = Inr ps \<longleftrightarrow> list_all2 (\<lambda>r p. fst r = fst p \<and> snd r = Inr (snd p)) rs ps"
  by (induction rs arbitrary: ps)
    (auto simp: list_all2_Cons1 prod_eq_iff split: sum.splits)

lemma collectItems_Inr: "collectItems rs = Inr vs \<longleftrightarrow> list_all2 (\<lambda>r v. r = Inr v) rs vs"
  by (induction rs arbitrary: vs) (auto simp: list_all2_Cons1 split: sum.splits)

lemma map_of_rel_keys:
  assumes "\<And>k. rel_option R (map_of ps k) (map_of qs k)"
  shows "fst ` set ps = fst ` set qs"
proof -
  have "dom (map_of ps) = dom (map_of qs)"
    using assms by (auto simp: dom_def) (metis option.rel_distinct not_None_eq)+
  then show ?thesis by (simp add: dom_map_of_conv_image_fst)
qed

lemma distinct_map_sort_key: "distinct (map f (sort_key g xs)) = distinct (map f xs)"
  by (simp add: distinct_map)

lemma sort_key_fst_keys:
  assumes "distinct (map fst ps)" and "distinct (map fst qs)" and "fst ` set ps = fst ` set qs"
  shows "map fst (sort_key fst ps) = map (fst :: ('a::linorder) \<times> 'b \<Rightarrow> 'a) (sort_key fst qs)"
  using assms by (intro sorted_distinct_set_unique) (simp_all add: distinct_map_sort_key)

lemma sorted_objects_match:
  assumes "distinct (map fst ps)" and "distinct (map fst qs)" and "\<And>k. rel_option R (map_of ps k) (map_of qs k)"
  shows "list_all2 (\<lambda>p q. fst p = fst q \<and> R (snd p) (snd q))
    (sort_key fst ps) (sort_key fst (qs :: (('a::linorder) \<times> 'b) list))"
proof -
  let ?p = "sort_key fst ps" and ?q = "sort_key fst qs"
  have keys: "map fst ?p = map fst ?q"
    using assms map_of_rel_keys [OF assms(3)] by (intro sort_key_fst_keys) auto
  then have len: "length ?p = length ?q" by (metis length_map)
  show ?thesis
  proof (intro list_all2_all_nthI len)
    fix i assume i: "i < length ?p"
    have k: "fst (?p ! i) = fst (?q ! i)"
      using i len keys by (metis nth_map)
    have "map_of ps (fst (?p ! i)) = Some (snd (?p ! i))"
      using i assms(1) nth_mem [OF i] by (simp add: map_of_is_SomeI)
    moreover have "map_of qs (fst (?q ! i)) = Some (snd (?q ! i))"
      using i len assms(2) nth_mem [of i ?q] by (simp add: map_of_is_SomeI)
    ultimately show "fst (?p ! i) = fst (?q ! i) \<and> R (snd (?p ! i)) (snd (?q ! i))"
      using assms(3) [of "fst (?p ! i)"] k by auto
  qed
qed

lemma canonicalizeAt_same: "sameJson v w \<Longrightarrow> canonicalizeAt v p d = canonicalizeAt w p d"
proof (induction arbitrary: p d rule: sameJson.induct)
  case (same_array vs ws)
  have "length vs = length ws"
    using same_array by (rule list_all2_lengthD)
  then have "map (\<lambda>(i, x). canonicalizeAt x (indexPath p i) (Suc d)) (enumerate 0 vs)
    = map (\<lambda>(i, x). canonicalizeAt x (indexPath p i) (Suc d)) (enumerate 0 ws)"
    using same_array by (auto simp: list_all2_conv_all_nth intro!: nth_equalityI simp: nth_enumerate_eq)
  then show ?case
    by (subst (1 2) canonicalizeAt.simps) simp
next
  case (same_object ps qs)
  have "list_all2 (\<lambda>p q. fst p = fst q \<and> (\<forall>x d. canonicalizeAt (snd p) x d = canonicalizeAt (snd q) x d))
    (sort_key fst ps) (sort_key fst qs)"
    using same_object(1,2)
    by (rule sorted_objects_match) (rule option.rel_mono_strong [OF same_object(3)], blast)
  then have "map (\<lambda>(k, x). (k, canonicalizeAt x (childPath p k) (Suc d))) (sort_key fst ps)
    = map (\<lambda>(k, x). (k, canonicalizeAt x (childPath p k) (Suc d))) (sort_key fst qs)"
    by (auto simp: list_all2_conv_all_nth case_prod_beta intro!: nth_equalityI)
  then show ?case
    by (subst (1 2) canonicalizeAt.simps) simp
qed simp

section \<open>The shape of canonical values\<close>

abbreviation entryKey :: "jstr \<times> 'v \<Rightarrow> prop_key" where
  "entryKey \<equiv> \<lambda>p. propKey (fst p)"

lemma distinct_entryKey [simp]: "distinct (map entryKey ps) = distinct (map fst ps)"
proof -
  have "distinct (map propKey (map fst ps)) = distinct (map fst ps)"
    unfolding distinct_map [of propKey] by (simp add: inj_on_def)
  then show ?thesis by (simp add: comp_def)
qed

lemma insort_key_last: "(\<And>y. y \<in> set ys \<Longrightarrow> \<not> f x \<le> f y) \<Longrightarrow> insort_key f x ys = ys @ [x]"
  by (induction ys) auto

lemma insertIndex_insort:
  "arrayIndex k = Some i \<Longrightarrow> k \<notin> fst ` set ps \<Longrightarrow> insertIndex i (k, v) ps = insort_key entryKey (k, v) ps"
proof (induction ps)
  case (Cons q ps)
  have "fst q \<noteq> k" using Cons.prems by auto
  then show ?case
    using Cons by (cases "arrayIndex (fst q)") (auto simp: propKey_def dest: arrayIndex_inject)
qed simp

lemma sort_key_snoc_distinct:
  assumes "distinct (map f (xs @ [x]))"
  shows "sort_key f (xs @ [x]) = insort_key f x (sort_key f xs)"
proof (rule map_sorted_distinct_set_unique)
  show "inj_on f (set (sort_key f (xs @ [x])) \<union> set (insort_key f x (sort_key f xs)))"
    using assms by (auto simp: distinct_map set_insort_key)
  show "distinct (map f (insort_key f x (sort_key f xs)))"
    using assms by (auto simp: distinct_map distinct_insort set_insort_key)
qed (use assms in \<open>auto simp: distinct_map_sort_key sorted_insort_key set_insort_key\<close>)

text \<open>Rebuilding an object from its sorted keys puts the properties in \<open>prop_key\<close> order.\<close>

lemma objOf_sorted:
  "distinct (map fst xs) \<Longrightarrow> sorted (map fst xs) \<Longrightarrow> objOf xs = sort_key entryKey xs"
proof (induction xs rule: rev_induct)
  case (snoc p xs)
  obtain k v where p: "p = (k, v)" by (cases p)
  have ih: "objOf xs = sort_key entryKey xs"
    using snoc by (simp add: sorted_append)
  have new: "k \<notin> fst ` set (sort_key entryKey xs)"
    using snoc.prems p by auto
  have dk: "distinct (map entryKey (xs @ [p]))"
    using snoc.prems(1) by (simp only: distinct_entryKey)
  have "propSet (sort_key entryKey xs) k v = insort_key entryKey p (sort_key entryKey xs)"
  proof (cases "arrayIndex k")
    case (Some i)
    with new p show ?thesis by (simp add: propSet_def insertIndex_insort)
  next
    case None
    have "\<not> entryKey p \<le> entryKey y" if "y \<in> set (sort_key entryKey xs)" for y
      using that snoc.prems p None
      by (force simp: sorted_append propKey_def split: option.splits)
    then have "insort_key entryKey p (sort_key entryKey xs) = sort_key entryKey xs @ [p]"
      by (rule insort_key_last)
    with None new p show ?thesis by (simp add: propSet_def)
  qed
  then show ?case
    using p ih sort_key_snoc_distinct [OF dk] by (simp add: objOf_snoc)
qed simp

lemma objOf_sort_key:
  assumes "distinct (map fst ps)"
  shows "objOf (sort_key fst ps) = sort_key entryKey (ps :: (jstr \<times> 'v) list)"
proof -
  have inj: "distinct (map entryKey ps)"
    using assms by simp
  have "objOf (sort_key fst ps) = sort_key entryKey (sort_key fst ps)"
    using assms by (intro objOf_sorted) (simp_all add: distinct_map_sort_key)
  also have "\<dots> = sort_key entryKey ps"
    using inj by (intro map_sorted_distinct_set_unique [where f = entryKey])
      (simp_all add: distinct_map_sort_key del: distinct_entryKey, simp only: distinct_map)
  finally show ?thesis .
qed

text \<open>Canonical values: in every object the property keys are strictly increasing.\<close>

primrec canonicalForm :: "json \<Rightarrow> bool" where
  "canonicalForm JNull = True"
| "canonicalForm (JBool b) = True"
| "canonicalForm (JNum n) = True"
| "canonicalForm (JStr s) = True"
| "canonicalForm (JArr vs) = list_all id (map canonicalForm vs)"
| "canonicalForm (JObj ps) =
     (sorted_wrt (<) (map entryKey ps) \<and> list_all snd (map (map_prod id canonicalForm) ps))"


lemma sorted_keys_distinct: "sorted_wrt (<) (map entryKey ps) \<Longrightarrow> distinct (map fst ps)"
  using strict_sorted_iff [of "map entryKey ps"] by simp

lemma canonicalForm_ordered: "canonicalForm v \<Longrightarrow> jsonOrdered v"
proof (induction v)
  case (JObj ps)
  have "propsOrdered ps"
    unfolding propsOrdered_def
  proof
    show "distinct (map fst ps)" using JObj.prems by (simp add: sorted_keys_distinct)
    show "sorted_wrt (\<lambda>k l. case (arrayIndex k, arrayIndex l) of (Some i, Some j) \<Rightarrow> i < j
        | (None, Some _) \<Rightarrow> False | _ \<Rightarrow> True) (map fst ps)"
      unfolding sorted_wrt_map
    proof (rule sorted_wrt_mono_rel)
      show "sorted_wrt (\<lambda>x y. entryKey x < entryKey y) ps"
        using JObj.prems by (simp add: sorted_wrt_map)
    qed (auto simp: propKey_def less_prop_key_def split: option.splits)
  qed
  then show ?case
    using JObj by (fastforce simp: list_all_iff)
qed (auto simp: list_all_iff)

lemma map_of_sort_key:
  assumes "distinct (map fst ps)"
  shows "map_of (sort_key f ps) = map_of ps"
proof
  fix k
  show "map_of (sort_key f ps) k = map_of ps k"
  proof (cases "map_of ps k")
    case None
    then have "map_of (sort_key f ps) k = None" by (simp add: map_of_eq_None_iff)
    with None show ?thesis by simp
  next
    case (Some v)
    then show ?thesis
      using assms by (simp add: map_of_eq_Some_iff distinct_map_sort_key)
  qed
qed

lemma matched_props_same:
  assumes "distinct (map fst ps)"
    and "list_all2 (\<lambda>p q. fst p = fst q \<and> R (snd p) (snd q)) (sort_key fst ps) (qs :: (jstr \<times> 'v) list)"
  shows "distinct (map fst qs)" "sorted (map fst qs)" "rel_option R (map_of ps k) (map_of qs k)"
proof -
  have keys: "map fst qs = map fst (sort_key fst ps)"
    using assms(2) by (induction rule: list_all2_induct) auto
  then show d: "distinct (map fst qs)" and "sorted (map fst qs)"
    using assms(1) by (simp_all add: distinct_map_sort_key)
  show "rel_option R (map_of ps k) (map_of qs k)"
  proof (cases "map_of ps k")
    case None
    then have "k \<notin> fst ` set qs"
      using keys by (metis list.set_map map_of_eq_None_iff set_sort)
    with None show ?thesis by (simp add: map_of_eq_None_iff [THEN iffD2])
  next
    case (Some x)
    then have "(k, x) \<in> set (sort_key fst ps)"
      by (simp add: map_of_SomeD)
    then obtain y where "(k, y) \<in> set qs" "R x y"
      using list_all2_left [OF assms(2)] by force
    with d Some show ?thesis by simp
  qed
qed

lemma canonicalizeAt_Inr:
  "canonicalizeAt v p d = Inr w \<Longrightarrow> jsonOrdered v \<Longrightarrow> canonicalForm w \<and> sameJson v w"
proof (induction v p d arbitrary: w rule: canonicalizeAt.induct)
  case (1 v path depth)
  have d: "\<not> MAX_JSON_DEPTH < depth"
    using 1(3) canonicalizeAt_deep by auto
  show ?case
  proof (cases v)
    case (JArr vs)
    from 1(3) [unfolded canonicalizeAt.simps [of v path depth]] d JArr obtain ws where ws: "w = JArr ws"
      and rel: "list_all2 (\<lambda>p y. canonicalizeAt (snd p) (indexPath path (fst p)) (Suc depth) = Inr y) (enumerate 0 vs) ws"
      by (auto simp: collectItems_Inr list_all2_map1 case_prod_beta)
    have "canonicalForm y \<and> sameJson x y"
      if "i < length vs" "vs ! i = x" "ws ! i = y" for i x y
    proof -
      have "canonicalizeAt x (indexPath path i) (Suc depth) = Inr y"
        using rel that by (auto simp: list_all2_conv_all_nth nth_enumerate_eq)
      moreover have "(i, x) \<in> set (enumerate 0 vs)"
        using that by (auto simp: in_set_enumerate_eq)
      moreover have "jsonOrdered x"
        using 1(4) JArr that by (auto simp: list_all_iff)
      ultimately show ?thesis
        using 1(1) d JArr by blast
    qed
    moreover have "length ws = length vs"
      using rel by (auto dest: list_all2_lengthD)
    ultimately show ?thesis
      using JArr ws by (auto simp: list_all_length intro!: same_array list_all2_all_nthI)
  next
    case (JObj ps)
    from 1(3) [unfolded canonicalizeAt.simps [of v path depth]] d JObj obtain qs where qs: "w = JObj (objOf qs)"
      and rel: "list_all2 (\<lambda>p q. fst p = fst q \<and> canonicalizeAt (snd p) (childPath path (fst p)) (Suc depth) = Inr (snd q))
        (sort_key fst ps) qs"
      by (auto simp: collectProps_Inr list_all2_map1 case_prod_beta)
    have dist: "distinct (map fst ps)"
      using 1(4) JObj by (simp add: propsOrdered_def)
    have rel': "list_all2 (\<lambda>p q. fst p = fst q \<and> (canonicalForm (snd q) \<and> sameJson (snd p) (snd q))) (sort_key fst ps) qs"
    proof (rule list.rel_mono_strong [OF rel])
      fix p q assume "p \<in> set (sort_key fst ps)" "q \<in> set qs"
        "fst p = fst q \<and> canonicalizeAt (snd p) (childPath path (fst p)) (Suc depth) = Inr (snd q)"
      moreover from this have "jsonOrdered (snd p)"
        using 1(4) JObj by (auto simp: list_all_iff)
      ultimately show "fst p = fst q \<and> (canonicalForm (snd q) \<and> sameJson (snd p) (snd q))"
        using 1(2) [OF d JObj, of p "fst p" "snd p"] by (cases p; cases q) auto
    qed
    note facts = matched_props_same [OF dist rel']
    have w: "objOf qs = sort_key entryKey qs"
      using facts(1,2) by (rule objOf_sorted)
    have "sorted_wrt (<) (map entryKey (objOf qs))"
      unfolding w strict_sorted_iff using facts(1) by (simp add: distinct_map_sort_key del: distinct_entryKey)
        (simp only: distinct_entryKey)
    moreover have "\<forall>q\<in>set (objOf qs). canonicalForm (snd q)"
      unfolding w using list_all2_right [OF rel'] by auto
    moreover have "sameJson (JObj ps) (JObj (objOf qs))"
    proof (rule same_object [OF dist])
      show "distinct (map fst (objOf qs))" unfolding w using facts(1) by (simp add: distinct_map_sort_key)
      show "rel_option sameJson (map_of ps k) (map_of (objOf qs) k)" for k
        unfolding w map_of_sort_key [OF facts(1)] by (rule option.rel_mono_strong [OF facts(3)]) blast
    qed
    ultimately show ?thesis
      using qs JObj by (auto simp: list_all_iff)
  qed (use 1(3) d in \<open>auto simp: canonicalizeAt.simps intro: same_refl\<close>)
qed


lemma collectItems_exists: "(\<exists>vs. collectItems rs = Inr vs) \<longleftrightarrow> (\<forall>r\<in>set rs. \<exists>v. r = Inr v)"
  by (induction rs) (auto split: sum.splits)

lemma collectProps_exists: "(\<exists>ps. collectProps rs = Inr ps) \<longleftrightarrow> (\<forall>r\<in>set rs. \<exists>v. snd r = Inr v)"
  by (induction rs rule: collectProps.induct) (auto split: sum.splits)

lemma canonicalizeAt_exists:
  assumes "\<not> MAX_JSON_DEPTH < d"
  shows "(\<exists>w. canonicalizeAt (JArr vs) p d = Inr w)
      \<longleftrightarrow> (\<forall>(i, x)\<in>set (enumerate 0 vs). \<exists>w. canonicalizeAt x (indexPath p i) (Suc d) = Inr w)"
    and "(\<exists>w. canonicalizeAt (JObj ps) p d = Inr w)
      \<longleftrightarrow> (\<forall>(k, x)\<in>set ps. \<exists>w. canonicalizeAt x (childPath p k) (Suc d) = Inr w)"
proof -
  have "(\<exists>w. canonicalizeAt (JArr vs) p d = Inr w) \<longleftrightarrow>
    (\<exists>ws. collectItems (map (\<lambda>(i, x). canonicalizeAt x (indexPath p i) (Suc d)) (enumerate 0 vs)) = Inr ws)"
    using assms by (auto simp: canonicalizeAt.simps [of "JArr vs"])
  then show "(\<exists>w. canonicalizeAt (JArr vs) p d = Inr w)
      \<longleftrightarrow> (\<forall>(i, x)\<in>set (enumerate 0 vs). \<exists>w. canonicalizeAt x (indexPath p i) (Suc d) = Inr w)"
    by (simp add: collectItems_exists case_prod_beta)
  have "(\<exists>w. canonicalizeAt (JObj ps) p d = Inr w) \<longleftrightarrow>
    (\<exists>qs. collectProps (map (\<lambda>(k, x). (k, canonicalizeAt x (childPath p k) (Suc d))) (sort_key fst ps)) = Inr qs)"
    using assms by (auto simp: canonicalizeAt.simps [of "JObj ps"])
  then show "(\<exists>w. canonicalizeAt (JObj ps) p d = Inr w)
      \<longleftrightarrow> (\<forall>(k, x)\<in>set ps. \<exists>w. canonicalizeAt x (childPath p k) (Suc d) = Inr w)"
    by (simp add: collectProps_exists case_prod_beta)
qed

text \<open>Canonicalisation succeeds exactly within the depth limit.\<close>

lemma canonicalizeAt_total:
  "(\<exists>w. canonicalizeAt v p d = Inr w) \<longleftrightarrow> d + jsonDepth v \<le> MAX_JSON_DEPTH"
proof (induction v p d rule: canonicalizeAt.induct)
  case (1 v path depth)
  show ?case
  proof (cases "MAX_JSON_DEPTH < depth")
    case True
    then show ?thesis by (auto simp: canonicalizeAt_deep)
  next
    case d: False
    show ?thesis
    proof (cases v)
      case (JArr vs)
      have ih: "(\<exists>w. canonicalizeAt x (indexPath path i) (Suc depth) = Inr w)
          \<longleftrightarrow> Suc depth + jsonDepth x \<le> MAX_JSON_DEPTH" if "(i, x) \<in> set (enumerate 0 vs)" for i x
        using 1(1) [OF d JArr that refl] .
      have "(\<exists>w. canonicalizeAt v path depth = Inr w) \<longleftrightarrow>
        (\<forall>(i, x)\<in>set (enumerate 0 vs). Suc depth + jsonDepth x \<le> MAX_JSON_DEPTH)"
        unfolding JArr canonicalizeAt_exists(1) [OF d] using ih by (intro ball_cong refl) auto
      also have "\<dots> \<longleftrightarrow> (\<forall>x\<in>set vs. Suc depth + jsonDepth x \<le> MAX_JSON_DEPTH)"
      proof -
        have "set vs = snd ` set (enumerate 0 vs)" by (metis map_snd_enumerate list.set_map)
        then show ?thesis by (simp add: case_prod_beta)
      qed
      finally show ?thesis
        using d JArr by (auto simp: add_foldr_max_le)
    next
      case (JObj ps)
      have ih: "(\<exists>w. canonicalizeAt x (childPath path k) (Suc depth) = Inr w)
          \<longleftrightarrow> Suc depth + jsonDepth x \<le> MAX_JSON_DEPTH" if "(k, x) \<in> set ps" for k x
        using 1(2) [OF d JObj _ refl] that by simp
      have "(\<exists>w. canonicalizeAt v path depth = Inr w) \<longleftrightarrow>
        (\<forall>(k, x)\<in>set ps. Suc depth + jsonDepth x \<le> MAX_JSON_DEPTH)"
        unfolding JObj canonicalizeAt_exists(2) [OF d] using ih by (intro ball_cong refl) auto
      then show ?thesis
        using d JObj by (auto simp: add_foldr_max_le case_prod_beta)
    qed (use d in \<open>auto simp: canonicalizeAt.simps\<close>)
  qed
qed

lemma canonicalize_same: "sameJson v w \<Longrightarrow> canonicalize v = canonicalize w"
  by (simp add: canonicalize_def canonicalizeAt_same)

lemma canonicalize_idem:
  assumes "canonicalize v = Inr w" and "jsonOrdered v"
  shows "canonicalize w = Inr w"
proof -
  have "sameJson v w"
    using assms canonicalizeAt_Inr by (auto simp: canonicalize_def)
  then show ?thesis using assms(1) canonicalize_same by metis
qed


lemma sameJson_sym: "sameJson v w \<Longrightarrow> sameJson w v"
proof (induction rule: sameJson.induct)
  case (same_array vs ws)
  then show ?case
    by (auto intro!: sameJson.same_array simp: list_all2_conv_all_nth)
next
  case (same_object ps qs)
  have "rel_option sameJson (map_of qs k) (map_of ps k)" for k
    using same_object(3) [of k] by (auto simp: rel_option_iff split: option.splits)
  with same_object show ?case by (intro sameJson.same_object)
qed (rule same_refl)

inductive_cases sameJson_arrayE: "sameJson (JArr vs) w"
inductive_cases sameJson_objectE: "sameJson (JObj ps) w"

lemma sameJson_trans: "sameJson u v \<Longrightarrow> sameJson v w \<Longrightarrow> sameJson u w"
proof (induction arbitrary: w rule: sameJson.induct)
  case (same_array vs ws)
  have rel: "list_all2 (\<lambda>x y. sameJson x y \<and> (\<forall>z. sameJson y z \<longrightarrow> sameJson x z)) vs ws" by fact
  have "sameJson (JArr ws) w" by fact
  then consider "w = JArr ws" | xs where "w = JArr xs" "list_all2 sameJson ws xs"
    by (auto elim: sameJson_arrayE)
  then show ?case
  proof cases
    case eq: 1
    have "list_all2 sameJson vs ws" by (rule list.rel_mono_strong [OF rel]) blast
    with eq show ?thesis by (simp add: sameJson.same_array)
  next
    case (2 xs)
    have "list_all2 sameJson vs xs"
      using rel 2(2) by (auto simp: list_all2_conv_all_nth)
    with 2(1) show ?thesis by (simp add: sameJson.same_array)
  qed
next
  case (same_object ps qs)
  have rel: "rel_option (\<lambda>x y. sameJson x y \<and> (\<forall>z. sameJson y z \<longrightarrow> sameJson x z)) (map_of ps k) (map_of qs k)"
    for k by fact
  have dist: "distinct (map fst ps)" "distinct (map fst qs)" by fact+
  have "sameJson (JObj qs) w" by fact
  then consider "w = JObj qs" | rs where "w = JObj rs" "distinct (map fst rs)"
      "\<And>k. rel_option sameJson (map_of qs k) (map_of rs k)"
    by (auto elim: sameJson_objectE)
  then show ?case
  proof cases
    case eq: 1
    have "rel_option sameJson (map_of ps k) (map_of qs k)" for k
      by (rule option.rel_mono_strong [OF rel]) blast
    with eq dist show ?thesis by (auto intro!: sameJson.same_object)
  next
    case (2 rs)
    have "rel_option sameJson (map_of ps k) (map_of rs k)" for k
      using rel [of k] 2(3) [of k] by (auto simp: rel_option_iff split: option.splits)
    with 2 dist show ?thesis by (auto intro!: sameJson.same_object)
  qed
qed simp

lemma canonicalize_eq_same:
  assumes "canonicalize v = Inr c" and "canonicalize w = Inr c" and "jsonOrdered v" and "jsonOrdered w"
  shows "sameJson v w"
proof -
  have "sameJson v c" "sameJson w c"
    using assms canonicalizeAt_Inr by (auto simp: canonicalize_def)
  then show ?thesis by (blast intro: sameJson_trans sameJson_sym)
qed

lemma canonicalize_exists: "(\<exists>w. canonicalize v = Inr w) \<longleftrightarrow> jsonDepth v \<le> MAX_JSON_DEPTH"
  using canonicalizeAt_total [of v "js ''$''" 0] by (simp add: canonicalize_def)

section \<open>Properties\<close>

text \<open>
  C36: \<open>parseJsonValue\<close> accepts exactly the values that are acyclic data without holes, accessors or
  foreign types, finite and at most the depth bound deep, and returns the tree they represent.
\<close>

theorem parse_accepts_exactly:
  assumes "heapOrdered h"
  shows "parseJsonValue h v = Inr j
    \<longleftrightarrow> represents h v j \<and> jsonFinite j \<and> jsonDepth j \<le> MAX_JSON_DEPTH \<and> jsonOrdered j"
  using assms by (rule parseJsonValue_iff)

theorem parse_accepts_exactly_witness:
  "parseJsonValue (\<lambda>_. OArray [Data (VBool True)]) (VRef 0) = Inr (JArr [JBool True])
   \<and> parseJsonValue (\<lambda>_. OArray [Data (VRef 0)]) (VRef 0) \<noteq> Inr (JArr [JArr []])"
proof -
  have "heapOrdered (\<lambda>_. OArray [Data (VBool True)])" "heapOrdered (\<lambda>_. OArray [Data (VRef 0)])"
    by (simp_all add: heapOrdered_def)
  note ok = this [THEN parse_accepts_exactly]
  have "represents (\<lambda>_. OArray [Data (VBool True)]) (VRef 0) (JArr [JBool True])"
    by (rule represents.intros) (auto intro: represents.intros)
  moreover have "\<not> represents (\<lambda>_. OArray [Data (VRef 0)]) (VRef 0) (JArr [JArr []])"
  proof
    assume "represents (\<lambda>_. OArray [Data (VRef 0)]) (VRef 0) (JArr [JArr []])"
    then show False by (auto elim!: represents.cases)
  qed
  ultimately show ?thesis by (simp add: ok MAX_JSON_DEPTH_def)
qed

text \<open>
  C25: two JSON values have the same canonical form exactly when they are equal up to the order of
  object keys at every level, whatever order their keys were inserted in.
\<close>

theorem canonical_form_identifies:
  assumes "jsonOrdered v" and "jsonOrdered w" and "jsonDepth v \<le> MAX_JSON_DEPTH"
  shows "canonicalize v = canonicalize w \<longleftrightarrow> sameJson v w"
proof
  assume eq: "canonicalize v = canonicalize w"
  obtain c where "canonicalize v = Inr c" using canonicalize_exists assms(3) by blast
  then show "sameJson v w" using canonicalize_eq_same [of v c w] eq assms by simp
qed (rule canonicalize_same)

theorem canonical_form_identifies_witness:
  "canonicalize (JObj [(js ''b'', JNull), (js ''a'', JBool True)])
   = canonicalize (JObj [(js ''a'', JBool True), (js ''b'', JNull)])"
proof -
  let ?v = "JObj [(js ''b'', JNull), (js ''a'', JBool True)]" and ?w = "JObj [(js ''a'', JBool True), (js ''b'', JNull)]"
  have idx: "arrayIndex (js ''a'') = None" "arrayIndex (js ''b'') = None"
    by (simp_all add: arrayIndex_def js_Cons isDigit_def)
  have "jsonOrdered ?v" "jsonOrdered ?w" by (simp_all add: propsOrdered_def idx)
  moreover have "sameJson ?v ?w"
    by (rule sameJson.intros) (auto intro: sameJson.intros)
  ultimately show ?thesis
    using canonical_form_identifies [of ?v ?w] by (simp add: MAX_JSON_DEPTH_def)
qed

text \<open>
  canonicalization succeeds exactly on values within the depth bound, its result has sorted keys
  throughout and denotes the same value, and canonicalizing it again changes nothing.
\<close>

theorem canonical_form_fixed_point:
  assumes "jsonOrdered v"
  shows "(jsonDepth v \<le> MAX_JSON_DEPTH) = (\<exists>w. canonicalize v = Inr w \<and> canonicalForm w \<and> sameJson v w
    \<and> canonicalize w = Inr w)"
proof -
  have "canonicalForm w \<and> sameJson v w \<and> canonicalize w = Inr w" if "canonicalize v = Inr w" for w
    using that assms canonicalizeAt_Inr canonicalize_idem by (auto simp: canonicalize_def)
  then show ?thesis using canonicalize_exists [of v] by blast
qed

theorem canonical_form_fixed_point_witness:
  "\<exists>w. canonicalize (JArr [JBool True]) = Inr w \<and> canonicalForm w \<and> canonicalize w = Inr w"
proof -
  have "jsonOrdered (JArr [JBool True])" "jsonDepth (JArr [JBool True]) \<le> MAX_JSON_DEPTH"
    by (simp_all add: MAX_JSON_DEPTH_def)
  then show ?thesis using canonical_form_fixed_point [of "JArr [JBool True]"] by auto
qed

end
