(* ===== verification/CallErrors.thy ===== *)
theory CallErrors
  imports JsonCanonical
begin

text \<open>
  Per-call usage accounting (\<open>src/src/core/usage.ts\<close>) and the error taxonomy
  (\<open>src/src/core/errors.ts\<close>).  Untrusted objects are read getter-free: an own data property
  yields its value, a missing one \<open>undefined\<close>, an accessor the invalid marker.
\<close>

section \<open>Usage records\<close>

record call_usage =
  uAttempts :: jsnum
  uInputTokens :: "jsnum option"
  uOutputTokens :: "jsnum option"
  uTotalTokens :: "jsnum option"
  uCostUsd :: "jsnum option"
  uDurationMs :: jsnum

record usage_limits =
  ulMaxAttempts :: jsnum
  ulMaxTokens :: jsnum
  ulMaxCostUsd :: jsnum
  ulMaxDurationMs :: jsnum

datatype usage_error = InvalidUsage jstr

definition MAX_CALL_TOKENS :: jsnum where
  "MAX_CALL_TOKENS = Num 10000000"

definition MAX_CALL_COST_USD :: jsnum where
  "MAX_CALL_COST_USD = Num 10000"

definition MAX_CALL_DURATION_MS :: jsnum where
  "MAX_CALL_DURATION_MS = Num (24 * 60 * 60 * 1000)"

definition MAX_CALL_ATTEMPTS :: jsnum where
  "MAX_CALL_ATTEMPTS = Num 1"

abbreviation maxSafe :: jsnum where
  "maxSafe \<equiv> JI MAX_SAFE_INTEGER"

definition CALL_USAGE_LIMITS :: usage_limits where
  "CALL_USAGE_LIMITS =
     \<lparr>ulMaxAttempts = MAX_CALL_ATTEMPTS, ulMaxTokens = MAX_CALL_TOKENS,
      ulMaxCostUsd = MAX_CALL_COST_USD, ulMaxDurationMs = MAX_CALL_DURATION_MS\<rparr>"

definition ADD_USAGE_LIMITS :: usage_limits where
  "ADD_USAGE_LIMITS =
     \<lparr>ulMaxAttempts = maxSafe, ulMaxTokens = maxSafe,
      ulMaxCostUsd = Num (10000 * 1000000), ulMaxDurationMs = maxSafe\<rparr>"

definition ZERO_CALL_USAGE :: call_usage where
  "ZERO_CALL_USAGE =
     \<lparr>uAttempts = Num 0, uInputTokens = None, uOutputTokens = None, uTotalTokens = None,
      uCostUsd = None, uDurationMs = Num 0\<rparr>"

section \<open>Getter-free reads\<close>

datatype own_data = Own jsval | OwnInvalid

text \<open>\<open>ownData\<close> of \<open>usage.ts\<close>: an accessor is reported as invalid.\<close>

definition ownData :: "jsobj \<Rightarrow> jstr \<Rightarrow> own_data" where
  "ownData obj key =
     (case obj of
        OArray _ \<Rightarrow> Own VUndefined
      | OObject props \<Rightarrow>
          (case map_of props key of
             None \<Rightarrow> Own VUndefined
           | Some Hole \<Rightarrow> Own VUndefined
           | Some (Accessor _) \<Rightarrow> OwnInvalid
           | Some (Data v) \<Rightarrow> Own v))"

text \<open>The properties of a usage object the code itself built.\<close>

definition usageFields :: "call_usage \<Rightarrow> jstr \<Rightarrow> own_data" where
  "usageFields u key =
     (let opt = (\<lambda>x. case x of None \<Rightarrow> Own VUndefined | Some n \<Rightarrow> Own (VNum n))
      in if key = js ''attempts'' then Own (VNum (uAttempts u))
         else if key = js ''durationMs'' then Own (VNum (uDurationMs u))
         else if key = js ''inputTokens'' then opt (uInputTokens u)
         else if key = js ''outputTokens'' then opt (uOutputTokens u)
         else if key = js ''totalTokens'' then opt (uTotalTokens u)
         else if key = js ''costUsd'' then opt (uCostUsd u)
         else Own VUndefined)"

section \<open>normalizeCallUsage\<close>

text \<open>A safe integer between zero and \<open>m\<close>.\<close>

definition countWithin :: "jsnum \<Rightarrow> jsnum \<Rightarrow> bool" where
  "countWithin m n \<longleftrightarrow> isSafeInteger n \<and> jleq (Num 0) n \<and> jleq n m"

definition usageInteger :: "(jstr \<Rightarrow> own_data) \<Rightarrow> jstr \<Rightarrow> jsnum \<Rightarrow> jsnum option" where
  "usageInteger own key m =
     (case own key of Own (VNum n) \<Rightarrow> if countWithin m n then Some n else None | _ \<Rightarrow> None)"

definition invalidUsage :: "string \<Rightarrow> usage_error + 'a" where
  "invalidUsage field = Inl (InvalidUsage (js ''invalid usage field '' @ js field))"

definition optionalInteger ::
  "(jstr \<Rightarrow> own_data) \<Rightarrow> string \<Rightarrow> jsnum \<Rightarrow> usage_error + jsnum option" where
  "optionalInteger own key m =
     (if own (js key) = Own VUndefined then Inr None
      else case usageInteger own (js key) m of
             None \<Rightarrow> invalidUsage key
           | Some n \<Rightarrow> Inr (Some n))"

definition costWithin :: "jsnum \<Rightarrow> jsnum \<Rightarrow> bool" where
  "costWithin m c \<longleftrightarrow> isFinite c \<and> \<not> jless c (Num 0) \<and> \<not> jless m c"

definition optionalCost :: "(jstr \<Rightarrow> own_data) \<Rightarrow> jsnum \<Rightarrow> usage_error + jsnum option" where
  "optionalCost own m =
     (case own (js ''costUsd'') of
        Own VUndefined \<Rightarrow> Inr None
      | Own (VNum c) \<Rightarrow> if costWithin m c then Inr (Some c) else invalidUsage ''costUsd''
      | _ \<Rightarrow> invalidUsage ''costUsd'')"

definition normalizeFields :: "(jstr \<Rightarrow> own_data) \<Rightarrow> usage_limits \<Rightarrow> usage_error + call_usage" where
  "normalizeFields own limits =
     (case (usageInteger own (js ''attempts'') (ulMaxAttempts limits),
            usageInteger own (js ''durationMs'') (ulMaxDurationMs limits)) of
        (None, _) \<Rightarrow> invalidUsage ''attempts''
      | (_, None) \<Rightarrow> invalidUsage ''durationMs''
      | (Some attempts, Some duration) \<Rightarrow>
          resBind (optionalInteger own ''inputTokens'' (ulMaxTokens limits)) (\<lambda>input.
          resBind (optionalInteger own ''outputTokens'' (ulMaxTokens limits)) (\<lambda>output.
          resBind (optionalInteger own ''totalTokens'' (ulMaxTokens limits)) (\<lambda>total.
          resBind (optionalCost own (ulMaxCostUsd limits)) (\<lambda>cost.
            Inr \<lparr>uAttempts = attempts, uInputTokens = input, uOutputTokens = output,
                 uTotalTokens = total, uCostUsd = cost, uDurationMs = duration\<rparr>)))))"

text \<open>On an untrusted value, and on a usage object of the program's own.\<close>

definition normalizeCallUsage :: "heap \<Rightarrow> jsval \<Rightarrow> usage_limits \<Rightarrow> usage_error + call_usage" where
  "normalizeCallUsage h v limits =
     (case v of VRef a \<Rightarrow> normalizeFields (ownData (h a)) limits | _ \<Rightarrow> invalidUsage ''usage'')"

definition normalizeUsage :: "call_usage \<Rightarrow> usage_limits \<Rightarrow> usage_error + call_usage" where
  "normalizeUsage u limits = normalizeFields (usageFields u) limits"

section \<open>addUsage\<close>

definition checkedIntegerSum :: "jsnum \<Rightarrow> jsnum \<Rightarrow> jsnum \<Rightarrow> jsnum option" where
  "checkedIntegerSum a b m =
     (if \<not> isSafeInteger a \<or> jless a (Num 0) \<or> \<not> isSafeInteger b \<or> jless b (Num 0) \<or> jless (jsub m b) a
      then None else Some (jadd a b))"

text \<open>The inner \<open>None\<close> is \<open>undefined\<close>, the outer one the string \<open>invalid\<close>.\<close>

definition addOptionalInteger :: "jsnum option \<Rightarrow> jsnum option \<Rightarrow> jsnum \<Rightarrow> jsnum option option" where
  "addOptionalInteger a b m =
     (if a = None \<and> b = None then Some None
      else map_option Some (checkedIntegerSum (case_option (Num 0) id a) (case_option (Num 0) id b) m))"

definition addUsageWith :: "usage_limits \<Rightarrow> call_usage \<Rightarrow> call_usage \<Rightarrow> usage_error + call_usage" where
  "addUsageWith limits a b =
     resBind (normalizeUsage a limits) (\<lambda>l. resBind (normalizeUsage b limits) (\<lambda>r.
       let attempts = checkedIntegerSum (uAttempts l) (uAttempts r) (ulMaxAttempts limits);
           duration = checkedIntegerSum (uDurationMs l) (uDurationMs r) (ulMaxDurationMs limits);
           input = addOptionalInteger (uInputTokens l) (uInputTokens r) (ulMaxTokens limits);
           output = addOptionalInteger (uOutputTokens l) (uOutputTokens r) (ulMaxTokens limits);
           total = addOptionalInteger (uTotalTokens l) (uTotalTokens r) (ulMaxTokens limits);
           cost = jadd (case_option (Num 0) id (uCostUsd l)) (case_option (Num 0) id (uCostUsd r))
       in case (attempts, duration, input, output, total) of
            (Some att, Some du, Some inp, Some out, Some tot) \<Rightarrow>
              if \<not> isFinite cost \<or> jless (ulMaxCostUsd limits) cost then invalidUsage ''aggregate''
              else Inr \<lparr>uAttempts = att, uInputTokens = inp, uOutputTokens = out, uTotalTokens = tot,
                     uCostUsd = (if uCostUsd l \<noteq> None \<or> uCostUsd r \<noteq> None then Some cost else None),
                     uDurationMs = du\<rparr>
          | _ \<Rightarrow> invalidUsage ''aggregate''))"

definition addUsage :: "call_usage \<Rightarrow> call_usage \<Rightarrow> usage_error + call_usage" where
  "addUsage a b = addUsageWith ADD_USAGE_LIMITS a b"

section \<open>Error codes\<close>

datatype call_error_code =
    FAILED | DENIED | CANCELLED | INTERRUPTED | TIMED_OUT | ACCEPTANCE_FAILED
  | INVALID_REQUEST | INVALID_RESULT | UNAVAILABLE_CONTEXT | SOURCE_CHANGED | UNKNOWN_EFFECT
  | BUDGET_DEPTH | BUDGET_FRAMES | BUDGET_CALLS | BUDGET_ATTEMPTS | BUDGET_TOKENS
  | BUDGET_BYTES | BUDGET_DEADLINE

definition isBudgetCode :: "call_error_code \<Rightarrow> bool" where
  "isBudgetCode c \<longleftrightarrow>
     c \<in> {BUDGET_DEPTH, BUDGET_FRAMES, BUDGET_CALLS, BUDGET_ATTEMPTS, BUDGET_TOKENS, BUDGET_BYTES, BUDGET_DEADLINE}"

definition isRetryable :: "call_error_code \<Rightarrow> bool" where
  "isRetryable c \<longleftrightarrow> c = FAILED \<or> c = TIMED_OUT \<or> c = INVALID_RESULT"

datatype dsl_error_code = INVALID_SPEC | DUPLICATE_KEY | KEY_IDENTITY_CHANGED | INVALID_STATE | UNAWAITED_WORK

datatype interpreter_error_code =
    CPU_LIMIT | HEAP_LIMIT | WORKER_EXIT | JOURNAL_CORRUPT | LATE_CALLBACK | UNHANDLED_REJECTION
  | PARSE_ERROR | DISPOSED

definition ERROR_MESSAGE_MAX_LENGTH :: nat where
  "ERROR_MESSAGE_MAX_LENGTH = 2048"

definition ERROR_DETAIL_MAX_LENGTH :: nat where
  "ERROR_DETAIL_MAX_LENGTH = 256"

record call_error_details =
  dStopReason :: "jstr option"
  dProvider :: "jstr option"
  dModel :: "jstr option"
  dUsage :: "call_usage option"

record call_error =
  errCode :: call_error_code
  errMessage :: jstr
  errRetryable :: bool
  errDetails :: "call_error_details option"

text \<open>\<open>ownData\<close> of \<open>errors.ts\<close>: an accessor reads as \<open>undefined\<close>.\<close>

definition errorOwnData :: "jsobj \<Rightarrow> jstr \<Rightarrow> jsval" where
  "errorOwnData obj key = (case ownData obj key of Own v \<Rightarrow> v | OwnInvalid \<Rightarrow> VUndefined)"

definition boundedString :: "jsval \<Rightarrow> nat \<Rightarrow> jstr option" where
  "boundedString v m = (case v of VStr s \<Rightarrow> Some (take m s) | _ \<Rightarrow> None)"

definition normalizeSafeUsage :: "heap \<Rightarrow> jsval \<Rightarrow> call_usage option" where
  "normalizeSafeUsage h v =
     (case normalizeCallUsage h v CALL_USAGE_LIMITS of Inl _ \<Rightarrow> None | Inr u \<Rightarrow> Some u)"

definition normalizeCallErrorDetails :: "heap \<Rightarrow> jsval \<Rightarrow> call_error_details option" where
  "normalizeCallErrorDetails h v =
     (case v of
        VRef a \<Rightarrow>
          (let stop = boundedString (errorOwnData (h a) (js ''stopReason'')) ERROR_DETAIL_MAX_LENGTH;
               provider = boundedString (errorOwnData (h a) (js ''provider'')) ERROR_DETAIL_MAX_LENGTH;
               model = boundedString (errorOwnData (h a) (js ''model'')) ERROR_DETAIL_MAX_LENGTH;
               usage = normalizeSafeUsage h (errorOwnData (h a) (js ''usage''))
           in if stop = None \<and> provider = None \<and> model = None \<and> usage = None then None
              else Some \<lparr>dStopReason = stop, dProvider = provider, dModel = model, dUsage = usage\<rparr>)
      | _ \<Rightarrow> None)"

definition callErrorWith :: "heap \<Rightarrow> jsval \<Rightarrow> call_error_code \<Rightarrow> jstr \<Rightarrow> call_error" where
  "callErrorWith h details code message =
     \<lparr>errCode = code, errMessage = take ERROR_MESSAGE_MAX_LENGTH message,
      errRetryable = isRetryable code, errDetails = normalizeCallErrorDetails h details\<rparr>"

definition callError :: "call_error_code \<Rightarrow> jstr \<Rightarrow> call_error" where
  "callError code message = callErrorWith (\<lambda>_. OArray []) VUndefined code message"

datatype interpreter_error = InterpreterError (ieCode: interpreter_error_code) (ieMessage: jstr)

lemma callError_simps [simp]:
  "errCode (callError c m) = c"
  "errRetryable (callError c m) = isRetryable c"
  "errMessage (callError c m) = take ERROR_MESSAGE_MAX_LENGTH m"
  "errDetails (callError c m) = None"
  by (simp_all add: callError_def callErrorWith_def normalizeCallErrorDetails_def)

section \<open>Lemmas\<close>

text \<open>The usage records \<open>normalizeCallUsage\<close> accepts, and the shape of what it returns.\<close>

definition usageWithin :: "usage_limits \<Rightarrow> call_usage \<Rightarrow> bool" where
  "usageWithin limits u \<longleftrightarrow>
     countWithin (ulMaxAttempts limits) (uAttempts u)
     \<and> countWithin (ulMaxDurationMs limits) (uDurationMs u)
     \<and> pred_option (countWithin (ulMaxTokens limits)) (uInputTokens u)
     \<and> pred_option (countWithin (ulMaxTokens limits)) (uOutputTokens u)
     \<and> pred_option (countWithin (ulMaxTokens limits)) (uTotalTokens u)
     \<and> pred_option (costWithin (ulMaxCostUsd limits)) (uCostUsd u)"

lemma usageInteger_Some: "usageInteger f k m = Some n \<Longrightarrow> f k = Own (VNum n) \<and> countWithin m n"
  by (auto simp: usageInteger_def split: own_data.splits jsval.splits if_splits)

lemma optionalInteger_Inr: "optionalInteger f k m = Inr n \<Longrightarrow> pred_option (countWithin m) n"
  using usageInteger_Some [of f "js k" m]
  by (cases "usageInteger f (js k) m") (auto simp: optionalInteger_def invalidUsage_def split: if_splits)

lemma optionalCost_Inr: "optionalCost f m = Inr n \<Longrightarrow> pred_option (costWithin m) n"
  by (auto simp: optionalCost_def invalidUsage_def split: if_splits own_data.splits jsval.splits)

lemma normalizeFields_within: "normalizeFields f limits = Inr u \<Longrightarrow> usageWithin limits u"
  by (auto simp: normalizeFields_def usageWithin_def invalidUsage_def resBind_eq_Inr split: option.splits
    dest: usageInteger_Some optionalInteger_Inr optionalCost_Inr)

lemma usageFields_simps [simp]:
  "usageFields u (js ''attempts'') = Own (VNum (uAttempts u))"
  "usageFields u (js ''durationMs'') = Own (VNum (uDurationMs u))"
  "usageFields u (js ''inputTokens'') = (case uInputTokens u of None \<Rightarrow> Own VUndefined | Some n \<Rightarrow> Own (VNum n))"
  "usageFields u (js ''outputTokens'') = (case uOutputTokens u of None \<Rightarrow> Own VUndefined | Some n \<Rightarrow> Own (VNum n))"
  "usageFields u (js ''totalTokens'') = (case uTotalTokens u of None \<Rightarrow> Own VUndefined | Some n \<Rightarrow> Own (VNum n))"
  "usageFields u (js ''costUsd'') = (case uCostUsd u of None \<Rightarrow> Own VUndefined | Some n \<Rightarrow> Own (VNum n))"
  by (simp_all add: usageFields_def)

lemma normalizeUsage_iff: "normalizeUsage u limits = Inr w \<longleftrightarrow> usageWithin limits u \<and> w = u"
proof
  assume "usageWithin limits u \<and> w = u"
  then show "normalizeUsage u limits = Inr w"
    by (cases u) (auto simp: normalizeUsage_def normalizeFields_def usageWithin_def usageInteger_def
      optionalInteger_def optionalCost_def split: option.splits)
next
  assume ok: "normalizeUsage u limits = Inr w"
  then have "usageWithin limits w"
    by (auto simp: normalizeUsage_def dest: normalizeFields_within)
  moreover have "w = u"
    using ok by (cases u) (auto simp: normalizeUsage_def normalizeFields_def usageInteger_def
      optionalInteger_def optionalCost_def invalidUsage_def resBind_eq_Inr split: option.splits if_splits)
  ultimately show "usageWithin limits u \<and> w = u" by simp
qed

lemma countWithin_iff:
  assumes "M \<le> MAX_SAFE_INTEGER"
  shows "countWithin (JI M) n \<longleftrightarrow> (\<exists>k. n = JI k \<and> 0 \<le> k \<and> k \<le> M)"
  using assms by (auto simp: countWithin_def isSafeInteger_iff)

lemma MAX_SAFE_pos [simp]: "0 \<le> MAX_SAFE_INTEGER" "0 < MAX_SAFE_INTEGER"
  by (simp_all add: MAX_SAFE_INTEGER_def)

text \<open>The checked sum of two counts is their exact sum, and it is defined exactly when it fits.\<close>

lemma checkedIntegerSum_JI:
  assumes "0 \<le> a" "a \<le> M" "0 \<le> b" "b \<le> M" "M \<le> MAX_SAFE_INTEGER"
  shows "checkedIntegerSum (JI a) (JI b) (JI M) = (if a + b \<le> M then Some (JI (a + b)) else None)"
proof -
  have "jsub (JI M) (JI b) = JI (M - b)"
    using assms by (intro jsub_JI) (auto simp: MAX_SAFE_INTEGER_def)
  moreover have "a + b \<le> M \<Longrightarrow> jadd (JI a) (JI b) = JI (a + b)"
    using assms by (intro jadd_JI) (auto simp: MAX_SAFE_INTEGER_def)
  ultimately show ?thesis
    using assms by (auto simp: checkedIntegerSum_def simp flip: of_int_diff)
qed

abbreviation countOf :: "jsnum option \<Rightarrow> int" where
  "countOf x \<equiv> (case x of None \<Rightarrow> 0 | Some n \<Rightarrow> jint n)"

lemma addOptionalInteger_Some:
  assumes "pred_option (countWithin maxSafe) a" "pred_option (countWithin maxSafe) b"
    and "addOptionalInteger a b maxSafe = Some s"
  shows "pred_option (countWithin maxSafe) s \<and> countOf s = countOf a + countOf b \<and> (s = None \<longleftrightarrow> a = None \<and> b = None)"
proof -
  have num: "\<exists>k. case_option (Num 0) id x = JI k \<and> 0 \<le> k \<and> k \<le> MAX_SAFE_INTEGER \<and> countOf x = k"
    if "pred_option (countWithin maxSafe) x" for x
    using that by (cases x) (auto simp: countWithin_iff intro: exI [of _ "0::int"])
  obtain k l where k: "case_option (Num 0) id a = JI k" "0 \<le> k" "k \<le> MAX_SAFE_INTEGER" "countOf a = k"
    and l: "case_option (Num 0) id b = JI l" "0 \<le> l" "l \<le> MAX_SAFE_INTEGER" "countOf b = l"
    using num [OF assms(1)] num [OF assms(2)] by blast
  show ?thesis
  proof (cases "a = None \<and> b = None")
    case False
    then have "addOptionalInteger a b maxSafe = (if k + l \<le> MAX_SAFE_INTEGER then Some (Some (JI (k + l))) else None)"
      unfolding addOptionalInteger_def k(1) l(1) using checkedIntegerSum_JI [OF k(2,3) l(2,3)] by auto
    with assms(3) False k l show ?thesis
      by (auto simp: countWithin_iff split: if_splits simp del: of_int_add)
  qed (use assms in \<open>auto simp: addOptionalInteger_def\<close>)
qed

lemma addUsage_Inr:
  assumes "addUsage a b = Inr c"
  shows "usageWithin ADD_USAGE_LIMITS a" "usageWithin ADD_USAGE_LIMITS b" "usageWithin ADD_USAGE_LIMITS c"
    and "jint (uAttempts c) = jint (uAttempts a) + jint (uAttempts b)"
    and "jint (uDurationMs c) = jint (uDurationMs a) + jint (uDurationMs b)"
    and "countOf (uInputTokens c) = countOf (uInputTokens a) + countOf (uInputTokens b)"
    and "countOf (uOutputTokens c) = countOf (uOutputTokens a) + countOf (uOutputTokens b)"
    and "countOf (uTotalTokens c) = countOf (uTotalTokens a) + countOf (uTotalTokens b)"
proof -
  let ?L = "ADD_USAGE_LIMITS"
  show wa: "usageWithin ?L a" and wb: "usageWithin ?L b"
    using assms by (auto simp: addUsage_def addUsageWith_def resBind_eq_Inr normalizeUsage_iff)
  have lim: "ulMaxAttempts ?L = maxSafe" "ulMaxTokens ?L = maxSafe" "ulMaxDurationMs ?L = maxSafe"
    by (simp_all add: ADD_USAGE_LIMITS_def)
  have sum: "checkedIntegerSum x y maxSafe = Some z \<Longrightarrow> countWithin maxSafe x \<Longrightarrow> countWithin maxSafe y
    \<Longrightarrow> countWithin maxSafe z \<and> jint z = jint x + jint y" for x y z
    by (auto simp: countWithin_iff checkedIntegerSum_JI split: if_splits simp del: of_int_add)
  obtain att du inp out tot where
    parts: "checkedIntegerSum (uAttempts a) (uAttempts b) maxSafe = Some att"
      "checkedIntegerSum (uDurationMs a) (uDurationMs b) maxSafe = Some du"
      "addOptionalInteger (uInputTokens a) (uInputTokens b) maxSafe = Some inp"
      "addOptionalInteger (uOutputTokens a) (uOutputTokens b) maxSafe = Some out"
      "addOptionalInteger (uTotalTokens a) (uTotalTokens b) maxSafe = Some tot"
    and c: "uAttempts c = att" "uDurationMs c = du" "uInputTokens c = inp" "uOutputTokens c = out" "uTotalTokens c = tot"
    and cost: "uCostUsd c = None \<or> (\<exists>x. uCostUsd c = Some x \<and> isFinite x \<and> \<not> jless (ulMaxCostUsd ?L) x
        \<and> x = jadd (case_option (Num 0) id (uCostUsd a)) (case_option (Num 0) id (uCostUsd b)))"
    using assms wa wb
    by (auto simp: addUsage_def addUsageWith_def resBind_eq_Inr normalizeUsage_iff lim Let_def invalidUsage_def
      split: option.splits if_splits)
  note within = wa [unfolded usageWithin_def lim] wb [unfolded usageWithin_def lim]
  note tokens = addOptionalInteger_Some [OF _ _ parts(3)] addOptionalInteger_Some [OF _ _ parts(4)]
    addOptionalInteger_Some [OF _ _ parts(5)]
  have costs: "pred_option (costWithin (ulMaxCostUsd ?L)) (uCostUsd c)"
  proof -
    have nonneg: "\<exists>r. case_option (Num 0) id x = Num r \<and> 0 \<le> r" if "pred_option (costWithin m) x" for x m
      using that by (cases x) (auto simp: costWithin_def isFinite_iff)
    obtain r s where "case_option (Num 0) id (uCostUsd a) = Num r" "0 \<le> r"
      "case_option (Num 0) id (uCostUsd b) = Num s" "0 \<le> s"
      using within nonneg by metis
    then show ?thesis
      using cost round64_nonneg [of "r + s"] by (auto simp: costWithin_def)
  qed
  show "usageWithin ?L c"
    unfolding usageWithin_def lim c using within sum parts tokens costs by blast
  show "jint (uAttempts c) = jint (uAttempts a) + jint (uAttempts b)"
    "jint (uDurationMs c) = jint (uDurationMs a) + jint (uDurationMs b)"
    "countOf (uInputTokens c) = countOf (uInputTokens a) + countOf (uInputTokens b)"
    "countOf (uOutputTokens c) = countOf (uOutputTokens a) + countOf (uOutputTokens b)"
    "countOf (uTotalTokens c) = countOf (uTotalTokens a) + countOf (uTotalTokens b)"
    unfolding c using within sum parts tokens by blast+
qed

section \<open>Properties\<close>

text \<open>
  when two usage records add up, both operands and the sum are within the aggregate limits, and
  attempts, durations and each token counter of the sum are the exact integer sums, an absent counter
  counting zero.
\<close>

theorem addUsage_exact:
  assumes "addUsage a b = Inr c"
  shows "usageWithin ADD_USAGE_LIMITS a \<and> usageWithin ADD_USAGE_LIMITS b \<and> usageWithin ADD_USAGE_LIMITS c
    \<and> jint (uAttempts c) = jint (uAttempts a) + jint (uAttempts b)
    \<and> jint (uDurationMs c) = jint (uDurationMs a) + jint (uDurationMs b)
    \<and> countOf (uInputTokens c) = countOf (uInputTokens a) + countOf (uInputTokens b)
    \<and> countOf (uOutputTokens c) = countOf (uOutputTokens a) + countOf (uOutputTokens b)
    \<and> countOf (uTotalTokens c) = countOf (uTotalTokens a) + countOf (uTotalTokens b)"
  using addUsage_Inr [OF assms] by blast

definition usageOf :: "jsnum \<Rightarrow> jsnum \<Rightarrow> call_usage" where
  "usageOf att tok = \<lparr>uAttempts = att, uInputTokens = Some tok, uOutputTokens = None, uTotalTokens = None,
     uCostUsd = None, uDurationMs = Num 0\<rparr>"

theorem addUsage_exact_witness:
  "\<exists>c. addUsage (usageOf (Num 1) (Num 5)) (usageOf (Num 1) (Num 7)) = Inr c \<and> countOf (uInputTokens c) = 12"
proof -
  have "usageWithin ADD_USAGE_LIMITS (usageOf (Num 1) (Num n))" if "n = 5 \<or> n = 7" for n
    using that by (auto simp: usageWithin_def usageOf_def ADD_USAGE_LIMITS_def countWithin_def MAX_SAFE_INTEGER_def)
  then have "normalizeUsage (usageOf (Num 1) (Num 5)) ADD_USAGE_LIMITS = Inr (usageOf (Num 1) (Num 5))"
    "normalizeUsage (usageOf (Num 1) (Num 7)) ADD_USAGE_LIMITS = Inr (usageOf (Num 1) (Num 7))"
    by (simp_all add: normalizeUsage_iff)
  moreover have "checkedIntegerSum (Num 1) (Num 1) maxSafe = Some (Num 2)"
    "checkedIntegerSum (Num 0) (Num 0) maxSafe = Some (Num 0)"
    "checkedIntegerSum (Num 5) (Num 7) maxSafe = Some (Num 12)"
    using checkedIntegerSum_JI [of 1 MAX_SAFE_INTEGER 1] checkedIntegerSum_JI [of 0 MAX_SAFE_INTEGER 0]
      checkedIntegerSum_JI [of 5 MAX_SAFE_INTEGER 7]
    by (simp_all add: MAX_SAFE_INTEGER_def)
  ultimately have "addUsage (usageOf (Num 1) (Num 5)) (usageOf (Num 1) (Num 7))
    = Inr \<lparr>uAttempts = Num 2, uInputTokens = Some (Num 12), uOutputTokens = None, uTotalTokens = None,
        uCostUsd = None, uDurationMs = Num 0\<rparr>"
    by (simp add: addUsage_def addUsageWith_def usageOf_def addOptionalInteger_def ADD_USAGE_LIMITS_def Let_def
      js_simps del: jadd.simps)
  from this addUsage_exact [OF this] show ?thesis by (auto simp: usageOf_def jint_def)
qed

end
