(* ===== verification/Schema.thy ===== *)
theory Schema
  imports JsonCanonical
begin

text \<open>
  The JSON Schema subset of \<open>src/src/core/schema.ts\<close>: normalization of an untrusted schema and
  validation against a normalized one, both collecting every error with its path.  Schemas are the
  property lists of JSON objects.  The declarative predicate \<open>satisfies\<close> says what a schema means.
\<close>

section \<open>Normalization\<close>

datatype schema_error = SchemaError (sePath: jstr) (seMessage: jstr)

type_synonym schema = "(jstr \<times> json) list"

definition SUPPORTED_SCHEMA_TYPES :: "jstr list" where
  "SUPPORTED_SCHEMA_TYPES =
     map js [''array'', ''boolean'', ''integer'', ''null'', ''number'', ''object'', ''string'']"

definition SCHEMA_KEYWORDS :: "jstr list" where
  "SCHEMA_KEYWORDS =
     map js [''type'', ''required'', ''properties'', ''additionalProperties'', ''items'', ''enum'']"

definition quoted :: "jstr \<Rightarrow> jstr" where
  "quoted s = [34] @ s @ [34]"

text \<open>The contribution of a keyword: the errors it pushes and the property it sets on the result.\<close>

definition unsupportedKeywords :: "schema \<Rightarrow> jstr \<Rightarrow> schema_error list" where
  "unsupportedKeywords ps path =
     concat (map (\<lambda>(k, _). if k \<in> set SCHEMA_KEYWORDS then []
        else [SchemaError (childPath path k) (js ''unsupported JSON Schema keyword '' @ quoted k)]) ps)"

definition schemaType :: "schema \<Rightarrow> jstr \<Rightarrow> schema_error list \<times> schema" where
  "schemaType ps path =
     (case map_of ps (js ''type'') of
        None \<Rightarrow> ([], [])
      | Some v \<Rightarrow>
          (case v of
             JStr t \<Rightarrow>
               if t \<in> set SUPPORTED_SCHEMA_TYPES then ([], [(js ''type'', JStr t)])
               else ([SchemaError (path @ js ''.type'') (js ''unsupported JSON Schema type '' @ quoted t)], [])
           | _ \<Rightarrow> ([SchemaError (path @ js ''.type'')
                    (js ''type must be one supported type name; type arrays are not supported'')], [])))"

text \<open>The scan of the entries of \<open>required\<close>; \<open>seen\<close> holds the accepted names.\<close>

fun requiredErrors :: "json list \<Rightarrow> jstr \<Rightarrow> nat \<Rightarrow> jstr list \<Rightarrow> schema_error list" where
  "requiredErrors [] path i seen = []"
| "requiredErrors (v # vs) path i seen =
     (case v of
        JStr name \<Rightarrow>
          if name \<in> set seen
          then SchemaError (indexPath (path @ js ''.required'') i) (js ''duplicate required property '' @ quoted name)
                 # requiredErrors vs path (Suc i) seen
          else requiredErrors vs path (Suc i) (name # seen)
      | _ \<Rightarrow> SchemaError (indexPath (path @ js ''.required'') i) (js ''required entries must be strings'')
               # requiredErrors vs path (Suc i) seen)"

definition schemaRequired :: "schema \<Rightarrow> jstr \<Rightarrow> schema_error list \<times> schema" where
  "schemaRequired ps path =
     (case map_of ps (js ''required'') of
        None \<Rightarrow> ([], [])
      | Some v \<Rightarrow>
          (case v of
             JArr vs \<Rightarrow>
               let es = requiredErrors vs path 0 [] in (es, if es = [] then [(js ''required'', v)] else [])
           | _ \<Rightarrow> ([SchemaError (path @ js ''.required'') (js ''required must be an array of unique strings'')], [])))"

text \<open>
  The scan of \<open>enum\<close>: identities are canonical texts.  The parser has bounded the depth of the
  values, so \<open>canonicalStringify\<close> does not throw on them (\<open>canonicalStringify_exists\<close>).
\<close>

fun enumErrors :: "json list \<Rightarrow> jstr \<Rightarrow> nat \<Rightarrow> (js_exn + jstr) list \<Rightarrow> schema_error list" where
  "enumErrors [] path i identities = []"
| "enumErrors (v # vs) path i identities =
     (if canonicalStringify v \<in> set identities
      then [SchemaError (indexPath (path @ js ''.enum'') i) (js ''enum values must be canonically unique'')] else [])
     @ enumErrors vs path (Suc i) (canonicalStringify v # identities)"

definition schemaEnum :: "schema \<Rightarrow> jstr \<Rightarrow> schema_error list \<times> schema" where
  "schemaEnum ps path =
     (case map_of ps (js ''enum'') of
        None \<Rightarrow> ([], [])
      | Some v \<Rightarrow>
          (case v of
             JArr (x # xs) \<Rightarrow>
               let es = enumErrors (x # xs) path 0 [] in (es, if es = [] then [(js ''enum'', v)] else [])
           | _ \<Rightarrow> ([SchemaError (path @ js ''.enum'') (js ''enum must be a non-empty array'')], [])))"

text \<open>
  The keywords whose values are schemas, over the recursive call \<open>rec\<close>.  Copied properties keep
  their enumeration order.
\<close>

definition propertySchema ::
  "(schema \<Rightarrow> jstr \<Rightarrow> schema_error list \<times> schema) \<Rightarrow> jstr \<Rightarrow> jstr \<times> json \<Rightarrow> schema_error list \<times> schema" where
  "propertySchema rec path ks =
     (case snd ks of
        JObj sub \<Rightarrow> (case rec sub (childPath (path @ js ''.properties'') (fst ks)) of
                       (es, out) \<Rightarrow> (es, [(fst ks, JObj out)]))
      | _ \<Rightarrow> ([SchemaError (childPath (path @ js ''.properties'') (fst ks)) (js ''property schema must be a JSON object'')], []))"

definition schemaProperties ::
  "(schema \<Rightarrow> jstr \<Rightarrow> schema_error list \<times> schema) \<Rightarrow> schema \<Rightarrow> jstr \<Rightarrow> schema_error list \<times> schema" where
  "schemaProperties rec ps path =
     (case map_of ps (js ''properties'') of
        None \<Rightarrow> ([], [])
      | Some v \<Rightarrow>
          (case v of
             JObj qs \<Rightarrow>
               let rs = map (propertySchema rec path) qs
               in (concat (map fst rs), [(js ''properties'', JObj (concat (map snd rs)))])
           | _ \<Rightarrow> ([SchemaError (path @ js ''.properties'') (js ''properties must be an object of schemas'')], [])))"

definition schemaAdditional ::
  "(schema \<Rightarrow> jstr \<Rightarrow> schema_error list \<times> schema) \<Rightarrow> schema \<Rightarrow> jstr \<Rightarrow> schema_error list \<times> schema" where
  "schemaAdditional rec ps path =
     (case map_of ps (js ''additionalProperties'') of
        None \<Rightarrow> ([], [])
      | Some v \<Rightarrow>
          (case v of
             JBool b \<Rightarrow> ([], [(js ''additionalProperties'', v)])
           | JObj sub \<Rightarrow> (case rec sub (path @ js ''.additionalProperties'') of
                           (es, out) \<Rightarrow> (es, [(js ''additionalProperties'', JObj out)]))
           | _ \<Rightarrow> ([SchemaError (path @ js ''.additionalProperties'')
                     (js ''additionalProperties must be a boolean or schema object'')], [])))"

definition schemaItems ::
  "(schema \<Rightarrow> jstr \<Rightarrow> schema_error list \<times> schema) \<Rightarrow> schema \<Rightarrow> jstr \<Rightarrow> schema_error list \<times> schema" where
  "schemaItems rec ps path =
     (case map_of ps (js ''items'') of
        None \<Rightarrow> ([], [])
      | Some v \<Rightarrow>
          (case v of
             JObj sub \<Rightarrow> (case rec sub (path @ js ''.items'') of (es, out) \<Rightarrow> (es, [(js ''items'', JObj out)]))
           | _ \<Rightarrow> ([SchemaError (path @ js ''.items'')
                     (js ''items must be one schema object; tuple forms are not supported'')], [])))"

lemma schemaProperties_cong [fundef_cong]:
  assumes "ps = ps'" and "path = path'"
    and "\<And>qs k sub pp. map_of ps' (js ''properties'') = Some (JObj qs) \<Longrightarrow> (k, JObj sub) \<in> set qs \<Longrightarrow> rec sub pp = rec' sub pp"
  shows "schemaProperties rec ps path = schemaProperties rec' ps' path'"
proof -
  have "map (propertySchema rec path) qs = map (propertySchema rec' path) qs"
    if "map_of ps (js ''properties'') = Some (JObj qs)" for qs
    using assms that by (intro map_cong) (auto simp: propertySchema_def split: json.splits)
  then show ?thesis
    using assms(1,2) by (auto simp: schemaProperties_def Let_def simp del: map_map map_eq_conv split: option.splits json.splits)
qed

lemma schemaAdditional_cong [fundef_cong]:
  "ps = ps' \<Longrightarrow> path = path'
    \<Longrightarrow> (\<And>sub pp. map_of ps' (js ''additionalProperties'') = Some (JObj sub) \<Longrightarrow> rec sub pp = rec' sub pp)
    \<Longrightarrow> schemaAdditional rec ps path = schemaAdditional rec' ps' path'"
  by (auto simp: schemaAdditional_def split: option.splits json.splits)

lemma schemaItems_cong [fundef_cong]:
  "ps = ps' \<Longrightarrow> path = path'
    \<Longrightarrow> (\<And>sub pp. map_of ps' (js ''items'') = Some (JObj sub) \<Longrightarrow> rec sub pp = rec' sub pp)
    \<Longrightarrow> schemaItems rec ps path = schemaItems rec' ps' path'"
  by (auto simp: schemaItems_def split: option.splits json.splits)

text \<open>The pieces in the order the source evaluates them: errors and properties append.\<close>

definition joinPieces :: "(schema_error list \<times> schema) list \<Rightarrow> schema_error list \<times> schema" where
  "joinPieces rs = (concat (map fst rs), concat (map snd rs))"

text \<open>The closure \<open>walk\<close> of \<open>normalizeJsonSchema\<close>.\<close>

function schemaWalk :: "schema \<Rightarrow> jstr \<Rightarrow> schema_error list \<times> schema" where
  "schemaWalk ps path = joinPieces
     [(unsupportedKeywords ps path, []),
      schemaType ps path,
      schemaRequired ps path,
      schemaProperties schemaWalk ps path,
      schemaAdditional schemaWalk ps path,
      schemaItems schemaWalk ps path,
      schemaEnum ps path]"
  by pat_completeness auto

lemma size_map_of_JObj: "map_of ps k = Some (JObj qs) \<Longrightarrow> size (JObj qs) < size (JObj ps)"
  by (rule size_JObj_member [OF map_of_SomeD])

termination schemaWalk
proof (relation "measure (\<lambda>(ps, path). size (JObj ps))", goal_cases)
  case 1
  then show ?case by simp
next
  case (2 ps path qs k sub pp)
  then have "size (JObj sub) < size (JObj qs)" "size (JObj qs) < size (JObj ps)"
    by (auto dest: size_JObj_member simp only: size_map_of_JObj)
  then show ?case by simp
next
  case (3 ps path sub pp)
  then show ?case using size_map_of_JObj by fastforce
next
  case (4 ps path sub pp)
  then show ?case using size_map_of_JObj by fastforce
qed

declare schemaWalk.simps [simp del]

definition normalizeParsedSchema :: "json_error + json \<Rightarrow> schema_error list + schema" where
  "normalizeParsedSchema parsed =
     (case parsed of
        Inl e \<Rightarrow> Inl [SchemaError (errPath e) (errReason e)]
      | Inr v \<Rightarrow>
          (case v of
             JObj ps \<Rightarrow>
               (case schemaWalk ps (js ''$schema'') of (es, out) \<Rightarrow> if es \<noteq> [] then Inl es else Inr out)
           | _ \<Rightarrow> Inl [SchemaError (js ''$'') (js ''schema must be a JSON object'')]))"

text \<open>On an untrusted value, and on a JSON tree.\<close>

definition normalizeJsonSchema :: "heap \<Rightarrow> jsval \<Rightarrow> schema_error list + schema" where
  "normalizeJsonSchema h v = normalizeParsedSchema (parseJsonValue h v)"

definition normalizeSchemaTree :: "json \<Rightarrow> schema_error list + schema" where
  "normalizeSchemaTree v = normalizeParsedSchema (parseJsonTree v)"

section \<open>Validation\<close>

definition typeOf :: "json \<Rightarrow> jstr" where
  "typeOf v =
     (case v of
        JNull \<Rightarrow> js ''null'' | JBool _ \<Rightarrow> js ''boolean'' | JNum _ \<Rightarrow> js ''number'' | JStr _ \<Rightarrow> js ''string''
      | JArr _ \<Rightarrow> js ''array'' | JObj _ \<Rightarrow> js ''object'')"

definition matchesType :: "json \<Rightarrow> jstr \<Rightarrow> bool" where
  "matchesType v t =
     (if t = js ''integer'' then (case v of JNum n \<Rightarrow> isInteger n | _ \<Rightarrow> False)
      else if t = js ''number'' then (case v of JNum _ \<Rightarrow> True | _ \<Rightarrow> False)
      else if t = js ''string'' then (case v of JStr _ \<Rightarrow> True | _ \<Rightarrow> False)
      else if t = js ''boolean'' then (case v of JBool _ \<Rightarrow> True | _ \<Rightarrow> False)
      else if t = js ''object'' then isJsonObject v
      else if t = js ''array'' then isJsonArray v
      else t = js ''null'' \<and> v = JNull)"

text \<open>The properties of a subschema; a normalized schema holds objects there.\<close>

definition subschema :: "json \<Rightarrow> schema" where
  "subschema v = (case v of JObj ps \<Rightarrow> ps | _ \<Rightarrow> [])"

definition declaredProperties :: "schema \<Rightarrow> schema option" where
  "declaredProperties s = (case map_of s (js ''properties'') of Some (JObj qs) \<Rightarrow> Some qs | _ \<Rightarrow> None)"

definition undeclared :: "schema \<Rightarrow> jstr \<Rightarrow> bool" where
  "undeclared s k \<longleftrightarrow> (case declaredProperties s of None \<Rightarrow> True | Some qs \<Rightarrow> map_of qs k = None)"

definition enumAdmits :: "schema \<Rightarrow> json \<Rightarrow> bool" where
  "enumAdmits s v \<longleftrightarrow>
     (case map_of s (js ''enum'') of
        Some (JArr cs) \<Rightarrow> list_ex (\<lambda>c. canonicalStringify c = canonicalStringify v) cs
      | _ \<Rightarrow> True)"

definition requiredMissing :: "schema \<Rightarrow> schema \<Rightarrow> jstr \<Rightarrow> jstr list" where
  "requiredMissing s ps path =
     (case map_of s (js ''required'') of
        Some (JArr ks) \<Rightarrow>
          concat (map (\<lambda>k. case k of
             JStr name \<Rightarrow> if map_of ps name = None then [childPath path name @ js '': required''] else []
           | _ \<Rightarrow> []) ks)
      | _ \<Rightarrow> [])"

definition schemaTypeName :: "schema \<Rightarrow> jstr option" where
  "schemaTypeName s = (case map_of s (js ''type'') of Some (JStr t) \<Rightarrow> Some t | _ \<Rightarrow> None)"

definition typeMismatch :: "schema \<Rightarrow> json \<Rightarrow> bool" where
  "typeMismatch s v \<longleftrightarrow> (case schemaTypeName s of Some t \<Rightarrow> \<not> matchesType v t | None \<Rightarrow> False)"

function validateNormalized :: "json \<Rightarrow> schema \<Rightarrow> jstr \<Rightarrow> jstr list" where
  "validateNormalized v s path =
     (if typeMismatch s v
      then [path @ js '': expected '' @ the (schemaTypeName s) @ js '' but got '' @ typeOf v]
      else
     (if enumAdmits s v then [] else [path @ js '': value not in enum''])
     @ (case v of
          JObj ps \<Rightarrow>
            requiredMissing s ps path
            @ (case declaredProperties s of
                 None \<Rightarrow> []
               | Some qs \<Rightarrow> concat (map (\<lambda>(k, sub).
                   case map_of ps k of
                     None \<Rightarrow> []
                   | Some w \<Rightarrow> validateNormalized w (subschema sub) (childPath path k)) qs))
            @ (case map_of s (js ''additionalProperties'') of
                 Some (JBool b) \<Rightarrow>
                   if b then [] else concat (map (\<lambda>(k, w).
                     if undeclared s k then [childPath path k @ js '': additional property not allowed''] else []) ps)
               | Some (JObj sub) \<Rightarrow>
                   concat (map (\<lambda>(k, w). if undeclared s k then validateNormalized w sub (childPath path k) else []) ps)
               | _ \<Rightarrow> [])
        | JArr ws \<Rightarrow>
            (case map_of s (js ''items'') of
               Some (JObj sub) \<Rightarrow>
                 concat (map (\<lambda>(i, w). validateNormalized w sub (indexPath path i)) (enumerate 0 ws))
             | _ \<Rightarrow> [])
        | _ \<Rightarrow> []))"
  by pat_completeness auto

lemma enumerate_member: "(i, w) \<in> set (enumerate n ws) \<Longrightarrow> w \<in> set ws"
  by (metis enumerate_eq_zip set_zip_rightD)

termination validateNormalized
  by (relation "measure (\<lambda>(v, s, path). size v)")
     (auto dest!: map_of_SomeD enumerate_member simp: less_Suc_eq_le
       dest: size_JObj_member size_JArr_member simp del: json.size)

declare validateNormalized.simps [simp del]

section \<open>What a schema means\<close>

text \<open>The declarative reading: no paths, no messages, no order of errors.\<close>

function satisfies :: "json \<Rightarrow> schema \<Rightarrow> bool" where
  "satisfies v s \<longleftrightarrow>
     \<not> typeMismatch s v \<and> enumAdmits s v
     \<and> (case v of
          JObj ps \<Rightarrow>
            (\<forall>ks. map_of s (js ''required'') = Some (JArr ks) \<longrightarrow> (\<forall>name. JStr name \<in> set ks \<longrightarrow> name \<in> fst ` set ps))
            \<and> (\<forall>qs k sub w. declaredProperties s = Some qs \<longrightarrow> (k, sub) \<in> set qs \<longrightarrow> map_of ps k = Some w
                 \<longrightarrow> satisfies w (subschema sub))
            \<and> (map_of s (js ''additionalProperties'') = Some (JBool False) \<longrightarrow> (\<forall>k w. (k, w) \<in> set ps \<longrightarrow> \<not> undeclared s k))
            \<and> (\<forall>sub. map_of s (js ''additionalProperties'') = Some (JObj sub)
                 \<longrightarrow> (\<forall>k w. (k, w) \<in> set ps \<longrightarrow> undeclared s k \<longrightarrow> satisfies w sub))
        | JArr ws \<Rightarrow> (\<forall>sub w. map_of s (js ''items'') = Some (JObj sub) \<longrightarrow> w \<in> set ws \<longrightarrow> satisfies w sub)
        | _ \<Rightarrow> True)"
  by pat_completeness auto

termination satisfies
  by (relation "measure (\<lambda>(v, s). size v)")
     (auto dest!: map_of_SomeD simp: less_Suc_eq_le dest: size_JObj_member size_JArr_member simp del: json.size)

declare satisfies.simps [simp del]

lemma requiredMissing_Nil:
  "requiredMissing s ps path = [] \<longleftrightarrow>
     (\<forall>ks. map_of s (js ''required'') = Some (JArr ks) \<longrightarrow> (\<forall>name. JStr name \<in> set ks \<longrightarrow> name \<in> fst ` set ps))"
  by (cases "map_of s (js ''required'')")
     (auto simp: requiredMissing_def map_of_eq_None_iff [of ps] split: json.splits if_splits)

lemma enumerate_member_iff: "(\<exists>i. (i, w) \<in> set (enumerate n ws)) \<longleftrightarrow> w \<in> set ws"
  by (metis enumerate_eq_zip enumerate_member in_set_impl_in_set_zip2 length_upt add_diff_cancel_left')

text \<open>The validator reports no error exactly on the values that satisfy the schema.\<close>

lemma validateNormalized_satisfies: "validateNormalized v s path = [] \<longleftrightarrow> satisfies v s"
proof (induction v s path rule: validateNormalized.induct)
  case IH: (1 v s path)
  show ?case
  proof (cases "typeMismatch s v \<or> \<not> enumAdmits s v")
    case True
    then show ?thesis
      by (subst validateNormalized.simps, subst satisfies.simps) auto
  next
    case False
    show ?thesis
    proof (cases v)
      case (JObj ps)
      have declared: "(case declaredProperties s of None \<Rightarrow> [] | Some qs \<Rightarrow> concat (map (\<lambda>(k, sub).
            case map_of ps k of None \<Rightarrow> []
            | Some w \<Rightarrow> validateNormalized w (subschema sub) (childPath path k)) qs)) = []
          \<longleftrightarrow> (\<forall>qs k sub w. declaredProperties s = Some qs \<longrightarrow> (k, sub) \<in> set qs \<longrightarrow> map_of ps k = Some w
                \<longrightarrow> satisfies w (subschema sub))"
        using IH(2,3) False JObj by (fastforce split: option.splits)
      have additional: "(case map_of s (js ''additionalProperties'') of
            Some (JBool b) \<Rightarrow> if b then [] else concat (map (\<lambda>(k, w).
                if undeclared s k then [childPath path k @ js '': additional property not allowed''] else []) ps)
          | Some (JObj sub) \<Rightarrow>
              concat (map (\<lambda>(k, w). if undeclared s k then validateNormalized w sub (childPath path k) else []) ps)
          | _ \<Rightarrow> []) = []
          \<longleftrightarrow> (map_of s (js ''additionalProperties'') = Some (JBool False) \<longrightarrow> (\<forall>k w. (k, w) \<in> set ps \<longrightarrow> \<not> undeclared s k))
            \<and> (\<forall>sub. map_of s (js ''additionalProperties'') = Some (JObj sub)
                 \<longrightarrow> (\<forall>k w. (k, w) \<in> set ps \<longrightarrow> undeclared s k \<longrightarrow> satisfies w sub))"
        using IH(2,3) False JObj by (fastforce split: option.splits json.splits)
      show ?thesis
        using False JObj declared additional requiredMissing_Nil [of s ps path]
        by (subst validateNormalized.simps, subst satisfies.simps) simp
    next
      case (JArr ws)
      then show ?thesis
        using False IH(1) enumerate_member_iff [of _ 0 ws]
        by (subst validateNormalized.simps, subst satisfies.simps) (fastforce split: option.splits json.splits)
    qed (use False in \<open>subst validateNormalized.simps, subst satisfies.simps, simp\<close>)+
  qed
qed

section \<open>Normalized schemas are stable\<close>

lemma requiredErrors_Nil: "requiredErrors vs path i seen = [] \<longleftrightarrow> requiredErrors vs path' i' seen = []"
  by (induction vs arbitrary: i i' seen) (auto split: json.splits)

lemma enumErrors_Nil: "enumErrors vs path i ids = [] \<longleftrightarrow> enumErrors vs path' i' ids = []"
  by (induction vs arbitrary: i i' ids) auto

lemma schemaType_stable:
  assumes "fst (schemaType ps path) = []"
    and "map_of out (js ''type'') = map_of (snd (schemaType ps path)) (js ''type'')"
  shows "schemaType out path' = ([], snd (schemaType ps path))"
proof (cases "map_of ps (js ''type'')")
  case (Some v)
  with assms show ?thesis by (cases v) (auto simp: schemaType_def split: if_splits)
qed (use assms in \<open>simp add: schemaType_def\<close>)

lemma schemaRequired_stable:
  assumes "fst (schemaRequired ps path) = []"
    and "map_of out (js ''required'') = map_of (snd (schemaRequired ps path)) (js ''required'')"
  shows "schemaRequired out path' = ([], snd (schemaRequired ps path))"
proof (cases "map_of ps (js ''required'')")
  case (Some v)
  show ?thesis
  proof (cases v)
    case (JArr vs)
    then show ?thesis
      using assms Some requiredErrors_Nil [of vs path 0 "[]" path' 0] by (simp add: schemaRequired_def Let_def)
  qed (use assms Some in \<open>simp_all add: schemaRequired_def\<close>)
qed (use assms in \<open>simp add: schemaRequired_def\<close>)

lemma schemaEnum_stable:
  assumes "fst (schemaEnum ps path) = []"
    and "map_of out (js ''enum'') = map_of (snd (schemaEnum ps path)) (js ''enum'')"
  shows "schemaEnum out path' = ([], snd (schemaEnum ps path))"
proof (cases "map_of ps (js ''enum'')")
  case (Some v)
  show ?thesis
  proof (cases "\<exists>x xs. v = JArr (x # xs)")
    case True
    then obtain x xs where v: "v = JArr (x # xs)" by blast
    then have "enumErrors (x # xs) path 0 [] = []"
      using assms Some by (simp add: schemaEnum_def Let_def)
    then show ?thesis
      using assms Some v enumErrors_Nil [of "x # xs" path 0 "[]" path' 0]
      by (simp add: schemaEnum_def Let_def del: enumErrors.simps)
  next
    case False
    then show ?thesis using assms Some by (cases v) (auto simp: schemaEnum_def split: list.splits)
  qed
qed (use assms in \<open>simp add: schemaEnum_def\<close>)

lemma schemaAdditional_stable:
  assumes "fst (schemaAdditional rec ps path) = []"
    and "map_of out (js ''additionalProperties'') = map_of (snd (schemaAdditional rec ps path)) (js ''additionalProperties'')"
    and "\<And>sub p o' p'. map_of ps (js ''additionalProperties'') = Some (JObj sub) \<Longrightarrow> rec sub p = ([], o') \<Longrightarrow> rec o' p' = ([], o')"
  shows "schemaAdditional rec out path' = ([], snd (schemaAdditional rec ps path))"
proof (cases "map_of ps (js ''additionalProperties'')")
  case (Some v)
  with assms(1,2) show ?thesis
    by (cases v) (auto simp: schemaAdditional_def assms(3) split: prod.splits)
qed (use assms in \<open>simp add: schemaAdditional_def\<close>)

lemma schemaItems_stable:
  assumes "fst (schemaItems rec ps path) = []"
    and "map_of out (js ''items'') = map_of (snd (schemaItems rec ps path)) (js ''items'')"
    and "\<And>sub p o' p'. map_of ps (js ''items'') = Some (JObj sub) \<Longrightarrow> rec sub p = ([], o') \<Longrightarrow> rec o' p' = ([], o')"
  shows "schemaItems rec out path' = ([], snd (schemaItems rec ps path))"
proof (cases "map_of ps (js ''items'')")
  case (Some v)
  with assms(1,2) show ?thesis
    by (cases v) (auto simp: schemaItems_def assms(3) split: prod.splits)
qed (use assms in \<open>simp add: schemaItems_def\<close>)

lemma propertySchemas_stable:
  assumes "\<And>k sub p o' p'. (k, JObj sub) \<in> set qs \<Longrightarrow> rec sub p = ([], o') \<Longrightarrow> rec o' p' = ([], o')"
    and "concat (map (fst \<circ> propertySchema rec path) qs) = []"
  shows "map (propertySchema rec path') (concat (map (snd \<circ> propertySchema rec path) qs))
    = map (\<lambda>q. ([], [q])) (concat (map (snd \<circ> propertySchema rec path) qs))"
  using assms
proof (induction qs)
  case (Cons q qs)
  obtain k v where q: "q = (k, v)" by (cases q)
  have "fst (propertySchema rec path q) = []" using Cons.prems(2) by simp
  then obtain sub o' where v: "v = JObj sub" and o': "propertySchema rec path q = ([], [(k, JObj o')])"
    "rec sub (childPath (path @ js ''.properties'') k) = ([], o')"
    by (cases v) (auto simp: q propertySchema_def split: prod.splits)
  have "propertySchema rec path' (k, JObj o') = ([], [(k, JObj o')])"
    using Cons.prems(1) [of k sub _ o'] o'(2) by (simp add: q v propertySchema_def)
  moreover have "map (propertySchema rec path') (concat (map (snd \<circ> propertySchema rec path) qs))
    = map (\<lambda>q. ([], [q])) (concat (map (snd \<circ> propertySchema rec path) qs))"
    by (rule Cons.IH) (use Cons.prems(2) in auto, use Cons.prems(1) in \<open>metis list.set_intros(2)\<close>)
  ultimately show ?case using o'(1) by simp
qed simp

lemma schemaProperties_stable:
  assumes "fst (schemaProperties rec ps path) = []"
    and "map_of out (js ''properties'') = map_of (snd (schemaProperties rec ps path)) (js ''properties'')"
    and "\<And>qs k sub p o' p'. map_of ps (js ''properties'') = Some (JObj qs) \<Longrightarrow> (k, JObj sub) \<in> set qs
      \<Longrightarrow> rec sub p = ([], o') \<Longrightarrow> rec o' p' = ([], o')"
  shows "schemaProperties rec out path' = ([], snd (schemaProperties rec ps path))"
proof (cases "map_of ps (js ''properties'')")
  case (Some v)
  show ?thesis
  proof (cases v)
    case (JObj qs)
    have "concat (map (fst \<circ> propertySchema rec path) qs) = []"
      using assms(1) Some JObj by (simp add: schemaProperties_def Let_def comp_def)
    then have eq: "map (propertySchema rec path') (concat (map (snd \<circ> propertySchema rec path) qs))
      = map (\<lambda>q. ([], [q])) (concat (map (snd \<circ> propertySchema rec path) qs))" (is "map _ ?qs = _")
      using Some JObj assms(3) by (intro propertySchemas_stable) auto
    have "concat (map fst (map (propertySchema rec path') ?qs)) = []"
      "concat (map snd (map (propertySchema rec path') ?qs)) = ?qs"
      unfolding eq by (simp_all add: comp_def)
    moreover have "map_of out (js ''properties'') = Some (JObj ?qs)"
      "snd (schemaProperties rec ps path) = [(js ''properties'', JObj ?qs)]"
      using assms(2) Some JObj by (simp_all add: schemaProperties_def Let_def)
    ultimately show ?thesis
      by (simp only: schemaProperties_def Let_def option.case json.case)
  qed (use assms Some in \<open>simp_all add: schemaProperties_def\<close>)
qed (use assms in \<open>simp add: schemaProperties_def\<close>)

text \<open>Each keyword contributes properties of its own name only.\<close>

lemma keyword_pieces:
  "fst ` set (snd (schemaType ps path)) \<subseteq> {js ''type''}"
  "fst ` set (snd (schemaRequired ps path)) \<subseteq> {js ''required''}"
  "fst ` set (snd (schemaProperties rec ps path)) \<subseteq> {js ''properties''}"
  "fst ` set (snd (schemaAdditional rec ps path)) \<subseteq> {js ''additionalProperties''}"
  "fst ` set (snd (schemaItems rec ps path)) \<subseteq> {js ''items''}"
  "fst ` set (snd (schemaEnum ps path)) \<subseteq> {js ''enum''}"
  by (auto simp: schemaType_def schemaRequired_def schemaProperties_def schemaAdditional_def schemaItems_def
    schemaEnum_def Let_def split: option.splits json.splits prod.splits list.splits if_splits)

lemma map_of_other: "fst ` set xs \<subseteq> {k} \<Longrightarrow> k' \<noteq> k \<Longrightarrow> map_of xs k' = None"
  by (auto simp: map_of_eq_None_iff)

lemma schemaWalk_stable: "schemaWalk ps path = ([], out) \<Longrightarrow> schemaWalk out path' = ([], out)"
proof (induction ps path arbitrary: out path' rule: schemaWalk.induct)
  case IH: (1 ps path)
  let ?t = "schemaType ps path" and ?r = "schemaRequired ps path" and ?p = "schemaProperties schemaWalk ps path"
    and ?a = "schemaAdditional schemaWalk ps path" and ?i = "schemaItems schemaWalk ps path" and ?e = "schemaEnum ps path"
  have walk: "joinPieces [(unsupportedKeywords ps path, []), ?t, ?r, ?p, ?a, ?i, ?e] = ([], out)"
    using IH(4) by (subst (asm) schemaWalk.simps)
  then have none: "fst ?t = []" "fst ?r = []" "fst ?p = []" "fst ?a = []" "fst ?i = []" "fst ?e = []"
    and out: "out = snd ?t @ snd ?r @ snd ?p @ snd ?a @ snd ?i @ snd ?e"
    by (auto simp: joinPieces_def)
  note keys = keyword_pieces(1) [of ps path] keyword_pieces(2) [of ps path] keyword_pieces(3) [of schemaWalk ps path]
    keyword_pieces(4) [of schemaWalk ps path] keyword_pieces(5) [of schemaWalk ps path] keyword_pieces(6) [of ps path]
  note others = map_of_other [OF keys(1)] map_of_other [OF keys(2)] map_of_other [OF keys(3)]
    map_of_other [OF keys(4)] map_of_other [OF keys(5)] map_of_other [OF keys(6)]
  have t: "schemaType out path' = ([], snd ?t)"
    by (rule schemaType_stable [OF none(1)]) (simp add: out others map_add_def split: option.splits)
  have r: "schemaRequired out path' = ([], snd ?r)"
    by (rule schemaRequired_stable [OF none(2)]) (simp add: out others map_add_def split: option.splits)
  have p: "schemaProperties schemaWalk out path' = ([], snd ?p)"
    by (rule schemaProperties_stable [OF none(3)])
       (use IH(1) in \<open>simp_all add: out others map_add_def split: option.splits\<close>)
  have a: "schemaAdditional schemaWalk out path' = ([], snd ?a)"
    by (rule schemaAdditional_stable [OF none(4)])
       (use IH(2) in \<open>simp_all add: out others map_add_def split: option.splits\<close>)
  have i: "schemaItems schemaWalk out path' = ([], snd ?i)"
    by (rule schemaItems_stable [OF none(5)])
       (use IH(3) in \<open>simp_all add: out others map_add_def split: option.splits\<close>)
  have e: "schemaEnum out path' = ([], snd ?e)"
    by (rule schemaEnum_stable [OF none(6)]) (simp add: out others map_add_def split: option.splits)
  have "fst ` set out \<subseteq> set SCHEMA_KEYWORDS"
    using keys by (auto simp: out SCHEMA_KEYWORDS_def)
  then have "unsupportedKeywords out path' = []"
    by (auto simp: unsupportedKeywords_def)
  then show ?case
    using t r p a i e by (subst schemaWalk.simps) (simp add: joinPieces_def out)
qed

section \<open>The exported validator\<close>

definition validateAgainstSchema :: "json \<Rightarrow> schema \<Rightarrow> jstr \<Rightarrow> jstr list" where
  "validateAgainstSchema v s path =
     (case parseJsonTree v of
        Inl e \<Rightarrow> [path @ js '': invalid JSON value ('' @ errReason e @ js '' at '' @ errPath e @ js '')'']
      | Inr w \<Rightarrow>
          (case normalizeSchemaTree (JObj s) of
             Inl es \<Rightarrow> map (\<lambda>e. path @ js '': invalid JSON schema at '' @ sePath e @ js '': '' @ seMessage e) es
           | Inr n \<Rightarrow> validateNormalized w n path))"

definition isValidAgainstSchema :: "json \<Rightarrow> schema \<Rightarrow> bool" where
  "isValidAgainstSchema v s \<longleftrightarrow> validateAgainstSchema v s (js ''$'') = []"

lemma normalizeParsedSchema_Inl: "normalizeParsedSchema r = Inl es \<Longrightarrow> es \<noteq> []"
  by (auto simp: normalizeParsedSchema_def split: sum.splits json.splits prod.splits if_splits)

lemma normalizeParsedSchema_Inr:
  "normalizeParsedSchema r = Inr s \<longleftrightarrow> (\<exists>ps. r = Inr (JObj ps) \<and> schemaWalk ps (js ''$schema'') = ([], s))"
  by (auto simp: normalizeParsedSchema_def split: sum.splits json.splits prod.splits if_splits)

lemma parseJsonTree_Inr:
  assumes "jsonOrdered v"
  shows "parseJsonTree v = Inr w \<longleftrightarrow> jsonFinite v \<and> jsonDepth v \<le> MAX_JSON_DEPTH \<and> w = v"
  using assms recheck_ok(1) [of 0 v "js ''$''"] recheck_Inr(1) [of v "js ''$''" 0]
  by (auto simp: parseJsonTree_def)

text \<open>Texts of bounded values exist, and do not depend on the order of keys.\<close>

lemma canonicalStringify_exists: "jsonDepth v \<le> MAX_JSON_DEPTH \<Longrightarrow> \<exists>t. canonicalStringify v = Inr t"
  using canonicalize_exists [of v] by (auto simp: canonicalStringify_def)

lemma canonicalStringify_same: "sameJson v w \<Longrightarrow> canonicalStringify v = canonicalStringify w"
  by (simp add: canonicalStringify_def canonicalize_same)

lemma enumAdmits_same: "map_of s (js ''enum'') = Some (JArr cs) \<Longrightarrow> c \<in> set cs \<Longrightarrow> sameJson c v \<Longrightarrow> enumAdmits s v"
  using canonicalStringify_same by (fastforce simp: enumAdmits_def list_ex_iff)

section \<open>Properties\<close>

text \<open>
  C22: the exported validator accepts a value exactly when the value is finite JSON of bounded
  depth, the schema normalizes, and the value satisfies the normalized schema; in particular an
  unsupported or malformed schema accepts nothing.
\<close>

theorem validator_meaning:
  assumes "jsonOrdered v"
  shows "isValidAgainstSchema v s \<longleftrightarrow>
    jsonFinite v \<and> jsonDepth v \<le> MAX_JSON_DEPTH \<and> (\<exists>n. normalizeSchemaTree (JObj s) = Inr n \<and> satisfies v n)"
proof (cases "parseJsonTree v")
  case (Inl e)
  then show ?thesis
    using parseJsonTree_Inr [OF assms, of v] by (auto simp: isValidAgainstSchema_def validateAgainstSchema_def)
next
  case (Inr w)
  then have w: "w = v" "jsonFinite v" "jsonDepth v \<le> MAX_JSON_DEPTH"
    using parseJsonTree_Inr [OF assms, of w] by auto
  show ?thesis
    using Inr w normalizeParsedSchema_Inl validateNormalized_satisfies
    by (cases "normalizeSchemaTree (JObj s)")
       (auto simp: isValidAgainstSchema_def validateAgainstSchema_def normalizeSchemaTree_def)
qed

theorem validator_meaning_witness:
  "isValidAgainstSchema (JStr (js ''x'')) [(js ''type'', JStr (js ''string''))]
   \<and> \<not> isValidAgainstSchema (JBool True) [(js ''type'', JStr (js ''string''))]"
proof -
  have tree: "parseJsonTree (JObj [(js ''type'', JStr (js ''string''))]) = Inr (JObj [(js ''type'', JStr (js ''string''))])"
    by (subst parseJsonTree_Inr) (auto simp: propsOrdered_def MAX_JSON_DEPTH_def)
  have "schemaWalk [(js ''type'', JStr (js ''string''))] (js ''$schema'') = ([], [(js ''type'', JStr (js ''string''))])"
    by (subst schemaWalk.simps) (simp add: joinPieces_def unsupportedKeywords_def SCHEMA_KEYWORDS_def schemaType_def
      SUPPORTED_SCHEMA_TYPES_def schemaRequired_def schemaProperties_def schemaAdditional_def schemaItems_def schemaEnum_def)
  then have n: "normalizeSchemaTree (JObj [(js ''type'', JStr (js ''string''))]) = Inr [(js ''type'', JStr (js ''string''))]"
    by (simp add: normalizeSchemaTree_def normalizeParsedSchema_def tree)
  have s: "satisfies (JStr (js ''x'')) [(js ''type'', JStr (js ''string''))]"
    "\<not> satisfies (JBool True) [(js ''type'', JStr (js ''string''))]"
    by (subst satisfies.simps, simp add: typeMismatch_def schemaTypeName_def matchesType_def enumAdmits_def)+
  show ?thesis
    using validator_meaning [of "JStr (js ''x'')"] validator_meaning [of "JBool True"] n s
    by (simp add: MAX_JSON_DEPTH_def)
qed



end
