(* ===== verification/Program.thy ===== *)
theory Program
  imports Schema
begin

text \<open>
  Normalization of a launcher's program (\<open>src/src/core/program.ts\<close>): untrusted heap values in,
  either every error of the payload or a program whose names, schemas and texts are checked.
  Functions that push errors return the errors they push, in order, beside their value.
\<close>

section \<open>Data\<close>

definition RESERVED_NAMES :: "jstr list" where
  "RESERVED_NAMES =
     map js [''objective'', ''input'', ''inputs'', ''variables'', ''budget'', ''workspace'', ''console'', ''llm'', ''agent'',
       ''recurse'', ''phase'', ''checkpoint'', ''emit'', ''answer'', ''contexts'', ''artifacts'', ''tools'']"

definition UNSAFE_NAMES :: "jstr list" where
  "UNSAFE_NAMES = map js [''__proto__'', ''constructor'', ''prototype'']"

record rlm_input =
  inName :: jstr
  inAdapter :: jstr
  inDescription :: jstr
  inConstraints :: "jstr option"

record rlm_output =
  outName :: jstr
  outSchema :: schema
  outDescription :: "jstr option"

record rlm_program =
  pgObjective :: jstr
  pgInputs :: "rlm_input list"
  pgOutputs :: "rlm_output list"
  pgProfile :: jstr
  pgMetadata :: "schema option"

datatype program_error = ProgramError (pePath: jstr) (peMessage: jstr)

section \<open>Reading untrusted values\<close>

text \<open>\<open>String.prototype.trim\<close>: white space and line terminators of the language.\<close>

definition isJsSpace :: "16 word \<Rightarrow> bool" where
  "isJsSpace c \<longleftrightarrow>
     (9 \<le> c \<and> c \<le> 13) \<or> c = 32 \<or> c = 160 \<or> c = 0x1680 \<or> (0x2000 \<le> c \<and> c \<le> 0x200A)
     \<or> c = 0x2028 \<or> c = 0x2029 \<or> c = 0x202F \<or> c = 0x205F \<or> c = 0x3000 \<or> c = 0xFEFF"

definition trim :: "jstr \<Rightarrow> jstr" where
  "trim s = rev (dropWhile isJsSpace (rev (dropWhile isJsSpace s)))"

definition isRecord :: "heap \<Rightarrow> jsval \<Rightarrow> bool" where
  "isRecord h v = (case v of VRef a \<Rightarrow> (case h a of OObject _ \<Rightarrow> True | OArray _ \<Rightarrow> False) | _ \<Rightarrow> False)"

definition slotValue :: "slot \<Rightarrow> jsval" where
  "slotValue s = (case s of Hole \<Rightarrow> VUndefined | Accessor v \<Rightarrow> v | Data v \<Rightarrow> v)"

text \<open>\<open>record[key]\<close> on a record; a getter runs and yields its value.\<close>

definition getProp :: "heap \<Rightarrow> jsval \<Rightarrow> jstr \<Rightarrow> jsval" where
  "getProp h v key =
     (case v of
        VRef a \<Rightarrow> (case h a of
           OObject props \<Rightarrow> (case map_of props key of None \<Rightarrow> VUndefined | Some s \<Rightarrow> slotValue s)
         | OArray _ \<Rightarrow> VUndefined)
      | _ \<Rightarrow> VUndefined)"

definition arraySlots :: "heap \<Rightarrow> jsval \<Rightarrow> slot list option" where
  "arraySlots h v =
     (case v of VRef a \<Rightarrow> (case h a of OArray ss \<Rightarrow> Some ss | OObject _ \<Rightarrow> None) | _ \<Rightarrow> None)"

text \<open>The indices and values \<open>forEach\<close> visits: holes are skipped.\<close>

definition visited :: "slot list \<Rightarrow> (nat \<times> jsval) list" where
  "visited ss = map (\<lambda>(i, s). (i, slotValue s)) (filter (\<lambda>(i, s). s \<noteq> Hole) (enumerate 0 ss))"

definition quoteName :: "jstr \<Rightarrow> jstr" where
  "quoteName s = [34] @ s @ [34]"

definition reqString :: "jsval \<Rightarrow> jstr \<Rightarrow> bool \<Rightarrow> program_error list \<times> jstr" where
  "reqString v path allowEmpty =
     (case v of
        VStr s \<Rightarrow>
          (if \<not> allowEmpty \<and> trim s = [] then [ProgramError path (js ''must not be empty'')] else [], trim s)
      | _ \<Rightarrow> ([ProgramError path (js ''must be a string'')], []))"

definition validateName :: "jstr \<Rightarrow> jstr \<Rightarrow> bool \<Rightarrow> program_error list" where
  "validateName name path allowReserved =
     (if \<not> isIdentifier name then [ProgramError path (quoteName name @ js '' is not a valid identifier'')]
      else if name \<in> set UNSAFE_NAMES then [ProgramError path (quoteName name @ js '' is not a safe identifier'')]
      else if \<not> allowReserved \<and> name \<in> set RESERVED_NAMES
      then [ProgramError path (quoteName name @ js '' is a reserved name'')]
      else [])"

section \<open>Inputs and outputs\<close>

definition normalizeInput :: "heap \<Rightarrow> jsval \<Rightarrow> nat \<Rightarrow> program_error list \<times> rlm_input" where
  "normalizeInput h raw index =
     (let path = indexPath (js ''inputs'') index
      in if \<not> isRecord h raw
         then ([ProgramError path (js ''must be an object'')],
               \<lparr>inName = [], inAdapter = [], inDescription = [], inConstraints = None\<rparr>)
         else let (e1, name) = reqString (getProp h raw (js ''name'')) (path @ js ''.name'') False;
                  e2 = (if name \<noteq> [] then validateName name (path @ js ''.name'') False else []);
                  (e3, adapter) = reqString (getProp h raw (js ''adapter'')) (path @ js ''.adapter'') False;
                  (e4, description) = reqString (getProp h raw (js ''description'')) (path @ js ''.description'') True
              in (e1 @ e2 @ e3 @ e4,
                  \<lparr>inName = name, inAdapter = adapter, inDescription = description,
                   inConstraints = (case getProp h raw (js ''constraints'') of VStr s \<Rightarrow> Some (trim s) | _ \<Rightarrow> None)\<rparr>))"

definition schemaErrorPath :: "jstr \<Rightarrow> jstr" where
  "schemaErrorPath p = (if isPrefix (js ''$schema'') p then drop 7 p else drop 1 p)"

definition normalizeOutput :: "heap \<Rightarrow> jsval \<Rightarrow> nat \<Rightarrow> program_error list \<times> rlm_output" where
  "normalizeOutput h raw index =
     (let path = indexPath (js ''outputs'') index
      in if \<not> isRecord h raw
         then ([ProgramError path (js ''must be an object'')], \<lparr>outName = [], outSchema = [], outDescription = None\<rparr>)
         else let (e1, name) = reqString (getProp h raw (js ''name'')) (path @ js ''.name'') False;
                  e2 = (if name \<noteq> [] then validateName name (path @ js ''.name'') True else []);
                  normalized = normalizeJsonSchema h (getProp h raw (js ''schema''));
                  e3 = (case normalized of
                          Inl es \<Rightarrow> map (\<lambda>e. ProgramError (path @ js ''.schema'' @ schemaErrorPath (sePath e)) (seMessage e)) es
                        | Inr _ \<Rightarrow> [])
              in (e1 @ e2 @ e3,
                  \<lparr>outName = name, outSchema = (case normalized of Inl _ \<Rightarrow> [] | Inr s \<Rightarrow> s),
                   outDescription = (case getProp h raw (js ''description'') of VStr s \<Rightarrow> Some (trim s) | _ \<Rightarrow> None)\<rparr>))"

text \<open>The two duplicate scans; the empty name is never reported.\<close>

fun duplicateErrors :: "jstr \<Rightarrow> string \<Rightarrow> jstr list \<Rightarrow> jstr list \<Rightarrow> program_error list" where
  "duplicateErrors path what [] seen = []"
| "duplicateErrors path what (n # ns) seen =
     (if n \<noteq> [] \<and> n \<in> set seen then [ProgramError path (js ''duplicate '' @ js what @ js '' '' @ quoteName n)] else [])
     @ duplicateErrors path what ns (n # seen)"

section \<open>normalizeProgram\<close>

definition normalizeMetadata :: "heap \<Rightarrow> jsval \<Rightarrow> program_error list \<times> schema option" where
  "normalizeMetadata h v =
     (if v = VUndefined then ([], None)
      else case parseJsonValue h v of
             Inl e \<Rightarrow> ([ProgramError (js ''metadata'') (js ''invalid metadata: '' @ errReason e)], None)
           | Inr (JObj ps) \<Rightarrow> ([], Some ps)
           | Inr _ \<Rightarrow> ([ProgramError (js ''metadata'') (js ''metadata must be a JSON object'')], None))"

definition normalizeProgram :: "heap \<Rightarrow> jsval \<Rightarrow> program_error list + rlm_program" where
  "normalizeProgram h input =
     (if \<not> isRecord h input then Inl [ProgramError (js ''$'') (js ''program must be an object'')]
      else
        let (e1, objective) = reqString (getProp h input (js ''objective'')) (js ''objective'') False;
            profileRaw = getProp h input (js ''profile'');
            (e2, profile) = reqString (if profileRaw = VUndefined \<or> profileRaw = VNull then VStr (js ''default'') else profileRaw)
                              (js ''profile'') False;
            inputsRaw = arraySlots h (getProp h input (js ''inputs''));
            ins = (case inputsRaw of None \<Rightarrow> [] | Some ss \<Rightarrow> map (\<lambda>(i, v). normalizeInput h v i) (visited ss));
            e3 = (if inputsRaw = None then [ProgramError (js ''inputs'') (js ''must be an array'')] else concat (map fst ins));
            e4 = duplicateErrors (js ''inputs'') ''input'' (map (inName \<circ> snd) ins) [];
            outputsRaw = arraySlots h (getProp h input (js ''outputs''));
            outs = (case outputsRaw of None \<Rightarrow> [] | Some ss \<Rightarrow> map (\<lambda>(i, v). normalizeOutput h v i) (visited ss));
            e5 = (if outputsRaw = None then [ProgramError (js ''outputs'') (js ''must be an array'')] else concat (map fst outs));
            e6 = (if outputsRaw = Some [] then [ProgramError (js ''outputs'') (js ''at least one output is required'')] else []);
            e7 = duplicateErrors (js ''outputs'') ''output'' (map (outName \<circ> snd) outs) [];
            (e8, metadata) = normalizeMetadata h (getProp h input (js ''metadata''));
            errors = e1 @ e2 @ e3 @ e4 @ e5 @ e6 @ e7 @ e8
        in if errors \<noteq> [] then Inl errors
           else Inr \<lparr>pgObjective = objective, pgInputs = map snd ins, pgOutputs = map snd outs, pgProfile = profile,
                     pgMetadata = metadata\<rparr>)"

section \<open>Shorthand and identity\<close>

record shorthand_spec =
  shObjective :: jstr
  shAdapter :: "jstr option"
  shProfile :: "jstr option"

text \<open>The object literal of \<open>compileShorthand\<close>, laid out at fixed addresses.\<close>

definition shorthandHeap :: "shorthand_spec \<Rightarrow> heap" where
  "shorthandHeap spec = (\<lambda>a.
     if a = 0 then OObject
       [(js ''objective'', Data (VStr (shObjective spec))),
        (js ''profile'', Data (VStr (case shProfile spec of None \<Rightarrow> js ''default'' | Some p \<Rightarrow> p))),
        (js ''inputs'', Data (VRef 1)), (js ''outputs'', Data (VRef 3))]
     else if a = 1 then OArray [Data (VRef 2)]
     else if a = 2 then OObject
       [(js ''name'', Data (VStr (js ''context''))),
        (js ''adapter'', Data (VStr (case shAdapter spec of None \<Rightarrow> js ''text'' | Some t \<Rightarrow> t))),
        (js ''description'', Data (VStr (js ''Primary source context.'')))]
     else if a = 3 then OArray [Data (VRef 4)]
     else if a = 4 then OObject
       [(js ''name'', Data (VStr (js ''answer''))),
        (js ''description'', Data (VStr (js ''Final answer to the objective.''))),
        (js ''schema'', Data (VRef 5))]
     else OObject [(js ''type'', Data (VStr (js ''string'')))])"

definition compileShorthand :: "shorthand_spec \<Rightarrow> program_error list + rlm_program" where
  "compileShorthand spec = normalizeProgram (shorthandHeap spec) (VRef 0)"

definition programIdentity :: "rlm_program \<Rightarrow> json" where
  "programIdentity p =
     JObj [(js ''objective'', JStr (pgObjective p)),
           (js ''profile'', JStr (pgProfile p)),
           (js ''inputs'', JArr (map (\<lambda>i. JObj [(js ''name'', JStr (inName i)), (js ''adapter'', JStr (inAdapter i))]) (pgInputs p))),
           (js ''outputs'', JArr (map (\<lambda>oo. JObj [(js ''name'', JStr (outName oo)), (js ''schema'', JObj (outSchema oo))]) (pgOutputs p)))]"

section \<open>What an accepted program looks like\<close>

definition nameOk :: "jstr \<Rightarrow> bool" where
  "nameOk n \<longleftrightarrow> isIdentifier n \<and> n \<notin> set UNSAFE_NAMES"

definition inputOk :: "rlm_input \<Rightarrow> bool" where
  "inputOk i \<longleftrightarrow> nameOk (inName i) \<and> inName i \<notin> set RESERVED_NAMES \<and> inAdapter i \<noteq> []"

definition outputOk :: "rlm_output \<Rightarrow> bool" where
  "outputOk oo \<longleftrightarrow> nameOk (outName oo) \<and> (\<forall>path. schemaWalk (outSchema oo) path = ([], outSchema oo))"

definition programOk :: "rlm_program \<Rightarrow> bool" where
  "programOk p \<longleftrightarrow>
     pgObjective p \<noteq> [] \<and> pgProfile p \<noteq> []
     \<and> list_all inputOk (pgInputs p) \<and> distinct (map inName (pgInputs p))
     \<and> list_all outputOk (pgOutputs p) \<and> distinct (map outName (pgOutputs p))"

lemma reqString_Nil:
  "fst (reqString v path False) = [] \<longleftrightarrow> (\<exists>s. v = VStr s \<and> trim s \<noteq> [])"
  by (cases v) (auto simp: reqString_def)

lemma reqString_value: "fst (reqString v path False) = [] \<Longrightarrow> snd (reqString v path False) \<noteq> []"
  by (cases v) (auto simp: reqString_def split: if_splits)

lemma validateName_Nil:
  "validateName n path allow = [] \<longleftrightarrow> nameOk n \<and> (allow \<or> n \<notin> set RESERVED_NAMES)"
  by (auto simp: validateName_def nameOk_def)

lemma isIdentifier_nonempty: "isIdentifier n \<Longrightarrow> n \<noteq> []"
  by (auto simp: isIdentifier_def)

lemma normalizeInput_Nil:
  assumes "fst (normalizeInput h raw i) = []"
  shows "inputOk (snd (normalizeInput h raw i))"
proof -
  have r: "isRecord h raw" using assms by (auto simp: normalizeInput_def Let_def split: if_splits)
  let ?n = "reqString (getProp h raw (js ''name'')) (indexPath (js ''inputs'') i @ js ''.name'') False"
  let ?a = "reqString (getProp h raw (js ''adapter'')) (indexPath (js ''inputs'') i @ js ''.adapter'') False"
  have e: "fst ?n = []" "fst ?a = []"
    "snd ?n \<noteq> [] \<longrightarrow> validateName (snd ?n) (indexPath (js ''inputs'') i @ js ''.name'') False = []"
    using assms r by (auto simp: normalizeInput_def Let_def split: prod.splits if_splits)
  have v: "inName (snd (normalizeInput h raw i)) = snd ?n" "inAdapter (snd (normalizeInput h raw i)) = snd ?a"
    using r by (auto simp: normalizeInput_def Let_def split: prod.splits)
  show ?thesis
    using e(3) reqString_value [OF e(1)] reqString_value [OF e(2)] by (simp add: inputOk_def v validateName_Nil)
qed

lemma normalizeOutput_Nil:
  assumes "fst (normalizeOutput h raw i) = []"
  shows "outputOk (snd (normalizeOutput h raw i))"
proof -
  have r: "isRecord h raw" using assms by (auto simp: normalizeOutput_def Let_def split: if_splits)
  let ?n = "reqString (getProp h raw (js ''name'')) (indexPath (js ''outputs'') i @ js ''.name'') False"
  have e: "fst ?n = []" "snd ?n \<noteq> [] \<longrightarrow> validateName (snd ?n) (indexPath (js ''outputs'') i @ js ''.name'') True = []"
    and s: "\<forall>es. normalizeJsonSchema h (getProp h raw (js ''schema'')) = Inl es \<longrightarrow> es = []"
    using assms r by (auto simp: normalizeOutput_def Let_def split: prod.splits if_splits)
  obtain sc where sc: "normalizeJsonSchema h (getProp h raw (js ''schema'')) = Inr sc"
    using s normalizeParsedSchema_Inl
    by (cases "normalizeJsonSchema h (getProp h raw (js ''schema''))") (auto simp: normalizeJsonSchema_def)
  then have "schemaWalk sc path = ([], sc)" for path
    using schemaWalk_stable by (auto simp: normalizeJsonSchema_def normalizeParsedSchema_Inr)
  moreover have "outName (snd (normalizeOutput h raw i)) = snd ?n" "outSchema (snd (normalizeOutput h raw i)) = sc"
    using r sc by (auto simp: normalizeOutput_def Let_def split: prod.splits)
  ultimately show ?thesis
    using e(2) reqString_value [OF e(1)] by (simp add: outputOk_def validateName_Nil)
qed

lemma duplicateErrors_Nil:
  "duplicateErrors path what ns seen = [] \<Longrightarrow> [] \<notin> set ns \<Longrightarrow> distinct ns \<and> set ns \<inter> set seen = {}"
proof (induction ns arbitrary: seen)
  case (Cons n ns)
  then show ?case using Cons.IH [of "n # seen"] by (auto split: if_splits)
qed simp

lemma normalizeProgram_parts:
  assumes "normalizeProgram h v = Inr p"
  obtains ins outs where "arraySlots h (getProp h v (js ''inputs'')) = Some ins"
    and "arraySlots h (getProp h v (js ''outputs'')) = Some outs" and "outs \<noteq> []"
    and "pgInputs p = map (\<lambda>(i, w). snd (normalizeInput h w i)) (visited ins)"
    and "pgOutputs p = map (\<lambda>(i, w). snd (normalizeOutput h w i)) (visited outs)"
    and "\<forall>(i, w)\<in>set (visited ins). fst (normalizeInput h w i) = []"
    and "\<forall>(i, w)\<in>set (visited outs). fst (normalizeOutput h w i) = []"
    and "duplicateErrors (js ''inputs'') ''input'' (map inName (pgInputs p)) [] = []"
    and "duplicateErrors (js ''outputs'') ''output'' (map outName (pgOutputs p)) [] = []"
    and "pgObjective p \<noteq> []" and "pgProfile p \<noteq> []"
proof -
  let ?pr = "getProp h v (js ''profile'')"
  let ?o = "reqString (getProp h v (js ''objective'')) (js ''objective'') False"
  let ?p = "reqString (if ?pr = VUndefined \<or> ?pr = VNull then VStr (js ''default'') else ?pr) (js ''profile'') False"
  let ?in = "arraySlots h (getProp h v (js ''inputs''))" and ?out = "arraySlots h (getProp h v (js ''outputs''))"
  have "isRecord h v" using assms by (auto simp: normalizeProgram_def split: if_splits)
  note body = assms [unfolded normalizeProgram_def Let_def, simplified this, simplified]
  obtain ins where ins: "?in = Some ins" using body by (cases ?in) (auto split: prod.splits if_splits)
  obtain outs where outs: "?out = Some outs" "outs \<noteq> []"
    using body by (cases ?out) (auto split: prod.splits if_splits)
  have e: "fst ?o = []" "fst ?p = []" "pgObjective p = snd ?o" "pgProfile p = snd ?p"
    "pgInputs p = map (\<lambda>(i, w). snd (normalizeInput h w i)) (visited ins)"
    "pgOutputs p = map (\<lambda>(i, w). snd (normalizeOutput h w i)) (visited outs)"
    "\<forall>(i, w)\<in>set (visited ins). fst (normalizeInput h w i) = []"
    "\<forall>(i, w)\<in>set (visited outs). fst (normalizeOutput h w i) = []"
    "duplicateErrors (js ''inputs'') ''input'' (map inName (pgInputs p)) [] = []"
    "duplicateErrors (js ''outputs'') ''output'' (map outName (pgOutputs p)) [] = []"
    using body ins outs by (auto simp: comp_def split_def split: prod.splits if_splits)
  show thesis
    by (rule that [OF ins outs e(5-10)]) (use e reqString_value in auto)
qed

lemma normalizeProgram_ok:
  assumes "normalizeProgram h v = Inr p"
  shows "programOk p"
proof -
  obtain ins outs where
    ins: "pgInputs p = map (\<lambda>(i, w). snd (normalizeInput h w i)) (visited ins)"
      "\<forall>(i, w)\<in>set (visited ins). fst (normalizeInput h w i) = []"
      "duplicateErrors (js ''inputs'') ''input'' (map inName (pgInputs p)) [] = []"
    and outs: "pgOutputs p = map (\<lambda>(i, w). snd (normalizeOutput h w i)) (visited outs)"
      "\<forall>(i, w)\<in>set (visited outs). fst (normalizeOutput h w i) = []"
      "duplicateErrors (js ''outputs'') ''output'' (map outName (pgOutputs p)) [] = []"
    and texts: "pgObjective p \<noteq> []" "pgProfile p \<noteq> []"
    by (rule normalizeProgram_parts [OF assms])
  have i: "list_all inputOk (pgInputs p)"
    using ins(1,2) normalizeInput_Nil by (auto simp: list_all_iff)
  have o': "list_all outputOk (pgOutputs p)"
    using outs(1,2) normalizeOutput_Nil by (auto simp: list_all_iff)
  have "[] \<notin> set (map inName (pgInputs p))" "[] \<notin> set (map outName (pgOutputs p))"
    using i o' isIdentifier_nonempty by (fastforce simp: list_all_iff inputOk_def outputOk_def nameOk_def)+
  then show ?thesis
    using duplicateErrors_Nil ins(3) outs(3) i o' texts by (auto simp: programOk_def)
qed

lemma visited_length: "Hole \<notin> set ss \<Longrightarrow> length (visited ss) = length ss"
proof -
  assume "Hole \<notin> set ss"
  then have "filter (\<lambda>(i, s). s \<noteq> Hole) (enumerate 0 ss) = enumerate 0 ss"
    by (auto simp: filter_id_conv dest: enumerate_member)
  then show ?thesis by (simp add: visited_def)
qed

section \<open>Properties\<close>


text \<open>The texts of the shorthand's literals are already trimmed.\<close>

lemma dropWhile_hd: "xs \<noteq> [] \<Longrightarrow> \<not> P (hd xs) \<Longrightarrow> dropWhile P xs = xs"
  by (cases xs) auto

lemma trim_ends: "s \<noteq> [] \<Longrightarrow> \<not> isJsSpace (hd s) \<Longrightarrow> \<not> isJsSpace (last s) \<Longrightarrow> trim s = s"
  by (simp add: trim_def dropWhile_hd hd_rev)

lemma shorthand_literals:
  "trim (js ''Primary source context.'') = js ''Primary source context.''"
  "trim (js ''context'') = js ''context''" "trim (js ''answer'') = js ''answer''"
  "trim (js ''Final answer to the objective.'') = js ''Final answer to the objective.''"
  by (rule trim_ends; simp add: js_def isJsSpace_def)+

lemma shorthand_names:
  "nameOk (js ''context'')" "nameOk (js ''answer'')" "js ''context'' \<notin> set RESERVED_NAMES"
  by (simp_all add: nameOk_def UNSAFE_NAMES_def RESERVED_NAMES_def isIdentifier_def js_Cons isIdentStart_def isIdentPart_def)

lemma represents_stringSchema:
  "parseJsonValue (shorthandHeap spec) (VRef 5) = Inr (JObj [(js ''type'', JStr (js ''string''))])"
proof -
  have "shorthandHeap spec 5 = OObject [(js ''type'', Data (VStr (js ''string'')))]"
    by (simp add: shorthandHeap_def)
  then show ?thesis
    by (simp add: parseJsonValue_def walk.simps walkProps.simps MAX_JSON_DEPTH_def objOf_ordered propsOrdered_def)
qed

lemma schemaWalk_stringSchema:
  "schemaWalk [(js ''type'', JStr (js ''string''))] path = ([], [(js ''type'', JStr (js ''string''))])"
  by (subst schemaWalk.simps) (simp add: joinPieces_def unsupportedKeywords_def SCHEMA_KEYWORDS_def schemaType_def
    SUPPORTED_SCHEMA_TYPES_def schemaRequired_def schemaProperties_def schemaAdditional_def schemaItems_def schemaEnum_def)

lemma stringSchema:
  "normalizeJsonSchema (shorthandHeap spec) (VRef 5) = Inr [(js ''type'', JStr (js ''string''))]"
  by (simp add: normalizeJsonSchema_def represents_stringSchema normalizeParsedSchema_def schemaWalk_stringSchema)

lemma reqString_VStr: "trim s \<noteq> [] \<Longrightarrow> reqString (VStr s) path e = ([], trim s)"
  by (simp add: reqString_def)

lemma js_literal_nonempty: "js (c # s) \<noteq> []"
  by simp

abbreviation shorthandAdapter :: "shorthand_spec \<Rightarrow> jstr" where
  "shorthandAdapter spec \<equiv> (case shAdapter spec of None \<Rightarrow> js ''text'' | Some t \<Rightarrow> t)"

abbreviation shorthandProfile :: "shorthand_spec \<Rightarrow> jstr" where
  "shorthandProfile spec \<equiv> (case shProfile spec of None \<Rightarrow> js ''default'' | Some p \<Rightarrow> p)"

lemma shorthand_input:
  "normalizeInput (shorthandHeap spec) (VRef 2) 0 =
    (if trim (shorthandAdapter spec) = [] then [ProgramError (indexPath (js ''inputs'') 0 @ js ''.adapter'') (js ''must not be empty'')] else [],
     \<lparr>inName = js ''context'', inAdapter = trim (shorthandAdapter spec),
      inDescription = js ''Primary source context.'', inConstraints = None\<rparr>)"
  using shorthand_names
  by (simp add: normalizeInput_def isRecord_def shorthandHeap_def getProp_def slotValue_def reqString_def Let_def
    shorthand_literals validateName_def nameOk_def)

lemma shorthand_output:
  "normalizeOutput (shorthandHeap spec) (VRef 4) 0 =
    ([], \<lparr>outName = js ''answer'', outSchema = [(js ''type'', JStr (js ''string''))],
          outDescription = Some (js ''Final answer to the objective.'')\<rparr>)"
proof -
  have r: "isRecord (shorthandHeap spec) (VRef 4)" by (simp add: isRecord_def shorthandHeap_def)
  have g: "getProp (shorthandHeap spec) (VRef 4) (js ''name'') = VStr (js ''answer'')"
    "getProp (shorthandHeap spec) (VRef 4) (js ''schema'') = VRef 5"
    "getProp (shorthandHeap spec) (VRef 4) (js ''description'') = VStr (js ''Final answer to the objective.'')"
    by (simp_all add: getProp_def shorthandHeap_def slotValue_def)
  show ?thesis
    using shorthand_names
    by (simp add: normalizeOutput_def r g stringSchema reqString_def Let_def shorthand_literals validateName_def nameOk_def)
qed

lemma compileShorthand_eq:
  "compileShorthand spec =
     (let es = (if trim (shObjective spec) = [] then [ProgramError (js ''objective'') (js ''must not be empty'')] else [])
          @ (if trim (shorthandProfile spec) = [] then [ProgramError (js ''profile'') (js ''must not be empty'')] else [])
          @ (if trim (shorthandAdapter spec) = []
             then [ProgramError (indexPath (js ''inputs'') 0 @ js ''.adapter'') (js ''must not be empty'')] else [])
      in if es \<noteq> [] then Inl es
         else Inr \<lparr>pgObjective = trim (shObjective spec),
           pgInputs = [\<lparr>inName = js ''context'', inAdapter = trim (shorthandAdapter spec),
                        inDescription = js ''Primary source context.'', inConstraints = None\<rparr>],
           pgOutputs = [\<lparr>outName = js ''answer'', outSchema = [(js ''type'', JStr (js ''string''))],
                         outDescription = Some (js ''Final answer to the objective.'')\<rparr>],
           pgProfile = trim (shorthandProfile spec), pgMetadata = None\<rparr>)"
proof -
  have r: "isRecord (shorthandHeap spec) (VRef 0)" by (simp add: isRecord_def shorthandHeap_def)
  have g: "getProp (shorthandHeap spec) (VRef 0) (js ''objective'') = VStr (shObjective spec)"
    "getProp (shorthandHeap spec) (VRef 0) (js ''profile'') = VStr (shorthandProfile spec)"
    "getProp (shorthandHeap spec) (VRef 0) (js ''inputs'') = VRef (Suc 0)"
    "getProp (shorthandHeap spec) (VRef 0) (js ''outputs'') = VRef 3"
    "getProp (shorthandHeap spec) (VRef 0) (js ''metadata'') = VUndefined"
    by (simp_all add: getProp_def shorthandHeap_def slotValue_def)
  have a: "arraySlots (shorthandHeap spec) (VRef (Suc 0)) = Some [Data (VRef 2)]"
    "arraySlots (shorthandHeap spec) (VRef 3) = Some [Data (VRef 4)]"
    by (simp_all add: arraySlots_def shorthandHeap_def)
  show ?thesis
    by (simp add: compileShorthand_def normalizeProgram_def r g a visited_def slotValue_def enumerate_eq_zip
      shorthand_input shorthand_output reqString_def normalizeMetadata_def Let_def)
qed

text \<open>
  The shorthand compiles exactly when objective, profile and adapter are not blank, to the program
  with the one input \<open>context\<close> and the one string output \<open>answer\<close>.
\<close>

theorem compileShorthand_exact:
  "compileShorthand spec =
     (let es = (if trim (shObjective spec) = [] then [ProgramError (js ''objective'') (js ''must not be empty'')] else [])
          @ (if trim (shorthandProfile spec) = [] then [ProgramError (js ''profile'') (js ''must not be empty'')] else [])
          @ (if trim (shorthandAdapter spec) = []
             then [ProgramError (indexPath (js ''inputs'') 0 @ js ''.adapter'') (js ''must not be empty'')] else [])
      in if es \<noteq> [] then Inl es
         else Inr \<lparr>pgObjective = trim (shObjective spec),
           pgInputs = [\<lparr>inName = js ''context'', inAdapter = trim (shorthandAdapter spec),
                        inDescription = js ''Primary source context.'', inConstraints = None\<rparr>],
           pgOutputs = [\<lparr>outName = js ''answer'', outSchema = [(js ''type'', JStr (js ''string''))],
                         outDescription = Some (js ''Final answer to the objective.'')\<rparr>],
           pgProfile = trim (shorthandProfile spec), pgMetadata = None\<rparr>)"
  by (rule compileShorthand_eq)


end
