(* ===== verification/Preview.thy ===== *)
theory Preview
  imports JsNumber
begin

text \<open>
  UTF-8 aware truncation of \<open>src/src/core/preview.ts\<close>, on UTF-16 strings.  The standard encoder
  and decoder are modelled as the Encoding Standard defines them: a lone surrogate encodes as
  U+FFFD, an ill-formed sequence decodes to one U+FFFD per maximal subpart, and the decoder drops
  one leading byte order mark.  Byte counts are integers.
\<close>

unbundle bit_operations_syntax

section \<open>The text encoder and decoder\<close>

definition isHigh :: "nat \<Rightarrow> bool" where
  "isHigh u \<longleftrightarrow> 0xD800 \<le> u \<and> u \<le> 0xDBFF"

definition isLow :: "nat \<Rightarrow> bool" where
  "isLow u \<longleftrightarrow> 0xDC00 \<le> u \<and> u \<le> 0xDFFF"

fun scalars :: "nat list \<Rightarrow> nat list" where
  "scalars [] = []"
| "scalars [u] = [if isHigh u \<or> isLow u then 0xFFFD else u]"
| "scalars (u # v # us) =
     (if isHigh u \<and> isLow v then (0x10000 + (u - 0xD800) * 0x400 + (v - 0xDC00)) # scalars us
      else (if isHigh u \<or> isLow u then 0xFFFD else u) # scalars (v # us))"

definition codePoints :: "jstr \<Rightarrow> nat list" where
  "codePoints s = scalars (map unat s)"

definition utf8 :: "nat \<Rightarrow> nat list" where
  "utf8 c =
     (if c < 0x80 then [c]
      else if c < 0x800 then [0xC0 + c div 64, 0x80 + c mod 64]
      else if c < 0x10000 then [0xE0 + c div 4096, 0x80 + c div 64 mod 64, 0x80 + c mod 64]
      else [0xF0 + c div 262144, 0x80 + c div 4096 mod 64, 0x80 + c div 64 mod 64, 0x80 + c mod 64])"

definition utf8s :: "nat list \<Rightarrow> nat list" where
  "utf8s cs = concat (map utf8 cs)"

text \<open>\<open>encoder.encode(text)\<close>\<close>

definition encode :: "jstr \<Rightarrow> nat list" where
  "encode s = utf8s (codePoints s)"

definition trail :: "nat \<Rightarrow> bool" where
  "trail b \<longleftrightarrow> 0x80 \<le> b \<and> b \<le> 0xBF"

fun decodeUtf8 :: "nat list \<Rightarrow> nat list" where
  "decodeUtf8 [] = []"
| "decodeUtf8 (a # bs) =
     (if a < 0x80 then a # decodeUtf8 bs
      else if 0xC2 \<le> a \<and> a \<le> 0xDF then
        (case bs of
           b # cs \<Rightarrow> if trail b then ((a - 0xC0) * 64 + (b - 0x80)) # decodeUtf8 cs else 0xFFFD # decodeUtf8 bs
         | [] \<Rightarrow> [0xFFFD])
      else if 0xE0 \<le> a \<and> a \<le> 0xEF then
        (case bs of
           b # cs \<Rightarrow>
             if trail b \<and> (a = 0xE0 \<longrightarrow> 0xA0 \<le> b) \<and> (a = 0xED \<longrightarrow> b \<le> 0x9F) then
               (case cs of
                  c # ds \<Rightarrow> if trail c then ((a - 0xE0) * 4096 + (b - 0x80) * 64 + (c - 0x80)) # decodeUtf8 ds
                            else 0xFFFD # decodeUtf8 cs
                | [] \<Rightarrow> [0xFFFD])
             else 0xFFFD # decodeUtf8 bs
         | [] \<Rightarrow> [0xFFFD])
      else if 0xF0 \<le> a \<and> a \<le> 0xF4 then
        (case bs of
           b # cs \<Rightarrow>
             if trail b \<and> (a = 0xF0 \<longrightarrow> 0x90 \<le> b) \<and> (a = 0xF4 \<longrightarrow> b \<le> 0x8F) then
               (case cs of
                  c # ds \<Rightarrow>
                    if trail c then
                      (case ds of
                         d # es \<Rightarrow> if trail d
                           then ((a - 0xF0) * 262144 + (b - 0x80) * 4096 + (c - 0x80) * 64 + (d - 0x80)) # decodeUtf8 es
                           else 0xFFFD # decodeUtf8 ds
                       | [] \<Rightarrow> [0xFFFD])
                    else 0xFFFD # decodeUtf8 cs
                | [] \<Rightarrow> [0xFFFD])
             else 0xFFFD # decodeUtf8 bs
         | [] \<Rightarrow> [0xFFFD])
      else 0xFFFD # decodeUtf8 bs)"

definition stripBom :: "nat list \<Rightarrow> nat list" where
  "stripBom cs = (case cs of [] \<Rightarrow> [] | c # ds \<Rightarrow> if c = 0xFEFF then ds else cs)"

definition utf16 :: "nat \<Rightarrow> nat list" where
  "utf16 c = (if c < 0x10000 then [c] else [0xD800 + (c - 0x10000) div 0x400, 0xDC00 + (c - 0x10000) mod 0x400])"

text \<open>\<open>decoder.decode(bytes)\<close>\<close>

definition decode :: "nat list \<Rightarrow> jstr" where
  "decode bs = map word_of_nat (concat (map utf16 (stripBom (decodeUtf8 bs))))"

section \<open>Truncation\<close>

definition byteLength :: "jstr \<Rightarrow> nat" where
  "byteLength s = length (encode s)"

definition isContinuation :: "nat \<Rightarrow> bool" where
  "isContinuation b \<longleftrightarrow> b AND 0xC0 = 0x80"

text \<open>The two scan loops.\<close>

fun scanDown :: "nat list \<Rightarrow> nat \<Rightarrow> nat" where
  "scanDown bs e = (if 0 < e \<and> isContinuation (bs ! e) then scanDown bs (e - 1) else e)"

function scanUp :: "nat list \<Rightarrow> nat \<Rightarrow> nat" where
  "scanUp bs p = (if p < length bs \<and> isContinuation (bs ! p) then scanUp bs (Suc p) else p)"
  by pat_completeness auto
termination by (relation "measure (\<lambda>(bs, p). length bs - p)") auto

declare scanDown.simps [simp del] scanUp.simps [simp del]

definition truncateUtf8 :: "jstr \<Rightarrow> int \<Rightarrow> jstr" where
  "truncateUtf8 s maxBytes =
     (if maxBytes \<le> 0 then []
      else let bs = encode s
           in if int (length bs) \<le> maxBytes then s
              else decode (take (scanDown bs (nat maxBytes)) bs))"

definition truncateUtf8Tail :: "jstr \<Rightarrow> int \<Rightarrow> jstr" where
  "truncateUtf8Tail s maxBytes =
     (if maxBytes \<le> 0 then []
      else let bs = encode s
           in if int (length bs) \<le> maxBytes then s
              else decode (drop (scanUp bs (length bs - nat maxBytes)) bs))"

section \<open>Previews\<close>

record preview =
  pvText :: jstr
  pvTruncated :: bool
  pvOriginalBytes :: nat
  pvOmittedBytes :: int

record head_tail_options =
  headBytes :: int
  tailBytes :: int
  separator :: "jstr option"

definition omissionMarker :: "int \<Rightarrow> jstr" where
  "omissionMarker n =
     js [char_of (10::nat)] @ js ''... ['' @ numString (JI n) @ js '' bytes omitted] ...'' @ js [char_of (10::nat)]"

definition headTailPreview :: "jstr \<Rightarrow> head_tail_options \<Rightarrow> preview" where
  "headTailPreview text opts =
     (let originalBytes = byteLength text;
          budget = max 0 (headBytes opts) + max 0 (tailBytes opts)
      in if int originalBytes \<le> budget
         then \<lparr>pvText = text, pvTruncated = False, pvOriginalBytes = originalBytes, pvOmittedBytes = 0\<rparr>
         else let hd' = truncateUtf8 text (headBytes opts);
                  tl' = truncateUtf8Tail text (tailBytes opts);
                  keptBytes = byteLength hd' + byteLength tl';
                  omittedBytes = int originalBytes - int keptBytes;
                  sep = (case separator opts of None \<Rightarrow> omissionMarker omittedBytes | Some s \<Rightarrow> s)
              in \<lparr>pvText = hd' @ sep @ tl', pvTruncated = True, pvOriginalBytes = originalBytes,
                  pvOmittedBytes = omittedBytes\<rparr>)"

definition headPreview :: "jstr \<Rightarrow> int \<Rightarrow> preview" where
  "headPreview text maxBytes =
     (let originalBytes = byteLength text
      in if int originalBytes \<le> maxBytes
         then \<lparr>pvText = text, pvTruncated = False, pvOriginalBytes = originalBytes, pvOmittedBytes = 0\<rparr>
         else let hd' = truncateUtf8 text maxBytes
              in \<lparr>pvText = hd', pvTruncated = True, pvOriginalBytes = originalBytes,
                  pvOmittedBytes = int originalBytes - int (byteLength hd')\<rparr>)"

section \<open>Scalar values and their encodings\<close>

definition isScalar :: "nat \<Rightarrow> bool" where
  "isScalar c \<longleftrightarrow> c \<le> 0x10FFFF \<and> \<not> isHigh c \<and> \<not> isLow c"

lemma isContinuation_iff: "b < 256 \<Longrightarrow> isContinuation b \<longleftrightarrow> 128 \<le> b \<and> b < 192"
proof -
  assume b: "b < 256"
  have "(192::nat) = push_bit 6 (mask 2)" by (simp add: mask_eq_exp_minus_1 push_bit_eq_mult)
  then have "b AND 192 = push_bit 6 (take_bit 2 (drop_bit 6 b))"
    by (auto simp: bit_eq_iff bit_simps)
  also have "\<dots> = 64 * (b div 64)"
    using b by (simp add: push_bit_eq_mult drop_bit_eq_div take_bit_nat_eq_self)
  finally show ?thesis by (auto simp: isContinuation_def)
qed

lemma utf8_nonempty [simp]: "utf8 c \<noteq> []"
  by (simp add: utf8_def)

lemma utf8_cases:
  assumes "isScalar c"
  shows "\<exists>a bs. utf8 c = a # bs \<and> \<not> isContinuation a \<and> (\<forall>b\<in>set bs. isContinuation b)"
proof -
  have "c < 1114112" using assms by (simp add: isScalar_def)
  then show ?thesis by (auto simp: utf8_def isContinuation_iff)
qed

lemma scalars_isScalar: "(\<forall>u\<in>set us. u < 65536) \<Longrightarrow> c \<in> set (scalars us) \<Longrightarrow> isScalar c"
  by (induction us rule: scalars.induct) (auto simp: isScalar_def isHigh_def isLow_def split: if_splits)

lemma codePoints_isScalar: "c \<in> set (codePoints s) \<Longrightarrow> isScalar c"
  unfolding codePoints_def by (rule scalars_isScalar [rotated]) (auto intro: unsigned_less [where 'b = 16, simplified])

lemma utf8s_simps [simp]: "utf8s [] = []" "utf8s (c # cs) = utf8 c @ utf8s cs" "utf8s (cs @ ds) = utf8s cs @ utf8s ds"
  by (simp_all add: utf8s_def)

lemma split64: "c div 64 * 64 + c mod 64 = (c::nat)" "c div 4096 * 4096 + c div 64 mod 64 * 64 + c mod 64 = c"
  "c div 262144 * 262144 + c div 4096 mod 64 * 4096 + c div 64 mod 64 * 64 + c mod 64 = c"
proof -
  show one: "d div 64 * 64 + d mod 64 = d" for d :: nat by simp
  have d: "c div 4096 = c div 64 div 64" "c div 262144 = c div 64 div 64 div 64" by (simp_all add: div_mult2_eq flip: div_mult2_eq)
  show two: "c div 4096 * 4096 + c div 64 mod 64 * 64 + c mod 64 = c"
    using one [of c] one [of "c div 64"] unfolding d by linarith
  show "c div 262144 * 262144 + c div 4096 mod 64 * 4096 + c div 64 mod 64 * 64 + c mod 64 = c"
    using two one [of "c div 64 div 64"] unfolding d by linarith
qed

lemma decode_two:
  assumes "q < 32" "2 \<le> q" "t < 64"
  shows "decodeUtf8 ((0xC0 + q) # (0x80 + t) # bs) = (q * 64 + t) # decodeUtf8 bs"
  using assms by (auto simp: trail_def)

lemma decode_three:
  assumes "q < 16" "r < 64" "t < 64" "q = 0 \<Longrightarrow> 32 \<le> r" "q = 13 \<Longrightarrow> r < 32"
  shows "decodeUtf8 ((0xE0 + q) # (0x80 + r) # (0x80 + t) # bs) = (q * 4096 + r * 64 + t) # decodeUtf8 bs"
  using assms by (auto simp: trail_def)

lemma decode_four:
  assumes "q < 5" "r < 64" "t < 64" "v < 64" "q = 0 \<Longrightarrow> 16 \<le> r" "q = 4 \<Longrightarrow> r < 16"
  shows "decodeUtf8 ((0xF0 + q) # (0x80 + r) # (0x80 + t) # (0x80 + v) # bs)
    = (q * 262144 + r * 4096 + t * 64 + v) # decodeUtf8 bs"
  using assms by (auto simp: trail_def)

lemma decode_utf8:
  assumes "isScalar c"
  shows "decodeUtf8 (utf8 c @ bs) = c # decodeUtf8 bs"
proof -
  consider "c < 0x80" | "0x80 \<le> c" "c < 0x800" | "0x800 \<le> c" "c < 0x10000" | "0x10000 \<le> c" by linarith
  then show ?thesis
  proof cases
    case 2
    then have "c div 64 < 32" "2 \<le> c div 64" "c mod 64 < 64" by auto
    from decode_two [OF this] 2 split64(1) [of c] show ?thesis by (simp add: utf8_def del: decodeUtf8.simps)
  next
    case 3
    have eq: "c div 4096 * 4096 + c div 64 mod 64 * 64 + c mod 64 = c" by (rule split64)
    have lt: "c div 4096 < 16" using 3 by auto
    have rs: "c div 64 mod 64 < 64" "c mod 64 < 64" by simp_all
    have "decodeUtf8 ((0xE0 + c div 4096) # (0x80 + c div 64 mod 64) # (0x80 + c mod 64) # bs)
      = (c div 4096 * 4096 + c div 64 mod 64 * 64 + c mod 64) # decodeUtf8 bs"
    proof (rule decode_three [OF lt rs])
      show "c div 4096 = 0 \<Longrightarrow> 32 \<le> c div 64 mod 64" using 3 eq rs by linarith
      show "c div 4096 = 13 \<Longrightarrow> c div 64 mod 64 < 32"
        using eq rs assms by (auto simp: isScalar_def isHigh_def isLow_def)
    qed
    with 3 eq show ?thesis by (simp add: utf8_def)
  next
    case 4
    have c: "c \<le> 0x10FFFF" using assms by (simp add: isScalar_def)
    have eq: "c div 262144 * 262144 + c div 4096 mod 64 * 4096 + c div 64 mod 64 * 64 + c mod 64 = c" by (rule split64)
    have lt: "c div 262144 < 5" using c by auto
    have rs: "c div 4096 mod 64 < 64" "c div 64 mod 64 < 64" "c mod 64 < 64" by simp_all
    have "decodeUtf8 ((0xF0 + c div 262144) # (0x80 + c div 4096 mod 64) # (0x80 + c div 64 mod 64) # (0x80 + c mod 64) # bs)
      = (c div 262144 * 262144 + c div 4096 mod 64 * 4096 + c div 64 mod 64 * 64 + c mod 64) # decodeUtf8 bs"
    proof (rule decode_four [OF lt rs])
      show "c div 262144 = 0 \<Longrightarrow> 16 \<le> c div 4096 mod 64" using 4 eq rs by linarith
      show "c div 262144 = 4 \<Longrightarrow> c div 4096 mod 64 < 16" using eq rs c by linarith
    qed
    with 4 eq show ?thesis by (simp add: utf8_def)
  qed (simp_all add: utf8_def trail_def split64)
qed

lemma decode_utf8s: "\<forall>c\<in>set cs. isScalar c \<Longrightarrow> decodeUtf8 (utf8s cs) = cs"
  by (induction cs) (auto simp: decode_utf8)

lemma utf16_bounds: "isScalar c \<Longrightarrow> u \<in> set (utf16 c) \<Longrightarrow> u < 65536"
  by (auto simp: utf16_def isScalar_def split: if_splits)

lemma scalars_utf16: "isScalar c \<Longrightarrow> scalars (utf16 c @ us) = c # scalars us"
  by (cases us) (auto simp: utf16_def isScalar_def isHigh_def isLow_def)

lemma scalars_utf16s: "\<forall>c\<in>set cs. isScalar c \<Longrightarrow> scalars (concat (map utf16 cs)) = cs"
  by (induction cs) (auto simp: scalars_utf16)


text \<open>Code points of a literal.\<close>

lemma unat_js: "map unat (js s) = map of_char s"
proof -
  have "unat (of_char c :: 16 word) = of_char c" for c
  proof -
    have "(of_char c :: nat) < 2 ^ LENGTH(16)"
      by (rule less_trans [OF nat_of_char_less_256]) simp
    then show ?thesis
      by (metis of_nat_of_char unsigned_of_nat take_bit_nat_eq_self)
  qed
  then show ?thesis by (simp add: js_def)
qed

section \<open>The two scans on an encoded text\<close>

text \<open>The code points that fit into \<open>n\<close> bytes, and those left after cutting \<open>n\<close> bytes.\<close>

fun fitting :: "nat \<Rightarrow> nat list \<Rightarrow> nat list" where
  "fitting n [] = []"
| "fitting n (c # cs) = (if length (utf8 c) \<le> n then c # fitting (n - length (utf8 c)) cs else [])"

fun cutting :: "nat \<Rightarrow> nat list \<Rightarrow> nat list" where
  "cutting n [] = []"
| "cutting n (c # cs) = (if n = 0 then c # cs else cutting (n - length (utf8 c)) cs)"

lemma scanDown_append:
  "e < length bs \<Longrightarrow> \<not> isContinuation (bs ! 0) \<Longrightarrow> scanDown (as @ bs) (length as + e) = length as + scanDown bs e"
proof (induction e)
  case 0
  then show ?case by (subst scanDown.simps) (simp add: nth_append scanDown.simps [of _ 0])
next
  case (Suc e)
  then show ?case by (simp add: scanDown.simps [of "as @ bs" "Suc (length as + e)"] scanDown.simps [of bs "Suc e"] nth_append)
qed

lemma scanDown_lead: "e < length (a # bs) \<Longrightarrow> \<forall>b\<in>set bs. isContinuation b \<Longrightarrow> scanDown (a # bs @ cs) e = 0"
proof (induction e)
  case (Suc e)
  then show ?case by (subst scanDown.simps) (simp add: nth_append)
qed (simp add: scanDown.simps)

lemma utf8s_lead: "\<forall>c\<in>set cs. isScalar c \<Longrightarrow> cs \<noteq> [] \<Longrightarrow> \<not> isContinuation (utf8s cs ! 0)"
  using utf8_cases by (cases cs) fastforce+

lemma scanDown_utf8s:
  "\<forall>c\<in>set cs. isScalar c \<Longrightarrow> n < length (utf8s cs) \<Longrightarrow> take (scanDown (utf8s cs) n) (utf8s cs) = utf8s (fitting n cs)"
proof (induction cs arbitrary: n)
  case (Cons c cs)
  obtain a bs where u: "utf8 c = a # bs" "\<forall>b\<in>set bs. isContinuation b"
    using utf8_cases [of c] Cons.prems by auto
  show ?case
  proof (cases "length (utf8 c) \<le> n")
    case True
    then obtain m where m: "n = length (utf8 c) + m" using le_Suc_ex by blast
    then have "m < length (utf8s cs)" "cs \<noteq> []" using Cons.prems by auto
    with Cons m show ?thesis by (simp add: scanDown_append utf8s_lead)
  next
    case False
    then show ?thesis using u scanDown_lead [of n a bs "utf8s cs"] by simp
  qed
qed simp

lemma scanUp_append:
  "scanUp (as @ bs) (length as + p) = length as + scanUp bs p"
proof (induction bs p rule: scanUp.induct)
  case (1 bs p)
  then show ?case
    by (cases "p < length bs \<and> isContinuation (bs ! p)")
       (auto simp: scanUp.simps [of "as @ bs" "length as + p"] scanUp.simps [of bs p] nth_append)
qed

lemma scanUp_trail: "0 < p \<Longrightarrow> p \<le> length (a # bs) \<Longrightarrow> \<forall>b\<in>set bs. isContinuation b \<Longrightarrow>
  scanUp (a # bs @ cs) p = scanUp (a # bs @ cs) (length (a # bs))"
proof (induction "length (a # bs) - p" arbitrary: p)
  case (Suc k)
  have p: "p < length (a # bs)" using Suc.hyps(2) by simp
  then have "isContinuation ((a # bs @ cs) ! p)" using Suc.prems(1,3) by (cases p) (auto simp: nth_append)
  then have "scanUp (a # bs @ cs) p = scanUp (a # bs @ cs) (Suc p)"
    using p by (simp add: scanUp.simps [of _ p])
  moreover have "scanUp (a # bs @ cs) (Suc p) = scanUp (a # bs @ cs) (length (a # bs))"
    using Suc.hyps(2) p Suc.prems by (intro Suc.hyps(1)) auto
  ultimately show ?case by simp
qed simp

lemma scanUp_utf8s:
  "\<forall>c\<in>set cs. isScalar c \<Longrightarrow> n \<le> length (utf8s cs) \<Longrightarrow> drop (scanUp (utf8s cs) n) (utf8s cs) = utf8s (cutting n cs)"
proof (induction cs arbitrary: n)
  case Nil
  then show ?case by simp
next
  case (Cons c cs)
  obtain a bs where u: "utf8 c = a # bs" "\<not> isContinuation a" "\<forall>b\<in>set bs. isContinuation b"
    using utf8_cases [of c] Cons.prems by auto
  consider "n = 0" | "0 < n" "n \<le> length (utf8 c)" | "length (utf8 c) < n" by linarith
  then show ?case
  proof cases
    case 1
    then show ?thesis using u by (simp add: scanUp.simps [of _ 0])
  next
    case 2
    have "scanUp (utf8s (c # cs)) n = length (utf8 c) + scanUp (utf8s cs) 0"
      using scanUp_trail [of n a bs "utf8s cs"] scanUp_append [of "utf8 c" "utf8s cs" 0] 2 u by simp
    then show ?thesis using Cons.IH [of 0] Cons.prems 2 by simp
  next
    case 3
    then obtain m where m: "n = length (utf8 c) + m" using less_imp_add_positive by blast
    have "scanUp (utf8s (c # cs)) n = length (utf8 c) + scanUp (utf8s cs) m"
      using scanUp_append [of "utf8 c" "utf8s cs" m] m by simp
    then show ?thesis using Cons.IH [of m] Cons.prems m u(1) by simp
  qed
qed


text \<open>What the two cuts leave, as code points.\<close>

lemma fitting_prefix: "\<exists>ds. cs = fitting n cs @ ds"
  by (induction n cs rule: fitting.induct) auto

lemma fitting_bytes: "length (utf8s (fitting n cs)) \<le> n"
  by (induction n cs rule: fitting.induct) auto

lemma fitting_maximal: "cs = fitting n cs @ d # ds \<Longrightarrow> n < length (utf8s (fitting n cs)) + length (utf8 d)"
  by (induction n cs rule: fitting.induct) (auto split: if_splits)

lemma cutting_zero [simp]: "cutting 0 cs = cs"
  by (cases cs) simp_all

lemma cutting_suffix: "\<exists>ds. cs = ds @ cutting n cs"
proof (induction n cs rule: cutting.induct)
  case (2 n c cs)
  show ?case
  proof (cases "n = 0")
    case False
    then obtain ds where "cs = ds @ cutting (n - length (utf8 c)) cs" using 2 by auto
    then have "c # cs = (c # ds) @ cutting n (c # cs)" using False by simp
    then show ?thesis by blast
  qed simp
qed simp

lemma cutting_bytes: "length (utf8s (cutting n cs)) \<le> length (utf8s cs) - n"
  by (induction n cs rule: cutting.induct) auto

lemma cutting_maximal:
  "\<forall>c\<in>set cs. isScalar c \<Longrightarrow> cs = ds @ d # cutting n cs \<Longrightarrow> length (utf8s cs) - n < length (utf8s (d # cutting n cs))"
proof (induction n cs arbitrary: ds rule: cutting.induct)
  case (2 n c cs)
  show ?case
  proof (cases ds)
    case Nil
    then show ?thesis using 2 by (auto split: if_splits intro!: diff_less simp: trans_less_add1)
  next
    case (Cons e es)
    then have n: "n \<noteq> 0" and cs: "cs = es @ d # cutting (n - length (utf8 c)) cs"
      using 2 by (auto split: if_splits)
    have "length (utf8 c) \<le> n"
    proof (rule ccontr)
      assume "\<not> length (utf8 c) \<le> n"
      then have "cs = es @ d # cs" using cs by simp
      then have "length cs = length (es @ d # cs)" by metis
      then show False by simp
    qed
    with 2(1) [OF n _ cs] 2(2) n show ?thesis by simp
  qed
qed simp

definition noBom :: "nat list \<Rightarrow> bool" where
  "noBom cs \<longleftrightarrow> (case cs of [] \<Rightarrow> True | c # _ \<Rightarrow> c \<noteq> 0xFEFF)"

lemma stripBom_noBom: "noBom cs \<Longrightarrow> stripBom cs = cs"
  by (auto simp: noBom_def stripBom_def split: list.splits)

lemma stripBom_bytes: "length (utf8s (stripBom cs)) \<le> length (utf8s cs)"
  by (auto simp: stripBom_def split: list.splits)

lemma codePoints_decode:
  assumes "\<forall>c\<in>set cs. isScalar c"
  shows "codePoints (decode (utf8s cs)) = stripBom cs"
proof -
  have sub: "\<forall>c\<in>set (stripBom cs). isScalar c"
    using assms by (auto simp: stripBom_def split: list.splits if_splits)
  have "map (unat \<circ> (word_of_nat :: nat \<Rightarrow> 16 word)) us = us" if "\<forall>u\<in>set us. u < 65536" for us
    using that by (induction us) (auto simp: unsigned_of_nat take_bit_nat_eq_self)
  moreover have "\<forall>u\<in>set (concat (map utf16 (stripBom cs))). u < 65536"
    using sub utf16_bounds by auto
  ultimately show ?thesis
    using sub by (simp add: decode_def codePoints_def decode_utf8s assms scalars_utf16s)
qed

lemma truncateUtf8_codePoints:
  assumes "0 < n" and "n < int (byteLength s)"
  shows "codePoints (truncateUtf8 s n) = stripBom (fitting (nat n) (codePoints s))"
proof -
  have sc: "\<forall>c\<in>set (codePoints s). isScalar c" using codePoints_isScalar by blast
  then have "\<forall>c\<in>set (fitting (nat n) (codePoints s)). isScalar c"
    using fitting_prefix [of "codePoints s" "nat n"] by (metis Un_iff set_append)
  then show ?thesis
    using assms scanDown_utf8s [OF sc, of "nat n"] codePoints_decode
    by (auto simp: truncateUtf8_def Let_def byteLength_def encode_def)
qed

lemma truncateUtf8Tail_codePoints:
  assumes "0 < n" and "n < int (byteLength s)"
  shows "codePoints (truncateUtf8Tail s n) = stripBom (cutting (byteLength s - nat n) (codePoints s))"
proof -
  have sc: "\<forall>c\<in>set (codePoints s). isScalar c" using codePoints_isScalar by blast
  then have "\<forall>c\<in>set (cutting (byteLength s - nat n) (codePoints s)). isScalar c"
    using cutting_suffix [of "codePoints s" "byteLength s - nat n"] by (metis Un_iff set_append)
  then show ?thesis
    using assms scanUp_utf8s [OF sc, of "byteLength s - nat n"] codePoints_decode
    by (auto simp: truncateUtf8Tail_def Let_def byteLength_def encode_def)
qed

lemma byteLength_codePoints: "byteLength s = length (utf8s (codePoints s))"
  by (simp add: byteLength_def encode_def)

section \<open>Bounded cuts\<close>

text \<open>What a preview relies on: a cut never exceeds its byte bound.\<close>

locale bounded_cut =
  fixes cut :: "jstr \<Rightarrow> int \<Rightarrow> jstr"
  assumes cut_bytes: "int (byteLength (cut s n)) \<le> max 0 n"
    and cut_shorter: "byteLength (cut s n) \<le> byteLength s"
begin

lemma omitted: "0 \<le> int (byteLength s) - int (byteLength (cut s n))"
  using cut_shorter [of s n] by simp

end

lemma encode_Nil [simp]: "encode [] = []"
  by (simp add: encode_def codePoints_def)

lemma byteLength_Nil [simp]: "byteLength [] = 0"
  by (simp add: byteLength_def encode_def codePoints_def)

interpretation head_cut: bounded_cut truncateUtf8
proof unfold_locales
  fix s n
  have cut: "int (byteLength (truncateUtf8 s n)) \<le> n" if "0 < n" "n < int (byteLength s)"
    using that truncateUtf8_codePoints [OF that] fitting_bytes [of "nat n" "codePoints s"]
      stripBom_bytes [of "fitting (nat n) (codePoints s)"]
    by (simp add: byteLength_codePoints [of "truncateUtf8 s n"])
  show "int (byteLength (truncateUtf8 s n)) \<le> max 0 n"
    using cut by (cases "0 < n \<and> n < int (byteLength s)") (auto simp: truncateUtf8_def byteLength_def Let_def)
  show "byteLength (truncateUtf8 s n) \<le> byteLength s"
    using cut by (cases "0 < n \<and> n < int (byteLength s)") (auto simp: truncateUtf8_def byteLength_def Let_def)
qed

interpretation tail_cut: bounded_cut truncateUtf8Tail
proof unfold_locales
  fix s n
  have cut: "int (byteLength (truncateUtf8Tail s n)) \<le> n" if "0 < n" "n < int (byteLength s)"
  proof -
    have "length (utf8s (cutting (byteLength s - nat n) (codePoints s))) \<le> nat n"
      using cutting_bytes [of "byteLength s - nat n" "codePoints s"] that by (simp add: byteLength_codePoints)
    then show ?thesis
      using that truncateUtf8Tail_codePoints [OF that]
        stripBom_bytes [of "cutting (byteLength s - nat n) (codePoints s)"]
      by (simp add: byteLength_codePoints [of "truncateUtf8Tail s n"])
  qed
  show "int (byteLength (truncateUtf8Tail s n)) \<le> max 0 n"
    using cut by (cases "0 < n \<and> n < int (byteLength s)") (auto simp: truncateUtf8Tail_def byteLength_def Let_def)
  show "byteLength (truncateUtf8Tail s n) \<le> byteLength s"
    using cut by (cases "0 < n \<and> n < int (byteLength s)") (auto simp: truncateUtf8Tail_def byteLength_def Let_def)
qed


section \<open>Properties\<close>



text \<open>
  a head-and-tail preview reports the original size, keeps the text untouched when it fits the
  two budgets, and otherwise shows a head within the first budget and a tail within the second,
  with omitted plus kept bytes adding up to the original size and at least the excess omitted.
\<close>

theorem headTailPreview_accounting:
  "pvOriginalBytes (headTailPreview text opts) = byteLength text
    \<and> (pvTruncated (headTailPreview text opts)
        \<longleftrightarrow> max 0 (headBytes opts) + max 0 (tailBytes opts) < int (byteLength text))
    \<and> (if pvTruncated (headTailPreview text opts)
        then \<exists>h sep t. pvText (headTailPreview text opts) = h @ sep @ t
            \<and> int (byteLength h) \<le> max 0 (headBytes opts) \<and> int (byteLength t) \<le> max 0 (tailBytes opts)
            \<and> pvOmittedBytes (headTailPreview text opts) = int (byteLength text) - int (byteLength h + byteLength t)
            \<and> int (byteLength text) - (max 0 (headBytes opts) + max 0 (tailBytes opts))
                \<le> pvOmittedBytes (headTailPreview text opts)
        else pvText (headTailPreview text opts) = text \<and> pvOmittedBytes (headTailPreview text opts) = 0)"
proof (cases "max 0 (headBytes opts) + max 0 (tailBytes opts) < int (byteLength text)")
  case False
  then show ?thesis by (simp add: headTailPreview_def Let_def)
next
  case True
  let ?h = "truncateUtf8 text (headBytes opts)" and ?t = "truncateUtf8Tail text (tailBytes opts)"
  let ?o = "int (byteLength text) - int (byteLength ?h + byteLength ?t)"
  let ?sep = "case separator opts of None \<Rightarrow> omissionMarker ?o | Some s \<Rightarrow> s"
  have shape: "headTailPreview text opts =
    \<lparr>pvText = ?h @ ?sep @ ?t, pvTruncated = True, pvOriginalBytes = byteLength text, pvOmittedBytes = ?o\<rparr>"
    using True by (simp add: headTailPreview_def Let_def)
  have "\<exists>h sep t. ?h @ ?sep @ ?t = h @ sep @ t
      \<and> int (byteLength h) \<le> max 0 (headBytes opts) \<and> int (byteLength t) \<le> max 0 (tailBytes opts)
      \<and> ?o = int (byteLength text) - int (byteLength h + byteLength t) \<and> int (byteLength text) - (max 0 (headBytes opts) + max 0 (tailBytes opts)) \<le> ?o"
    using head_cut.cut_bytes [of "text" "headBytes opts"] tail_cut.cut_bytes [of "text" "tailBytes opts"]
    by (intro exI [of _ ?h] exI [of _ ?sep] exI [of _ ?t]) simp
  then show ?thesis unfolding shape using True by simp
qed

end
