(* ===== verification/GrantHistory.thy ===== *)
theory GrantHistory
  imports JsNumber
begin

text \<open>
  Histories of one-shot authorizations.  A store operation may mint an authorization or consume one; the
  locale states what the two grant stores of the code promise, and proves once that no identity is
  consumed more often than it was minted.
\<close>

fun runSteps :: "('s \<Rightarrow> 'op \<Rightarrow> 's \<times> 'g option) \<Rightarrow> 's \<Rightarrow> 'op list \<Rightarrow> 's \<times> 'g list" where
  "runSteps step s [] = (s, [])"
| "runSteps step s (op # ops) =
     (case step s op of (s', consumed) \<Rightarrow>
        (case runSteps step s' ops of (t, gs) \<Rightarrow> (t, (case consumed of None \<Rightarrow> gs | Some g \<Rightarrow> g # gs))))"

definition mintedBy :: "('op \<Rightarrow> 'g option) \<Rightarrow> 'op list \<Rightarrow> 'g list" where
  "mintedBy minted ops = List.map_filter minted ops"

lemma mintedBy_simps [simp]:
  "mintedBy minted [] = []"
  "mintedBy minted (op # ops) = (case minted op of None \<Rightarrow> mintedBy minted ops | Some g \<Rightarrow> g # mintedBy minted ops)"
  by (simp_all add: mintedBy_def map_filter_simps split: option.splits)

text \<open>The interface of a one-shot store: \<open>lookup\<close> finds the live authorizations.\<close>

locale one_shot_store =
  fixes ident :: "'g \<Rightarrow> jstr"
    and lookup :: "'s \<Rightarrow> jstr \<Rightarrow> 'g option"
    and step :: "'s \<Rightarrow> 'op \<Rightarrow> 's \<times> 'g option"
    and minted :: "'op \<Rightarrow> 'g option"
  assumes live: "step s op = (s', c) \<Longrightarrow> lookup s' i = Some g \<Longrightarrow>
      lookup s i = Some g \<or> (minted op = Some g \<and> ident g = i)"
    and consumed: "step s op = (s', Some g) \<Longrightarrow> minted op = None \<and> (\<exists>i. lookup s i = Some g \<and> lookup s' i = None)"
begin

definition keyed :: "'s \<Rightarrow> bool" where
  "keyed s \<longleftrightarrow> (\<forall>i g. lookup s i = Some g \<longrightarrow> ident g = i)"

lemma keyed_step: "keyed s \<Longrightarrow> step s op = (s', c) \<Longrightarrow> keyed s'"
  unfolding keyed_def using live by metis

lemma count_bounded:
  assumes "keyed s" and "runSteps step s ops = (t, gs)"
  shows "count_list (map ident gs) i
    \<le> count_list (map ident (mintedBy minted ops)) i + (if lookup s i = None then 0 else 1)"
  using assms
proof (induction ops arbitrary: s gs)
  case (Cons op ops)
  obtain s' c gs' where st: "step s op = (s', c)" and run: "runSteps step s' ops = (t, gs')"
    and gs: "gs = (case c of None \<Rightarrow> gs' | Some g \<Rightarrow> g # gs')"
    using Cons.prems(2) by (auto split: prod.splits)
  note ih = Cons.IH [OF keyed_step [OF Cons.prems(1) st] run]
  show ?case
  proof (cases c)
    case (Some g)
    then obtain j where j: "minted op = None" "lookup s j = Some g" "lookup s' j = None"
      using consumed [of s op s' g] st by auto
    have "ident g = j" using Cons.prems(1) j(2) by (auto simp: keyed_def)
    then show ?thesis
      using ih j gs Some live [OF st, of i] by (cases "lookup s' i"; cases "i = j") auto
  next
    case None
    then show ?thesis
      using ih gs live [OF st, of i] by (cases "lookup s' i"; cases "minted op") auto
  qed
qed simp

lemma consumed_minted:
  assumes "runSteps step s ops = (t, gs)" and "g \<in> set gs"
  shows "g \<in> set (mintedBy minted ops) \<or> (\<exists>i. lookup s i = Some g)"
  using assms
proof (induction ops arbitrary: s gs)
  case (Cons op ops)
  obtain s' c gs' where st: "step s op = (s', c)" and run: "runSteps step s' ops = (t, gs')"
    and gs: "gs = (case c of None \<Rightarrow> gs' | Some g \<Rightarrow> g # gs')"
    using Cons.prems(1) by (auto split: prod.splits)
  show ?case
  proof (cases "g \<in> set gs'")
    case True
    from Cons.IH [OF run this] show ?thesis
    proof
      assume "\<exists>i. lookup s' i = Some g"
      then obtain i where "lookup s' i = Some g" by blast
      from live [OF st this] show ?thesis by auto
    qed (auto split: option.splits)
  next
    case False
    then have "c = Some g" using gs Cons.prems(2) by (auto split: option.splits)
    then show ?thesis using consumed [of s op s' g] st by auto
  qed
qed simp

end

end
