(* ===== verification/Grant.thy ===== *)
theory Grant
  imports GrantHistory
begin

text \<open>
  The launch-grant store of \<open>src/src/core/grant.ts\<close>.  A store is the map of its own properties;
  a lookup that misses can still find a name inherited from \<open>Object.prototype\<close>, whose value has
  none of the grant fields.  The history lemmas count mints and consumptions over any run of the
  three operations.
\<close>

section \<open>State\<close>

datatype grant_mode = SlashCommand | Confirmed

record launch_grant =
  grantId :: jstr
  sessionId :: jstr
  turnNonce :: jstr
  promptSha256 :: jstr
  requestSha256 :: jstr
  toolCallId :: jstr
  mode :: grant_mode
  issuedAtMs :: jsnum
  expiresAtMs :: jsnum

type_synonym grant_store = "jstr \<rightharpoonup> launch_grant"

definition emptyGrantStore :: grant_store where
  "emptyGrantStore = Map.empty"

datatype grant_denial =
    NOT_FOUND | EXPIRED | SESSION_MISMATCH | TURN_MISMATCH | PROMPT_MISMATCH | REQUEST_MISMATCH | TOOL_CALL_MISMATCH

record consume_context =
  ctxGrantId :: jstr
  ctxSessionId :: jstr
  ctxTurnNonce :: jstr
  ctxPromptSha256 :: jstr
  ctxRequestSha256 :: jstr
  ctxToolCallId :: jstr
  ctxNowMs :: jsnum

definition objectPrototypeNames :: "jstr list" where
  "objectPrototypeNames =
     map js [''constructor'', ''__defineGetter__'', ''__defineSetter__'', ''hasOwnProperty'', ''__lookupGetter__'',
       ''__lookupSetter__'', ''isPrototypeOf'', ''propertyIsEnumerable'', ''toString'', ''valueOf'', ''__proto__'',
       ''toLocaleString'']"

section \<open>Operations\<close>

definition mintGrant :: "grant_store \<Rightarrow> launch_grant \<Rightarrow> grant_store \<times> launch_grant" where
  "mintGrant store g = (store(grantId g \<mapsto> g), g)"

definition consumeGrant :: "grant_store \<Rightarrow> consume_context \<Rightarrow> grant_denial + grant_store \<times> launch_grant" where
  "consumeGrant store ctx =
     (case store (ctxGrantId ctx) of
        None \<Rightarrow> if ctxGrantId ctx \<in> set objectPrototypeNames then Inl SESSION_MISMATCH else Inl NOT_FOUND
      | Some g \<Rightarrow>
          if jleq (expiresAtMs g) (ctxNowMs ctx) then Inl EXPIRED
          else if sessionId g \<noteq> ctxSessionId ctx then Inl SESSION_MISMATCH
          else if turnNonce g \<noteq> ctxTurnNonce ctx then Inl TURN_MISMATCH
          else if promptSha256 g \<noteq> ctxPromptSha256 ctx then Inl PROMPT_MISMATCH
          else if requestSha256 g \<noteq> ctxRequestSha256 ctx then Inl REQUEST_MISMATCH
          else if toolCallId g \<noteq> ctxToolCallId ctx then Inl TOOL_CALL_MISMATCH
          else Inr (store(ctxGrantId ctx := None), g))"

text \<open>An assignment to \<open>__proto__\<close> creates no own property.\<close>

definition expireOtherTurns :: "grant_store \<Rightarrow> jstr \<Rightarrow> grant_store" where
  "expireOtherTurns store currentTurnNonce =
     (\<lambda>i. case store i of
            Some g \<Rightarrow> if turnNonce g = currentTurnNonce \<and> i \<noteq> js ''__proto__'' then Some g else None
          | None \<Rightarrow> None)"

section \<open>Histories\<close>

datatype grant_op = Mint launch_grant | Consume consume_context | ExpireTurns jstr

text \<open>The store after a run, and the grants it consumed.\<close>

fun runGrants :: "grant_store \<Rightarrow> grant_op list \<Rightarrow> grant_store \<times> launch_grant list" where
  "runGrants store [] = (store, [])"
| "runGrants store (Mint g # ops) = runGrants (fst (mintGrant store g)) ops"
| "runGrants store (Consume ctx # ops) =
     (case consumeGrant store ctx of
        Inl _ \<Rightarrow> runGrants store ops
      | Inr (store', g) \<Rightarrow> (case runGrants store' ops of (s, gs) \<Rightarrow> (s, g # gs)))"
| "runGrants store (ExpireTurns n # ops) = runGrants (expireOtherTurns store n) ops"

fun mints :: "grant_op list \<Rightarrow> launch_grant list" where
  "mints [] = []"
| "mints (Mint g # ops) = g # mints ops"
| "mints (op # ops) = mints ops"

lemma consumeGrant_Inr:
  "consumeGrant store ctx = Inr (store', g) \<longleftrightarrow>
     store (ctxGrantId ctx) = Some g \<and> store' = store(ctxGrantId ctx := None)
     \<and> \<not> jleq (expiresAtMs g) (ctxNowMs ctx) \<and> sessionId g = ctxSessionId ctx \<and> turnNonce g = ctxTurnNonce ctx
     \<and> promptSha256 g = ctxPromptSha256 ctx \<and> requestSha256 g = ctxRequestSha256 ctx \<and> toolCallId g = ctxToolCallId ctx"
  by (auto simp: consumeGrant_def split: option.splits)

text \<open>A run is a history of the one-shot store interface.\<close>

definition grantStep :: "grant_store \<Rightarrow> grant_op \<Rightarrow> grant_store \<times> launch_grant option" where
  "grantStep store op =
     (case op of
        Mint g \<Rightarrow> (fst (mintGrant store g), None)
      | Consume ctx \<Rightarrow> (case consumeGrant store ctx of Inl _ \<Rightarrow> (store, None) | Inr (store', g) \<Rightarrow> (store', Some g))
      | ExpireTurns n \<Rightarrow> (expireOtherTurns store n, None))"

definition grantMinted :: "grant_op \<Rightarrow> launch_grant option" where
  "grantMinted op = (case op of Mint g \<Rightarrow> Some g | _ \<Rightarrow> None)"

lemma runGrants_steps: "runGrants store ops = runSteps grantStep store ops"
  by (induction store ops rule: runGrants.induct) (auto simp: grantStep_def split: sum.splits prod.splits)

lemma mints_minted: "mints ops = mintedBy grantMinted ops"
  by (induction ops rule: mints.induct) (auto simp: grantMinted_def)

interpretation launch_history: one_shot_store grantId "\<lambda>store i. store i" grantStep grantMinted
proof unfold_locales
  fix s op s' c i g
  assume "grantStep s op = (s', c)" and "s' i = Some g"
  then show "s i = Some g \<or> grantMinted op = Some g \<and> grantId g = i"
    by (cases op) (auto simp: grantStep_def grantMinted_def mintGrant_def consumeGrant_Inr expireOtherTurns_def
        split: if_splits option.splits sum.splits)
next
  fix s op s' g
  assume "grantStep s op = (s', Some g)"
  then show "grantMinted op = None \<and> (\<exists>i. s i = Some g \<and> s' i = None)"
    by (cases op) (auto simp: grantStep_def grantMinted_def consumeGrant_Inr split: sum.splits)
qed

section \<open>Properties\<close>

text \<open>
  a grant is consumed exactly when it is stored, unexpired and bound to the presented session,
  turn, prompt, request and tool call; consuming removes it alone, so the same context is
  refused afterwards.
\<close>

theorem consumeGrant_exact_single_use:
  "(\<exists>r. consumeGrant store ctx = Inr r) = (\<exists>g. store (ctxGrantId ctx) = Some g
      \<and> \<not> jleq (expiresAtMs g) (ctxNowMs ctx) \<and> sessionId g = ctxSessionId ctx \<and> turnNonce g = ctxTurnNonce ctx
      \<and> promptSha256 g = ctxPromptSha256 ctx \<and> requestSha256 g = ctxRequestSha256 ctx \<and> toolCallId g = ctxToolCallId ctx)
   \<and> (case consumeGrant store ctx of
        Inl _ \<Rightarrow> True
      | Inr (store', g) \<Rightarrow> (\<forall>i. store' i = (if i = ctxGrantId ctx then None else store i))
          \<and> \<not> isOk (consumeGrant store' ctx))"
  by (auto simp: consumeGrant_Inr isOk_iff split: sum.splits prod.splits)

text \<open>
  C32: over any sequence of mints, consumptions and turn expirations from the empty store, every
  consumed grant was minted, and no grant id is consumed more often than it was minted.
\<close>

theorem grants_consumed_at_most_as_minted:
  "(\<forall>g\<in>set (snd (runGrants emptyGrantStore ops)). g \<in> set (mints ops))
   \<and> count_list (map grantId (snd (runGrants emptyGrantStore ops))) i \<le> count_list (map grantId (mints ops)) i"
proof -
  obtain s gs where run: "runSteps grantStep emptyGrantStore ops = (s, gs)" by fastforce
  have "launch_history.keyed emptyGrantStore"
    by (simp add: launch_history.keyed_def emptyGrantStore_def)
  from launch_history.count_bounded [OF this run, of i] launch_history.consumed_minted [OF run] show ?thesis
    unfolding runGrants_steps run mints_minted by (auto simp: emptyGrantStore_def)
qed

definition sampleGrant :: launch_grant where
  "sampleGrant = \<lparr>grantId = js ''g1'', sessionId = js ''s'', turnNonce = js ''t1'', promptSha256 = js ''p'',
     requestSha256 = js ''r'', toolCallId = js ''c'', mode = Confirmed, issuedAtMs = Num 0, expiresAtMs = Num 100\<rparr>"

definition sampleContext :: consume_context where
  "sampleContext = \<lparr>ctxGrantId = js ''g1'', ctxSessionId = js ''s'', ctxTurnNonce = js ''t1'', ctxPromptSha256 = js ''p'',
     ctxRequestSha256 = js ''r'', ctxToolCallId = js ''c'', ctxNowMs = Num 5\<rparr>"

theorem grants_consumed_at_most_as_minted_witness:
  "snd (runGrants emptyGrantStore [Mint sampleGrant, Consume sampleContext, Consume sampleContext]) = [sampleGrant]
   \<and> count_list (map grantId (snd (runGrants emptyGrantStore
       [Mint sampleGrant, Consume sampleContext, Consume sampleContext]))) (js ''g1'') \<le> 1"
  using grants_consumed_at_most_as_minted [of "[Mint sampleGrant, Consume sampleContext, Consume sampleContext]" "js ''g1''"]
  by (simp add: emptyGrantStore_def mintGrant_def consumeGrant_def sampleGrant_def sampleContext_def objectPrototypeNames_def)

end
