(* ===== verification/ResumeGrant.thy ===== *)
theory ResumeGrant
  imports GrantHistory
begin

text \<open>
  One-shot authorization of a managed continuation (\<open>src/src/extension/resume-grant.ts\<close>).  Unlike a launch
  grant, a resume grant is removed by every denial, and a consumed one leaves a tombstone.
\<close>

section \<open>State\<close>

datatype resume_mode = HostTui | HostRpc | HostPrint | HostJson

record resume_binding =
  rbSessionId :: jstr
  rbAuthorizationGeneration :: jsnum
  rbCommandNonce :: jstr
  rbTurnOriginSha256 :: jstr
  rbManagedName :: jstr
  rbRunId :: jstr
  rbManifestHash :: jstr
  rbCheckpointSequence :: jsnum
  rbCheckpointSha256 :: jstr
  rbCheckpointPrefixSha256 :: jstr
  rbWriterOrdinal :: jsnum
  rbWriterTokenSha256 :: jstr
  rbMode :: resume_mode

record resume_grant =
  rgBinding :: resume_binding
  rgGrantId :: jstr
  rgIssuedAtMs :: jsnum
  rgExpiresAtMs :: jsnum

record resume_store =
  rsGrants :: "jstr \<rightharpoonup> resume_grant"
  rsConsumed :: "jstr set"

datatype resume_denial =
    ResumeNotFound | ResumeReplay | ResumeExpired | ResumeSession | ResumeGeneration | ResumeNonce | ResumeTurnOrigin
  | ResumeManagedName | ResumeRunId | ResumeManifest | ResumeSequence | ResumeCheckpoint | ResumePrefix
  | ResumeOrdinal | ResumeToken | ResumeMode

record resume_context =
  rxBinding :: resume_binding
  rxGrantId :: jstr
  rxNowMs :: jsnum

text \<open>A lookup that misses still finds the names every object inherits.\<close>

definition inheritedNames :: "jstr list" where
  "inheritedNames =
     map js [''constructor'', ''__defineGetter__'', ''__defineSetter__'', ''hasOwnProperty'', ''__lookupGetter__'',
       ''__lookupSetter__'', ''isPrototypeOf'', ''propertyIsEnumerable'', ''toString'', ''valueOf'', ''__proto__'',
       ''toLocaleString'']"

section \<open>Operations\<close>

definition emptyResumeGrantStore :: resume_store where
  "emptyResumeGrantStore = \<lparr>rsGrants = Map.empty, rsConsumed = {}\<rparr>"

definition mintResumeGrant :: "resume_store \<Rightarrow> resume_grant \<Rightarrow> resume_store" where
  "mintResumeGrant store grant = store\<lparr>rsGrants := (rsGrants store)(rgGrantId grant \<mapsto> grant)\<rparr>"

definition withoutGrant :: "resume_store \<Rightarrow> jstr \<Rightarrow> bool \<Rightarrow> resume_store" where
  "withoutGrant store i consumed =
     \<lparr>rsGrants = (rsGrants store)(i := None),
      rsConsumed = (if consumed then insert i (rsConsumed store) else rsConsumed store)\<rparr>"

definition revokeResumeGrant :: "resume_store \<Rightarrow> jstr \<Rightarrow> resume_store" where
  "revokeResumeGrant store i = withoutGrant store i False"

text \<open>The comparisons in order; an inherited property has no grant fields, so its session differs.\<close>

definition bindingMismatch :: "resume_binding \<Rightarrow> resume_binding \<Rightarrow> resume_denial option" where
  "bindingMismatch context grant =
     (if rbSessionId context \<noteq> rbSessionId grant then Some ResumeSession
      else if \<not> jeq (rbAuthorizationGeneration context) (rbAuthorizationGeneration grant) then Some ResumeGeneration
      else if rbCommandNonce context \<noteq> rbCommandNonce grant then Some ResumeNonce
      else if rbTurnOriginSha256 context \<noteq> rbTurnOriginSha256 grant then Some ResumeTurnOrigin
      else if rbManagedName context \<noteq> rbManagedName grant then Some ResumeManagedName
      else if rbRunId context \<noteq> rbRunId grant then Some ResumeRunId
      else if rbManifestHash context \<noteq> rbManifestHash grant then Some ResumeManifest
      else if \<not> jeq (rbCheckpointSequence context) (rbCheckpointSequence grant) then Some ResumeSequence
      else if rbCheckpointSha256 context \<noteq> rbCheckpointSha256 grant then Some ResumeCheckpoint
      else if rbCheckpointPrefixSha256 context \<noteq> rbCheckpointPrefixSha256 grant then Some ResumePrefix
      else if \<not> jeq (rbWriterOrdinal context) (rbWriterOrdinal grant) then Some ResumeOrdinal
      else if rbWriterTokenSha256 context \<noteq> rbWriterTokenSha256 grant then Some ResumeToken
      else if rbMode context \<noteq> rbMode grant then Some ResumeMode
      else None)"

definition consumeResumeGrant ::
    "resume_store \<Rightarrow> resume_context \<Rightarrow> resume_store \<times> (resume_denial + resume_grant)" where
  "consumeResumeGrant store context =
     (let i = rxGrantId context
      in case rsGrants store i of
           None \<Rightarrow>
             if i \<in> set inheritedNames then (withoutGrant store i False, Inl ResumeSession)
             else (store, Inl (if i \<in> rsConsumed store then ResumeReplay else ResumeNotFound))
         | Some grant \<Rightarrow>
             if jleq (rgExpiresAtMs grant) (rxNowMs context) then (withoutGrant store i False, Inl ResumeExpired)
             else (case bindingMismatch (rxBinding context) (rgBinding grant) of
                     Some denial \<Rightarrow> (withoutGrant store i False, Inl denial)
                   | None \<Rightarrow> (withoutGrant store i True, Inr grant)))"

section \<open>Histories\<close>

datatype resume_op = ResumeMint resume_grant | ResumeRevoke jstr | ResumeConsume resume_context

definition resumeStep :: "resume_store \<Rightarrow> resume_op \<Rightarrow> resume_store \<times> resume_grant option" where
  "resumeStep store op =
     (case op of
        ResumeMint g \<Rightarrow> (mintResumeGrant store g, None)
      | ResumeRevoke i \<Rightarrow> (revokeResumeGrant store i, None)
      | ResumeConsume context \<Rightarrow>
          (case consumeResumeGrant store context of (store', r) \<Rightarrow> (store', (case r of Inl _ \<Rightarrow> None | Inr g \<Rightarrow> Some g))))"

definition resumeMinted :: "resume_op \<Rightarrow> resume_grant option" where
  "resumeMinted op = (case op of ResumeMint g \<Rightarrow> Some g | _ \<Rightarrow> None)"

lemma bindingMismatch_None:
  "bindingMismatch c g = None \<longleftrightarrow> c = g \<and> list_all (\<lambda>n. n \<noteq> NaN) [rbAuthorizationGeneration g,
     rbCheckpointSequence g, rbWriterOrdinal g]"
  by (cases c; cases g) (simp add: bindingMismatch_def jeq_def, blast)

lemma consume_grants [simp]:
  "rsGrants (fst (consumeResumeGrant store x)) = (rsGrants store)(rxGrantId x := None)"
  by (auto simp: consumeResumeGrant_def withoutGrant_def Let_def fun_upd_idem split: option.splits)

lemma consume_Inr:
  "snd (consumeResumeGrant store x) = Inr g \<longleftrightarrow>
     rsGrants store (rxGrantId x) = Some g \<and> \<not> jleq (rgExpiresAtMs g) (rxNowMs x)
     \<and> bindingMismatch (rxBinding x) (rgBinding g) = None"
  by (auto simp: consumeResumeGrant_def Let_def split: option.splits)

lemma consume_consumed:
  "rsConsumed (fst (consumeResumeGrant store x)) =
     (case snd (consumeResumeGrant store x) of
        Inl _ \<Rightarrow> rsConsumed store | Inr _ \<Rightarrow> insert (rxGrantId x) (rsConsumed store))"
  by (auto simp: consumeResumeGrant_def withoutGrant_def Let_def split: option.splits)

lemma consume_replay:
  "rsGrants store (rxGrantId x) = None \<Longrightarrow> rxGrantId x \<in> rsConsumed store \<Longrightarrow>
     snd (consumeResumeGrant store x) = Inl (if rxGrantId x \<in> set inheritedNames then ResumeSession else ResumeReplay)"
  by (simp add: consumeResumeGrant_def Let_def)

interpretation resume_history: one_shot_store rgGrantId rsGrants resumeStep resumeMinted
proof unfold_locales
  fix s op s' c i g
  assume "resumeStep s op = (s', c)" and "rsGrants s' i = Some g"
  then show "rsGrants s i = Some g \<or> resumeMinted op = Some g \<and> rgGrantId g = i"
    using consume_grants [of s]
    by (cases op)
      (auto simp: resumeStep_def resumeMinted_def mintResumeGrant_def revokeResumeGrant_def withoutGrant_def case_prod_beta
        simp del: consume_grants split: if_splits)
next
  fix s op s' g
  assume a: "resumeStep s op = (s', Some g)"
  then obtain x where op: "op = ResumeConsume x"
    by (cases op) (auto simp: resumeStep_def)
  then have "snd (consumeResumeGrant s x) = Inr g" "s' = fst (consumeResumeGrant s x)"
    using a by (auto simp: resumeStep_def case_prod_beta split: sum.splits)
  then show "resumeMinted op = None \<and> (\<exists>i. rsGrants s i = Some g \<and> rsGrants s' i = None)"
    unfolding consume_Inr by (auto simp: op resumeMinted_def)
qed

section \<open>Properties\<close>

text \<open>
  a resume grant is honoured exactly when it is stored, unexpired and equal in every bound value to the
  presented context; any presentation of its id removes it, whatever the answer, and presenting an honoured
  id again is reported as a replay.
\<close>

theorem resume_grant_one_shot:
  "(\<exists>g. snd (consumeResumeGrant store x) = Inr g) =
     (\<exists>g. rsGrants store (rxGrantId x) = Some g \<and> \<not> jleq (rgExpiresAtMs g) (rxNowMs x)
        \<and> rxBinding x = rgBinding g \<and> list_all (\<lambda>n. n \<noteq> NaN) [rbAuthorizationGeneration (rgBinding g),
              rbCheckpointSequence (rgBinding g), rbWriterOrdinal (rgBinding g)])
   \<and> rsGrants (fst (consumeResumeGrant store x)) = (rsGrants store)(rxGrantId x := None)
   \<and> (case consumeResumeGrant store x of
        (store', Inr g) \<Rightarrow> rsGrants store (rxGrantId x) = Some g
          \<and> snd (consumeResumeGrant store' x)
              = Inl (if rxGrantId x \<in> set inheritedNames then ResumeSession else ResumeReplay)
      | (store', Inl d) \<Rightarrow> rsConsumed store' = rsConsumed store)"
proof (cases "consumeResumeGrant store x")
  case (Pair store' r)
  then have f: "store' = fst (consumeResumeGrant store x)" "r = snd (consumeResumeGrant store x)" by simp_all
  show ?thesis
  proof (cases r)
    case (Inl d)
    then show ?thesis
      using consume_Inr [of store x] consume_consumed [of store x] consume_grants [of store x]
      unfolding bindingMismatch_None Pair by auto
  next
    case (Inr g)
    have "rsGrants store' (rxGrantId x) = None" "rxGrantId x \<in> rsConsumed store'"
      using consume_consumed [of store x] consume_grants [of store x] Inr by (simp_all add: Pair)
    note again = consume_replay [OF this]
    have "rsGrants store (rxGrantId x) = Some g \<and> \<not> jleq (rgExpiresAtMs g) (rxNowMs x)
        \<and> bindingMismatch (rxBinding x) (rgBinding g) = None"
      using consume_Inr [of store x g] Inr by (simp add: Pair)
    then show ?thesis
      using again consume_grants [of store x] Inr unfolding bindingMismatch_None Pair by simp
  qed
qed

text \<open>
  C23: over any history of mints, revocations and presentations from the empty store, every honoured grant was
  minted, and no grant id is honoured more often than it was minted.
\<close>

theorem resume_grants_at_most_as_minted:
  "set (snd (runSteps resumeStep emptyResumeGrantStore ops)) \<subseteq> set (mintedBy resumeMinted ops)
   \<and> count_list (map rgGrantId (snd (runSteps resumeStep emptyResumeGrantStore ops))) i
      \<le> count_list (map rgGrantId (mintedBy resumeMinted ops)) i"
proof -
  obtain t gs where run: "runSteps resumeStep emptyResumeGrantStore ops = (t, gs)" by (metis surj_pair)
  have "resume_history.keyed emptyResumeGrantStore"
    by (simp add: resume_history.keyed_def emptyResumeGrantStore_def)
  from resume_history.count_bounded [OF this run, of i] resume_history.consumed_minted [OF run] show ?thesis
    unfolding run by (auto simp: emptyResumeGrantStore_def)
qed

end
