(* ===== verification/Ids.thy ===== *)
theory Ids
  imports CallErrors
begin

text \<open>
  Deterministic identities (\<open>src/src/core/ids.ts\<close>) and the write-ahead operation records of
  \<open>src/src/core/operation.ts\<close>.  The hash function is injected by the caller in the source, and is
  an argument here.
\<close>

section \<open>Content and call identities\<close>

type_synonym hasher = "jstr \<Rightarrow> jstr"

datatype call_kind = KLlm | KAgent | KRecurse | KTool | KArtifact | KContext

definition kindText :: "call_kind \<Rightarrow> jstr" where
  "kindText k = js (case k of
     KLlm \<Rightarrow> ''llm'' | KAgent \<Rightarrow> ''agent'' | KRecurse \<Rightarrow> ''recurse'' | KTool \<Rightarrow> ''tool''
   | KArtifact \<Rightarrow> ''artifact'' | KContext \<Rightarrow> ''context'')"

definition fullDigest :: "hasher \<Rightarrow> jstr \<Rightarrow> js_exn + jstr" where
  "fullDigest hasher input =
     (if isSha256 (hasher input) then Inr (hasher input)
      else Inl (ThrowTypeError (js ''hasher must return 64 lowercase hexadecimal characters'')))"

definition identityHash :: "hasher \<Rightarrow> json \<Rightarrow> js_exn + jstr" where
  "identityHash hasher identity = resBind (canonicalStringify identity) (fullDigest hasher)"

definition deriveCallId :: "hasher \<Rightarrow> jstr \<Rightarrow> call_kind \<Rightarrow> jstr \<Rightarrow> json \<Rightarrow> js_exn + jstr" where
  "deriveCallId hasher runId kind key identity =
     resBind (identityHash hasher identity) (\<lambda>idh.
     resBind (canonicalStringify (JObj
        [(js ''runId'', JStr runId), (js ''kind'', JStr (kindText kind)), (js ''key'', JStr key), (js ''identityHash'', JStr idh)]))
       (\<lambda>text. resBind (fullDigest hasher text) (\<lambda>digest.
          Inr (js ''call_'' @ kindText kind @ js ''_'' @ digest))))"

definition shortHash :: "hasher \<Rightarrow> jstr \<Rightarrow> nat \<Rightarrow> js_exn + jstr" where
  "shortHash hasher input len = map_sum id (take len) (fullDigest hasher input)"

section \<open>Operations\<close>

definition OPERATION_JOURNAL_SCHEMA_VERSION :: jsnum where
  "OPERATION_JOURNAL_SCHEMA_VERSION = Num 2"

definition PROVIDER_REQUEST_IDENTITY_VERSION :: jstr where
  "PROVIDER_REQUEST_IDENTITY_VERSION = js ''pi-rlm.provider-request.v1''"

definition AGENT_REQUEST_IDENTITY_VERSION :: jstr where
  "AGENT_REQUEST_IDENTITY_VERSION = js ''pi-rlm.agent-request.v1''"

definition EXTERNAL_EXTRACTOR_REQUEST_IDENTITY_VERSION :: jstr where
  "EXTERNAL_EXTRACTOR_REQUEST_IDENTITY_VERSION = js ''pi-rlm.external-extractor-request.v1''"

datatype operation_kind = OpController | OpLlm | OpExtractor | OpAgent

datatype operation_outcome = OutOk | OutError | OutCancelled | OutInvalidResult

definition operationKindText :: "operation_kind \<Rightarrow> jstr" where
  "operationKindText k = js (case k of
     OpController \<Rightarrow> ''controller'' | OpLlm \<Rightarrow> ''llm'' | OpExtractor \<Rightarrow> ''extractor'' | OpAgent \<Rightarrow> ''agent'')"

text \<open>Exact tree-wide capacity committed before one external request; attempts is always one.\<close>

record operation_reservation =
  resLogicalCalls :: jsnum
  resAttempts :: jsnum
  resTokens :: jsnum

record operation_identity =
  oiSchemaVersion :: jsnum
  oiRunId :: jstr
  oiFrameId :: jstr
  oiOperationId :: jstr
  oiKind :: operation_kind
  oiKey :: jstr
  oiAttempt :: jsnum
  oiRequestIdentityVersion :: jstr
  oiRequestSha256 :: jstr
  oiReservation :: operation_reservation

record operation_intended = operation_identity +
  oiIntentId :: jstr

record operation_settled =
  osSchemaVersion :: jsnum
  osRunId :: jstr
  osFrameId :: jstr
  osIntentId :: jstr
  osOutcome :: operation_outcome
  osUsage :: call_usage
  osErrorCode :: "jstr option"

text \<open>The identity as the JSON object that is hashed.\<close>

definition identityJson :: "operation_identity \<Rightarrow> json" where
  "identityJson i = JObj
     [(js ''schemaVersion'', JNum (oiSchemaVersion i)), (js ''runId'', JStr (oiRunId i)),
      (js ''frameId'', JStr (oiFrameId i)), (js ''operationId'', JStr (oiOperationId i)),
      (js ''kind'', JStr (operationKindText (oiKind i))), (js ''key'', JStr (oiKey i)), (js ''attempt'', JNum (oiAttempt i)),
      (js ''requestIdentityVersion'', JStr (oiRequestIdentityVersion i)), (js ''requestSha256'', JStr (oiRequestSha256 i)),
      (js ''reservation'', JObj
        [(js ''logicalCalls'', JNum (resLogicalCalls (oiReservation i))), (js ''attempts'', JNum (resAttempts (oiReservation i))),
         (js ''tokens'', JNum (resTokens (oiReservation i)))])]"

definition operationDigest :: "hasher \<Rightarrow> jstr \<Rightarrow> js_exn + jstr" where
  "operationDigest hasher input =
     (if isSha256 (hasher input) then Inr (hasher input)
      else Inl (ThrowTypeError (js ''operation intent hasher must return lowercase SHA-256'')))"

definition deriveOperationIntentId :: "hasher \<Rightarrow> operation_identity \<Rightarrow> js_exn + jstr" where
  "deriveOperationIntentId hasher i =
     resBind (canonicalStringify (identityJson i)) (\<lambda>text.
       map_sum id (\<lambda>d. js ''op_'' @ d) (operationDigest hasher text))"

definition operationRequestVersionAllowed :: "operation_kind \<Rightarrow> jstr \<Rightarrow> bool" where
  "operationRequestVersionAllowed kind version =
     (if kind = OpAgent then version = AGENT_REQUEST_IDENTITY_VERSION
      else if kind = OpExtractor
      then version = PROVIDER_REQUEST_IDENTITY_VERSION \<or> version = EXTERNAL_EXTRACTOR_REQUEST_IDENTITY_VERSION
      else version = PROVIDER_REQUEST_IDENTITY_VERSION)"

section \<open>Lemmas\<close>

text \<open>A conforming hasher always returns a lower-case SHA-256 digest.\<close>

definition conforming :: "hasher \<Rightarrow> bool" where
  "conforming hasher \<longleftrightarrow> (\<forall>s. isSha256 (hasher s))"

lemma fullDigest_conforming: "conforming hasher \<Longrightarrow> fullDigest hasher s = Inr (hasher s)"
  by (simp add: conforming_def fullDigest_def)

lemma identityHash_same: "sameJson v w \<Longrightarrow> identityHash hasher v = identityHash hasher w"
  by (simp add: identityHash_def canonicalStringify_def canonicalize_same)

lemma canonicalStringify_flat:
  assumes "jsonDepth v \<le> MAX_JSON_DEPTH"
  shows "\<exists>t. canonicalStringify v = Inr t"
  using assms canonicalize_exists [of v] by (auto simp: canonicalStringify_def)

lemma deriveCallId_conforming:
  assumes "conforming hasher" and "canonicalStringify identity = Inr text"
  shows "\<exists>d. deriveCallId hasher runId kind key identity = Inr (js ''call_'' @ kindText kind @ js ''_'' @ d) \<and> isSha256 d"
proof -
  let ?o = "JObj [(js ''runId'', JStr runId), (js ''kind'', JStr (kindText kind)), (js ''key'', JStr key),
    (js ''identityHash'', JStr (hasher text))]"
  have "jsonDepth ?o \<le> MAX_JSON_DEPTH" by (simp add: MAX_JSON_DEPTH_def)
  then obtain t where "canonicalStringify ?o = Inr t" using canonicalStringify_flat by blast
  then show ?thesis
    using assms by (simp add: deriveCallId_def identityHash_def fullDigest_conforming conforming_def)
qed

section \<open>Properties\<close>

text \<open>
  with a conforming hasher, every identity of bounded depth gets a call id made of its kind and a
  SHA-256 digest, identities that differ only in the order of object keys get the same call id, and an
  identity beyond the depth bound makes the derivation throw.
\<close>

theorem callId_stable:
  assumes "conforming hasher"
  shows "(jsonDepth v \<le> MAX_JSON_DEPTH) = (\<exists>d. isSha256 d
      \<and> deriveCallId hasher runId kind key v = Inr (js ''call_'' @ kindText kind @ js ''_'' @ d))
    \<and> (sameJson v w \<longrightarrow> deriveCallId hasher runId kind key v = deriveCallId hasher runId kind key w)"
proof -
  have "\<exists>d. deriveCallId hasher runId kind key v = Inr (js ''call_'' @ kindText kind @ js ''_'' @ d) \<and> isSha256 d"
    if "jsonDepth v \<le> MAX_JSON_DEPTH"
    using canonicalStringify_flat [OF that] deriveCallId_conforming [OF assms] by blast
  moreover have "jsonDepth v \<le> MAX_JSON_DEPTH" if "deriveCallId hasher runId kind key v = Inr r" for r
    using that canonicalize_exists [of v] by (auto simp: deriveCallId_def identityHash_def resBind_eq_Inr canonicalStringify_def)
  moreover have "sameJson v w \<longrightarrow> deriveCallId hasher runId kind key v = deriveCallId hasher runId kind key w"
    by (simp add: deriveCallId_def identityHash_same)
  ultimately show ?thesis by blast
qed

definition sampleHasher :: hasher where
  "sampleHasher s = replicate 64 97"

lemma sampleHasher_conforming: "conforming sampleHasher"
  by (simp add: conforming_def sampleHasher_def isSha256_def list_all_iff isLowerHex_def)

theorem callId_stable_witness:
  "\<exists>d. isSha256 d \<and> deriveCallId sampleHasher (js ''run'') KLlm (js ''k'') (JBool True) = Inr (js ''call_llm_'' @ d)"
proof -
  have "jsonDepth (JBool True) \<le> MAX_JSON_DEPTH" by simp
  then have "\<exists>d. isSha256 d
      \<and> deriveCallId sampleHasher (js ''run'') KLlm (js ''k'') (JBool True) = Inr (js ''call_'' @ kindText KLlm @ js ''_'' @ d)"
    using callId_stable [OF sampleHasher_conforming, of "JBool True"] by blast
  then show ?thesis by (simp add: kindText_def flip: js_append append_assoc)
qed

end
