(* ===== verification/Budget.thy ===== *)
theory Budget
  imports CallErrors
begin

text \<open>
  The tree-wide budget ledger of \<open>src/src/core/budget.ts\<close>: one pure operation per exported
  function, each returning a new ledger or a typed call error, with the message texts of the
  source.  The invariant \<open>ledgerOk\<close> bounds every counter by its limit; the locale
  \<open>capped_counter\<close> states what the reserve/release pairs have in common.
\<close>

section \<open>State\<close>

record budget_limits =
  maxDepth :: jsnum
  maxFrames :: jsnum
  maxLogicalCalls :: jsnum
  maxAttempts :: jsnum
  maxControllerTurns :: jsnum
  maxConcurrency :: jsnum
  tokenLimit :: "jsnum option"
  storedByteLimit :: jsnum
  deadlineMs :: jsnum

record budget_usage =
  framesOpened :: jsnum
  logicalCalls :: jsnum
  attempts :: jsnum
  controllerTurns :: jsnum
  activeLeafCalls :: jsnum
  tokensReserved :: jsnum
  tokensUsed :: jsnum
  inputTokensUsed :: jsnum
  outputTokensUsed :: jsnum
  costUsd :: jsnum
  providerDurationMs :: jsnum
  storedBytes :: jsnum

record ledger =
  limits :: budget_limits
  usage :: budget_usage

definition ZERO_USAGE :: budget_usage where
  "ZERO_USAGE =
     \<lparr>framesOpened = Num 0, logicalCalls = Num 0, attempts = Num 0, controllerTurns = Num 0,
      activeLeafCalls = Num 0, tokensReserved = Num 0, tokensUsed = Num 0, inputTokensUsed = Num 0,
      outputTokensUsed = Num 0, costUsd = Num 0, providerDurationMs = Num 0, storedBytes = Num 0\<rparr>"

definition createLedger :: "budget_limits \<Rightarrow> ledger" where
  "createLedger ls = \<lparr>limits = ls, usage = ZERO_USAGE\<rparr>"

definition patch :: "ledger \<Rightarrow> (budget_usage \<Rightarrow> budget_usage) \<Rightarrow> ledger" where
  "patch l f = \<lparr>limits = limits l, usage = f (usage l)\<rparr>"

definition deadlinePassed :: "ledger \<Rightarrow> jsnum \<Rightarrow> bool" where
  "deadlinePassed l now \<longleftrightarrow> jleq (deadlineMs (limits l)) now"

section \<open>Operations\<close>

definition openFrame :: "ledger \<Rightarrow> jsnum \<Rightarrow> call_error + ledger" where
  "openFrame l childDepth =
     (if jless (maxDepth (limits l)) childDepth
      then Inl (callError BUDGET_DEPTH
             (js ''depth '' @ numString childDepth @ js '' exceeds max '' @ numString (maxDepth (limits l))))
      else if jless (maxFrames (limits l)) (jadd (framesOpened (usage l)) (Num 1))
      then Inl (callError BUDGET_FRAMES (js ''frame limit '' @ numString (maxFrames (limits l)) @ js '' reached''))
      else Inr (patch l (\<lambda>u. u\<lparr>framesOpened := jadd (framesOpened u) (Num 1)\<rparr>)))"

datatype turn_error = CONTROLLER_TURNS_EXHAUSTED | DEADLINE

definition reserveControllerTurn :: "ledger \<Rightarrow> jsnum \<Rightarrow> turn_error + ledger" where
  "reserveControllerTurn l now =
     (if deadlinePassed l now then Inl DEADLINE
      else if jless (maxControllerTurns (limits l)) (jadd (controllerTurns (usage l)) (Num 1))
      then Inl CONTROLLER_TURNS_EXHAUSTED
      else Inr (patch l (\<lambda>u. u\<lparr>controllerTurns := jadd (controllerTurns u) (Num 1)\<rparr>)))"

definition deadlineError :: call_error where
  "deadlineError = callError BUDGET_DEADLINE (js ''run deadline reached'')"

definition reserveLogicalCall :: "ledger \<Rightarrow> jsnum \<Rightarrow> call_error + ledger" where
  "reserveLogicalCall l now =
     (if deadlinePassed l now then Inl deadlineError
      else if jless (maxLogicalCalls (limits l)) (jadd (logicalCalls (usage l)) (Num 1))
      then Inl (callError BUDGET_CALLS
             (js ''logical call limit '' @ numString (maxLogicalCalls (limits l)) @ js '' reached''))
      else Inr (patch l (\<lambda>u. u\<lparr>logicalCalls := jadd (logicalCalls u) (Num 1)\<rparr>)))"

definition releaseLogicalCall :: "ledger \<Rightarrow> ledger" where
  "releaseLogicalCall l = patch l (\<lambda>u. u\<lparr>logicalCalls := jmax (Num 0) (jsub (logicalCalls u) (Num 1))\<rparr>)"

text \<open>\<open>!Number.isSafeInteger(n) || n < 0\<close>\<close>

definition notCount :: "jsnum \<Rightarrow> bool" where
  "notCount n \<longleftrightarrow> \<not> isSafeInteger n \<or> jless n (Num 0)"

definition reserveAttempt :: "ledger \<Rightarrow> jsnum \<Rightarrow> jsnum \<Rightarrow> call_error + ledger" where
  "reserveAttempt l now reserveTokens =
     (if deadlinePassed l now then Inl deadlineError
      else if notCount reserveTokens \<or> jless MAX_CALL_TOKENS reserveTokens
      then Inl (callError INVALID_REQUEST (js ''invalid attempt token reservation''))
      else if notCount (attempts (usage l)) \<or> notCount (tokensReserved (usage l)) \<or> notCount (tokensUsed (usage l))
      then Inl (callError INVALID_RESULT (js ''invalid ledger accounting''))
      else if jleq (maxAttempts (limits l)) (attempts (usage l))
      then Inl (callError BUDGET_ATTEMPTS
             (js ''attempt limit '' @ numString (maxAttempts (limits l)) @ js '' reached''))
      else if jless (jsub maxSafe reserveTokens) (tokensReserved (usage l))
      then Inl (callError BUDGET_TOKENS (js ''token reservation overflow''))
      else let nextReserved = jadd (tokensReserved (usage l)) reserveTokens
           in if (case tokenLimit (limits l) of
                    None \<Rightarrow> False
                  | Some cap \<Rightarrow> jless (jsub cap nextReserved) (tokensUsed (usage l)))
              then Inl (callError BUDGET_TOKENS
                     (js ''token limit '' @ numString (case_option NaN id (tokenLimit (limits l))) @ js '' reached''))
              else Inr (patch l (\<lambda>u. u\<lparr>attempts := jadd (attempts u) (Num 1), tokensReserved := nextReserved\<rparr>)))"

definition invalidUsageError :: call_error where
  "invalidUsageError = callError INVALID_RESULT (js ''invalid reported provider usage'')"

definition settleAccounting ::
  "ledger \<Rightarrow> jsnum \<Rightarrow> jsnum \<Rightarrow> jsnum \<Rightarrow> jsnum \<Rightarrow> jsnum \<Rightarrow> jsnum \<Rightarrow> call_error + ledger" where
  "settleAccounting l reservedTokens actualTokens inputTokens outputTokens cost durationMs =
     (let u = usage l
      in if notCount (tokensReserved u) \<or> notCount (tokensUsed u) \<or> notCount (inputTokensUsed u)
            \<or> notCount (outputTokensUsed u) \<or> \<not> isFinite (costUsd u) \<or> jless (costUsd u) (Num 0)
            \<or> notCount (providerDurationMs u)
         then Inl (callError INVALID_RESULT (js ''invalid ledger accounting''))
         else if notCount reservedTokens \<or> jless (tokensReserved u) reservedTokens
         then Inl (callError INVALID_RESULT (js ''invalid token reservation settlement''))
         else if notCount actualTokens \<or> jless MAX_CALL_TOKENS actualTokens
            \<or> notCount inputTokens \<or> jless MAX_CALL_TOKENS inputTokens
            \<or> notCount outputTokens \<or> jless MAX_CALL_TOKENS outputTokens
            \<or> jless actualTokens (jadd inputTokens outputTokens)
            \<or> \<not> isFinite cost \<or> jless cost (Num 0) \<or> jless MAX_CALL_COST_USD cost
            \<or> notCount durationMs \<or> jless MAX_CALL_DURATION_MS durationMs
            \<or> jless (jsub maxSafe actualTokens) (tokensUsed u)
            \<or> jless (jsub maxSafe inputTokens) (inputTokensUsed u)
            \<or> jless (jsub maxSafe outputTokens) (outputTokensUsed u)
            \<or> jless (jsub maxSafe durationMs) (providerDurationMs u)
            \<or> \<not> isFinite (jadd (costUsd u) cost)
         then Inl invalidUsageError
         else Inr (patch l (\<lambda>u. u\<lparr>
                tokensReserved := jsub (tokensReserved u) reservedTokens,
                tokensUsed := jadd (tokensUsed u) actualTokens,
                inputTokensUsed := jadd (inputTokensUsed u) inputTokens,
                outputTokensUsed := jadd (outputTokensUsed u) outputTokens,
                costUsd := jadd (costUsd u) cost,
                providerDurationMs := jadd (providerDurationMs u) durationMs\<rparr>)))"

definition settleAttempt :: "ledger \<Rightarrow> jsnum \<Rightarrow> jsnum \<Rightarrow> call_error + ledger" where
  "settleAttempt l reservedTokens actualTokens =
     settleAccounting l reservedTokens actualTokens (Num 0) (Num 0) (Num 0) (Num 0)"

definition settleAttemptUsage :: "ledger \<Rightarrow> jsnum \<Rightarrow> call_usage \<Rightarrow> call_error + ledger" where
  "settleAttemptUsage l reservedTokens u =
     (let input = case_option (Num 0) id (uInputTokens u);
          output = case_option (Num 0) id (uOutputTokens u);
          total = case_option (jadd input output) id (uTotalTokens u)
      in settleAccounting l reservedTokens total input output (case_option (Num 0) id (uCostUsd u)) (uDurationMs u))"

text \<open>\<open>None\<close> is the scheduling signal \<open>saturated\<close>.\<close>

definition acquireLeaf :: "ledger \<Rightarrow> ledger option" where
  "acquireLeaf l =
     (if jless (maxConcurrency (limits l)) (jadd (activeLeafCalls (usage l)) (Num 1)) then None
      else Some (patch l (\<lambda>u. u\<lparr>activeLeafCalls := jadd (activeLeafCalls u) (Num 1)\<rparr>)))"

definition releaseLeaf :: "ledger \<Rightarrow> ledger" where
  "releaseLeaf l = patch l (\<lambda>u. u\<lparr>activeLeafCalls := jmax (Num 0) (jsub (activeLeafCalls u) (Num 1))\<rparr>)"

definition reserveBytes :: "ledger \<Rightarrow> jsnum \<Rightarrow> call_error + ledger" where
  "reserveBytes l bytes =
     (if notCount bytes \<or> notCount (storedBytes (usage l))
      then Inl (callError INVALID_RESULT (js ''invalid stored-byte accounting''))
      else if jless (jsub (storedByteLimit (limits l)) (storedBytes (usage l))) bytes
      then Inl (callError BUDGET_BYTES
             (js ''stored byte limit '' @ numString (storedByteLimit (limits l)) @ js '' reached''))
      else Inr (patch l (\<lambda>u. u\<lparr>storedBytes := jadd (storedBytes u) bytes\<rparr>)))"

definition releaseBytes :: "ledger \<Rightarrow> jsnum \<Rightarrow> js_exn + ledger" where
  "releaseBytes l bytes =
     (if notCount bytes \<or> jless (storedBytes (usage l)) bytes
      then Inl (ThrowError (js ''invalid stored-byte reservation rollback''))
      else Inr (patch l (\<lambda>u. u\<lparr>storedBytes := jsub (storedBytes u) bytes\<rparr>)))"

record budget_view =
  vDepth :: jsnum
  vMaxDepth :: jsnum
  vLogicalCallsUsed :: jsnum
  vLogicalCallsRemaining :: jsnum
  vAttemptsUsed :: jsnum
  vAttemptsRemaining :: jsnum
  vActiveLeafCalls :: jsnum
  vMaxConcurrency :: jsnum
  vControllerTurnsUsed :: jsnum
  vControllerTurnsRemaining :: jsnum
  vReportedTokensUsed :: jsnum
  vReportedInputTokensUsed :: jsnum
  vReportedOutputTokensUsed :: jsnum
  vReportedCostUsd :: jsnum
  vProviderDurationMs :: jsnum
  vReportedTokensReserved :: jsnum
  vReportedTokenLimit :: "jsnum option"
  vStoredBytesUsed :: jsnum
  vStoredByteLimit :: jsnum
  vDeadlineMs :: jsnum

definition budgetView :: "ledger \<Rightarrow> jsnum \<Rightarrow> budget_view" where
  "budgetView l depth =
     (let ls = limits l; u = usage l
      in \<lparr>vDepth = depth, vMaxDepth = maxDepth ls,
          vLogicalCallsUsed = logicalCalls u,
          vLogicalCallsRemaining = jmax (Num 0) (jsub (maxLogicalCalls ls) (logicalCalls u)),
          vAttemptsUsed = attempts u,
          vAttemptsRemaining = jmax (Num 0) (jsub (maxAttempts ls) (attempts u)),
          vActiveLeafCalls = activeLeafCalls u,
          vMaxConcurrency = maxConcurrency ls,
          vControllerTurnsUsed = controllerTurns u,
          vControllerTurnsRemaining = jmax (Num 0) (jsub (maxControllerTurns ls) (controllerTurns u)),
          vReportedTokensUsed = tokensUsed u,
          vReportedInputTokensUsed = inputTokensUsed u,
          vReportedOutputTokensUsed = outputTokensUsed u,
          vReportedCostUsd = costUsd u,
          vProviderDurationMs = providerDurationMs u,
          vReportedTokensReserved = tokensReserved u,
          vReportedTokenLimit = tokenLimit ls,
          vStoredBytesUsed = storedBytes u,
          vStoredByteLimit = storedByteLimit ls,
          vDeadlineMs = deadlineMs ls\<rparr>)"

section \<open>Counters\<close>

definition isCount :: "jsnum \<Rightarrow> bool" where
  "isCount n \<longleftrightarrow> isSafeInteger n \<and> jleq (Num 0) n"

lemma isCount_iff: "isCount n \<longleftrightarrow> (\<exists>k. n = JI k \<and> 0 \<le> k \<and> k \<le> MAX_SAFE_INTEGER)"
  by (auto simp: isCount_def isSafeInteger_iff)

lemma notCount_iff: "notCount n \<longleftrightarrow> \<not> isCount n"
  by (cases n) (auto simp: notCount_def isCount_def isSafeInteger_def)

lemma countWithin_safe: "isCount m \<Longrightarrow> countWithin m n \<longleftrightarrow> isCount n \<and> jint n \<le> jint m"
  by (auto simp: isCount_iff countWithin_def isSafeInteger_iff)

lemma isCount_zero [simp]: "isCount (Num 0)"
  by (auto simp: isCount_def)

lemma jint_zero [simp]: "jint (Num 0) = 0" "jint (Num 1) = 1"
  by (simp_all add: jint_def)

lemma isCount_bounds: "isCount n \<Longrightarrow> 0 \<le> jint n \<and> jint n \<le> MAX_SAFE_INTEGER"
  by (auto simp: isCount_iff)

text \<open>Sums, differences and comparisons of counts are those of the integers they denote.\<close>

lemma jint_inject: "isCount a \<Longrightarrow> isCount b \<Longrightarrow> jint a = jint b \<longleftrightarrow> a = b"
  by (auto simp: isCount_iff)

lemma count_jless: "isCount a \<Longrightarrow> isCount b \<Longrightarrow> jless a b \<longleftrightarrow> jint a < jint b"
  by (auto simp: isCount_iff)

lemma count_jleq: "isCount a \<Longrightarrow> isCount b \<Longrightarrow> jleq a b \<longleftrightarrow> jint a \<le> jint b"
  by (auto simp: isCount_iff)

lemma count_add:
  assumes "isCount a" "isCount b" "jint a + jint b \<le> MAX_SAFE_INTEGER"
  shows "isCount (jadd a b) \<and> jint (jadd a b) = jint a + jint b"
proof -
  obtain k l where kl: "a = JI k" "b = JI l" "0 \<le> k" "0 \<le> l"
    using assms by (auto simp: isCount_iff)
  then have "\<bar>k + l\<bar> \<le> 2 ^ 53"
    using assms by (simp add: MAX_SAFE_INTEGER_def)
  then have "jadd a b = JI (k + l)" unfolding kl by (rule jadd_JI)
  then show ?thesis using assms kl by (auto simp: isCount_iff simp del: of_int_add)
qed

lemma count_sub:
  assumes "isCount a" "isCount b"
  shows "jsub a b = JI (jint a - jint b)"
proof -
  obtain k l where kl: "a = JI k" "b = JI l" "0 \<le> k" "k \<le> MAX_SAFE_INTEGER" "0 \<le> l" "l \<le> MAX_SAFE_INTEGER"
    using assms by (auto simp: isCount_iff)
  then have "\<bar>k - l\<bar> \<le> 2 ^ 53" by (simp add: MAX_SAFE_INTEGER_def)
  then have "jsub a b = JI (k - l)" unfolding kl by (rule jsub_JI)
  then show ?thesis using kl by simp
qed

lemma count_sub_le:
  assumes "isCount a" "isCount b" "jint b \<le> jint a"
  shows "isCount (jsub a b) \<and> jint (jsub a b) = jint a - jint b"
  using assms by (subst count_sub, blast, blast)
    (use assms in \<open>auto simp: count_sub isCount_iff simp del: of_int_diff\<close>)

lemma count_jless_sub:
  assumes "isCount a" "isCount b" "isCount c"
  shows "jless (jsub a b) c \<longleftrightarrow> jint a < jint b + jint c"
proof -
  have "c = JI (jint c)" using assms(3) by (auto simp: isCount_iff)
  moreover have "jless (JI (jint a - jint b)) (JI (jint c)) \<longleftrightarrow> jint a < jint b + jint c"
    by (simp only: jless_JI) linarith
  ultimately show ?thesis by (simp only: count_sub [OF assms(1,2)])
qed

lemma count_full:
  assumes "isCount m" "isCount n" "jint n \<le> jint m"
  shows "jless m (jadd n (Num 1)) \<longleftrightarrow> jint n = jint m"
proof -
  obtain k l where kl: "m = JI k" "n = JI l" "0 \<le> l" "l \<le> k" "k \<le> MAX_SAFE_INTEGER"
    using assms by (auto simp: isCount_iff)
  then have "\<bar>l + 1\<bar> \<le> 2 ^ 53" by (simp add: MAX_SAFE_INTEGER_def)
  then have "jadd n (JI 1) = JI (l + 1)" unfolding kl by (rule jadd_JI)
  then show ?thesis using kl by auto
qed

lemma count_inc:
  assumes "isCount m" "isCount n" "jint n < jint m"
  shows "isCount (jadd n (Num 1)) \<and> jint (jadd n (Num 1)) = jint n + 1"
  using count_add [of n "Num 1"] assms isCount_bounds [of m] by (auto simp: isCount_def MAX_SAFE_INTEGER_def)

lemma count_dec:
  assumes "isCount n"
  shows "isCount (jmax (Num 0) (jsub n (Num 1))) \<and> jint (jmax (Num 0) (jsub n (Num 1))) = max 0 (jint n - 1)"
proof -
  have "isCount (Num 1)" by (auto simp: isCount_def MAX_SAFE_INTEGER_def)
  then have "jmax (Num 0) (jsub n (Num 1)) = JI (max 0 (jint n - 1))"
    using count_sub [OF assms, of "Num 1"] by (simp add: jmax_Num max_def)
  then show ?thesis
    using isCount_bounds [OF assms] by (auto simp: isCount_iff simp del: of_int_max of_int_diff)
qed

section \<open>The ledger invariant\<close>

text \<open>Limits a validated profile produces: counts; the deadline is any instant.\<close>

definition limitsOk :: "budget_limits \<Rightarrow> bool" where
  "limitsOk ls \<longleftrightarrow>
     isCount (maxDepth ls) \<and> isCount (maxFrames ls) \<and> isCount (maxLogicalCalls ls) \<and> isCount (maxAttempts ls)
     \<and> isCount (maxControllerTurns ls) \<and> isCount (maxConcurrency ls) \<and> pred_option isCount (tokenLimit ls)
     \<and> isCount (storedByteLimit ls)"

definition isCost :: "jsnum \<Rightarrow> bool" where
  "isCost c \<longleftrightarrow> isFinite c \<and> \<not> jless c (Num 0)"

definition usageOk :: "budget_limits \<Rightarrow> budget_usage \<Rightarrow> bool" where
  "usageOk ls u \<longleftrightarrow>
     countWithin (maxFrames ls) (framesOpened u) \<and> countWithin (maxLogicalCalls ls) (logicalCalls u)
     \<and> countWithin (maxAttempts ls) (attempts u) \<and> countWithin (maxControllerTurns ls) (controllerTurns u)
     \<and> countWithin (maxConcurrency ls) (activeLeafCalls u) \<and> countWithin (storedByteLimit ls) (storedBytes u)
     \<and> isCount (tokensReserved u) \<and> isCount (tokensUsed u) \<and> isCount (inputTokensUsed u)
     \<and> isCount (outputTokensUsed u) \<and> isCost (costUsd u) \<and> isCount (providerDurationMs u)"

definition ledgerOk :: "ledger \<Rightarrow> bool" where
  "ledgerOk l \<longleftrightarrow> limitsOk (limits l) \<and> usageOk (limits l) (usage l)"

lemma patch_simps [simp]: "limits (patch l f) = limits l" "usage (patch l f) = f (usage l)"
  by (simp_all add: patch_def)

text \<open>With valid limits, every capped counter is a count not above the integer of its limit.\<close>

lemma usageOk_iff:
  assumes "limitsOk ls"
  shows "usageOk ls u \<longleftrightarrow>
    (isCount (framesOpened u) \<and> jint (framesOpened u) \<le> jint (maxFrames ls))
    \<and> (isCount (logicalCalls u) \<and> jint (logicalCalls u) \<le> jint (maxLogicalCalls ls))
    \<and> (isCount (attempts u) \<and> jint (attempts u) \<le> jint (maxAttempts ls))
    \<and> (isCount (controllerTurns u) \<and> jint (controllerTurns u) \<le> jint (maxControllerTurns ls))
    \<and> (isCount (activeLeafCalls u) \<and> jint (activeLeafCalls u) \<le> jint (maxConcurrency ls))
    \<and> (isCount (storedBytes u) \<and> jint (storedBytes u) \<le> jint (storedByteLimit ls))
    \<and> isCount (tokensReserved u) \<and> isCount (tokensUsed u) \<and> isCount (inputTokensUsed u)
    \<and> isCount (outputTokensUsed u) \<and> isCost (costUsd u) \<and> isCount (providerDurationMs u)"
  using assms by (auto simp: usageOk_def limitsOk_def countWithin_safe)

lemma ledgerOk_iff: "ledgerOk l \<longleftrightarrow> limitsOk (limits l) \<and> usageOk (limits l) (usage l)"
  by (simp add: ledgerOk_def)

lemma createLedger_ok [inv_intros]: "limitsOk ls \<Longrightarrow> ledgerOk (createLedger ls)"
  by (simp add: ledgerOk_def createLedger_def usageOk_iff ZERO_USAGE_def isCost_def)
     (auto simp: limitsOk_def dest: isCount_bounds)

lemma openFrame_Inr:
  "openFrame l d = Inr l' \<longleftrightarrow> \<not> jless (maxDepth (limits l)) d
     \<and> \<not> jless (maxFrames (limits l)) (jadd (framesOpened (usage l)) (Num 1))
     \<and> l' = patch l (\<lambda>u. u\<lparr>framesOpened := jadd (framesOpened u) (Num 1)\<rparr>)"
  by (auto simp: openFrame_def)

lemma reserveControllerTurn_Inr:
  "reserveControllerTurn l now = Inr l' \<longleftrightarrow> \<not> deadlinePassed l now
     \<and> \<not> jless (maxControllerTurns (limits l)) (jadd (controllerTurns (usage l)) (Num 1))
     \<and> l' = patch l (\<lambda>u. u\<lparr>controllerTurns := jadd (controllerTurns u) (Num 1)\<rparr>)"
  by (auto simp: reserveControllerTurn_def)

lemma reserveLogicalCall_Inr:
  "reserveLogicalCall l now = Inr l' \<longleftrightarrow> \<not> deadlinePassed l now
     \<and> \<not> jless (maxLogicalCalls (limits l)) (jadd (logicalCalls (usage l)) (Num 1))
     \<and> l' = patch l (\<lambda>u. u\<lparr>logicalCalls := jadd (logicalCalls u) (Num 1)\<rparr>)"
  by (auto simp: reserveLogicalCall_def)

lemma acquireLeaf_Some:
  "acquireLeaf l = Some l' \<longleftrightarrow> \<not> jless (maxConcurrency (limits l)) (jadd (activeLeafCalls (usage l)) (Num 1))
     \<and> l' = patch l (\<lambda>u. u\<lparr>activeLeafCalls := jadd (activeLeafCalls u) (Num 1)\<rparr>)"
  by (auto simp: acquireLeaf_def)

text \<open>The six capped counters at once: a count, at most its limit, and not full when granted.\<close>

lemma capped_inc:
  assumes "isCount m" "isCount n \<and> jint n \<le> jint m" "\<not> jless m (jadd n (Num 1))"
  shows "isCount (jadd n (Num 1)) \<and> jint (jadd n (Num 1)) = jint n + 1 \<and> jint n < jint m"
proof -
  have "jint n < jint m" using count_full [of m n] assms by auto
  with count_inc [of m n] assms show ?thesis by blast
qed

lemma openFrame_ok [inv_intros]: "ledgerOk l \<Longrightarrow> openFrame l d = Inr l' \<Longrightarrow> ledgerOk l'"
  using capped_inc [of "maxFrames (limits l)" "framesOpened (usage l)"]
  by (auto simp: openFrame_Inr ledgerOk_iff usageOk_iff limitsOk_def)

lemma reserveControllerTurn_ok [inv_intros]:
  "ledgerOk l \<Longrightarrow> reserveControllerTurn l now = Inr l' \<Longrightarrow> ledgerOk l'"
  using capped_inc [of "maxControllerTurns (limits l)" "controllerTurns (usage l)"]
  by (auto simp: reserveControllerTurn_Inr ledgerOk_iff usageOk_iff limitsOk_def)

lemma reserveLogicalCall_ok [inv_intros]:
  "ledgerOk l \<Longrightarrow> reserveLogicalCall l now = Inr l' \<Longrightarrow> ledgerOk l'"
  using capped_inc [of "maxLogicalCalls (limits l)" "logicalCalls (usage l)"]
  by (auto simp: reserveLogicalCall_Inr ledgerOk_iff usageOk_iff limitsOk_def)

lemma acquireLeaf_ok [inv_intros]: "ledgerOk l \<Longrightarrow> acquireLeaf l = Some l' \<Longrightarrow> ledgerOk l'"
  using capped_inc [of "maxConcurrency (limits l)" "activeLeafCalls (usage l)"]
  by (auto simp: acquireLeaf_Some ledgerOk_iff usageOk_iff limitsOk_def)

lemma releaseLogicalCall_ok [inv_intros]: "ledgerOk l \<Longrightarrow> ledgerOk (releaseLogicalCall l)"
  using count_dec [of "logicalCalls (usage l)"] isCount_bounds [of "logicalCalls (usage l)"]
  by (auto simp: releaseLogicalCall_def ledgerOk_iff usageOk_iff)

lemma releaseLeaf_ok [inv_intros]: "ledgerOk l \<Longrightarrow> ledgerOk (releaseLeaf l)"
  using count_dec [of "activeLeafCalls (usage l)"] isCount_bounds [of "activeLeafCalls (usage l)"]
  by (auto simp: releaseLeaf_def ledgerOk_iff usageOk_iff)

lemma reserveAttempt_Inr:
  assumes "ledgerOk l" and "reserveAttempt l now n = Inr l'"
  shows "isCount n" "\<not> deadlinePassed l now" "jint (attempts (usage l)) < jint (maxAttempts (limits l))"
    and "limits l' = limits l"
    and "usage l' = (usage l)\<lparr>attempts := jadd (attempts (usage l)) (Num 1),
                              tokensReserved := jadd (tokensReserved (usage l)) n\<rparr>"
    and "isCount (attempts (usage l'))" "jint (attempts (usage l')) = jint (attempts (usage l)) + 1"
    and "isCount (tokensReserved (usage l'))"
    and "jint (tokensReserved (usage l')) = jint (tokensReserved (usage l)) + jint n"
    and "\<forall>m\<in>set_option (tokenLimit (limits l)). jint (tokensUsed (usage l')) + jint (tokensReserved (usage l')) \<le> jint m"
proof -
  let ?u = "usage l"
  have ok: "isCount (attempts ?u)" "jint (attempts ?u) \<le> jint (maxAttempts (limits l))" "isCount (tokensReserved ?u)"
    "isCount (tokensUsed ?u)" "isCount (maxAttempts (limits l))" "pred_option isCount (tokenLimit (limits l))"
    using assms(1) by (auto simp: ledgerOk_iff usageOk_iff limitsOk_def)
  have safe: "isCount maxSafe" "jint maxSafe = MAX_SAFE_INTEGER" by (auto simp: isCount_iff)
  note guards = assms(2) [unfolded reserveAttempt_def Let_def notCount_iff, simplified ok(1,3,4)]
  show n: "isCount n" and now: "\<not> deadlinePassed l now"
    using guards by (auto split: if_splits)
  have "\<not> jless (jsub maxSafe n) (tokensReserved ?u)"
    and full: "\<not> jleq (maxAttempts (limits l)) (attempts ?u)"
    and l': "l' = patch l (\<lambda>u. u\<lparr>attempts := jadd (attempts u) (Num 1), tokensReserved := jadd (tokensReserved ?u) n\<rparr>)"
    and tok: "\<forall>m\<in>set_option (tokenLimit (limits l)). \<not> jless (jsub m (jadd (tokensReserved ?u) n)) (tokensUsed ?u)"
    using guards by (auto split: if_splits option.splits)
  then have "jint (tokensReserved ?u) + jint n \<le> MAX_SAFE_INTEGER"
    using count_jless_sub [OF safe(1) n ok(3)] safe(2) by simp
  then have res: "isCount (jadd (tokensReserved ?u) n) \<and> jint (jadd (tokensReserved ?u) n) = jint (tokensReserved ?u) + jint n"
    by (rule count_add [OF ok(3) n])
  show less: "jint (attempts ?u) < jint (maxAttempts (limits l))"
    using full count_jleq [OF ok(5,1)] by simp
  have att: "isCount (jadd (attempts ?u) (Num 1)) \<and> jint (jadd (attempts ?u) (Num 1)) = jint (attempts ?u) + 1"
    by (rule count_inc [OF ok(5,1) less])
  show "limits l' = limits l"
    and upd: "usage l' = ?u\<lparr>attempts := jadd (attempts ?u) (Num 1), tokensReserved := jadd (tokensReserved ?u) n\<rparr>"
    by (simp_all add: l')
  show "isCount (attempts (usage l'))" "jint (attempts (usage l')) = jint (attempts ?u) + 1"
    "isCount (tokensReserved (usage l'))" "jint (tokensReserved (usage l')) = jint (tokensReserved ?u) + jint n"
    using att res by (simp_all add: upd)
  show "\<forall>m\<in>set_option (tokenLimit (limits l)). jint (tokensUsed (usage l')) + jint (tokensReserved (usage l')) \<le> jint m"
  proof
    fix m assume m: "m \<in> set_option (tokenLimit (limits l))"
    then have "isCount m" using ok(6) by (auto simp: option.pred_set)
    then show "jint (tokensUsed (usage l')) + jint (tokensReserved (usage l')) \<le> jint m"
      using m tok count_jless_sub [of m "jadd (tokensReserved ?u) n" "tokensUsed ?u"] ok(4) res by (simp add: upd)
  qed
qed

lemma reserveAttempt_ok [inv_intros]: "ledgerOk l \<Longrightarrow> reserveAttempt l now n = Inr l' \<Longrightarrow> ledgerOk l'"
  using reserveAttempt_Inr [of l now n l'] by (auto simp: ledgerOk_iff usageOk_iff)

text \<open>Settlement: what the guards establish, in integers.\<close>

lemma settleAccounting_Inr:
  assumes "ledgerOk l" and "settleAccounting l r a i out c d = Inr l'"
  shows "isCount r" "isCount a" "isCount i" "isCount out" "isCount d"
    and "jint r \<le> jint (tokensReserved (usage l))"
    and "limits l' = limits l"
    and "usage l' = (usage l)\<lparr>tokensReserved := jsub (tokensReserved (usage l)) r,
           tokensUsed := jadd (tokensUsed (usage l)) a, inputTokensUsed := jadd (inputTokensUsed (usage l)) i,
           outputTokensUsed := jadd (outputTokensUsed (usage l)) out, costUsd := jadd (costUsd (usage l)) c,
           providerDurationMs := jadd (providerDurationMs (usage l)) d\<rparr>"
    and "isCount (tokensReserved (usage l')) \<and> jint (tokensReserved (usage l')) = jint (tokensReserved (usage l)) - jint r"
    and "isCount (tokensUsed (usage l')) \<and> jint (tokensUsed (usage l')) = jint (tokensUsed (usage l)) + jint a"
    and "isCount (inputTokensUsed (usage l')) \<and> jint (inputTokensUsed (usage l')) = jint (inputTokensUsed (usage l)) + jint i"
    and "isCount (outputTokensUsed (usage l')) \<and> jint (outputTokensUsed (usage l')) = jint (outputTokensUsed (usage l)) + jint out"
    and "isCount (providerDurationMs (usage l')) \<and> jint (providerDurationMs (usage l')) = jint (providerDurationMs (usage l)) + jint d"
    and "isCost (costUsd (usage l'))"
proof -
  let ?u = "usage l"
  have ok: "isCount (tokensReserved ?u)" "isCount (tokensUsed ?u)" "isCount (inputTokensUsed ?u)"
    "isCount (outputTokensUsed ?u)" "isCost (costUsd ?u)" "isCount (providerDurationMs ?u)"
    using assms(1) by (auto simp: ledgerOk_iff usageOk_iff)
  have safe: "isCount maxSafe" "jint maxSafe = MAX_SAFE_INTEGER" by (auto simp: isCount_iff)
  have sum: "isCount (jadd x y) \<and> jint (jadd x y) = jint x + jint y"
    if "isCount x" "isCount y" "\<not> jless (jsub maxSafe y) x" for x y
    using that count_jless_sub [OF safe(1), of y x] safe(2) count_add [of x y] by auto
  note guards = assms(2) [unfolded settleAccounting_def Let_def notCount_iff]
  show counts: "isCount r" "isCount a" "isCount i" "isCount out" "isCount d"
    using guards by (auto split: if_splits)
  have r: "\<not> jless (tokensReserved ?u) r" and cost: "isFinite c" "\<not> jless c (Num 0)" "isFinite (jadd (costUsd ?u) c)"
    and fits: "\<not> jless (jsub maxSafe a) (tokensUsed ?u)" "\<not> jless (jsub maxSafe i) (inputTokensUsed ?u)"
      "\<not> jless (jsub maxSafe out) (outputTokensUsed ?u)" "\<not> jless (jsub maxSafe d) (providerDurationMs ?u)"
    and l': "l' = patch l (\<lambda>u. u\<lparr>tokensReserved := jsub (tokensReserved u) r,
           tokensUsed := jadd (tokensUsed u) a, inputTokensUsed := jadd (inputTokensUsed u) i,
           outputTokensUsed := jadd (outputTokensUsed u) out, costUsd := jadd (costUsd u) c,
           providerDurationMs := jadd (providerDurationMs u) d\<rparr>)"
    using guards by (auto split: if_splits)
  show le: "jint r \<le> jint (tokensReserved ?u)"
    using r count_jless [OF ok(1) counts(1)] by simp
  show "limits l' = limits l" and upd: "usage l' = ?u\<lparr>tokensReserved := jsub (tokensReserved ?u) r,
           tokensUsed := jadd (tokensUsed ?u) a, inputTokensUsed := jadd (inputTokensUsed ?u) i,
           outputTokensUsed := jadd (outputTokensUsed ?u) out, costUsd := jadd (costUsd ?u) c,
           providerDurationMs := jadd (providerDurationMs ?u) d\<rparr>"
    by (simp_all add: l')
  show "isCount (tokensReserved (usage l')) \<and> jint (tokensReserved (usage l')) = jint (tokensReserved ?u) - jint r"
    using count_sub_le [OF ok(1) counts(1) le] by (simp add: upd)
  show "isCount (tokensUsed (usage l')) \<and> jint (tokensUsed (usage l')) = jint (tokensUsed ?u) + jint a"
    using sum [OF ok(2) counts(2) fits(1)] by (simp add: upd)
  show "isCount (inputTokensUsed (usage l')) \<and> jint (inputTokensUsed (usage l')) = jint (inputTokensUsed ?u) + jint i"
    using sum [OF ok(3) counts(3) fits(2)] by (simp add: upd)
  show "isCount (outputTokensUsed (usage l')) \<and> jint (outputTokensUsed (usage l')) = jint (outputTokensUsed ?u) + jint out"
    using sum [OF ok(4) counts(4) fits(3)] by (simp add: upd)
  show "isCount (providerDurationMs (usage l')) \<and> jint (providerDurationMs (usage l')) = jint (providerDurationMs ?u) + jint d"
    using sum [OF ok(6) counts(5) fits(4)] by (simp add: upd)
  obtain x y where "costUsd ?u = Num x" "0 \<le> x" "c = Num y" "0 \<le> y"
    using ok(5) cost by (auto simp: isCost_def isFinite_iff)
  then show "isCost (costUsd (usage l'))"
    using cost(3) round64_nonneg [of "x + y"] by (auto simp: isCost_def upd)
qed

lemma settleAccounting_ok [inv_intros]:
  "ledgerOk l \<Longrightarrow> settleAccounting l r a i out c d = Inr l' \<Longrightarrow> ledgerOk l'"
  using settleAccounting_Inr [of l r a i out c d l'] by (auto simp: ledgerOk_iff usageOk_iff)

lemma settleAttempt_ok [inv_intros]: "ledgerOk l \<Longrightarrow> settleAttempt l r a = Inr l' \<Longrightarrow> ledgerOk l'"
  by (simp add: settleAttempt_def settleAccounting_ok)

lemma settleAttemptUsage_ok [inv_intros]: "ledgerOk l \<Longrightarrow> settleAttemptUsage l r u = Inr l' \<Longrightarrow> ledgerOk l'"
  unfolding settleAttemptUsage_def Let_def by (rule settleAccounting_ok)

lemma reserveBytes_Inr:
  assumes "ledgerOk l" and "reserveBytes l b = Inr l'"
  shows "isCount b" "limits l' = limits l" "usage l' = (usage l)\<lparr>storedBytes := jadd (storedBytes (usage l)) b\<rparr>"
    and "isCount (storedBytes (usage l'))" "jint (storedBytes (usage l')) = jint (storedBytes (usage l)) + jint b"
    and "jint (storedBytes (usage l')) \<le> jint (storedByteLimit (limits l))"
proof -
  let ?u = "usage l"
  have ok: "isCount (storedBytes ?u)" "jint (storedBytes ?u) \<le> jint (storedByteLimit (limits l))"
    "isCount (storedByteLimit (limits l))"
    using assms(1) by (auto simp: ledgerOk_iff usageOk_iff limitsOk_def)
  note guards = assms(2) [unfolded reserveBytes_def notCount_iff]
  show b: "isCount b" and "limits l' = limits l"
    and upd: "usage l' = ?u\<lparr>storedBytes := jadd (storedBytes ?u) b\<rparr>"
    using guards by (auto split: if_splits)
  have "\<not> jless (jsub (storedByteLimit (limits l)) (storedBytes ?u)) b"
    using guards by (auto split: if_splits)
  then have le: "jint (storedBytes ?u) + jint b \<le> jint (storedByteLimit (limits l))"
    using count_jless_sub [OF ok(3,1) b] by simp
  then have "isCount (jadd (storedBytes ?u) b) \<and> jint (jadd (storedBytes ?u) b) = jint (storedBytes ?u) + jint b"
    using isCount_bounds [OF ok(3)] by (intro count_add [OF ok(1) b]) simp
  then show "isCount (storedBytes (usage l'))" "jint (storedBytes (usage l')) = jint (storedBytes ?u) + jint b"
    "jint (storedBytes (usage l')) \<le> jint (storedByteLimit (limits l))"
    using le by (simp_all add: upd)
qed

lemma reserveBytes_ok [inv_intros]: "ledgerOk l \<Longrightarrow> reserveBytes l b = Inr l' \<Longrightarrow> ledgerOk l'"
  using reserveBytes_Inr [of l b l'] by (auto simp: ledgerOk_iff usageOk_iff)

lemma releaseBytes_Inr:
  assumes "ledgerOk l" and "releaseBytes l b = Inr l'"
  shows "isCount b" "limits l' = limits l" "usage l' = (usage l)\<lparr>storedBytes := jsub (storedBytes (usage l)) b\<rparr>"
    and "isCount (storedBytes (usage l'))" "jint (storedBytes (usage l')) = jint (storedBytes (usage l)) - jint b"
proof -
  have s: "isCount (storedBytes (usage l))"
    using assms(1) by (auto simp: ledgerOk_iff usageOk_iff)
  show b: "isCount b" and "limits l' = limits l"
    and upd: "usage l' = (usage l)\<lparr>storedBytes := jsub (storedBytes (usage l)) b\<rparr>"
    using assms(2) by (auto simp: releaseBytes_def notCount_iff split: if_splits)
  have "\<not> jless (storedBytes (usage l)) b"
    using assms(2) by (auto simp: releaseBytes_def split: if_splits)
  then have "jint b \<le> jint (storedBytes (usage l))" using count_jless [OF s b] by simp
  then show "isCount (storedBytes (usage l'))" "jint (storedBytes (usage l')) = jint (storedBytes (usage l)) - jint b"
    using count_sub_le [OF s b] by (simp_all add: upd)
qed

lemma releaseBytes_ok [inv_intros]: "ledgerOk l \<Longrightarrow> releaseBytes l b = Inr l' \<Longrightarrow> ledgerOk l'"
  using releaseBytes_Inr [of l b l'] isCount_bounds [of b] by (auto simp: ledgerOk_iff usageOk_iff)

section \<open>Capped counters\<close>

text \<open>
  What every reservation of the ledger promises: below the cap it is granted and moves the
  counter by one, at the cap it is refused.  The client lemma counts how many consecutive
  reservations are granted.
\<close>

primrec reserveTimes :: "nat \<Rightarrow> ('s \<Rightarrow> 's option) \<Rightarrow> 's \<Rightarrow> 's option" where
  "reserveTimes 0 reserve s = Some s"
| "reserveTimes (Suc n) reserve s = (case reserve s of None \<Rightarrow> None | Some s' \<Rightarrow> reserveTimes n reserve s')"

locale capped_counter =
  fixes valid :: "'s \<Rightarrow> bool" and used :: "'s \<Rightarrow> int" and cap :: "'s \<Rightarrow> int"
    and reserve :: "'s \<Rightarrow> 's option"
  assumes bounded: "valid s \<Longrightarrow> used s \<le> cap s"
    and granted: "valid s \<Longrightarrow> used s < cap s \<Longrightarrow>
      \<exists>s'. reserve s = Some s' \<and> valid s' \<and> used s' = used s + 1 \<and> cap s' = cap s"
    and refused: "valid s \<Longrightarrow> used s = cap s \<Longrightarrow> reserve s = None"
begin

lemma reserve_iff: "valid s \<Longrightarrow> (\<exists>s'. reserve s = Some s') \<longleftrightarrow> used s < cap s"
  using bounded [of s] granted [of s] refused [of s] by fastforce

lemma reserve_Some:
  assumes "valid s" "reserve s = Some s'"
  shows "valid s'" "used s' = used s + 1" "cap s' = cap s"
  using assms reserve_iff [of s] granted [of s] by auto

lemma times_iff: "valid s \<Longrightarrow> reserveTimes n reserve s \<noteq> None \<longleftrightarrow> used s + int n \<le> cap s"
proof (induction n arbitrary: s)
  case 0
  then show ?case using bounded by simp
next
  case (Suc n)
  show ?case
  proof (cases "reserve s")
    case None
    then show ?thesis using Suc.prems bounded [of s] granted [of s] by force
  next
    case (Some s')
    then show ?thesis using Suc.IH [of s'] reserve_Some [OF Suc.prems Some] by (simp add: ac_simps)
  qed
qed

lemma times_used:
  "valid s \<Longrightarrow> reserveTimes n reserve s = Some s' \<Longrightarrow> valid s' \<and> used s' = used s + int n \<and> cap s' = cap s"
proof (induction n arbitrary: s)
  case (Suc n)
  then obtain t where t: "reserve s = Some t" and rest: "reserveTimes n reserve t = Some s'"
    by (auto split: option.splits)
  show ?case
    using Suc.IH [OF _ rest] reserve_Some [OF Suc.prems(1) t] by simp
qed simp

end

text \<open>A pool also gives a unit back: the release undoes the reservation.\<close>

locale slot_pool = capped_counter +
  fixes release :: "'s \<Rightarrow> 's"
  assumes undo: "valid s \<Longrightarrow> reserve s = Some s' \<Longrightarrow> release s' = s"
    and released: "valid s \<Longrightarrow> valid (release s) \<and> used (release s) = max 0 (used s - 1) \<and> cap (release s) = cap s"
begin

lemma release_frees: "valid s \<Longrightarrow> 0 < used s \<Longrightarrow> \<exists>s'. reserve (release s) = Some s' \<and> used s' = used s"
  using released [of s] granted [of "release s"] bounded [of s] by auto

end

definition okOption :: "'e + 'a \<Rightarrow> 'a option" where
  "okOption r = (case r of Inl _ \<Rightarrow> None | Inr a \<Rightarrow> Some a)"

lemma okOption_simps [simp]: "okOption (Inl e) = None" "okOption (Inr a) = Some a"
  by (simp_all add: okOption_def)

lemma okOption_Some [simp]: "okOption r = Some a \<longleftrightarrow> r = Inr a"
  by (cases r) auto

lemma okOption_None: "okOption r = None \<longleftrightarrow> (\<forall>a. r \<noteq> Inr a)"
  by (cases r) auto

lemma deadlinePassed_limits: "limits l' = limits l \<Longrightarrow> deadlinePassed l' now = deadlinePassed l now"
  by (simp add: deadlinePassed_def)

lemmas counter_rules = openFrame_Inr reserveControllerTurn_Inr reserveLogicalCall_Inr acquireLeaf_Some
  ledgerOk_iff usageOk_iff limitsOk_def

interpretation frame_counter: capped_counter
  "\<lambda>l. ledgerOk l \<and> \<not> jless (maxDepth (limits l)) d"
  "\<lambda>l. jint (framesOpened (usage l))" "\<lambda>l. jint (maxFrames (limits l))"
  "\<lambda>l. okOption (openFrame l d)" for d
proof unfold_locales
  fix l assume l: "ledgerOk l \<and> \<not> jless (maxDepth (limits l)) d"
  then have c: "isCount (maxFrames (limits l))" "isCount (framesOpened (usage l))"
    "jint (framesOpened (usage l)) \<le> jint (maxFrames (limits l))"
    by (auto simp: counter_rules)
  then show "jint (framesOpened (usage l)) \<le> jint (maxFrames (limits l))" by simp
  show "okOption (openFrame l d) = None" if "jint (framesOpened (usage l)) = jint (maxFrames (limits l))"
    using l that count_full [OF c] by (auto simp: okOption_None openFrame_Inr)
  assume less: "jint (framesOpened (usage l)) < jint (maxFrames (limits l))"
  then obtain l' where l': "openFrame l d = Inr l'" using l count_full [OF c] by (auto simp: openFrame_Inr)
  moreover have "ledgerOk l'" using l l' by (blast intro: openFrame_ok)
  ultimately show "\<exists>l'. okOption (openFrame l d) = Some l' \<and> (ledgerOk l' \<and> \<not> jless (maxDepth (limits l')) d)
      \<and> jint (framesOpened (usage l')) = jint (framesOpened (usage l)) + 1
      \<and> jint (maxFrames (limits l')) = jint (maxFrames (limits l))"
    using l count_inc [OF c(1,2) less] by (auto simp: openFrame_Inr)
qed

interpretation turn_counter: capped_counter
  "\<lambda>l. ledgerOk l \<and> \<not> deadlinePassed l now"
  "\<lambda>l. jint (controllerTurns (usage l))" "\<lambda>l. jint (maxControllerTurns (limits l))"
  "\<lambda>l. okOption (reserveControllerTurn l now)" for now
proof unfold_locales
  fix l assume l: "ledgerOk l \<and> \<not> deadlinePassed l now"
  then have c: "isCount (maxControllerTurns (limits l))" "isCount (controllerTurns (usage l))"
    "jint (controllerTurns (usage l)) \<le> jint (maxControllerTurns (limits l))"
    by (auto simp: counter_rules)
  then show "jint (controllerTurns (usage l)) \<le> jint (maxControllerTurns (limits l))" by simp
  show "okOption (reserveControllerTurn l now) = None" if "jint (controllerTurns (usage l)) = jint (maxControllerTurns (limits l))"
    using l that count_full [OF c] by (auto simp: okOption_None reserveControllerTurn_Inr)
  assume less: "jint (controllerTurns (usage l)) < jint (maxControllerTurns (limits l))"
  then obtain l' where l': "reserveControllerTurn l now = Inr l'"
    using l count_full [OF c] by (auto simp: reserveControllerTurn_Inr)
  moreover have "ledgerOk l'" using l l' by (blast intro: reserveControllerTurn_ok)
  ultimately show "\<exists>l'. okOption (reserveControllerTurn l now) = Some l' \<and> (ledgerOk l' \<and> \<not> deadlinePassed l' now)
      \<and> jint (controllerTurns (usage l')) = jint (controllerTurns (usage l)) + 1
      \<and> jint (maxControllerTurns (limits l')) = jint (maxControllerTurns (limits l))"
    using l count_inc [OF c(1,2) less] by (auto simp: reserveControllerTurn_Inr deadlinePassed_def)
qed

text \<open>One unit out and back in leaves the counter, and so the ledger, as it was.\<close>

lemma count_undo:
  assumes "isCount m" "isCount n" "jint n \<le> jint m" "\<not> jless m (jadd n (Num 1))"
  shows "jmax (Num 0) (jsub (jadd n (Num 1)) (Num 1)) = n"
proof -
  have inc: "isCount (jadd n (Num 1)) \<and> jint (jadd n (Num 1)) = jint n + 1"
    using capped_inc [of m n] assms by blast
  have "isCount (jmax (Num 0) (jsub (jadd n (Num 1)) (Num 1)))
    \<and> jint (jmax (Num 0) (jsub (jadd n (Num 1)) (Num 1))) = max 0 (jint n + 1 - 1)"
    using count_dec [of "jadd n (Num 1)"] inc by simp
  then show ?thesis
    using isCount_bounds [OF assms(2)] assms(2) by (auto simp flip: jint_inject)
qed

interpretation logical_calls: slot_pool
  "\<lambda>l. ledgerOk l \<and> \<not> deadlinePassed l now"
  "\<lambda>l. jint (logicalCalls (usage l))" "\<lambda>l. jint (maxLogicalCalls (limits l))"
  "\<lambda>l. okOption (reserveLogicalCall l now)" releaseLogicalCall for now
proof unfold_locales
  fix l assume l: "ledgerOk l \<and> \<not> deadlinePassed l now"
  then have c: "isCount (maxLogicalCalls (limits l))" "isCount (logicalCalls (usage l))"
    "jint (logicalCalls (usage l)) \<le> jint (maxLogicalCalls (limits l))"
    by (auto simp: counter_rules)
  then show "jint (logicalCalls (usage l)) \<le> jint (maxLogicalCalls (limits l))" by simp
  show "okOption (reserveLogicalCall l now) = None" if "jint (logicalCalls (usage l)) = jint (maxLogicalCalls (limits l))"
    using l that count_full [OF c] by (auto simp: okOption_None reserveLogicalCall_Inr)
  show "releaseLogicalCall l' = l" if "okOption (reserveLogicalCall l now) = Some l'" for l'
    using that count_undo [OF c] by (auto simp: reserveLogicalCall_Inr releaseLogicalCall_def patch_def)
  show "(ledgerOk (releaseLogicalCall l) \<and> \<not> deadlinePassed (releaseLogicalCall l) now)
      \<and> jint (logicalCalls (usage (releaseLogicalCall l))) = max 0 (jint (logicalCalls (usage l)) - 1)
      \<and> jint (maxLogicalCalls (limits (releaseLogicalCall l))) = jint (maxLogicalCalls (limits l))"
    using l releaseLogicalCall_ok [of l] count_dec [OF c(2)] by (auto simp: releaseLogicalCall_def deadlinePassed_def)
  assume less: "jint (logicalCalls (usage l)) < jint (maxLogicalCalls (limits l))"
  then obtain l' where l': "reserveLogicalCall l now = Inr l'"
    using l count_full [OF c] by (auto simp: reserveLogicalCall_Inr)
  moreover have "ledgerOk l'" using l l' by (blast intro: reserveLogicalCall_ok)
  ultimately show "\<exists>l'. okOption (reserveLogicalCall l now) = Some l' \<and> (ledgerOk l' \<and> \<not> deadlinePassed l' now)
      \<and> jint (logicalCalls (usage l')) = jint (logicalCalls (usage l)) + 1
      \<and> jint (maxLogicalCalls (limits l')) = jint (maxLogicalCalls (limits l))"
    using l count_inc [OF c(1,2) less] by (auto simp: reserveLogicalCall_Inr deadlinePassed_def)
qed

interpretation leaf_slots: slot_pool ledgerOk
  "\<lambda>l. jint (activeLeafCalls (usage l))" "\<lambda>l. jint (maxConcurrency (limits l))" acquireLeaf releaseLeaf
proof unfold_locales
  fix l assume l: "ledgerOk l"
  then have c: "isCount (maxConcurrency (limits l))" "isCount (activeLeafCalls (usage l))"
    "jint (activeLeafCalls (usage l)) \<le> jint (maxConcurrency (limits l))"
    by (auto simp: counter_rules)
  then show "jint (activeLeafCalls (usage l)) \<le> jint (maxConcurrency (limits l))" by simp
  show "acquireLeaf l = None" if "jint (activeLeafCalls (usage l)) = jint (maxConcurrency (limits l))"
    using that count_full [OF c] by (simp add: acquireLeaf_def)
  show "releaseLeaf l' = l" if "acquireLeaf l = Some l'" for l'
    using that count_undo [OF c] by (auto simp: acquireLeaf_Some releaseLeaf_def patch_def)
  show "ledgerOk (releaseLeaf l) \<and> jint (activeLeafCalls (usage (releaseLeaf l))) = max 0 (jint (activeLeafCalls (usage l)) - 1)
      \<and> jint (maxConcurrency (limits (releaseLeaf l))) = jint (maxConcurrency (limits l))"
    using l releaseLeaf_ok [of l] count_dec [OF c(2)] by (auto simp: releaseLeaf_def)
  assume less: "jint (activeLeafCalls (usage l)) < jint (maxConcurrency (limits l))"
  then obtain l' where l': "acquireLeaf l = Some l'"
    using count_full [OF c] by (auto simp: acquireLeaf_Some)
  moreover have "ledgerOk l'" using l l' by (blast intro: acquireLeaf_ok)
  ultimately show "\<exists>l'. acquireLeaf l = Some l' \<and> ledgerOk l'
      \<and> jint (activeLeafCalls (usage l')) = jint (activeLeafCalls (usage l)) + 1
      \<and> jint (maxConcurrency (limits l')) = jint (maxConcurrency (limits l))"
    using count_inc [OF c(1,2) less] by (auto simp: acquireLeaf_Some)
qed

section \<open>Reachable ledgers\<close>

text \<open>One successful operation of the ledger's interface, in any order the run tree issues them.\<close>

inductive budget_step :: "ledger \<Rightarrow> ledger \<Rightarrow> bool" where
  frame: "openFrame l d = Inr l' \<Longrightarrow> budget_step l l'"
| turn: "reserveControllerTurn l now = Inr l' \<Longrightarrow> budget_step l l'"
| call: "reserveLogicalCall l now = Inr l' \<Longrightarrow> budget_step l l'"
| uncall: "budget_step l (releaseLogicalCall l)"
| attempt: "reserveAttempt l now n = Inr l' \<Longrightarrow> budget_step l l'"
| settle: "settleAttempt l r a = Inr l' \<Longrightarrow> budget_step l l'"
| settleUsage: "settleAttemptUsage l r u = Inr l' \<Longrightarrow> budget_step l l'"
| leaf: "acquireLeaf l = Some l' \<Longrightarrow> budget_step l l'"
| unleaf: "budget_step l (releaseLeaf l)"
| bytes: "reserveBytes l b = Inr l' \<Longrightarrow> budget_step l l'"
| unbytes: "releaseBytes l b = Inr l' \<Longrightarrow> budget_step l l'"

inductive reachableLedger :: "budget_limits \<Rightarrow> ledger \<Rightarrow> bool" for ls where
  init: "reachableLedger ls (createLedger ls)"
| step: "reachableLedger ls l \<Longrightarrow> budget_step l l' \<Longrightarrow> reachableLedger ls l'"

lemma budget_step_ok: "budget_step l l' \<Longrightarrow> ledgerOk l \<Longrightarrow> ledgerOk l'"
  by (induction rule: budget_step.induct) (blast intro: inv_intros)+

lemma budget_step_limits: "budget_step l l' \<Longrightarrow> ledgerOk l \<Longrightarrow> limits l' = limits l"
  by (induction rule: budget_step.induct)
     (auto simp: openFrame_Inr reserveControllerTurn_Inr reserveLogicalCall_Inr acquireLeaf_Some releaseLeaf_def
       releaseLogicalCall_def settleAttempt_def settleAttemptUsage_def Let_def
       dest: reserveAttempt_Inr settleAccounting_Inr reserveBytes_Inr releaseBytes_Inr)

lemma reachableLedger_ok: "reachableLedger ls l \<Longrightarrow> limitsOk ls \<Longrightarrow> ledgerOk l \<and> limits l = ls"
proof (induction rule: reachableLedger.induct)
  case init
  then show ?case by (simp add: createLedger_ok) (simp add: createLedger_def)
next
  case (step l l')
  then show ?case using budget_step_ok budget_step_limits by blast
qed

text \<open>Attempts, frames, turns, tokens used and time are never given back.\<close>

lemma budget_step_monotone:
  assumes "budget_step l l'" and "ledgerOk l"
  shows "jint (attempts (usage l)) \<le> jint (attempts (usage l'))
    \<and> jint (framesOpened (usage l)) \<le> jint (framesOpened (usage l'))
    \<and> jint (controllerTurns (usage l)) \<le> jint (controllerTurns (usage l'))
    \<and> jint (tokensUsed (usage l)) \<le> jint (tokensUsed (usage l'))"
  using assms
proof (induction rule: budget_step.induct)
  case (frame l d l')
  then show ?case
    using capped_inc [of "maxFrames (limits l)" "framesOpened (usage l)"] by (auto simp: counter_rules)
next
  case (turn l now l')
  then show ?case
    using capped_inc [of "maxControllerTurns (limits l)" "controllerTurns (usage l)"] by (auto simp: counter_rules)
next
  case (attempt l now n l')
  then show ?case using reserveAttempt_Inr [of l now n l'] by simp
next
  case (settle l r a l')
  then show ?case
    using settleAccounting_Inr [of l r a "Num 0" "Num 0" "Num 0" "Num 0" l'] isCount_bounds [of a]
    by (simp add: settleAttempt_def)
next
  case (settleUsage l r u l')
  then obtain a i out c d where s: "settleAccounting l r a i out c d = Inr l'"
    by (auto simp: settleAttemptUsage_def Let_def)
  then show ?case using settleAccounting_Inr [OF settleUsage(2) s] isCount_bounds [of a] by simp
next
  case (bytes l b l')
  then show ?case using reserveBytes_Inr [of l b l'] by simp
next
  case (unbytes l b l')
  then show ?case using releaseBytes_Inr [of l b l'] by simp
qed (auto simp: reserveLogicalCall_Inr acquireLeaf_Some releaseLeaf_def releaseLogicalCall_def)

section \<open>Properties\<close>

text \<open>
  C1: every ledger reachable from a fresh one by ledger operations keeps each counter a safe
  nonnegative integer at most its limit, and keeps the limits it was created with.
\<close>

theorem ledger_reachable_within_limits:
  assumes "limitsOk ls" and "reachableLedger ls l"
  shows "limits l = ls \<and> usageOk ls (usage l)"
  using reachableLedger_ok [OF assms(2,1)] by (auto simp: ledgerOk_def)

definition sampleLimits :: budget_limits where
  "sampleLimits = \<lparr>maxDepth = Num 2, maxFrames = Num 3, maxLogicalCalls = Num 2, maxAttempts = Num 4,
     maxControllerTurns = Num 2, maxConcurrency = Num 1, tokenLimit = Some (Num 100), storedByteLimit = Num 1000,
     deadlineMs = Num 50\<rparr>"

lemma isCount_numeral [simp]: "isCount (Num (numeral n)) \<longleftrightarrow> numeral n \<le> MAX_SAFE_INTEGER" "isCount (Num 1)"
  by (simp_all add: isCount_def MAX_SAFE_INTEGER_def)

lemma sampleLimits_ok: "limitsOk sampleLimits"
  by (simp add: limitsOk_def sampleLimits_def MAX_SAFE_INTEGER_def)

text \<open>
  C29: below the deadline the ledger grants exactly as many consecutive controller turns and
  logical calls as the limit leaves, exactly as many frames (at an admissible depth) and leaf
  slots, and a leaf slot or logical call that is given back leaves the ledger as it was.
\<close>

theorem reservations_exact:
  assumes "ledgerOk l" and "\<not> deadlinePassed l now" and "\<not> jless (maxDepth (limits l)) d"
  shows "(reserveTimes n (\<lambda>l. okOption (openFrame l d)) l \<noteq> None
      \<longleftrightarrow> jint (framesOpened (usage l)) + int n \<le> jint (maxFrames (limits l)))
    \<and> (reserveTimes n (\<lambda>l. okOption (reserveControllerTurn l now)) l \<noteq> None
      \<longleftrightarrow> jint (controllerTurns (usage l)) + int n \<le> jint (maxControllerTurns (limits l)))
    \<and> (reserveTimes n (\<lambda>l. okOption (reserveLogicalCall l now)) l \<noteq> None
      \<longleftrightarrow> jint (logicalCalls (usage l)) + int n \<le> jint (maxLogicalCalls (limits l)))
    \<and> (reserveTimes n acquireLeaf l \<noteq> None
      \<longleftrightarrow> jint (activeLeafCalls (usage l)) + int n \<le> jint (maxConcurrency (limits l)))
    \<and> (\<forall>l'. reserveLogicalCall l now = Inr l' \<longrightarrow> releaseLogicalCall l' = l)
    \<and> (\<forall>l'. acquireLeaf l = Some l' \<longrightarrow> releaseLeaf l' = l)"
  using assms frame_counter.times_iff [of l d n] turn_counter.times_iff [of l now n]
    logical_calls.times_iff [of l now n] leaf_slots.times_iff [of l n]
    logical_calls.undo [of l now] leaf_slots.undo [of l]
  by simp

text \<open>
  a granted attempt counts one attempt below the limit, adds exactly its reservation, and
  leaves used plus reserved tokens within the token limit; a refused attempt changes nothing,
  since the only new ledger is inside the success result.
\<close>

theorem attempt_within_token_limit:
  assumes "ledgerOk l" and "reserveAttempt l now n = Inr l'"
  shows "jint (attempts (usage l')) = jint (attempts (usage l)) + 1
    \<and> jint (attempts (usage l')) \<le> jint (maxAttempts (limits l'))
    \<and> jint (tokensReserved (usage l')) = jint (tokensReserved (usage l)) + jint n
    \<and> (\<forall>m. tokenLimit (limits l') = Some m \<longrightarrow>
         jint (tokensUsed (usage l')) + jint (tokensReserved (usage l')) \<le> jint m)"
  using reserveAttempt_Inr [OF assms] by auto

text \<open>
  reserving an attempt and settling it with the provider's usage gives the reservation back
  exactly and charges exactly the reported totals; every other counter except attempts is as before.
\<close>

theorem attempt_settle_conserves:
  assumes "ledgerOk l" and "reserveAttempt l now n = Inr l1" and "settleAttemptUsage l1 n u = Inr l2"
  shows "tokensReserved (usage l2) = tokensReserved (usage l)
    \<and> jint (attempts (usage l2)) = jint (attempts (usage l)) + 1
    \<and> jint (inputTokensUsed (usage l2)) = jint (inputTokensUsed (usage l)) + countOf (uInputTokens u)
    \<and> jint (outputTokensUsed (usage l2)) = jint (outputTokensUsed (usage l)) + countOf (uOutputTokens u)
    \<and> jint (tokensUsed (usage l2)) = jint (tokensUsed (usage l))
        + (case uTotalTokens u of Some t \<Rightarrow> jint t | None \<Rightarrow> countOf (uInputTokens u) + countOf (uOutputTokens u))
    \<and> jint (providerDurationMs (usage l2)) = jint (providerDurationMs (usage l)) + jint (uDurationMs u)
    \<and> framesOpened (usage l2) = framesOpened (usage l) \<and> logicalCalls (usage l2) = logicalCalls (usage l)
    \<and> storedBytes (usage l2) = storedBytes (usage l)"
proof -
  note r = reserveAttempt_Inr [OF assms(1,2)]
  have l1: "ledgerOk l1" using reserveAttempt_ok [OF assms(1,2)] .
  let ?input = "case_option (Num 0) id (uInputTokens u)" and ?output = "case_option (Num 0) id (uOutputTokens u)"
  let ?total = "case_option (jadd ?input ?output) id (uTotalTokens u)"
  have s: "settleAccounting l1 n ?total ?input ?output (case_option (Num 0) id (uCostUsd u)) (uDurationMs u) = Inr l2"
    using assms(3) by (simp add: settleAttemptUsage_def Let_def)
  note s' = settleAccounting_Inr [OF l1 s]
  have res: "isCount (tokensReserved (usage l))" using assms(1) by (auto simp: ledgerOk_iff usageOk_iff)
  have opt: "jint (case_option (Num 0) id x) = countOf x" for x by (cases x) auto
  have caps: "jleq (case_option (Num 0) id x) MAX_CALL_TOKENS" if "x = uInputTokens u \<or> x = uOutputTokens u" for x
    using s that s'(3,4) by (fastforce simp: settleAccounting_def Let_def MAX_CALL_TOKENS_def isCount_iff split: if_splits)
  have total: "jint ?total = (case uTotalTokens u of Some t \<Rightarrow> jint t | None \<Rightarrow> countOf (uInputTokens u) + countOf (uOutputTokens u))"
  proof (cases "uTotalTokens u")
    case None
    have "jint ?input \<le> 10000000" "jint ?output \<le> 10000000"
      using caps [of "uInputTokens u"] caps [of "uOutputTokens u"] s'(3,4) by (auto simp: MAX_CALL_TOKENS_def isCount_iff)
    then have "jint (jadd ?input ?output) = jint ?input + jint ?output"
      using count_add [OF s'(3,4)] by (simp add: MAX_SAFE_INTEGER_def)
    then show ?thesis using None by (simp add: opt)
  qed simp
  have "tokensReserved (usage l2) = tokensReserved (usage l)"
    using s'(9) r(9) res by (simp flip: jint_inject)
  then show ?thesis
    using s' r total by (simp add: opt)
qed

text \<open>
  stored bytes are reserved all or nothing within the limit, and releasing the reservation
  restores the ledger; releasing more than is reserved throws.
\<close>

theorem bytes_reserve_release:
  assumes "ledgerOk l" and "isCount b"
  shows "(jint (storedBytes (usage l)) + jint b \<le> jint (storedByteLimit (limits l)) \<longleftrightarrow> (\<exists>l'. reserveBytes l b = Inr l'))
    \<and> (\<forall>l'. reserveBytes l b = Inr l' \<longrightarrow> releaseBytes l' b = Inr l)
    \<and> (jint (storedBytes (usage l)) < jint b \<longleftrightarrow>
        releaseBytes l b = Inl (ThrowError (js ''invalid stored-byte reservation rollback'')))"
proof -
  let ?s = "storedBytes (usage l)"
  have c: "isCount ?s" "isCount (storedByteLimit (limits l))"
    using assms(1) by (auto simp: ledgerOk_iff usageOk_iff limitsOk_def)
  have grant: "jint ?s + jint b \<le> jint (storedByteLimit (limits l)) \<longleftrightarrow> (\<exists>l'. reserveBytes l b = Inr l')"
    using assms(2) c count_jless_sub [OF c(2,1) assms(2)] by (auto simp: reserveBytes_def notCount_iff)
  have undo: "releaseBytes l' b = Inr l" if "reserveBytes l b = Inr l'" for l'
  proof -
    note r = reserveBytes_Inr [OF assms(1) that]
    have le: "jint b \<le> jint (storedBytes (usage l'))" using r(5) isCount_bounds [OF c(1)] by simp
    have "jsub (storedBytes (usage l')) b = ?s"
      using count_sub_le [OF r(4) assms(2) le] r(5) c(1) by (simp flip: jint_inject)
    then show ?thesis
      using le count_jless [OF r(4) assms(2)] assms(2) r by (simp add: releaseBytes_def notCount_iff patch_def)
  qed
  have "jint ?s < jint b \<longleftrightarrow> releaseBytes l b = Inl (ThrowError (js ''invalid stored-byte reservation rollback''))"
    using assms(2) count_jless [OF c(1) assms(2)] by (simp add: releaseBytes_def notCount_iff)
  with grant undo show ?thesis by blast
qed

definition sampleUsage :: call_usage where
  "sampleUsage = \<lparr>uAttempts = Num 1, uInputTokens = Some (Num 40), uOutputTokens = Some (Num 5), uTotalTokens = None,
     uCostUsd = None, uDurationMs = Num 7\<rparr>"

lemmas budget_eval = createLedger_def ZERO_USAGE_def sampleLimits_def openFrame_def reserveAttempt_def
  settleAttemptUsage_def settleAccounting_def notCount_iff deadlinePassed_def patch_def
  MAX_CALL_TOKENS_def MAX_CALL_COST_USD_def MAX_CALL_DURATION_MS_def MAX_SAFE_INTEGER_def Let_def

theorem ledger_reachable_within_limits_witness:
  "\<exists>l. openFrame (createLedger sampleLimits) (Num 1) = Inr l
     \<and> (limits l = sampleLimits \<and> usageOk sampleLimits (usage l)) \<and> framesOpened (usage l) = Num 1"
proof -
  have some: "isOk (openFrame (createLedger sampleLimits) (Num 1))"
    "map_sum id (\<lambda>l. framesOpened (usage l)) (openFrame (createLedger sampleLimits) (Num 1)) = Inr (Num 1)"
    by (simp_all add: budget_eval js_simps del: jadd.simps)
  then obtain l where l: "openFrame (createLedger sampleLimits) (Num 1) = Inr l" by (auto simp: isOk_iff)
  then have "reachableLedger sampleLimits l"
    using reachableLedger.step [OF reachableLedger.init] budget_step.frame by blast
  with l some sampleLimits_ok show ?thesis
    using ledger_reachable_within_limits [of sampleLimits l] by auto
qed

theorem reservations_exact_witness:
  "reserveTimes 2 (\<lambda>l. okOption (reserveControllerTurn l (Num 10))) (createLedger sampleLimits) \<noteq> None
   \<and> reserveTimes 3 (\<lambda>l. okOption (reserveControllerTurn l (Num 10))) (createLedger sampleLimits) = None"
proof -
  have l: "ledgerOk (createLedger sampleLimits)" by (rule createLedger_ok [OF sampleLimits_ok])
  have g: "\<not> deadlinePassed (createLedger sampleLimits) (Num 10)"
    "\<not> jless (maxDepth (limits (createLedger sampleLimits))) (Num 1)" by code_simp+
  have n: "jint (controllerTurns (usage (createLedger sampleLimits))) = 0"
    "jint (maxControllerTurns (limits (createLedger sampleLimits))) = 2" by code_simp+
  show ?thesis
    using reservations_exact [OF l g, of 2] reservations_exact [OF l g, of 3] n by auto
qed

theorem attempt_within_token_limit_witness:
  "\<exists>l'. reserveAttempt (createLedger sampleLimits) (Num 10) (Num 70) = Inr l'
     \<and> jint (tokensUsed (usage l')) + jint (tokensReserved (usage l')) \<le> 100"
proof -
  have "isOk (reserveAttempt (createLedger sampleLimits) (Num 10) (Num 70))"
    by (simp add: budget_eval js_simps del: jadd.simps)
  then obtain l' where l': "reserveAttempt (createLedger sampleLimits) (Num 10) (Num 70) = Inr l'" by (auto simp: isOk_iff)
  have "limits l' = sampleLimits"
    using reserveAttempt_Inr(4) [OF createLedger_ok [OF sampleLimits_ok] l'] by (simp add: createLedger_def)
  then show ?thesis
    using attempt_within_token_limit [OF createLedger_ok [OF sampleLimits_ok] l'] l'
    by (auto simp: sampleLimits_def jint_def)
qed

theorem attempt_settle_conserves_witness:
  "\<exists>l1 l2. reserveAttempt (createLedger sampleLimits) (Num 10) (Num 70) = Inr l1
     \<and> settleAttemptUsage l1 (Num 70) sampleUsage = Inr l2
     \<and> tokensReserved (usage l2) = Num 0 \<and> jint (tokensUsed (usage l2)) = 45"
proof -
  let ?l = "createLedger sampleLimits"
  have "isOk (reserveAttempt ?l (Num 10) (Num 70))
    \<and> isOk (resBind (reserveAttempt ?l (Num 10) (Num 70)) (\<lambda>l1. settleAttemptUsage l1 (Num 70) sampleUsage))"
    by (simp add: budget_eval sampleUsage_def js_simps del: jadd.simps)
  then obtain l1 l2 where l: "reserveAttempt ?l (Num 10) (Num 70) = Inr l1"
    "settleAttemptUsage l1 (Num 70) sampleUsage = Inr l2" by (auto simp: isOk_iff)
  have z: "tokensReserved (usage ?l) = Num 0" "jint (tokensUsed (usage ?l)) = 0" by code_simp+
  have t: "(case uTotalTokens sampleUsage of Some t \<Rightarrow> jint t | None \<Rightarrow> countOf (uInputTokens sampleUsage) + countOf (uOutputTokens sampleUsage)) = 45"
    by code_simp
  show ?thesis
    using attempt_settle_conserves [OF createLedger_ok [OF sampleLimits_ok] l] l z t by auto
qed

theorem bytes_reserve_release_witness:
  "\<exists>l'. reserveBytes (createLedger sampleLimits) (Num 1000) = Inr l'
     \<and> releaseBytes l' (Num 1000) = Inr (createLedger sampleLimits)"
proof -
  have "jint (storedBytes (usage (createLedger sampleLimits))) + jint (Num 1000)
    \<le> jint (storedByteLimit (limits (createLedger sampleLimits)))" by code_simp
  moreover have "isCount (Num 1000)" by (simp add: MAX_SAFE_INTEGER_def)
  ultimately show ?thesis
    using bytes_reserve_release [OF createLedger_ok [OF sampleLimits_ok], of "Num 1000"] by blast
qed

end
