(* ===== verification/Journal.thy ===== *)
theory Journal
  imports Ids Budget
begin

text \<open>
  The authoritative event journal and its status fold (\<open>src/src/core/journal.ts\<close>).  Iterations and
  ordinals are natural numbers, as the journal decoder admits them.  The fold keeps the JavaScript
  maps as finite maps under the same string keys, and the insertion order where the result shows it.
\<close>

section \<open>Events\<close>

datatype completion_mode = ModeAnswer | ModeFallbackExtract

datatype run_state = Running | Completed | Failed | Cancelled

datatype frame_state = FrameOpen | FrameAnswered | FrameClosed | FrameFailed | FrameCancelled

datatype approval_decision = Allowlisted | Approved | Denied

record event_error =
  eeCode :: jstr
  eeMessage :: jstr

record input_ref =
  irName :: jstr
  irId :: jstr
  irSha256 :: jstr
  irBytes :: jsnum

record cell_commit =
  ccFrameId :: jstr
  ccIteration :: nat
  ccReasoning :: jstr
  ccCodeHash :: jstr
  ccHasResult :: bool
  ccOutputPreview :: jstr
  ccOutputBytes :: "jsnum option"
  ccOutputOmittedBytes :: "jsnum option"
  ccUsage :: "call_usage option"
  ccOutputRef :: "jstr option"
  ccOutputRefSha256 :: "jstr option"
  ccOutputRefBytes :: "jsnum option"
  ccError :: "event_error option"

record workspace_commit =
  wcFrameId :: jstr
  wcIteration :: nat
  wcWorkspaceRef :: jstr
  wcWorkspaceSha256 :: jstr
  wcWorkspaceBytes :: jsnum

record evidence_projection =
  epFrameId :: jstr
  epProjectionVersion :: jstr
  epProjectionHash :: jstr
  epProjectedBytes :: jsnum
  epMaxBytes :: jsnum
  epOmittedBytes :: jsnum
  epOmittedItems :: jsnum
  epTruncatedItems :: jsnum
  epEvidenceIdCount :: jsnum
  epEvidenceIdsHash :: jstr
  epTruncated :: bool

record checkpoint_commit =
  ckCheckpointId :: jstr
  ckRunId :: jstr
  ckFrameId :: jstr
  ckManifestHash :: jstr
  ckCheckpointSequence :: jsnum
  ckCheckpointRef :: jstr
  ckCheckpointSha256 :: jstr
  ckCheckpointBytes :: jsnum
  ckJournalPrefixSha256 :: jstr
  ckJournalPrefixBytes :: jsnum
  ckJournalPrefixEventCount :: jsnum
  ckNextIteration :: jsnum
  ckNextControllerTurn :: jsnum

record call_commit =
  clFrameId :: jstr
  clCallId :: jstr
  clKind :: call_kind
  clKey :: jstr
  clCached :: bool
  clOk :: bool
  clUsage :: call_usage
  clOutputRef :: "jstr option"
  clOutputSha256 :: "jstr option"
  clOutputBytes :: "jsnum option"

datatype rlm_event =
    RunStarted jstr jstr budget_limits "input_ref list option"
  | FrameOpened jstr "jstr option" jsnum jstr
  | Phase jstr nat nat jstr
  | Emit jstr nat nat jstr
  | KeyBound jstr call_kind jstr jstr
  | AgentApproval jstr jstr jstr jstr approval_decision
  | CellCommitted cell_commit
  | WorkspaceCommitted workspace_commit
  | EvidenceProjected evidence_projection
  | EvidenceCited jstr "jstr list" jstr
  | OperationIntended operation_intended
  | OperationSettled operation_settled
  | CheckpointCommitted checkpoint_commit
  | CallCommitted call_commit
  | AnswerCommitted jstr completion_mode jstr "jstr option" "jsnum option"
  | FrameClosedEvent jstr frame_state
  | RunCompleted jstr completion_mode "jstr option"
  | RunFailed jstr jstr jstr
  | RunCancelled jstr jstr

section \<open>Status\<close>

record frame_status =
  fsFrameId :: jstr
  fsParentFrameId :: "jstr option"
  fsDepth :: jsnum
  fsObjective :: jstr
  fsIterations :: nat
  fsCalls :: nat
  fsPhase :: "jstr option"
  fsLastOutputPreview :: "jstr option"
  fsState :: frame_state

record mutable_frame = frame_status +
  seenIterations :: "nat set"

record key_binding =
  kbFrameId :: jstr
  kbKind :: call_kind
  kbKey :: jstr
  kbIdentityHash :: jstr

record run_status =
  rsRunId :: "jstr option"
  rsManifestHash :: "jstr option"
  rsState :: run_state
  rsCompletionMode :: "completion_mode option"
  rsOutputRef :: "jstr option"
  rsError :: "event_error option"
  rsFrames :: "jstr \<rightharpoonup> frame_status"
  rsFrameOrder :: "jstr list"
  rsCommittedCallIds :: "jstr list"
  rsKeyBindings :: "key_binding list"

text \<open>The local variables of \<open>reduceStatus\<close>.\<close>

record fold_state =
  fRunId :: "jstr option"
  fManifestHash :: "jstr option"
  fState :: run_state
  fCompletionMode :: "completion_mode option"
  fOutputRef :: "jstr option"
  fError :: "event_error option"
  fTerminal :: bool
  fFrames :: "jstr \<rightharpoonup> mutable_frame"
  fFrameOrder :: "jstr list"
  fCommittedCallIds :: "jstr list"
  fKeyBindings :: "(jstr \<times> key_binding) list"
  fCommittedCells :: "jstr set"
  fSeenProgress :: "jstr set"
  fPendingPhases :: "jstr \<rightharpoonup> (nat \<times> jstr) list"

definition initFold :: fold_state where
  "initFold = \<lparr>fRunId = None, fManifestHash = None, fState = Running, fCompletionMode = None, fOutputRef = None,
     fError = None, fTerminal = False, fFrames = Map.empty, fFrameOrder = [], fCommittedCallIds = [], fKeyBindings = [],
     fCommittedCells = {}, fSeenProgress = {}, fPendingPhases = Map.empty\<rparr>"

section \<open>The fold\<close>

definition cellKey :: "jstr \<Rightarrow> nat \<Rightarrow> jstr" where
  "cellKey frameId iteration = frameId @ [0] @ natString iteration"

definition progressKey :: "jstr \<Rightarrow> nat \<Rightarrow> nat \<Rightarrow> jstr" where
  "progressKey frameId iteration ordinal = cellKey frameId iteration @ [0] @ natString ordinal"

definition registryKey :: "jstr \<Rightarrow> call_kind \<Rightarrow> jstr \<Rightarrow> jstr" where
  "registryKey frameId kind key =
     (if kind = KRecurse then frameId @ [0] @ kindText kind @ [0] @ key else kindText kind @ [0] @ key)"

definition updateFrame :: "jstr \<Rightarrow> (mutable_frame \<Rightarrow> mutable_frame) \<Rightarrow> fold_state \<Rightarrow> fold_state" where
  "updateFrame i f s =
     (case fFrames s i of None \<Rightarrow> s | Some m \<Rightarrow> s\<lparr>fFrames := (fFrames s)(i \<mapsto> f m)\<rparr>)"

text \<open>The stable sort by ordinal and the loop that assigns each name: the last one stays.\<close>

definition lastPhase :: "(nat \<times> jstr) list \<Rightarrow> jstr option \<Rightarrow> jstr option" where
  "lastPhase pending old = foldl (\<lambda>_ p. Some (snd p)) old (sort_key fst pending)"

definition applyPendingPhase :: "jstr \<Rightarrow> nat \<Rightarrow> fold_state \<Rightarrow> fold_state" where
  "applyPendingPhase frameId iteration s =
     (case fFrames s frameId of
        None \<Rightarrow> s
      | Some f \<Rightarrow>
          (case fPendingPhases s (cellKey frameId iteration) of
             None \<Rightarrow> s
           | Some pending \<Rightarrow>
               s\<lparr>fFrames := (fFrames s)(frameId \<mapsto> f\<lparr>fsPhase := lastPhase pending (fsPhase f)\<rparr>),
                 fPendingPhases := (fPendingPhases s)(cellKey frameId iteration := None)\<rparr>))"

definition newFrame :: "jstr \<Rightarrow> jstr option \<Rightarrow> jsnum \<Rightarrow> jstr \<Rightarrow> mutable_frame" where
  "newFrame i parent depth objective =
     \<lparr>fsFrameId = i, fsParentFrameId = parent, fsDepth = depth, fsObjective = objective, fsIterations = 0, fsCalls = 0,
      fsPhase = None, fsLastOutputPreview = None, fsState = FrameOpen, seenIterations = {}\<rparr>"

definition foldPhase :: "jstr \<Rightarrow> nat \<Rightarrow> nat \<Rightarrow> jstr \<Rightarrow> fold_state \<Rightarrow> fold_state" where
  "foldPhase frameId iteration ordinal name s =
     (let cell = cellKey frameId iteration; progress = progressKey frameId iteration ordinal
      in if progress \<in> fSeenProgress s then s
         else let s' = s\<lparr>fSeenProgress := insert progress (fSeenProgress s)\<rparr>
              in if cell \<in> fCommittedCells s' then updateFrame frameId (\<lambda>f. f\<lparr>fsPhase := Some name\<rparr>) s'
                 else let pending = (case fPendingPhases s' cell of None \<Rightarrow> [] | Some p \<Rightarrow> p)
                      in s'\<lparr>fPendingPhases := (fPendingPhases s')(cell \<mapsto> pending @ [(ordinal, name)])\<rparr>)"

definition foldCell :: "cell_commit \<Rightarrow> fold_state \<Rightarrow> fold_state" where
  "foldCell c s =
     (case fFrames s (ccFrameId c) of
        None \<Rightarrow> s
      | Some f \<Rightarrow>
          if ccIteration c \<in> seenIterations f then s
          else applyPendingPhase (ccFrameId c) (ccIteration c)
                 (s\<lparr>fFrames := (fFrames s)(ccFrameId c \<mapsto>
                      f\<lparr>seenIterations := insert (ccIteration c) (seenIterations f), fsIterations := fsIterations f + 1,
                        fsLastOutputPreview := Some (ccOutputPreview c)\<rparr>),
                    fCommittedCells := insert (cellKey (ccFrameId c) (ccIteration c)) (fCommittedCells s)\<rparr>))"

definition foldCall :: "call_commit \<Rightarrow> fold_state \<Rightarrow> fold_state" where
  "foldCall c s =
     (case fFrames s (clFrameId c) of
        None \<Rightarrow> s
      | Some f \<Rightarrow>
          if clCallId c \<in> set (fCommittedCallIds s) then s
          else s\<lparr>fCommittedCallIds := fCommittedCallIds s @ [clCallId c],
                 fFrames := (fFrames s)(clFrameId c \<mapsto> f\<lparr>fsCalls := fsCalls f + 1\<rparr>)\<rparr>)"

definition foldEvent :: "rlm_event \<Rightarrow> fold_state \<Rightarrow> fold_state" where
  "foldEvent event s =
     (case event of
        RunStarted runId manifestHash _ _ \<Rightarrow> s\<lparr>fRunId := Some runId, fManifestHash := Some manifestHash\<rparr>
      | FrameOpened i parent depth objective \<Rightarrow>
          if fFrames s i \<noteq> None then s
          else s\<lparr>fFrames := (fFrames s)(i \<mapsto> newFrame i parent depth objective), fFrameOrder := fFrameOrder s @ [i]\<rparr>
      | Phase frameId iteration ordinal name \<Rightarrow> foldPhase frameId iteration ordinal name s
      | Emit frameId iteration ordinal _ \<Rightarrow>
          s\<lparr>fSeenProgress := insert (progressKey frameId iteration ordinal) (fSeenProgress s)\<rparr>
      | KeyBound frameId kind key identity \<Rightarrow>
          if map_of (fKeyBindings s) (registryKey frameId kind key) \<noteq> None then s
          else s\<lparr>fKeyBindings := fKeyBindings s @ [(registryKey frameId kind key,
                 \<lparr>kbFrameId = frameId, kbKind = kind, kbKey = key, kbIdentityHash = identity\<rparr>)]\<rparr>
      | CellCommitted c \<Rightarrow> foldCell c s
      | CallCommitted c \<Rightarrow> foldCall c s
      | AnswerCommitted frameId _ _ _ _ \<Rightarrow> updateFrame frameId (\<lambda>f. f\<lparr>fsState := FrameAnswered\<rparr>) s
      | FrameClosedEvent frameId st \<Rightarrow> updateFrame frameId (\<lambda>f. f\<lparr>fsState := st\<rparr>) s
      | RunCompleted _ mode out \<Rightarrow>
          if fTerminal s then s
          else s\<lparr>fTerminal := True, fState := Completed, fCompletionMode := Some mode,
                 fOutputRef := (case out of None \<Rightarrow> fOutputRef s | Some r \<Rightarrow> Some r)\<rparr>
      | RunFailed _ code message \<Rightarrow>
          if fTerminal s then s
          else s\<lparr>fTerminal := True, fState := Failed, fError := Some \<lparr>eeCode = code, eeMessage = message\<rparr>\<rparr>
      | RunCancelled _ message \<Rightarrow>
          if fTerminal s then s
          else s\<lparr>fTerminal := True, fState := Cancelled,
                 fError := Some \<lparr>eeCode = js ''CANCELLED'', eeMessage = message\<rparr>\<rparr>
      | _ \<Rightarrow> s)"

definition foldEvents :: "rlm_event list \<Rightarrow> fold_state" where
  "foldEvents es = foldl (\<lambda>s e. foldEvent e s) initFold es"

definition frameStatus :: "mutable_frame \<Rightarrow> frame_status" where
  "frameStatus f =
     \<lparr>fsFrameId = fsFrameId f, fsParentFrameId = fsParentFrameId f, fsDepth = fsDepth f, fsObjective = fsObjective f,
      fsIterations = fsIterations f, fsCalls = fsCalls f, fsPhase = fsPhase f, fsLastOutputPreview = fsLastOutputPreview f,
      fsState = fsState f\<rparr>"

definition statusOf :: "fold_state \<Rightarrow> run_status" where
  "statusOf s =
     \<lparr>rsRunId = fRunId s, rsManifestHash = fManifestHash s, rsState = fState s, rsCompletionMode = fCompletionMode s,
      rsOutputRef = fOutputRef s, rsError = fError s, rsFrames = map_option frameStatus \<circ> fFrames s,
      rsFrameOrder = fFrameOrder s, rsCommittedCallIds = fCommittedCallIds s, rsKeyBindings = map snd (fKeyBindings s)\<rparr>"

definition reduceStatus :: "rlm_event list \<Rightarrow> run_status" where
  "reduceStatus es = statusOf (foldEvents es)"

section \<open>The fold only grows\<close>

definition grows :: "fold_state \<Rightarrow> fold_state \<Rightarrow> bool" where
  "grows s t \<longleftrightarrow>
     (\<forall>i f. fFrames s i = Some f \<longrightarrow> (\<exists>g. fFrames t i = Some g \<and> seenIterations f \<subseteq> seenIterations g))
     \<and> fSeenProgress s \<subseteq> fSeenProgress t \<and> set (fCommittedCallIds s) \<subseteq> set (fCommittedCallIds t)
     \<and> fst ` set (fKeyBindings s) \<subseteq> fst ` set (fKeyBindings t) \<and> (fTerminal s \<longrightarrow> fTerminal t)"

lemma grows_refl [simp]: "grows s s"
  by (auto simp: grows_def)

lemma grows_trans: "grows s t \<Longrightarrow> grows t u \<Longrightarrow> grows s u"
  unfolding grows_def by (meson subset_trans)

lemma updateFrame_grows: "(\<And>f. seenIterations (h f) = seenIterations f) \<Longrightarrow> grows s (updateFrame i h s)"
  by (auto simp: grows_def updateFrame_def split: option.splits)

lemma applyPendingPhase_grows: "grows s (applyPendingPhase i n s)"
  by (auto simp: grows_def applyPendingPhase_def split: option.splits)

lemma foldPhase_grows: "grows s (foldPhase i n k name s)"
  by (auto simp: grows_def foldPhase_def updateFrame_def Let_def split: option.splits)

lemma foldCell_grows: "grows s (foldCell c s)"
proof (cases "fFrames s (ccFrameId c)")
  case (Some f)
  show ?thesis
    by (auto simp: foldCell_def Some intro!: grows_trans [OF _ applyPendingPhase_grows]) (auto simp: grows_def Some)
qed (simp add: foldCell_def)

lemma foldCall_grows: "grows s (foldCall c s)"
  by (auto simp: grows_def foldCall_def split: option.splits)

lemma foldEvent_grows: "grows s (foldEvent e s)"
proof (cases e)
  case (Phase i n k name)
  then show ?thesis by (simp add: foldEvent_def foldPhase_grows)
next
  case (CellCommitted c)
  then show ?thesis by (simp add: foldEvent_def foldCell_grows)
next
  case (CallCommitted c)
  then show ?thesis by (simp add: foldEvent_def foldCall_grows)
next
  case (AnswerCommitted i m r h b)
  then show ?thesis by (simp add: foldEvent_def updateFrame_grows)
next
  case (FrameClosedEvent i st)
  then show ?thesis by (simp add: foldEvent_def updateFrame_grows)
qed (auto simp: foldEvent_def grows_def split: option.splits)

lemma foldl_grows: "grows s (foldl (\<lambda>s e. foldEvent e s) s es)"
  by (induction es arbitrary: s) (auto intro: grows_trans [OF foldEvent_grows])

section \<open>Absorbed events\<close>

text \<open>The events whose effect a state already contains.\<close>

definition absorbed :: "rlm_event \<Rightarrow> fold_state \<Rightarrow> bool" where
  "absorbed e s \<longleftrightarrow>
     (case e of
        FrameOpened i _ _ _ \<Rightarrow> fFrames s i \<noteq> None
      | Phase i n k _ \<Rightarrow> progressKey i n k \<in> fSeenProgress s
      | Emit i n k _ \<Rightarrow> progressKey i n k \<in> fSeenProgress s
      | KeyBound i kind key _ \<Rightarrow> registryKey i kind key \<in> fst ` set (fKeyBindings s)
      | CellCommitted c \<Rightarrow> (\<exists>f. fFrames s (ccFrameId c) = Some f \<and> ccIteration c \<in> seenIterations f)
      | CallCommitted c \<Rightarrow> clCallId c \<in> set (fCommittedCallIds s)
      | RunCompleted _ _ _ \<Rightarrow> fTerminal s
      | RunFailed _ _ _ \<Rightarrow> fTerminal s
      | RunCancelled _ _ \<Rightarrow> fTerminal s
      | RunStarted _ _ _ _ \<Rightarrow> False
      | AnswerCommitted _ _ _ _ _ \<Rightarrow> False
      | FrameClosedEvent _ _ \<Rightarrow> False
      | _ \<Rightarrow> True)"

lemma absorbed_noop: "absorbed e s \<Longrightarrow> foldEvent e s = s"
  by (cases e) (auto simp: absorbed_def foldEvent_def foldPhase_def foldCell_def foldCall_def Let_def insert_absorb
    map_of_eq_None_iff split: option.splits)

lemma growsD:
  assumes "grows s t"
  shows "fFrames s i = Some f \<Longrightarrow> \<exists>g. fFrames t i = Some g \<and> seenIterations f \<subseteq> seenIterations g"
    and "x \<in> fSeenProgress s \<Longrightarrow> x \<in> fSeenProgress t"
    and "c \<in> set (fCommittedCallIds s) \<Longrightarrow> c \<in> set (fCommittedCallIds t)"
    and "k \<in> fst ` set (fKeyBindings s) \<Longrightarrow> k \<in> fst ` set (fKeyBindings t)"
    and "fTerminal s \<Longrightarrow> fTerminal t"
  using assms unfolding grows_def by (blast, blast, blast, blast, blast)

lemma absorbed_mono: "absorbed e s \<Longrightarrow> grows s t \<Longrightarrow> absorbed e t"
proof (cases e)
  case (CellCommitted c)
  assume "absorbed e s" "grows s t"
  then show ?thesis
    using growsD(1) [of s t "ccFrameId c"] by (fastforce simp: absorbed_def CellCommitted)
next
  case (FrameOpened i p d ob)
  assume "absorbed e s" "grows s t"
  then show ?thesis
    using growsD(1) [of s t i] by (fastforce simp: absorbed_def FrameOpened)
next
  case (KeyBound i kind key h)
  assume "absorbed e s" "grows s t"
  then show ?thesis
    using growsD(4) [of s t "registryKey i kind key"] by (simp add: absorbed_def KeyBound)
qed (use growsD(2,3,5) [of s t] in \<open>simp_all add: absorbed_def\<close>)

text \<open>Events that fold once: all but the three whose later occurrences overwrite.\<close>

definition foldsOnce :: "rlm_event \<Rightarrow> bool" where
  "foldsOnce e \<longleftrightarrow> (case e of RunStarted _ _ _ _ \<Rightarrow> False | AnswerCommitted _ _ _ _ _ \<Rightarrow> False | FrameClosedEvent _ _ \<Rightarrow> False | _ \<Rightarrow> True)"

definition opened :: "jstr \<Rightarrow> rlm_event list \<Rightarrow> bool" where
  "opened i es \<longleftrightarrow> (\<exists>p d ob. FrameOpened i p d ob \<in> set es)"

text \<open>A cell or call commit counts only for a frame opened before it.\<close>

definition subjectOpened :: "rlm_event \<Rightarrow> rlm_event list \<Rightarrow> bool" where
  "subjectOpened e es \<longleftrightarrow>
     (case e of CellCommitted c \<Rightarrow> opened (ccFrameId c) es | CallCommitted c \<Rightarrow> opened (clFrameId c) es | _ \<Rightarrow> True)"

lemma foldEvents_snoc: "foldEvents (es @ [e]) = foldEvent e (foldEvents es)"
  by (simp add: foldEvents_def)

lemma foldEvents_append_grows: "grows (foldEvents es) (foldEvents (es @ fs))"
  using foldl_grows by (simp add: foldEvents_def)

lemma applyPendingPhase_frames:
  "(\<exists>f. fFrames (applyPendingPhase i n s) j = Some f) \<longleftrightarrow> (\<exists>f. fFrames s j = Some f)"
  "map_option seenIterations (fFrames (applyPendingPhase i n s) j) = map_option seenIterations (fFrames s j)"
  "map_option fsIterations (fFrames (applyPendingPhase i n s) j) = map_option fsIterations (fFrames s j)"
  "map_option fsCalls (fFrames (applyPendingPhase i n s) j) = map_option fsCalls (fFrames s j)"
  by (auto simp: applyPendingPhase_def split: option.splits)

lemma foldEvent_dom: "fFrames (foldEvent e s) i \<noteq> None \<longleftrightarrow> fFrames s i \<noteq> None \<or> (\<exists>p d ob. e = FrameOpened i p d ob)"
  by (cases e) (auto simp: foldEvent_def foldPhase_def foldCell_def foldCall_def updateFrame_def Let_def
    applyPendingPhase_frames split: option.splits if_splits)

lemma opened_iff: "fFrames (foldEvents es) i \<noteq> None \<longleftrightarrow> opened i es"
proof (induction es rule: rev_induct)
  case Nil
  then show ?case by (simp add: foldEvents_def initFold_def opened_def)
next
  case (snoc e es)
  have "opened i (es @ [e]) \<longleftrightarrow> opened i es \<or> (\<exists>p d ob. e = FrameOpened i p d ob)"
    by (auto simp: opened_def)
  then show ?case using snoc by (simp only: foldEvents_snoc foldEvent_dom)
qed

lemma foldCell_absorbed: "fFrames s (ccFrameId c) \<noteq> None \<Longrightarrow> absorbed (CellCommitted c) (foldCell c s)"
proof -
  assume "fFrames s (ccFrameId c) \<noteq> None"
  then obtain f where f: "fFrames s (ccFrameId c) = Some f" by blast
  show ?thesis
  proof (cases "ccIteration c \<in> seenIterations f")
    case False
    define t where "t = s\<lparr>fFrames := (fFrames s)(ccFrameId c \<mapsto>
        f\<lparr>seenIterations := insert (ccIteration c) (seenIterations f), fsIterations := fsIterations f + 1,
          fsLastOutputPreview := Some (ccOutputPreview c)\<rparr>),
      fCommittedCells := insert (cellKey (ccFrameId c) (ccIteration c)) (fCommittedCells s)\<rparr>"
    have "foldCell c s = applyPendingPhase (ccFrameId c) (ccIteration c) t"
      using f False by (simp add: foldCell_def t_def)
    moreover have "map_option seenIterations (fFrames (applyPendingPhase (ccFrameId c) (ccIteration c) t) (ccFrameId c))
      = Some (insert (ccIteration c) (seenIterations f))"
      unfolding applyPendingPhase_frames by (simp add: t_def)
    ultimately show ?thesis by (auto simp: absorbed_def)
  qed (simp add: absorbed_def foldCell_def f)
qed

lemma foldEvent_absorbed:
  "foldsOnce e \<Longrightarrow> subjectOpened e es \<Longrightarrow> absorbed e (foldEvent e (foldEvents es))"
proof (cases e)
  case (CellCommitted c)
  assume "subjectOpened e es"
  then have "fFrames (foldEvents es) (ccFrameId c) \<noteq> None"
    by (simp add: subjectOpened_def CellCommitted flip: opened_iff)
  from foldCell_absorbed [OF this] show ?thesis by (simp add: foldEvent_def CellCommitted)
next
  case (CallCommitted c)
  assume "subjectOpened e es"
  then have "fFrames (foldEvents es) (clFrameId c) \<noteq> None"
    by (simp add: subjectOpened_def CallCommitted flip: opened_iff)
  then show ?thesis by (auto simp: foldEvent_def CallCommitted absorbed_def foldCall_def)
qed (auto simp: foldsOnce_def absorbed_def foldEvent_def foldPhase_def updateFrame_def Let_def map_of_eq_None_iff
  split: option.splits if_splits)

lemma replay_absorbed:
  assumes "foldsOnce e" and "subjectOpened e as"
  shows "foldEvents (as @ e # bs @ [e]) = foldEvents (as @ e # bs)"
proof -
  have "absorbed e (foldEvents (as @ [e]))"
    using foldEvent_absorbed [OF assms] by (simp add: foldEvents_snoc)
  then have "absorbed e (foldEvents (as @ e # bs))"
    using absorbed_mono foldEvents_append_grows [of "as @ [e]" bs] by simp
  then show ?thesis
    using foldEvents_snoc [of "as @ e # bs" e] absorbed_noop by simp
qed

section \<open>What the projection counts\<close>

text \<open>The iterations committed for a frame, and the call commits that count: after the frame was opened.\<close>

definition committedIterations :: "jstr \<Rightarrow> rlm_event list \<Rightarrow> nat set" where
  "committedIterations i es =
     {n. \<exists>as c bs. es = as @ CellCommitted c # bs \<and> ccFrameId c = i \<and> ccIteration c = n \<and> opened i as}"

definition committedCalls :: "rlm_event list \<Rightarrow> jstr set" where
  "committedCalls es =
     {k. \<exists>as c bs. es = as @ CallCommitted c # bs \<and> clCallId c = k \<and> opened (clFrameId c) as}"

lemma split_snoc: "(es @ [e] = as @ x # bs) \<longleftrightarrow> (bs = [] \<and> es = as \<and> e = x) \<or> (\<exists>bs'. bs = bs' @ [e] \<and> es = as @ x # bs')"
  by (cases bs rule: rev_cases) auto

lemma committedIterations_snoc:
  "committedIterations i (es @ [e]) = committedIterations i es
     \<union> (case e of CellCommitted c \<Rightarrow> if ccFrameId c = i \<and> opened i es then {ccIteration c} else {} | _ \<Rightarrow> {})"
  unfolding committedIterations_def split_snoc by (cases e) auto

lemma committedCalls_snoc:
  "committedCalls (es @ [e]) = committedCalls es
     \<union> (case e of CallCommitted c \<Rightarrow> if opened (clFrameId c) es then {clCallId c} else {} | _ \<Rightarrow> {})"
  unfolding committedCalls_def split_snoc by (cases e) auto

definition countsOk :: "rlm_event list \<Rightarrow> fold_state \<Rightarrow> bool" where
  "countsOk es s \<longleftrightarrow>
     (\<forall>i f. fFrames s i = Some f \<longrightarrow> seenIterations f = committedIterations i es \<and> finite (seenIterations f)
        \<and> fsIterations f = card (seenIterations f))"

lemma frames_other:
  assumes "\<And>c. e \<noteq> CellCommitted c" and "fFrames (foldEvent e s) i = Some f"
  shows "(fFrames s i = None \<and> seenIterations f = {} \<and> fsIterations f = 0 \<and> (\<exists>p d ob. e = FrameOpened i p d ob))
    \<or> (\<exists>g. fFrames s i = Some g \<and> seenIterations f = seenIterations g \<and> fsIterations f = fsIterations g)"
proof (cases e)
  case (Phase j n k name)
  then show ?thesis
    using assms(2) by (auto simp: foldEvent_def foldPhase_def updateFrame_def Let_def split: if_splits option.splits)
qed (use assms in \<open>auto simp: foldEvent_def foldCall_def updateFrame_def newFrame_def split: if_splits option.splits\<close>)

lemma committedIterations_unopened: "\<not> opened i es \<Longrightarrow> committedIterations i es = {}"
  by (auto simp: committedIterations_def opened_def)

lemma foldCell_frame:
  "fFrames s (ccFrameId c) = Some g \<Longrightarrow> ccIteration c \<notin> seenIterations g
    \<Longrightarrow> map_option (\<lambda>f. (seenIterations f, fsIterations f)) (fFrames (foldCell c s) i)
      = (if i = ccFrameId c then Some (insert (ccIteration c) (seenIterations g), Suc (fsIterations g))
         else map_option (\<lambda>f. (seenIterations f, fsIterations f)) (fFrames s i))"
  by (auto simp: foldCell_def applyPendingPhase_def split: option.splits)

lemma foldEvents_counts: "countsOk es (foldEvents es)"
proof (induction es rule: rev_induct)
  case Nil
  then show ?case by (simp add: countsOk_def foldEvents_def initFold_def)
next
  case (snoc e es)
  let ?s = "foldEvents es"
  show ?case
  proof (cases "\<exists>c. e = CellCommitted c")
    case False
    show ?thesis
      unfolding countsOk_def foldEvents_snoc
    proof (intro allI impI)
      fix i f assume f: "fFrames (foldEvent e ?s) i = Some f"
      have same: "committedIterations i (es @ [e]) = committedIterations i es"
        using False by (cases e) (auto simp: committedIterations_snoc)
      have "\<not> opened i es" if "fFrames ?s i = None"
        using that by (simp flip: opened_iff)
      then have fresh: "committedIterations i es = {}" if "fFrames ?s i = None"
        using that committedIterations_unopened by blast
      have "(fFrames ?s i = None \<and> seenIterations f = {} \<and> fsIterations f = 0)
        \<or> (\<exists>g. fFrames ?s i = Some g \<and> seenIterations f = seenIterations g \<and> fsIterations f = fsIterations g)"
        using frames_other [OF _ f] False by blast
      then show "seenIterations f = committedIterations i (es @ [e]) \<and> finite (seenIterations f)
          \<and> fsIterations f = card (seenIterations f)"
      proof (elim disjE exE conjE)
        fix g assume g: "fFrames ?s i = Some g" "seenIterations f = seenIterations g" "fsIterations f = fsIterations g"
        then show ?thesis using snoc unfolding countsOk_def same by metis
      qed (use fresh in \<open>simp add: same\<close>)
    qed
  next
    case True
    then obtain c where e: "e = CellCommitted c" by blast
    show ?thesis
    proof (cases "fFrames ?s (ccFrameId c)")
      case None
      then have "\<not> opened (ccFrameId c) es" by (simp flip: opened_iff)
      then have same: "committedIterations i (es @ [e]) = committedIterations i es" for i
        by (auto simp: committedIterations_snoc e)
      have "foldEvents (es @ [e]) = ?s"
        using None by (simp add: foldEvents_snoc e foldEvent_def foldCell_def)
      then show ?thesis
        using snoc by (simp only: countsOk_def same)
    next
      case (Some g)
      then have op: "opened (ccFrameId c) es" by (simp flip: opened_iff)
      have g: "seenIterations g = committedIterations (ccFrameId c) es" "finite (seenIterations g)"
        "fsIterations g = card (seenIterations g)"
        using snoc Some unfolding countsOk_def by blast+
      have comm: "committedIterations i (es @ [e])
          = (if i = ccFrameId c then insert (ccIteration c) (committedIterations i es) else committedIterations i es)" for i
        using op by (auto simp: committedIterations_snoc e)
      show ?thesis
      proof (cases "ccIteration c \<in> seenIterations g")
        case True
        then have "foldEvents (es @ [e]) = ?s"
          by (simp add: foldEvents_snoc e foldEvent_def foldCell_def Some)
        moreover have "committedIterations i (es @ [e]) = committedIterations i es" for i
          using True comm g(1) by auto
        ultimately show ?thesis using snoc by (simp only: countsOk_def)
      next
        case False
        show ?thesis
          unfolding countsOk_def
        proof (intro allI impI)
          fix i f assume "fFrames (foldEvents (es @ [e])) i = Some f"
          then have "Some (seenIterations f, fsIterations f)
              = map_option (\<lambda>f. (seenIterations f, fsIterations f)) (fFrames (foldCell c ?s) i)"
            by (simp add: foldEvents_snoc e foldEvent_def)
          also have "\<dots> = (if i = ccFrameId c then Some (insert (ccIteration c) (seenIterations g), Suc (fsIterations g))
              else map_option (\<lambda>f. (seenIterations f, fsIterations f)) (fFrames ?s i))"
            by (rule foldCell_frame [OF Some False])
          finally have new: "Some (seenIterations f, fsIterations f) = \<dots>" .
          show "seenIterations f = committedIterations i (es @ [e]) \<and> finite (seenIterations f)
              \<and> fsIterations f = card (seenIterations f)"
          proof (cases "i = ccFrameId c")
            case True
            then have "seenIterations f = insert (ccIteration c) (seenIterations g)" "fsIterations f = Suc (fsIterations g)"
              using new by simp_all
            then show ?thesis using g comm [of i] True False by simp
          next
            case other: False
            then obtain h where "fFrames ?s i = Some h" "seenIterations f = seenIterations h" "fsIterations f = fsIterations h"
              using new by (cases "fFrames ?s i") auto
            then show ?thesis using snoc comm [of i] other unfolding countsOk_def by metis
          qed
        qed
      qed
    qed
  qed
qed

lemma foldEvent_calls: "fCommittedCallIds (foldEvent e s) =
    (case e of CallCommitted c \<Rightarrow>
       if fFrames s (clFrameId c) \<noteq> None \<and> clCallId c \<notin> set (fCommittedCallIds s)
       then fCommittedCallIds s @ [clCallId c] else fCommittedCallIds s
     | _ \<Rightarrow> fCommittedCallIds s)"
  by (cases e) (auto simp: foldEvent_def foldPhase_def foldCell_def foldCall_def updateFrame_def applyPendingPhase_def
    Let_def split: option.splits)

lemma foldEvents_calls:
  "distinct (fCommittedCallIds (foldEvents es)) \<and> set (fCommittedCallIds (foldEvents es)) = committedCalls es"
proof (induction es rule: rev_induct)
  case Nil
  then show ?case by (simp add: foldEvents_def initFold_def committedCalls_def)
next
  case (snoc e es)
  then show ?case
    using opened_iff [of es]
    by (cases e) (auto simp: foldEvents_snoc foldEvent_calls committedCalls_snoc)
qed

section \<open>Terminal events\<close>

definition isTerminal :: "rlm_event \<Rightarrow> bool" where
  "isTerminal e \<longleftrightarrow> (case e of RunCompleted _ _ _ \<Rightarrow> True | RunFailed _ _ _ \<Rightarrow> True | RunCancelled _ _ \<Rightarrow> True | _ \<Rightarrow> False)"

text \<open>The outcome a terminal event announces: state, completion mode, output and error.\<close>

definition outcomeOf :: "rlm_event option \<Rightarrow> run_state \<times> completion_mode option \<times> jstr option \<times> event_error option" where
  "outcomeOf t =
     (case t of
        Some (RunCompleted _ m out) \<Rightarrow> (Completed, Some m, out, None)
      | Some (RunFailed _ code msg) \<Rightarrow> (Failed, None, None, Some \<lparr>eeCode = code, eeMessage = msg\<rparr>)
      | Some (RunCancelled _ msg) \<Rightarrow> (Cancelled, None, None, Some \<lparr>eeCode = js ''CANCELLED'', eeMessage = msg\<rparr>)
      | _ \<Rightarrow> (Running, None, None, None))"

definition outcome :: "fold_state \<Rightarrow> run_state \<times> completion_mode option \<times> jstr option \<times> event_error option" where
  "outcome s = (fState s, fCompletionMode s, fOutputRef s, fError s)"

lemma foldEvent_outcome:
  "fTerminal (foldEvent e s) = (fTerminal s \<or> isTerminal e)"
  "fTerminal s \<or> \<not> isTerminal e \<Longrightarrow> outcome (foldEvent e s) = outcome s"
  by (cases e; auto simp: isTerminal_def outcome_def foldEvent_def foldPhase_def foldCell_def foldCall_def updateFrame_def
    applyPendingPhase_def Let_def split: option.splits)+

lemma foldEvents_outcome:
  "fTerminal (foldEvents es) = (\<exists>e\<in>set es. isTerminal e) \<and> outcome (foldEvents es) = outcomeOf (find isTerminal es)"
proof (induction es rule: rev_induct)
  case Nil
  then show ?case by (simp add: foldEvents_def initFold_def outcome_def outcomeOf_def)
next
  case (snoc e es)
  have find: "find isTerminal (es @ [e]) =
      (case find isTerminal es of None \<Rightarrow> if isTerminal e then Some e else None | Some t \<Rightarrow> Some t)"
    by (induction es) auto
  show ?case
  proof (cases "\<exists>t\<in>set es. isTerminal t")
    case True
    then obtain t where "find isTerminal es = Some t" by (metis find_None_iff2 not_None_eq)
    then show ?thesis using True snoc by (auto simp: foldEvents_snoc foldEvent_outcome find)
  next
    case False
    then have none: "find isTerminal es = None" by (simp add: find_None_iff)
    then have start: "outcome (foldEvents es) = (Running, None, None, None)" "\<not> fTerminal (foldEvents es)"
      using snoc False by (auto simp: outcomeOf_def)
    show ?thesis
    proof (cases "isTerminal e")
      case False
      then show ?thesis using snoc none by (simp add: foldEvents_snoc foldEvent_outcome find)
    next
      case True
      then have "outcome (foldEvents (es @ [e])) = outcomeOf (Some e)"
        using start by (cases e) (auto simp: foldEvents_snoc isTerminal_def outcomeOf_def outcome_def foldEvent_def
          split: option.splits)
      moreover have "find isTerminal (es @ [e]) = Some e" using True by (simp add: find none)
      ultimately show ?thesis using True by (simp add: foldEvents_snoc foldEvent_outcome(1))
    qed
  qed
qed

section \<open>Properties\<close>


definition sampleCell :: cell_commit where
  "sampleCell = \<lparr>ccFrameId = js ''f'', ccIteration = 0, ccReasoning = [], ccCodeHash = [], ccHasResult = False,
     ccOutputPreview = js ''out'', ccOutputBytes = None, ccOutputOmittedBytes = None, ccUsage = None, ccOutputRef = None,
     ccOutputRefSha256 = None, ccOutputRefBytes = None, ccError = None\<rparr>"

definition sampleOpen :: rlm_event where
  "sampleOpen = FrameOpened (js ''f'') None (Num 0) (js ''go'')"


text \<open>
  C33: the projection lists a frame exactly when the journal opened it, its iteration count is the number of
  distinct iterations committed for it since, and the committed call ids are, without repetition, those
  committed for an opened frame.
\<close>

theorem projection_counts:
  "(\<exists>f. rsFrames (reduceStatus es) i = Some f) = opened i es
   \<and> (case rsFrames (reduceStatus es) i of None \<Rightarrow> True | Some f \<Rightarrow> fsIterations f = card (committedIterations i es))
   \<and> distinct (rsCommittedCallIds (reduceStatus es)) \<and> set (rsCommittedCallIds (reduceStatus es)) = committedCalls es"
proof -
  have "(\<exists>f. rsFrames (reduceStatus es) i = Some f) = opened i es"
    using opened_iff [of es i] by (auto simp: reduceStatus_def statusOf_def)
  moreover have "case rsFrames (reduceStatus es) i of None \<Rightarrow> True | Some f \<Rightarrow> fsIterations f = card (committedIterations i es)"
    using foldEvents_counts [of es]
    by (auto simp: reduceStatus_def statusOf_def countsOk_def frameStatus_def split: option.splits)
  ultimately show ?thesis
    using foldEvents_calls [of es] by (simp add: reduceStatus_def statusOf_def)
qed

text \<open>
  the run state, completion mode, output reference and error of the projection are those of the
  first terminal event of the journal, whatever follows it, and those of a running run before it.
\<close>

theorem projection_first_terminal:
  "(rsState (reduceStatus es), rsCompletionMode (reduceStatus es), rsOutputRef (reduceStatus es), rsError (reduceStatus es))
   = outcomeOf (find isTerminal es)"
  using foldEvents_outcome [of es] by (simp add: reduceStatus_def statusOf_def outcome_def)

end
