(* ===== verification/Workspace.thy ===== *)
theory Workspace
  imports Program
begin

text \<open>
  Cross-cell workspace validation (\<open>src/src/core/workspace.ts\<close>): every entry of a raw snapshot is a
  single-key handle or strict JSON, and all rejected entries are reported together.  A workspace value
  is a JSON tree; a handle is the object with the one key \<open>contextId\<close> or \<open>artifactId\<close>.
\<close>

section \<open>Validation\<close>

datatype workspace_error = WorkspaceError (weKey: jstr) (weReason: jstr)

definition handleKeys :: "jstr list" where
  "handleKeys = [js ''contextId'', js ''artifactId'']"

definition asHandle :: "heap \<Rightarrow> jsval \<Rightarrow> json option" where
  "asHandle h v =
     (case v of
        VRef a \<Rightarrow> (case h a of
           OObject [(key, s)] \<Rightarrow>
             (case slotValue s of
                VStr inner \<Rightarrow> if key \<in> set handleKeys then Some (JObj [(key, JStr inner)]) else None
              | _ \<Rightarrow> None)
         | _ \<Rightarrow> None)
      | _ \<Rightarrow> None)"

text \<open>One iteration of the loop: an error, or the entry to set on the result.\<close>

definition workspaceEntry :: "heap \<Rightarrow> jstr \<times> slot \<Rightarrow> workspace_error + jstr \<times> json" where
  "workspaceEntry h p =
     (case asHandle h (slotValue (snd p)) of
        Some w \<Rightarrow> Inr (fst p, w)
      | None \<Rightarrow>
          (case parseJsonValue h (slotValue (snd p)) of
             Inl e \<Rightarrow> Inl (WorkspaceError (fst p) (errReason e @ js '' at '' @ errPath e))
           | Inr w \<Rightarrow> Inr (fst p, w)))"

fun lefts :: "('a + 'b) list \<Rightarrow> 'a list" where
  "lefts [] = []"
| "lefts (r # rs) = (case r of Inl e \<Rightarrow> e # lefts rs | Inr _ \<Rightarrow> lefts rs)"

fun rights :: "('a + 'b) list \<Rightarrow> 'b list" where
  "rights [] = []"
| "rights (r # rs) = (case r of Inl _ \<Rightarrow> rights rs | Inr a \<Rightarrow> a # rights rs)"

text \<open>\<open>raw\<close> lists the snapshot's own properties in enumeration order.\<close>

definition validateWorkspace :: "heap \<Rightarrow> (jstr \<times> slot) list \<Rightarrow> workspace_error list + (jstr \<times> json) list" where
  "validateWorkspace h raw =
     (let rs = map (workspaceEntry h) raw
      in if lefts rs \<noteq> [] then Inl (lefts rs) else Inr (objOf (rights rs)))"

definition singleKey :: "json \<Rightarrow> jstr \<Rightarrow> bool" where
  "singleKey v key \<longleftrightarrow>
     (case v of
        JObj ps \<Rightarrow> length ps = 1 \<and> (case map_of ps key of Some (JStr _) \<Rightarrow> True | _ \<Rightarrow> False)
      | _ \<Rightarrow> False)"

definition isContextHandle :: "json \<Rightarrow> bool" where
  "isContextHandle v = singleKey v (js ''contextId'')"

definition isArtifactHandle :: "json \<Rightarrow> bool" where
  "isArtifactHandle v = singleKey v (js ''artifactId'')"

section \<open>Lemmas\<close>

lemma lefts_iff: "e \<in> set (lefts rs) \<longleftrightarrow> Inl e \<in> set rs"
  by (induction rs) (auto split: sum.splits)

lemma lefts_Nil: "lefts rs = [] \<longleftrightarrow> (\<forall>r\<in>set rs. isOk r)"
  by (induction rs) (auto split: sum.splits)

lemma rights_all: "lefts rs = [] \<Longrightarrow> rs = map Inr (rights rs)"
  by (induction rs) (auto split: sum.splits)

lemma workspaceEntry_key: "workspaceEntry h p = Inr q \<Longrightarrow> fst q = fst p"
  by (auto simp: workspaceEntry_def split: option.splits sum.splits)

lemma asHandle_Some: "asHandle h v = Some w \<Longrightarrow> isContextHandle w \<or> isArtifactHandle w"
  by (auto simp: asHandle_def handleKeys_def isContextHandle_def isArtifactHandle_def singleKey_def
    split: jsval.splits jsobj.splits list.splits if_splits)

text \<open>The values a workspace may hold: handles, and what \<open>parseJsonValue\<close> returns.\<close>

definition workspaceValue :: "heap \<Rightarrow> jsval \<Rightarrow> json \<Rightarrow> bool" where
  "workspaceValue h v w \<longleftrightarrow>
     asHandle h v = Some w
     \<or> (asHandle h v = None \<and> represents h v w \<and> jsonFinite w \<and> jsonDepth w \<le> MAX_JSON_DEPTH \<and> jsonOrdered w)"

lemma workspaceEntry_Inr:
  assumes "heapOrdered h"
  shows "workspaceEntry h p = Inr q \<longleftrightarrow> fst q = fst p \<and> workspaceValue h (slotValue (snd p)) (snd q)"
proof -
  have "workspaceEntry h p = Inr q \<longleftrightarrow> fst q = fst p
    \<and> (case asHandle h (slotValue (snd p)) of Some w \<Rightarrow> snd q = w | None \<Rightarrow> parseJsonValue h (slotValue (snd p)) = Inr (snd q))"
    by (cases q) (auto simp: workspaceEntry_def split: option.splits sum.splits)
  then show ?thesis
    by (auto simp: workspaceValue_def parseJsonValue_iff [OF assms] split: option.splits)
qed

lemma workspaceEntry_Inl:
  assumes "heapOrdered h"
  shows "(\<exists>e. workspaceEntry h p = Inl e) \<longleftrightarrow> (\<forall>w. \<not> workspaceValue h (slotValue (snd p)) w)"
proof -
  have "(\<exists>e. workspaceEntry h p = Inl e) \<longleftrightarrow> (\<forall>q. workspaceEntry h p \<noteq> Inr q)"
    by (cases "workspaceEntry h p") auto
  then show ?thesis
    unfolding workspaceEntry_Inr [OF assms] by (metis fst_conv snd_conv)
qed

lemma workspaceEntry_errorKey: "workspaceEntry h p = Inl e \<Longrightarrow> weKey e = fst p"
  by (auto simp: workspaceEntry_def split: option.splits sum.splits)

lemma lefts_keys:
  "weKey ` set (lefts (map (workspaceEntry h) raw)) = fst ` {p \<in> set raw. \<exists>e. workspaceEntry h p = Inl e}"
proof (induction raw)
  case (Cons p raw)
  have "{q \<in> set (p # raw). \<exists>e. workspaceEntry h q = Inl e}
    = (if \<exists>e. workspaceEntry h p = Inl e then insert p else id) {q \<in> set raw. \<exists>e. workspaceEntry h q = Inl e}"
    by auto
  then show ?case
    using Cons workspaceEntry_errorKey [of h p] by (cases "workspaceEntry h p") (simp_all add: image_insert)
qed simp

section \<open>Properties\<close>

text \<open>
  a snapshot is accepted exactly when every entry is a handle or strict JSON, the accepted workspace has
  the snapshot's keys in order with those values, and a rejected snapshot reports exactly its bad keys.
\<close>

theorem validateWorkspace_exact:
  assumes "heapOrdered h" and "propsOrdered raw"
  shows "case validateWorkspace h raw of
      Inl es \<Rightarrow> es \<noteq> [] \<and> set (map weKey es) = fst ` {p \<in> set raw. \<forall>w. \<not> workspaceValue h (slotValue (snd p)) w}
    | Inr out \<Rightarrow> list_all2 (\<lambda>p q. fst q = fst p \<and> workspaceValue h (slotValue (snd p)) (snd q)) raw out"
proof (cases "lefts (map (workspaceEntry h) raw) = []")
  case True
  define out where "out = rights (map (workspaceEntry h) raw)"
  have "map (workspaceEntry h) raw = map Inr out"
    unfolding out_def by (rule rights_all [OF True])
  then have rel: "list_all2 (\<lambda>p q. workspaceEntry h p = Inr q) raw out"
    unfolding list_all2_conv_all_nth by (metis length_map nth_map)
  have "map fst out = map fst raw"
    using rel by (induction rule: list_all2_induct) (auto dest: workspaceEntry_key)
  then have "objOf out = out"
    using propsOrdered_keys [of out raw] assms(2) by (intro objOf_ordered) simp
  then have "validateWorkspace h raw = Inr out"
    using True by (simp add: validateWorkspace_def out_def)
  moreover have "list_all2 (\<lambda>p q. fst q = fst p \<and> workspaceValue h (slotValue (snd p)) (snd q)) raw out"
    using rel by (rule list_all2_mono) (simp add: workspaceEntry_Inr [OF assms(1)])
  ultimately show ?thesis by simp
next
  case False
  then show ?thesis
    by (simp add: validateWorkspace_def lefts_keys workspaceEntry_Inl [OF assms(1)])
qed

theorem validateWorkspace_exact_witness:
  "\<exists>out. validateWorkspace (\<lambda>_. OArray []) [(js ''a'', Data VNull)] = Inr out
     \<and> list_all2 (\<lambda>p q. fst q = fst p \<and> workspaceValue (\<lambda>_. OArray []) (slotValue (snd p)) (snd q)) [(js ''a'', Data VNull)] out"
proof -
  have h: "heapOrdered (\<lambda>_. OArray [])" "propsOrdered [(js ''a'', Data VNull)]"
    by (simp_all add: heapOrdered_def propsOrdered_def)
  have "parseJsonValue (\<lambda>_. OArray []) VNull = Inr JNull"
    by (simp add: parseJsonValue_iff [OF h(1)])
  then have "isOk (validateWorkspace (\<lambda>_. OArray []) [(js ''a'', Data VNull)])"
    by (simp add: validateWorkspace_def workspaceEntry_def asHandle_def slotValue_def)
  then show ?thesis
    using validateWorkspace_exact [OF h] by (auto simp: isOk_iff)
qed

end
