(* ===== verification/Cell.thy ===== *)
theory Cell
  imports CallErrors
begin

text \<open>
  Guest cell validation and transform (\<open>src/src/core/cell.ts\<close>).  The parser (acorn) is the argument
  \<open>parse\<close>: it returns an error message or a syntax tree.  A tree node has a type, a source range and the
  remaining own properties in order; a property is a node, an array whose elements may be nodes, or a value
  that is no node.
\<close>

section \<open>Syntax trees\<close>

datatype ast = Node (nType: jstr) (nStart: nat) (nEnd: nat) (nFields: "(jstr \<times> ast_field) list")
  and ast_field = Child ast | Items "ast option list" | Plain jsval

definition fieldNodes :: "ast_field \<Rightarrow> ast list" where
  "fieldNodes f =
     (case f of
        Child n \<Rightarrow> [n]
      | Items xs \<Rightarrow> concat (map (\<lambda>x. case x of Some n \<Rightarrow> [n] | None \<Rightarrow> []) xs)
      | Plain _ \<Rightarrow> [])"

text \<open>The nodes pushed for a visited node, in the order of \<open>Object.values\<close>.\<close>

definition children :: "ast \<Rightarrow> ast list" where
  "children n = concat (map (\<lambda>p. fieldNodes (snd p)) (nFields n))"

primrec weight :: "ast \<Rightarrow> nat" and fieldWeight :: "ast_field \<Rightarrow> nat" where
  "weight (Node t s e fs) = Suc (sum_list (map snd (map (map_prod id fieldWeight) fs)))"
| "fieldWeight (Child n) = weight n"
| "fieldWeight (Items xs) = sum_list (map (case_option 0 id) (map (map_option weight) xs))"
| "fieldWeight (Plain v) = 0"

lemma fieldWeight_nodes: "sum_list (map weight (fieldNodes f)) = fieldWeight f"
proof (cases f)
  case (Items xs)
  have "sum_list (map weight (concat (map (\<lambda>x. case x of Some n \<Rightarrow> [n] | None \<Rightarrow> []) xs)))
    = sum_list (map (case_option 0 id) (map (map_option weight) xs))"
    by (induction xs) (auto split: option.splits)
  then show ?thesis by (simp add: fieldNodes_def Items)
qed (simp_all add: fieldNodes_def)

lemma weight_children: "sum_list (map weight (children n)) < weight n"
proof (cases n)
  case (Node t s e fs)
  have "sum_list (map weight (concat (map (\<lambda>p. fieldNodes (snd p)) fs))) = sum_list (map snd (map (map_prod id fieldWeight) fs))"
    by (induction fs) (simp_all add: fieldWeight_nodes)
  then show ?thesis by (simp add: children_def Node)
qed

text \<open>\<open>walk\<close>: the list is the stack, its head the top; the last node pushed is visited first.\<close>

function walkTree :: "(ast \<Rightarrow> jstr option) \<Rightarrow> ast list \<Rightarrow> jstr option" where
  "walkTree visit [] = None"
| "walkTree visit (n # stack) =
     (case visit n of
        Some reason \<Rightarrow> if reason \<noteq> [] then Some reason else walkTree visit (rev (children n) @ stack)
      | None \<Rightarrow> walkTree visit (rev (children n) @ stack))"
  by pat_completeness auto

lemma weight_push: "sum_list (map weight (rev (children n) @ stack)) < sum_list (map weight (n # stack))"
proof -
  have "sum_list (map weight (rev (children n))) = sum_list (map weight (children n))"
    by (metis rev_map sum_list.rev)
  then show ?thesis using weight_children [of n] by simp
qed

termination walkTree
  by (relation "measure (\<lambda>(visit, stack). sum_list (map weight stack))")
     (simp_all only: wf_measure in_measure case_prod_conv weight_push)

section \<open>Rejections\<close>

definition FORBIDDEN :: "(jstr \<times> jstr) list" where
  "FORBIDDEN =
     [(js ''ImportDeclaration'', js ''import statements are not allowed''),
      (js ''ImportExpression'', js ''dynamic import() is not allowed''),
      (js ''ExportNamedDeclaration'', js ''export statements are not allowed''),
      (js ''ExportDefaultDeclaration'', js ''export statements are not allowed''),
      (js ''ExportAllDeclaration'', js ''export statements are not allowed''),
      (js ''WithStatement'', js ''with statements are not allowed''),
      (js ''MetaProperty'', js ''import.meta is not allowed'')]"

definition rejectionFor :: "ast \<Rightarrow> jstr option" where
  "rejectionFor n =
     (case map_of FORBIDDEN (nType n) of
        Some reason \<Rightarrow> Some reason
      | None \<Rightarrow>
          if nType n = js ''CallExpression''
             \<and> (case map_of (nFields n) (js ''callee'') of
                  Some (Child c) \<Rightarrow> nType c = js ''Identifier'' \<and> map_of (nFields c) (js ''name'') = Some (Plain (VStr (js ''eval'')))
                | _ \<Rightarrow> False)
          then Some (js ''direct eval() is not allowed'') else None)"

section \<open>transformCell\<close>

record cell_transform =
  ctSource :: jstr
  ctHasResultExpression :: bool

definition newline :: jstr where
  "newline = [10]"

definition cellHead :: jstr where
  "cellHead = js ''(async () => {'' @ newline @ [34] @ js ''use strict'' @ [34] @ js '';'' @ newline"

definition cellTail :: jstr where
  "cellTail = newline @ js ''})()''"

definition parseErrorOf :: "jstr \<Rightarrow> interpreter_error" where
  "parseErrorOf message = InterpreterError PARSE_ERROR message"

text \<open>The result expression: the expression of a trailing expression statement.\<close>

definition resultExpression :: "ast \<Rightarrow> ast option" where
  "resultExpression program =
     (case map_of (nFields program) (js ''body'') of
        Some (Items body) \<Rightarrow>
          (if body = [] then None
           else case last body of
                  Some st \<Rightarrow>
                    if nType st = js ''ExpressionStatement''
                    then (case map_of (nFields st) (js ''expression'') of Some (Child e) \<Rightarrow> Some e | _ \<Rightarrow> None)
                    else None
                | None \<Rightarrow> None)
      | _ \<Rightarrow> None)"

definition transformCell :: "(jstr \<Rightarrow> jstr + ast) \<Rightarrow> jstr \<Rightarrow> interpreter_error + cell_transform" where
  "transformCell parse code =
     (case parse code of
        Inl message \<Rightarrow> Inl (parseErrorOf message)
      | Inr program \<Rightarrow>
          (case walkTree rejectionFor [program] of
             Some rejection \<Rightarrow> Inl (parseErrorOf rejection)
           | None \<Rightarrow>
               (case resultExpression program of
                  Some e \<Rightarrow>
                    let prefix = take (nStart e) code; exprSource = drop (nStart e) (take (nEnd e) code)
                    in Inr \<lparr>ctSource = cellHead @ prefix @ newline @ js '';return ('' @ newline @ exprSource @ newline
                                        @ js '');'' @ cellTail,
                            ctHasResultExpression = True\<rparr>
                | None \<Rightarrow> Inr \<lparr>ctSource = cellHead @ code @ cellTail, ctHasResultExpression = False\<rparr>)))"

section \<open>What the walk visits\<close>

inductive reaches :: "ast \<Rightarrow> ast \<Rightarrow> bool" where
  here: "reaches n n"
| below: "c \<in> set (children n) \<Longrightarrow> reaches c m \<Longrightarrow> reaches n m"

inductive_simps reaches_unfold: "reaches n m"

definition silent :: "(ast \<Rightarrow> jstr option) \<Rightarrow> ast \<Rightarrow> bool" where
  "silent visit n \<longleftrightarrow> visit n = None \<or> visit n = Some []"

lemma reaches_cases: "reaches n m \<longleftrightarrow> m = n \<or> (\<exists>c\<in>set (children n). reaches c m)"
  by (subst reaches_unfold) blast

lemma walkTree_None: "walkTree visit stack = None \<longleftrightarrow> (\<forall>n\<in>set stack. \<forall>m. reaches n m \<longrightarrow> silent visit m)"
proof (induction visit stack rule: walkTree.induct)
  case (2 visit n stack)
  show ?case
  proof (cases "silent visit n")
    case True
    then have "walkTree visit (n # stack) = walkTree visit (rev (children n) @ stack)"
      by (auto simp: silent_def)
    also have "\<dots> = None \<longleftrightarrow> (\<forall>c\<in>set (children n @ stack). \<forall>m. reaches c m \<longrightarrow> silent visit m)"
      using 2 True by (auto simp: silent_def)
    also have "\<dots> \<longleftrightarrow> (\<forall>x\<in>set (n # stack). \<forall>m. reaches x m \<longrightarrow> silent visit m)"
      using True reaches_cases [of n] by auto
    finally show ?thesis .
  next
    case False
    then have "walkTree visit (n # stack) \<noteq> None" by (auto simp: silent_def split: option.splits)
    moreover have "reaches n n" by (rule here)
    ultimately show ?thesis using False by auto
  qed
qed simp

lemma walkTree_Some:
  "walkTree visit stack = Some r \<Longrightarrow> \<exists>n\<in>set stack. \<exists>m. reaches n m \<and> visit m = Some r"
proof (induction visit stack rule: walkTree.induct)
  case (2 visit n stack)
  show ?case
  proof (cases "silent visit n")
    case True
    then have "walkTree visit (rev (children n) @ stack) = Some r" using 2(3) by (auto simp: silent_def)
    then have "\<exists>c\<in>set (rev (children n) @ stack). \<exists>m. reaches c m \<and> visit m = Some r"
      using True [unfolded silent_def] by (elim disjE) (use 2(1,2) in simp_all)
    then show ?thesis using reaches_cases [of n] by auto
  next
    case False
    then have "visit n = Some r" using 2(3) by (auto simp: silent_def split: option.splits if_splits)
    then show ?thesis using here by auto
  qed
qed simp

section \<open>Properties\<close>

text \<open>
  a cell is accepted exactly when it parses and no node of its tree, at any depth, is module syntax, dynamic
  import, \<open>import.meta\<close>, \<open>with\<close> or a direct \<open>eval\<close> call; a rejected cell yields a parse error whose message is
  the parser's or that of an offending node; an accepted cell's source is the code, or its part up to
  the trailing expression followed by a return of that expression, inside one async function.
\<close>

theorem transformCell_accepts:
  "case transformCell parse code of
     Inr t \<Rightarrow> (\<exists>program. parse code = Inr program \<and> {m. reaches program m \<and> rejectionFor m \<noteq> None} = {}
        \<and> (ctHasResultExpression t \<longleftrightarrow> resultExpression program \<noteq> None)
        \<and> (\<exists>body. ctSource t = cellHead @ body @ cellTail \<and> isPrefix (take (case resultExpression program of
             None \<Rightarrow> length code | Some e \<Rightarrow> nStart e) code) body))
   | Inl e \<Rightarrow> ieCode e = PARSE_ERROR
        \<and> (parse code = Inl (ieMessage e)
           \<or> (\<exists>program m. parse code = Inr program \<and> reaches program m \<and> rejectionFor m = Some (ieMessage e)))"
proof (cases "parse code")
  case (Inl message)
  then show ?thesis by (simp add: transformCell_def parseErrorOf_def)
next
  case (Inr program)
  have silent: "silent rejectionFor m \<longleftrightarrow> rejectionFor m = None" for m
    by (auto simp: silent_def rejectionFor_def FORBIDDEN_def split: if_splits option.splits)
  show ?thesis
  proof (cases "walkTree rejectionFor [program]")
    case None
    then have "{m. reaches program m \<and> rejectionFor m \<noteq> None} = {}"
      using walkTree_None [of rejectionFor "[program]"] silent by simp
    then show ?thesis
      using Inr None by (cases "resultExpression program") (auto simp: transformCell_def Let_def isPrefix_iff)
  next
    case (Some r)
    then show ?thesis
      using Inr walkTree_Some [OF Some] by (auto simp: transformCell_def parseErrorOf_def)
  qed
qed

end
