(* ===== verification/Trajectory.thy ===== *)
theory Trajectory
  imports CallErrors Preview
begin

text \<open>
  The controller trajectory and its bounded projection (\<open>src/src/core/trajectory.ts\<close>).  Entry counts and
  byte bounds are natural numbers.
\<close>

section \<open>Entries\<close>

datatype cell_error = CellInterpreterError interpreter_error | CellCallError call_error

record answer_candidate =
  acValue :: json
  acValidationErrors :: "jstr list"

record trajectory_entry =
  teIteration :: nat
  teReasoning :: jstr
  teCode :: jstr
  teHasResult :: bool
  teOutputPreview :: jstr
  teOutputBytes :: "jsnum option"
  teOutputOmittedBytes :: "jsnum option"
  teUsage :: "call_usage option"
  teOutputRef :: "jstr option"
  teError :: "cell_error option"
  teAnswerCandidate :: "answer_candidate option"

record projected_entry =
  prIteration :: nat
  prReasoning :: jstr
  prCodePreview :: preview
  prOutputPreview :: jstr
  prOutputBytes :: "jsnum option"
  prOutputOmittedBytes :: "jsnum option"
  prUsage :: "call_usage option"
  prOutputRef :: "jstr option"
  prError :: "cell_error option"

record trajectory_projection =
  tpEntries :: "projected_entry list"
  tpOmittedCount :: nat
  tpTotal :: nat

record projection_options =
  headEntries :: nat
  tailEntries :: nat
  codeHeadBytes :: nat
  codeTailBytes :: nat
  reasoningMaxBytes :: nat

section \<open>Projection\<close>

definition projectEntry :: "trajectory_entry \<Rightarrow> projection_options \<Rightarrow> projected_entry" where
  "projectEntry entry opts =
     \<lparr>prIteration = teIteration entry,
      prReasoning = pvText (headPreview (teReasoning entry) (int (reasoningMaxBytes opts))),
      prCodePreview = headTailPreview (teCode entry)
        \<lparr>headBytes = int (codeHeadBytes opts), tailBytes = int (codeTailBytes opts), separator = None\<rparr>,
      prOutputPreview = teOutputPreview entry,
      prOutputBytes = teOutputBytes entry, prOutputOmittedBytes = teOutputOmittedBytes entry,
      prUsage = teUsage entry, prOutputRef = teOutputRef entry, prError = teError entry\<rparr>"

definition projectTrajectory :: "trajectory_entry list \<Rightarrow> projection_options \<Rightarrow> trajectory_projection" where
  "projectTrajectory entries opts =
     (let total = length entries; capacity = headEntries opts + tailEntries opts
      in if total \<le> capacity
         then \<lparr>tpEntries = map (\<lambda>e. projectEntry e opts) entries, tpOmittedCount = 0, tpTotal = total\<rparr>
         else let hd' = take (headEntries opts) entries; tl' = drop (total - tailEntries opts) entries
              in \<lparr>tpEntries = map (\<lambda>e. projectEntry e opts) (hd' @ tl'), tpOmittedCount = total - capacity, tpTotal = total\<rparr>)"

definition appendEntry :: "trajectory_entry list \<Rightarrow> trajectory_entry \<Rightarrow> trajectory_entry list" where
  "appendEntry entries entry = entries @ [entry]"

section \<open>Properties\<close>

lemma headPreview_bytes: "int (byteLength (pvText (headPreview s n))) \<le> max 0 n"
proof (cases "int (byteLength s) \<le> n")
  case False
  then show ?thesis using head_cut.cut_bytes [of s n] by (simp add: headPreview_def Let_def)
qed (simp add: headPreview_def Let_def)

text \<open>
  The projection shows the first and last iterations within the two windows, as many as fit and in order,
  counts shown plus omitted as the total, and every shown reasoning is within its byte bound.
\<close>

theorem projection_windows:
  "tpTotal (projectTrajectory entries opts) = length entries
   \<and> length (tpEntries (projectTrajectory entries opts)) = min (length entries) (headEntries opts + tailEntries opts)
   \<and> length (tpEntries (projectTrajectory entries opts)) + tpOmittedCount (projectTrajectory entries opts) = length entries
   \<and> (\<exists>a omitted b. entries = a @ omitted @ b
        \<and> tpEntries (projectTrajectory entries opts) = map (\<lambda>e. projectEntry e opts) (a @ b)
        \<and> length omitted = tpOmittedCount (projectTrajectory entries opts)
        \<and> (omitted = [] \<or> (length a = headEntries opts \<and> length b = tailEntries opts)))
   \<and> list_all (\<lambda>p. byteLength (prReasoning p) \<le> reasoningMaxBytes opts) (tpEntries (projectTrajectory entries opts))"
proof -
  have bounded: "byteLength (prReasoning (projectEntry e opts)) \<le> reasoningMaxBytes opts" for e
    using headPreview_bytes [of "teReasoning e" "int (reasoningMaxBytes opts)"] by (simp add: projectEntry_def)
  show ?thesis
  proof (cases "length entries \<le> headEntries opts + tailEntries opts")
    case True
    then have p: "projectTrajectory entries opts
      = \<lparr>tpEntries = map (\<lambda>e. projectEntry e opts) entries, tpOmittedCount = 0, tpTotal = length entries\<rparr>"
      by (simp add: projectTrajectory_def Let_def)
    show ?thesis
      unfolding p using True bounded
      by (simp add: list_all_iff, intro exI [of _ entries] exI [of _ "[]"], simp)
  next
    case False
    let ?a = "take (headEntries opts) entries" and ?b = "drop (length entries - tailEntries opts) entries"
    let ?m = "drop (headEntries opts) (take (length entries - tailEntries opts) entries)"
    have p: "projectTrajectory entries opts = \<lparr>tpEntries = map (\<lambda>e. projectEntry e opts) (?a @ ?b),
        tpOmittedCount = length entries - (headEntries opts + tailEntries opts), tpTotal = length entries\<rparr>"
      using False by (simp add: projectTrajectory_def Let_def)
    have "headEntries opts \<le> length entries - tailEntries opts" using False by linarith
    then have "take (headEntries opts) (take (length entries - tailEntries opts) entries) = ?a"
      by (simp add: min_absorb1)
    then have split: "entries = ?a @ ?m @ ?b"
      by (metis append_assoc append_take_drop_id)
    have len: "length ?m = length entries - (headEntries opts + tailEntries opts)" using False by simp
    have "length ?a = headEntries opts" "length ?b = tailEntries opts" using False by simp_all
    then have "\<exists>a omitted b. entries = a @ omitted @ b
        \<and> map (\<lambda>e. projectEntry e opts) (?a @ ?b) = map (\<lambda>e. projectEntry e opts) (a @ b)
        \<and> length omitted = length entries - (headEntries opts + tailEntries opts)
        \<and> (omitted = [] \<or> (length a = headEntries opts \<and> length b = tailEntries opts))"
      using split len by blast
    then show ?thesis
      unfolding p using False bounded by (auto simp: list_all_iff min_def)
  qed
qed

end
