(* ===== verification/Semaphore.thy ===== *)
theory Semaphore
  imports Budget
begin

text \<open>
  The abortable FIFO semaphore of \<open>src/src/runtime/semaphore.ts\<close>.  Requests and abort signals are
  numbered by the environment, release callbacks by the order of their creation; a callback's flag
  \<open>released\<close> is its absence from \<open>held\<close>.  The environment may abort a signal, run a waiter's abort
  listener, acquire and release in any order; the log \<open>settled\<close> records how each request was resolved.
\<close>

section \<open>State\<close>

record waiter =
  wRequest :: nat
  wSignal :: "nat option"

record semaphore =
  available :: int
  capacity :: int
  waiters :: "waiter list"
  held :: "nat set"
  nextPermit :: nat
  abortedSignals :: "nat set"
  settled :: "(nat \<times> nat option) list"

definition newSemaphore :: "int \<Rightarrow> semaphore" where
  "newSemaphore m = \<lparr>available = max 1 m, capacity = max 1 m, waiters = [], held = {}, nextPermit = 0,
     abortedSignals = {}, settled = []\<rparr>"

definition isIdle :: "semaphore \<Rightarrow> bool" where
  "isIdle s \<longleftrightarrow> available s = capacity s \<and> waiters s = []"

definition signalAborted :: "nat option \<Rightarrow> semaphore \<Rightarrow> bool" where
  "signalAborted sig s \<longleftrightarrow> (case sig of None \<Rightarrow> False | Some k \<Rightarrow> k \<in> abortedSignals s)"

section \<open>Operations\<close>

definition resolveRequest :: "nat \<Rightarrow> nat option \<Rightarrow> semaphore \<Rightarrow> semaphore" where
  "resolveRequest r p s = s\<lparr>settled := settled s @ [(r, p)]\<rparr>"

text \<open>\<open>resolve(this.makeRelease())\<close>: a fresh release callback for the request.\<close>

definition grantPermit :: "nat \<Rightarrow> semaphore \<Rightarrow> semaphore" where
  "grantPermit r s =
     resolveRequest r (Some (nextPermit s)) (s\<lparr>held := insert (nextPermit s) (held s), nextPermit := Suc (nextPermit s)\<rparr>)"

definition acquire :: "nat \<Rightarrow> nat option \<Rightarrow> semaphore \<Rightarrow> semaphore" where
  "acquire r sig s =
     (if signalAborted sig s then resolveRequest r None s
      else if 0 < available s then grantPermit r (s\<lparr>available := available s - 1\<rparr>)
      else s\<lparr>waiters := waiters s @ [\<lparr>wRequest = r, wSignal = sig\<rparr>]\<rparr>)"

text \<open>The listener \<open>onAbort\<close> of a request: it leaves the queue, if it is still there, and resolves empty.\<close>

definition onAbort :: "nat \<Rightarrow> semaphore \<Rightarrow> semaphore" where
  "onAbort r s =
     (if r \<in> wRequest ` set (waiters s)
      then resolveRequest r None (s\<lparr>waiters := filter (\<lambda>w. wRequest w \<noteq> r) (waiters s)\<rparr>)
      else s)"

text \<open>The loop of a release callback over the queue.\<close>

fun handOff :: "waiter list \<Rightarrow> semaphore \<Rightarrow> semaphore" where
  "handOff [] s = s\<lparr>waiters := [], available := available s + 1\<rparr>"
| "handOff (w # ws) s =
     (if signalAborted (wSignal w) s then handOff ws (resolveRequest (wRequest w) None s)
      else grantPermit (wRequest w) (s\<lparr>waiters := ws\<rparr>))"

definition release :: "nat \<Rightarrow> semaphore \<Rightarrow> semaphore" where
  "release p s = (if p \<in> held s then handOff (waiters s) (s\<lparr>held := held s - {p}\<rparr>) else s)"

section \<open>Invariant\<close>

text \<open>Permits are conserved, and a permit is free only when nobody waits.\<close>

definition semOk :: "semaphore \<Rightarrow> bool" where
  "semOk s \<longleftrightarrow>
     1 \<le> capacity s \<and> 0 \<le> available s \<and> finite (held s) \<and> int (card (held s)) + available s = capacity s
     \<and> (\<forall>p\<in>held s. p < nextPermit s) \<and> (waiters s = [] \<or> available s = 0)"

lemma newSemaphore_ok [inv_intros]: "semOk (newSemaphore m)"
  by (simp add: semOk_def newSemaphore_def)

lemma resolveRequest_simps [simp]:
  "available (resolveRequest r p s) = available s" "capacity (resolveRequest r p s) = capacity s"
  "waiters (resolveRequest r p s) = waiters s" "held (resolveRequest r p s) = held s"
  "nextPermit (resolveRequest r p s) = nextPermit s" "abortedSignals (resolveRequest r p s) = abortedSignals s"
  "settled (resolveRequest r p s) = settled s @ [(r, p)]"
  by (simp_all add: resolveRequest_def)

lemma grantPermit_simps [simp]:
  "available (grantPermit r s) = available s" "capacity (grantPermit r s) = capacity s"
  "waiters (grantPermit r s) = waiters s" "held (grantPermit r s) = insert (nextPermit s) (held s)"
  "nextPermit (grantPermit r s) = Suc (nextPermit s)" "abortedSignals (grantPermit r s) = abortedSignals s"
  "settled (grantPermit r s) = settled s @ [(r, Some (nextPermit s))]"
  by (simp_all add: grantPermit_def)

lemma card_fresh:
  fixes n :: nat
  assumes "finite H" and "\<forall>p\<in>H. p < n"
  shows "card (insert n H) = Suc (card H)"
proof -
  have "n \<notin> H" using assms(2) by (metis less_irrefl)
  then show ?thesis using assms(1) by simp
qed

lemma acquire_ok [inv_intros]: "semOk s \<Longrightarrow> semOk (acquire r sig s)"
  by (auto simp: semOk_def acquire_def card_fresh less_SucI)

lemma onAbort_ok [inv_intros]: "semOk s \<Longrightarrow> semOk (onAbort r s)"
  by (auto simp: semOk_def onAbort_def)

lemma abort_ok: "semOk s \<Longrightarrow> semOk (s\<lparr>abortedSignals := A\<rparr>)"
  by (simp add: semOk_def)

text \<open>Inside a release one permit is in flight.\<close>

definition inFlight :: "semaphore \<Rightarrow> bool" where
  "inFlight s \<longleftrightarrow>
     1 \<le> capacity s \<and> 0 \<le> available s \<and> finite (held s) \<and> int (card (held s)) + available s + 1 = capacity s
     \<and> (\<forall>p\<in>held s. p < nextPermit s)"

lemma handOff_ok:
  "inFlight s \<Longrightarrow> ws = [] \<or> available s = 0 \<Longrightarrow> semOk (handOff ws s)"
proof (induction ws s rule: handOff.induct)
  case (1 s)
  then show ?case by (auto simp: inFlight_def semOk_def)
next
  case (2 w ws s)
  show ?case
  proof (cases "signalAborted (wSignal w) s")
    case True
    then show ?thesis using 2 by (auto simp: inFlight_def)
  next
    case False
    then show ?thesis using 2(2,3) by (auto simp: inFlight_def semOk_def card_fresh less_SucI)
  qed
qed

lemma release_ok [inv_intros]: "semOk s \<Longrightarrow> semOk (release p s)"
proof (cases "p \<in> held s")
  case True
  assume ok: "semOk s"
  have "inFlight (s\<lparr>held := held s - {p}\<rparr>)"
    using ok True card_Suc_Diff1 [of "held s" p] by (auto simp: semOk_def inFlight_def)
  then show ?thesis
    using ok True handOff_ok [of "s\<lparr>held := held s - {p}\<rparr>" "waiters s"] by (auto simp: release_def semOk_def)
qed (simp add: release_def)

section \<open>Interleavings\<close>

inductive sem_step :: "semaphore \<Rightarrow> semaphore \<Rightarrow> bool" where
  acquires: "sem_step s (acquire r sig s)"
| aborts: "sem_step s (s\<lparr>abortedSignals := insert k (abortedSignals s)\<rparr>)"
| listens: "sem_step s (onAbort r s)"
| releases: "sem_step s (release p s)"

inductive sem_reachable :: "int \<Rightarrow> semaphore \<Rightarrow> bool" for m where
  init: "sem_reachable m (newSemaphore m)"
| step: "sem_reachable m s \<Longrightarrow> sem_step s s' \<Longrightarrow> sem_reachable m s'"

lemma sem_step_ok: "sem_step s s' \<Longrightarrow> semOk s \<Longrightarrow> semOk s'"
  by (induction rule: sem_step.induct) (blast intro: inv_intros abort_ok)+

lemma handOff_capacity: "capacity (handOff ws s) = capacity s"
  by (induction ws s rule: handOff.induct) auto

lemma sem_step_capacity: "sem_step s s' \<Longrightarrow> capacity s' = capacity s"
  by (induction rule: sem_step.induct) (auto simp: acquire_def onAbort_def release_def handOff_capacity)

lemma sem_reachable_ok: "sem_reachable m s \<Longrightarrow> semOk s \<and> capacity s = max 1 m"
proof (induction rule: sem_reachable.induct)
  case init
  then show ?case by (simp add: newSemaphore_ok) (simp add: newSemaphore_def)
next
  case (step s s')
  then show ?case using sem_step_ok sem_step_capacity by auto
qed

text \<open>Taking a free permit is a capped counter whose cap is the capacity.\<close>

definition takeFree :: "nat \<Rightarrow> semaphore \<Rightarrow> semaphore option" where
  "takeFree r s = (if 0 < available s then Some (grantPermit r (s\<lparr>available := available s - 1\<rparr>)) else None)"

interpretation permits: capped_counter semOk "\<lambda>s. int (card (held s))" capacity "takeFree r" for r
proof unfold_locales
  fix s assume ok: "semOk s"
  then show "int (card (held s)) \<le> capacity s" by (auto simp: semOk_def)
  show "takeFree r s = None" if "int (card (held s)) = capacity s"
    using ok that by (auto simp: semOk_def takeFree_def)
  assume less: "int (card (held s)) < capacity s"
  then have a: "0 < available s" using ok by (auto simp: semOk_def)
  have "takeFree r s = Some (acquire r None s)"
    using a by (simp add: takeFree_def acquire_def signalAborted_def)
  moreover have "int (card (held (acquire r None s))) = int (card (held s)) + 1"
    using ok a by (auto simp: semOk_def acquire_def signalAborted_def card_fresh)
  ultimately show "\<exists>s'. takeFree r s = Some s' \<and> semOk s' \<and> int (card (held s')) = int (card (held s)) + 1
      \<and> capacity s' = capacity s"
    using ok a acquire_ok [of s r None] by (auto simp: acquire_def signalAborted_def)
qed

text \<open>A release hands its permit to the first waiter whose signal is not aborted.\<close>

lemma handOff_first:
  "handOff ws s =
     (case dropWhile (\<lambda>w. signalAborted (wSignal w) s) ws of
        [] \<Rightarrow> s\<lparr>waiters := [], available := available s + 1,
                settled := settled s @ map (\<lambda>w. (wRequest w, None)) ws\<rparr>
      | w # rest \<Rightarrow> grantPermit (wRequest w) (s\<lparr>waiters := rest,
                settled := settled s @ map (\<lambda>w. (wRequest w, None)) (takeWhile (\<lambda>w. signalAborted (wSignal w) s) ws)\<rparr>))"
proof (induction ws s rule: handOff.induct)
  case (2 w ws s)
  have "signalAborted sig (resolveRequest r p s) = signalAborted sig s" for sig r p
    by (simp add: signalAborted_def split: option.splits)
  then show ?case
    using 2 by (auto simp: resolveRequest_def grantPermit_def simp del: dropWhile_eq_Nil_conv split: list.splits)
qed simp

section \<open>Properties\<close>

text \<open>
  C26: under every interleaving of acquisitions, aborts, abort listeners and releases, held permits plus free
  permits equal the capacity, never more permits are held than the capacity, and nobody waits while a permit is
  free.
\<close>

theorem semaphore_conserves_permits:
  assumes "sem_reachable m s"
  shows "int (card (held s)) + available s = max 1 m \<and> 0 \<le> available s \<and> int (card (held s)) \<le> max 1 m
    \<and> (waiters s = [] \<or> available s = 0) \<and> (isIdle s \<longleftrightarrow> held s = {} \<and> waiters s = [])"
  using sem_reachable_ok [OF assms] by (auto simp: semOk_def isIdle_def)

theorem semaphore_conserves_permits_witness:
  "int (card (held (acquire 0 None (newSemaphore 1)))) + available (acquire 0 None (newSemaphore 1)) = 1"
proof -
  have "sem_reachable 1 (acquire 0 None (newSemaphore 1))"
    by (rule sem_reachable.step [OF sem_reachable.init sem_step.acquires])
  from semaphore_conserves_permits [OF this] show ?thesis by simp
qed

text \<open>
  releasing a held permit resolves empty exactly the aborted waiters at the front of the queue and hands a
  fresh permit to the first waiter that is not aborted, keeping the rest of the queue in order; with no such
  waiter the permit becomes free.  Releasing it again changes nothing.
\<close>

theorem release_fifo:
  assumes "semOk s" and "p \<in> held s"
  shows "(case dropWhile (\<lambda>w. signalAborted (wSignal w) s) (waiters s) of
      [] \<Rightarrow> waiters (release p s) = [] \<and> available (release p s) = available s + 1 \<and> held (release p s) = held s - {p}
    | w # rest \<Rightarrow> waiters (release p s) = rest \<and> available (release p s) = available s
        \<and> held (release p s) = insert (nextPermit s) (held s - {p})
        \<and> last (settled (release p s)) = (wRequest w, Some (nextPermit s)))
    \<and> release p (release p s) = release p s"
proof -
  have ab: "signalAborted sig (s\<lparr>held := H\<rparr>) = signalAborted sig s" for sig H
    by (simp add: signalAborted_def split: option.splits)
  have r: "release p s = handOff (waiters s) (s\<lparr>held := held s - {p}\<rparr>)"
    using assms(2) by (simp add: release_def)
  have "p \<noteq> nextPermit s" using assms by (auto simp: semOk_def)
  then have "p \<notin> held (release p s)"
    unfolding r handOff_first ab by (auto split: list.splits)
  then have "release p (release p s) = release p s" by (simp add: release_def)
  then show ?thesis
    unfolding r handOff_first ab by (auto simp del: dropWhile_eq_Nil_conv split: list.splits)
qed

theorem release_fifo_witness:
  "\<exists>s. semOk s \<and> 0 \<in> held s \<and> release 0 (release 0 s) = release 0 s \<and> held (release 0 s) = {1}"
proof -
  let ?s = "acquire 1 None (acquire 0 None (newSemaphore 1))"
  have ok: "semOk ?s" by (intro inv_intros)
  have s: "0 \<in> held ?s" "nextPermit ?s = 1" "waiters ?s = [\<lparr>wRequest = 1, wSignal = None\<rparr>]" "held ?s = {0}"
    by (simp_all add: acquire_def newSemaphore_def signalAborted_def)
  show ?thesis
    using release_fifo [OF ok s(1)] s ok by (intro exI [of _ ?s]) (simp add: signalAborted_def)
qed

end
