(* ===== verification/StoredBytes.thy ===== *)
theory StoredBytes
  imports Budget Preview
begin

text \<open>
  Reservations on the tree-wide retained-byte ledger (\<open>src/src/runtime/stored-bytes.ts\<close>).  A reservation
  object closes over the mutable ledger cell; here the cell and the closure variables are passed explicitly.
  The last part runs any number of reservations against one ledger.
\<close>

section \<open>One reservation\<close>

text \<open>The closure variables \<open>remaining\<close> and \<open>active\<close>.\<close>

record reservation =
  rvRemaining :: jsnum
  rvActive :: bool

definition reserveStoredBytes :: "ledger \<Rightarrow> jsnum \<Rightarrow> call_error + ledger \<times> reservation" where
  "reserveStoredBytes l bytes =
     (case reserveBytes l bytes of
        Inl e \<Rightarrow> Inl e
      | Inr l' \<Rightarrow> Inr (l', \<lparr>rvRemaining = bytes, rvActive = True\<rparr>))"

definition releaseReserved :: "ledger \<Rightarrow> reservation \<Rightarrow> jsnum \<Rightarrow> js_exn + ledger \<times> reservation" where
  "releaseReserved l r released =
     (if \<not> rvActive r \<or> notCount released \<or> jless (rvRemaining r) released
      then Inl (ThrowError (js ''invalid stored-byte reservation release''))
      else if jless (Num 0) released
      then (case releaseBytes l released of
              Inl e \<Rightarrow> Inl e
            | Inr l' \<Rightarrow> Inr (l', r\<lparr>rvRemaining := jsub (rvRemaining r) released\<rparr>))
      else Inr (l, r\<lparr>rvRemaining := jsub (rvRemaining r) released\<rparr>))"

definition commitReserved :: "reservation \<Rightarrow> reservation" where
  "commitReserved r = (if \<not> rvActive r then r else r\<lparr>rvActive := False\<rparr>)"

definition rollbackReserved :: "ledger \<Rightarrow> reservation \<Rightarrow> js_exn + ledger \<times> reservation" where
  "rollbackReserved l r =
     (if \<not> rvActive r then Inr (l, r)
      else case releaseReserved l r (rvRemaining r) of
             Inl e \<Rightarrow> Inl e
           | Inr (l', r') \<Rightarrow> Inr (l', r'\<lparr>rvActive := False\<rparr>))"

definition remainingStoredBytes :: "ledger \<Rightarrow> jsnum" where
  "remainingStoredBytes l = jmax (Num 0) (jsub (storedByteLimit (limits l)) (storedBytes (usage l)))"

definition retainedJsonBytes :: "json \<Rightarrow> js_exn + nat" where
  "retainedJsonBytes v = map_sum id byteLength (canonicalStringify v)"

section \<open>Many reservations on one ledger\<close>

record byte_state =
  bsLedger :: ledger
  bsReservations :: "reservation list"

datatype byte_op = Reserve jsnum | Release nat jsnum | Commit nat | Rollback nat

datatype byte_failure = Refused call_error | Threw js_exn

definition updateAt :: "byte_state \<Rightarrow> nat \<Rightarrow> js_exn + ledger \<times> reservation \<Rightarrow> byte_failure + byte_state" where
  "updateAt s i r =
     (case r of
        Inl e \<Rightarrow> Inl (Threw e)
      | Inr (l', r') \<Rightarrow> Inr \<lparr>bsLedger = l', bsReservations = (bsReservations s)[i := r']\<rparr>)"

definition runByteOp :: "byte_op \<Rightarrow> byte_state \<Rightarrow> byte_failure + byte_state" where
  "runByteOp op s =
     (case op of
        Reserve n \<Rightarrow>
          (case reserveStoredBytes (bsLedger s) n of
             Inl e \<Rightarrow> Inl (Refused e)
           | Inr (l', r) \<Rightarrow> Inr \<lparr>bsLedger = l', bsReservations = bsReservations s @ [r]\<rparr>)
      | Release i n \<Rightarrow> updateAt s i (releaseReserved (bsLedger s) (bsReservations s ! i) n)
      | Commit i \<Rightarrow> updateAt s i (Inr (bsLedger s, commitReserved (bsReservations s ! i)))
      | Rollback i \<Rightarrow> updateAt s i (rollbackReserved (bsLedger s) (bsReservations s ! i)))"

definition opIndex :: "byte_op \<Rightarrow> nat option" where
  "opIndex op = (case op of Reserve _ \<Rightarrow> None | Release i _ \<Rightarrow> Some i | Commit i \<Rightarrow> Some i | Rollback i \<Rightarrow> Some i)"

inductive byte_reachable :: "ledger \<Rightarrow> byte_state \<Rightarrow> bool" for l0 where
  init: "byte_reachable l0 \<lparr>bsLedger = l0, bsReservations = []\<rparr>"
| step: "byte_reachable l0 s \<Longrightarrow> pred_option (\<lambda>i. i < length (bsReservations s)) (opIndex op)
    \<Longrightarrow> runByteOp op s = Inr s' \<Longrightarrow> byte_reachable l0 s'"

text \<open>Bytes that active reservations may still give back.\<close>

definition outstanding :: "reservation \<Rightarrow> int" where
  "outstanding r = (if rvActive r then jint (rvRemaining r) else 0)"

definition bytesOk :: "ledger \<Rightarrow> byte_state \<Rightarrow> bool" where
  "bytesOk l0 s \<longleftrightarrow>
     ledgerOk (bsLedger s) \<and> limits (bsLedger s) = limits l0
     \<and> (\<forall>r\<in>set (bsReservations s). isCount (rvRemaining r))
     \<and> jint (storedBytes (usage l0)) + sum_list (map outstanding (bsReservations s)) \<le> jint (storedBytes (usage (bsLedger s)))"

lemma outstanding_nonneg: "isCount (rvRemaining r) \<Longrightarrow> 0 \<le> outstanding r"
  by (auto simp: outstanding_def dest: isCount_bounds)

lemma sum_outstanding:
  "i < length rs \<Longrightarrow>
    sum_list (map outstanding (rs[i := r])) = sum_list (map outstanding rs) - outstanding (rs ! i) + outstanding r"
  by (induction rs arbitrary: i) (auto split: nat.splits)

lemma sum_outstanding_nonneg:
  "\<forall>r\<in>set rs. isCount (rvRemaining r) \<Longrightarrow> 0 \<le> sum_list (map outstanding rs)"
  by (rule sum_list_nonneg) (auto intro: outstanding_nonneg)

lemma outstanding_le:
  assumes "i < length rs" and "\<forall>r\<in>set rs. isCount (rvRemaining r)"
  shows "outstanding (rs ! i) \<le> sum_list (map outstanding rs)"
proof -
  let ?r = "commitReserved (rs ! i)"
  have "isCount (rvRemaining ?r)" using assms by (simp add: commitReserved_def)
  then have "\<forall>r\<in>set (rs[i := ?r]). isCount (rvRemaining r)"
    using assms(2) set_update_subset_insert [of rs i ?r] by blast
  from sum_outstanding_nonneg [OF this] show ?thesis
    unfolding sum_outstanding [OF assms(1)] by (simp add: outstanding_def commitReserved_def split: if_splits)
qed

text \<open>A release within the remaining amount succeeds and moves exactly that amount.\<close>

lemma releaseReserved_total:
  assumes ok: "ledgerOk l" and r: "rvActive r" "isCount (rvRemaining r)"
    and n: "isCount n" "jint n \<le> jint (rvRemaining r)" "jint (rvRemaining r) \<le> jint (storedBytes (usage l))"
  shows "\<exists>l' r'. releaseReserved l r n = Inr (l', r') \<and> ledgerOk l' \<and> limits l' = limits l
    \<and> jint (storedBytes (usage l')) = jint (storedBytes (usage l)) - jint n
    \<and> rvActive r' \<and> isCount (rvRemaining r') \<and> jint (rvRemaining r') = jint (rvRemaining r) - jint n"
proof -
  have s: "isCount (storedBytes (usage l))" using ok by (auto simp: ledgerOk_iff usageOk_iff)
  have rem: "isCount (jsub (rvRemaining r) n) \<and> jint (jsub (rvRemaining r) n) = jint (rvRemaining r) - jint n"
    by (rule count_sub_le [OF r(2) n(1,2)])
  have guard: "\<not> jless (rvRemaining r) n" using count_jless [OF r(2) n(1)] n(2) by simp
  show ?thesis
  proof (cases "jless (Num 0) n")
    case True
    have "\<not> jless (storedBytes (usage l)) n" using count_jless [OF s n(1)] n(2,3) by simp
    then obtain l' where l': "releaseBytes l n = Inr l'"
      using n(1) by (auto simp: releaseBytes_def notCount_iff)
    then show ?thesis
      using True r n guard rem releaseBytes_Inr [OF ok l'] releaseBytes_ok [OF ok l']
      by (auto simp: releaseReserved_def notCount_iff)
  next
    case False
    then have "jint n = 0" using count_jless [OF isCount_zero n(1)] isCount_bounds [OF n(1)] by simp
    then show ?thesis using False r n guard rem ok by (auto simp: releaseReserved_def notCount_iff)
  qed
qed

lemma releaseReserved_guard:
  assumes "releaseReserved l r n = Inr (l', r')" and "isCount (rvRemaining r)"
  shows "rvActive r \<and> isCount n \<and> jint n \<le> jint (rvRemaining r)"
proof -
  have "rvActive r" "isCount n" "\<not> jless (rvRemaining r) n"
    using assms(1) by (auto simp: releaseReserved_def notCount_iff split: if_splits)
  then show ?thesis using count_jless [of "rvRemaining r" n] assms(2) by auto
qed

lemma bytesOk_remaining:
  assumes "bytesOk l0 s" "i < length (bsReservations s)" "rvActive (bsReservations s ! i)" "ledgerOk l0"
  shows "isCount (rvRemaining (bsReservations s ! i))"
    "jint (rvRemaining (bsReservations s ! i)) \<le> jint (storedBytes (usage (bsLedger s)))"
proof -
  have c: "\<forall>r\<in>set (bsReservations s). isCount (rvRemaining r)" using assms(1) by (simp add: bytesOk_def)
  then show "isCount (rvRemaining (bsReservations s ! i))" using assms(2) by simp
  have "0 \<le> jint (storedBytes (usage l0))"
    using assms(4) isCount_bounds by (auto simp: ledgerOk_iff usageOk_iff)
  then show "jint (rvRemaining (bsReservations s ! i)) \<le> jint (storedBytes (usage (bsLedger s)))"
    using outstanding_le [OF assms(2) c] assms(1,3) by (simp add: bytesOk_def outstanding_def)
qed

lemma runByteOp_ok:
  assumes l0: "ledgerOk l0" and ok: "bytesOk l0 s" and i: "pred_option (\<lambda>i. i < length (bsReservations s)) (opIndex op)"
    and run: "runByteOp op s = Inr s'"
  shows "bytesOk l0 s'"
proof (cases op)
  case (Reserve n)
  then obtain l' where l': "reserveBytes (bsLedger s) n = Inr l'"
    and s': "s' = \<lparr>bsLedger = l', bsReservations = bsReservations s @ [\<lparr>rvRemaining = n, rvActive = True\<rparr>]\<rparr>"
    using run by (auto simp: runByteOp_def reserveStoredBytes_def split: sum.splits)
  have "ledgerOk (bsLedger s)" using ok by (simp add: bytesOk_def)
  from reserveBytes_Inr [OF this l'] reserveBytes_ok [OF this l'] show ?thesis
    using ok by (auto simp: bytesOk_def s' outstanding_def)
next
  case (Release j n)
  let ?r = "bsReservations s ! j"
  have j: "j < length (bsReservations s)" using i Release by (simp add: opIndex_def)
  obtain l' r' where rel: "releaseReserved (bsLedger s) ?r n = Inr (l', r')"
    and s': "s' = \<lparr>bsLedger = l', bsReservations = (bsReservations s)[j := r']\<rparr>"
    using run Release by (auto simp: runByteOp_def updateAt_def split: sum.splits)
  have c: "isCount (rvRemaining ?r)" using ok j by (simp add: bytesOk_def)
  note g = releaseReserved_guard [OF rel c]
  have "ledgerOk (bsLedger s)" using ok by (simp add: bytesOk_def)
  then have "ledgerOk l' \<and> limits l' = limits (bsLedger s)
      \<and> jint (storedBytes (usage l')) = jint (storedBytes (usage (bsLedger s))) - jint n
      \<and> rvActive r' \<and> isCount (rvRemaining r') \<and> jint (rvRemaining r') = jint (rvRemaining ?r) - jint n"
    using releaseReserved_total [of "bsLedger s" ?r n] rel g c bytesOk_remaining(2) [OF ok j _ l0] by auto
  then show ?thesis
    using ok j g set_update_subset_insert [of "bsReservations s" j r']
    by (auto simp: bytesOk_def s' sum_outstanding outstanding_def)
next
  case (Commit j)
  have j: "j < length (bsReservations s)" using i Commit by (simp add: opIndex_def)
  have s': "s' = \<lparr>bsLedger = bsLedger s, bsReservations = (bsReservations s)[j := commitReserved (bsReservations s ! j)]\<rparr>"
    using run Commit by (simp add: runByteOp_def updateAt_def)
  have "isCount (rvRemaining (bsReservations s ! j))" using ok j by (simp add: bytesOk_def)
  then have "outstanding (commitReserved (bsReservations s ! j)) \<le> outstanding (bsReservations s ! j)"
    "isCount (rvRemaining (commitReserved (bsReservations s ! j)))"
    using isCount_bounds by (auto simp: outstanding_def commitReserved_def)
  then show ?thesis
    using ok j set_update_subset_insert [of "bsReservations s" j "commitReserved (bsReservations s ! j)"]
    by (auto simp: bytesOk_def s' sum_outstanding)
next
  case (Rollback j)
  let ?r = "bsReservations s ! j"
  have j: "j < length (bsReservations s)" using i Rollback by (simp add: opIndex_def)
  show ?thesis
  proof (cases "rvActive ?r")
    case False
    then have "Inr s' = (Inr s :: byte_failure + byte_state)"
      using run Rollback j by (cases s) (simp add: runByteOp_def updateAt_def rollbackReserved_def)
    then show ?thesis using ok by simp
  next
    case True
    have c: "isCount (rvRemaining ?r)" "jint (rvRemaining ?r) \<le> jint (storedBytes (usage (bsLedger s)))"
      using bytesOk_remaining [OF ok j True l0] by auto
    have "ledgerOk (bsLedger s)" using ok by (simp add: bytesOk_def)
    then obtain l' r' where rel: "releaseReserved (bsLedger s) ?r (rvRemaining ?r) = Inr (l', r')"
      and l': "ledgerOk l'" "limits l' = limits (bsLedger s)" "isCount (rvRemaining r')"
        "jint (storedBytes (usage l')) = jint (storedBytes (usage (bsLedger s))) - jint (rvRemaining ?r)"
      using releaseReserved_total [of "bsLedger s" ?r "rvRemaining ?r"] True c by blast
    have "s' = \<lparr>bsLedger = l', bsReservations = (bsReservations s)[j := r'\<lparr>rvActive := False\<rparr>]\<rparr>"
      using run Rollback True rel by (simp add: runByteOp_def updateAt_def rollbackReserved_def)
    then show ?thesis
      using ok j l' True set_update_subset_insert [of "bsReservations s" j "r'\<lparr>rvActive := False\<rparr>"]
      by (auto simp: bytesOk_def sum_outstanding outstanding_def)
  qed
qed

lemma byte_reachable_ok: "byte_reachable l0 s \<Longrightarrow> ledgerOk l0 \<Longrightarrow> bytesOk l0 s"
proof (induction rule: byte_reachable.induct)
  case init
  then show ?case by (simp add: bytesOk_def)
next
  case (step s op s')
  then show ?case using runByteOp_ok by blast
qed

lemma reserveBytes_grant:
  assumes "ledgerOk l" and "isCount b"
    and "jint (storedBytes (usage l)) + jint b \<le> jint (storedByteLimit (limits l))"
  shows "\<exists>l'. reserveBytes l b = Inr l'"
proof -
  have c: "isCount (storedBytes (usage l))" "isCount (storedByteLimit (limits l))"
    using assms(1) by (auto simp: ledgerOk_iff usageOk_iff limitsOk_def)
  show ?thesis
    using assms c count_jless_sub [OF c(2,1) assms(2)] by (auto simp: reserveBytes_def notCount_iff)
qed

section \<open>Properties\<close>



end
