(* ===== verification/Profile.thy ===== *)
theory Profile
  imports Budget
begin

text \<open>
  The execution profile (\<open>src/src/runtime/profile.ts\<close>): the validation of the host's numeric options and the
  budget limits resolved from them at run start.  A validation routine that returns nothing or throws is a
  \<open>js_exn + unit\<close>.
\<close>

section \<open>Profiles\<close>

record profile =
  pName :: jstr
  pMaxDepth :: jsnum
  pMaxFrames :: jsnum
  pMaxLogicalCalls :: jsnum
  pMaxAttempts :: jsnum
  pMaxControllerTurns :: jsnum
  pMaxConcurrency :: jsnum
  pTokenLimit :: "jsnum option"
  pStoredByteLimit :: jsnum
  pWallMs :: jsnum
  pCellWallMs :: jsnum
  pMemoryBytes :: jsnum
  pPreviewHeadBytes :: jsnum
  pPreviewTailBytes :: jsnum
  pContextMaxReadBytes :: jsnum
  pContextMaxLines :: jsnum
  pContextMaxLineBytes :: jsnum
  pContextMaxMatches :: jsnum
  pContextMaxChunks :: jsnum
  pContextMaxPatternBytes :: jsnum
  pExtractorEvidenceMaxBytes :: jsnum
  pExtractorValueMaxBytes :: jsnum
  pExtractorValuesMaxBytes :: jsnum
  pExtractorHandleHeadBytes :: jsnum
  pExtractorHandleTailBytes :: jsnum
  pTrajectoryHeadEntries :: jsnum
  pTrajectoryTailEntries :: jsnum
  pTrajectoryCodeHeadBytes :: jsnum
  pTrajectoryCodeTailBytes :: jsnum
  pTrajectoryReasoningMaxBytes :: jsnum
  pModelSmall :: jstr
  pModelMedium :: jstr
  pModelLarge :: jstr

definition DEFAULT_PROFILE :: profile where
  "DEFAULT_PROFILE =
     \<lparr>pName = js ''default'', pMaxDepth = Num 3, pMaxFrames = Num 32, pMaxLogicalCalls = Num 200,
      pMaxAttempts = Num 400, pMaxControllerTurns = Num 40, pMaxConcurrency = Num 4, pTokenLimit = None,
      pStoredByteLimit = Num (64 * 1024 * 1024), pWallMs = Num (10 * 60 * 1000), pCellWallMs = Num (30 * 1000),
      pMemoryBytes = Num (128 * 1024 * 1024), pPreviewHeadBytes = Num 1024, pPreviewTailBytes = Num 512,
      pContextMaxReadBytes = Num (1024 * 1024), pContextMaxLines = Num 10000,
      pContextMaxLineBytes = Num (64 * 1024), pContextMaxMatches = Num 1000, pContextMaxChunks = Num 256,
      pContextMaxPatternBytes = Num (4 * 1024), pExtractorEvidenceMaxBytes = Num (128 * 1024),
      pExtractorValueMaxBytes = Num (16 * 1024), pExtractorValuesMaxBytes = Num (64 * 1024),
      pExtractorHandleHeadBytes = Num (8 * 1024), pExtractorHandleTailBytes = Num (4 * 1024),
      pTrajectoryHeadEntries = Num 2, pTrajectoryTailEntries = Num 6, pTrajectoryCodeHeadBytes = Num 1200,
      pTrajectoryCodeTailBytes = Num 400, pTrajectoryReasoningMaxBytes = Num 800,
      pModelSmall = js ''small'', pModelMedium = js ''medium'', pModelLarge = js ''large''\<rparr>"

record context_store_limits =
  csMaxReadBytes :: jsnum
  csMaxLines :: jsnum
  csMaxLineBytes :: jsnum
  csMaxMatches :: jsnum
  csMaxChunks :: jsnum
  csMaxPatternBytes :: jsnum

definition contextStoreLimits :: "profile \<Rightarrow> context_store_limits" where
  "contextStoreLimits p =
     \<lparr>csMaxReadBytes = pContextMaxReadBytes p, csMaxLines = pContextMaxLines p,
      csMaxLineBytes = pContextMaxLineBytes p, csMaxMatches = pContextMaxMatches p,
      csMaxChunks = pContextMaxChunks p, csMaxPatternBytes = pContextMaxPatternBytes p\<rparr>"

section \<open>Validation\<close>

definition safeIntegerCheck :: "jstr \<Rightarrow> jsnum \<Rightarrow> bool \<Rightarrow> js_exn + unit" where
  "safeIntegerCheck name v allowZero =
     (if \<not> isSafeInteger v \<or> jless v (if allowZero then Num 0 else Num 1)
      then Inl (ThrowTypeError (name @ js '' must be a '' @ js (if allowZero then ''nonnegative'' else ''positive'')
                  @ js '' safe integer''))
      else Inr ())"

text \<open>A sequence of checks stops at the first one that throws.\<close>

fun checkAll :: "(js_exn + unit) list \<Rightarrow> js_exn + unit" where
  "checkAll [] = Inr ()"
| "checkAll (c # cs) = resBind c (\<lambda>_. checkAll cs)"

definition positiveFields :: "profile \<Rightarrow> (jstr \<times> jsnum) list" where
  "positiveFields p =
     [(js ''wallMs'', pWallMs p), (js ''cellWallMs'', pCellWallMs p), (js ''memoryBytes'', pMemoryBytes p),
      (js ''previewHeadBytes'', pPreviewHeadBytes p), (js ''previewTailBytes'', pPreviewTailBytes p),
      (js ''contextMaxReadBytes'', pContextMaxReadBytes p), (js ''contextMaxLines'', pContextMaxLines p),
      (js ''contextMaxLineBytes'', pContextMaxLineBytes p), (js ''contextMaxMatches'', pContextMaxMatches p),
      (js ''contextMaxChunks'', pContextMaxChunks p), (js ''contextMaxPatternBytes'', pContextMaxPatternBytes p),
      (js ''extractorEvidenceMaxBytes'', pExtractorEvidenceMaxBytes p),
      (js ''extractorValueMaxBytes'', pExtractorValueMaxBytes p),
      (js ''extractorValuesMaxBytes'', pExtractorValuesMaxBytes p),
      (js ''extractorHandleHeadBytes'', pExtractorHandleHeadBytes p),
      (js ''extractorHandleTailBytes'', pExtractorHandleTailBytes p)]"

definition trajectoryFields :: "profile \<Rightarrow> (jstr \<times> jsnum) list" where
  "trajectoryFields p =
     [(js ''trajectory.headEntries'', pTrajectoryHeadEntries p), (js ''trajectory.tailEntries'', pTrajectoryTailEntries p),
      (js ''trajectory.codeHeadBytes'', pTrajectoryCodeHeadBytes p), (js ''trajectory.codeTailBytes'', pTrajectoryCodeTailBytes p),
      (js ''trajectory.reasoningMaxBytes'', pTrajectoryReasoningMaxBytes p)]"

definition notAbove :: "jsnum \<Rightarrow> jsnum \<Rightarrow> string \<Rightarrow> js_exn + unit" where
  "notAbove a b message = (if jless b a then Inl (ThrowTypeError (js message)) else Inr ())"

definition validateProfile :: "profile \<Rightarrow> js_exn + unit" where
  "validateProfile p =
     checkAll
       ([safeIntegerCheck (js ''maxDepth'') (pMaxDepth p) True,
         safeIntegerCheck (js ''maxFrames'') (pMaxFrames p) True,
         safeIntegerCheck (js ''maxLogicalCalls'') (pMaxLogicalCalls p) True,
         safeIntegerCheck (js ''maxAttempts'') (pMaxAttempts p) True,
         safeIntegerCheck (js ''maxControllerTurns'') (pMaxControllerTurns p) True,
         safeIntegerCheck (js ''maxConcurrency'') (pMaxConcurrency p) False,
         (case pTokenLimit p of None \<Rightarrow> Inr () | Some t \<Rightarrow> safeIntegerCheck (js ''tokenLimit'') t False),
         safeIntegerCheck (js ''storedByteLimit'') (pStoredByteLimit p) True]
        @ map (\<lambda>(name, v). safeIntegerCheck name v False) (positiveFields p)
        @ [notAbove (pExtractorValueMaxBytes p) (pExtractorValuesMaxBytes p)
             ''extractorValueMaxBytes must not exceed extractorValuesMaxBytes'',
           notAbove (pExtractorValuesMaxBytes p) (pExtractorEvidenceMaxBytes p)
             ''extractorValuesMaxBytes must not exceed extractorEvidenceMaxBytes'',
           safeIntegerCheck (js ''extractor handle preview capacity'')
             (jadd (pExtractorHandleHeadBytes p) (pExtractorHandleTailBytes p)) False]
        @ map (\<lambda>(name, v). safeIntegerCheck name v True) (trajectoryFields p)
        @ [safeIntegerCheck (js ''trajectory head/tail entry capacity'')
             (jadd (pTrajectoryHeadEntries p) (pTrajectoryTailEntries p)) True,
           safeIntegerCheck (js ''trajectory code preview capacity'')
             (jadd (pTrajectoryCodeHeadBytes p) (pTrajectoryCodeTailBytes p)) True])"

definition limitsOf :: "profile \<Rightarrow> jsnum \<Rightarrow> budget_limits" where
  "limitsOf p deadline =
     \<lparr>maxDepth = pMaxDepth p, maxFrames = pMaxFrames p, maxLogicalCalls = pMaxLogicalCalls p,
      maxAttempts = pMaxAttempts p, maxControllerTurns = pMaxControllerTurns p,
      maxConcurrency = pMaxConcurrency p, tokenLimit = pTokenLimit p,
      storedByteLimit = pStoredByteLimit p, deadlineMs = deadline\<rparr>"

definition resolveLimits :: "profile \<Rightarrow> jsnum \<Rightarrow> js_exn + budget_limits" where
  "resolveLimits p startMs =
     (case validateProfile p of
        Inl e \<Rightarrow> Inl e
      | Inr _ \<Rightarrow>
          if \<not> isSafeInteger startMs then Inl (ThrowTypeError (js ''run start time must be a safe integer''))
          else let deadline = jadd startMs (pWallMs p)
               in if \<not> isSafeInteger deadline then Inl (ThrowTypeError (js ''run deadline must be a safe integer''))
                  else Inr (limitsOf p deadline))"

section \<open>What validation accepts\<close>

lemma checkAll_Inr: "checkAll cs = Inr () \<longleftrightarrow> list_all (\<lambda>c. c = Inr ()) cs"
  by (induction cs) (auto simp: resBind_def split: sum.splits)

lemma checkAll_append_Inl:
  "checkAll (cs @ ds) = (case checkAll cs of Inl e \<Rightarrow> Inl e | Inr _ \<Rightarrow> checkAll ds)"
  by (induction cs) (auto simp: resBind_def split: sum.splits)

definition isPositive :: "jsnum \<Rightarrow> bool" where
  "isPositive n \<longleftrightarrow> isCount n \<and> 0 < jint n"

lemma safeIntegerCheck_zero [simp]: "safeIntegerCheck name v True = Inr () \<longleftrightarrow> isCount v"
  by (cases v) (auto simp: safeIntegerCheck_def isCount_def isSafeInteger_def)

lemma safeIntegerCheck_positive [simp]: "safeIntegerCheck name v False = Inr () \<longleftrightarrow> isPositive v"
proof (cases v)
  case (Num r)
  have "\<not> r < 1 \<longleftrightarrow> 0 \<le> r \<and> 0 < \<lfloor>r\<rfloor>" if "r = of_int \<lfloor>r\<rfloor>"
    by (subst that, subst that) (auto simp: not_less)
  then show ?thesis
    using Num by (auto simp: safeIntegerCheck_def isPositive_def isCount_def isSafeInteger_def jint_def)
qed (auto simp: safeIntegerCheck_def isPositive_def isCount_def isSafeInteger_def)

lemma notAbove_Inr: "isCount a \<Longrightarrow> isCount b \<Longrightarrow> notAbove a b m = Inr () \<longleftrightarrow> jint a \<le> jint b"
  by (auto simp: notAbove_def count_jless)

text \<open>A sum past the safe range is rounded to a double that is not a safe integer either.\<close>

lemma round64_unsafe:
  assumes "MAX_SAFE_INTEGER < s"
  shows "\<not> isSafeInteger (round64 (of_int s))"
proof -
  have s: "2 ^ 53 \<le> s" using assms by (simp add: MAX_SAFE_INTEGER_def)
  define L where "L = bitlen s - 1"
  have b: "2 ^ nat L \<le> s" "s < 2 ^ nat (bitlen s)"
    using bitlen_bounds [of s] s by (auto simp: L_def)
  have "(2::int) ^ 53 < 2 ^ nat (bitlen s)" using s b(2) by linarith
  then have "53 < nat (bitlen s)" by (rule power_less_imp_less_exp [rotated]) simp
  then have L: "53 \<le> L" by (simp add: L_def)
  have e: "max (- 1074) (ilog2 \<bar>of_int s :: rat\<bar> - 52) = L - 52"
    using s L by (simp add: ilog2_def L_def)
  have p: "pow2 (L - 52) = 2 ^ nat (L - 52)" using L by (simp add: pow2_def)
  have split: "nat L = 52 + nat (L - 52)" using L by linarith
  have "(2::int) ^ 52 * 2 ^ nat (L - 52) \<le> s"
    using b(1) unfolding split by (simp only: power_add)
  then have "(of_int ((2::int) ^ 52 * 2 ^ nat (L - 52)) :: rat) \<le> of_int s" by (simp only: of_int_le_iff)
  then have q: "(of_int (2 ^ 52) :: rat) \<le> of_int s / pow2 (L - 52)"
    by (simp add: p field_simps)
  then have "2 ^ 52 \<le> \<lfloor>(of_int s :: rat) / pow2 (L - 52)\<rfloor>" by (simp only: le_floor_iff)
  then have r: "2 ^ 52 \<le> roundHalfEven (of_int s / pow2 (L - 52))"
    by (auto simp: roundHalfEven_def Let_def)
  define y :: rat where "y = of_int (roundHalfEven (of_int s / pow2 (L - 52))) * pow2 (L - 52)"
  have "(2::int) \<le> 2 ^ nat (L - 52)" using L by (intro self_le_power) auto
  then have "(2::rat) \<le> pow2 (L - 52)" unfolding p by (metis of_int_le_iff of_int_numeral of_int_power)
  moreover have "(2 ^ 52 :: rat) \<le> of_int (roundHalfEven (of_int s / pow2 (L - 52)))"
    using r by (metis of_int_le_iff of_int_numeral of_int_power)
  ultimately have y: "(2 ^ 53 :: rat) \<le> y"
    unfolding y_def using mult_mono [of "2 ^ 52" _ 2 "pow2 (L - 52)"] by fastforce
  then have "2 ^ 53 \<le> \<lfloor>y\<rfloor>" by (simp add: le_floor_iff)
  moreover have "round64 (of_int s) = (if 2 ^ 1024 \<le> y then PosInf else if y \<le> - (2 ^ 1024) then NegInf else Num y)"
    using s unfolding round64_def Let_def e y_def by auto
  ultimately show ?thesis by (auto simp: isSafeInteger_def MAX_SAFE_INTEGER_def)
qed

lemma jadd_safe_iff:
  assumes "isSafeInteger a" and "isCount b"
  shows "isSafeInteger (jadd a b) \<longleftrightarrow> jint a + jint b \<le> MAX_SAFE_INTEGER"
    and "jint a + jint b \<le> MAX_SAFE_INTEGER \<Longrightarrow> jadd a b = JI (jint a + jint b)"
proof -
  obtain k l where kl: "a = JI k" "b = JI l" "\<bar>k\<bar> \<le> MAX_SAFE_INTEGER" "0 \<le> l" "l \<le> MAX_SAFE_INTEGER"
    using assms by (auto simp: isCount_iff elim!: isSafeIntegerE)
  have sum: "jadd a b = round64 (of_int (k + l))" by (simp add: kl)
  have exact: "jadd a b = JI (k + l)" if "k + l \<le> MAX_SAFE_INTEGER"
    unfolding sum by (rule round64_of_int) (use that kl in \<open>auto simp: MAX_SAFE_INTEGER_def\<close>)
  then show "jint a + jint b \<le> MAX_SAFE_INTEGER \<Longrightarrow> jadd a b = JI (jint a + jint b)" by (simp add: kl)
  show "isSafeInteger (jadd a b) \<longleftrightarrow> jint a + jint b \<le> MAX_SAFE_INTEGER"
  proof (cases "k + l \<le> MAX_SAFE_INTEGER")
    case True
    have "isSafeInteger (jadd a b) \<longleftrightarrow> \<bar>k + l\<bar> \<le> MAX_SAFE_INTEGER"
      unfolding exact [OF True] by (rule isSafeInteger_JI)
    then show ?thesis using True kl by (auto simp: abs_le_iff)
  next
    case False
    then have "\<not> isSafeInteger (jadd a b)" unfolding sum by (intro round64_unsafe) simp
    then show ?thesis using False by (simp add: kl)
  qed
qed

lemma isCount_jadd:
  assumes "isCount a" and "isCount b"
  shows "isCount (jadd a b) \<longleftrightarrow> jint a + jint b \<le> MAX_SAFE_INTEGER"
  using assms jadd_safe_iff(1) [of a b] count_add [of a b] by (auto simp: isCount_def)

lemma isPositive_jadd:
  assumes "isPositive a" and "isPositive b"
  shows "isPositive (jadd a b) \<longleftrightarrow> jint a + jint b \<le> MAX_SAFE_INTEGER"
  using assms isCount_jadd [of a b] count_add [of a b] by (auto simp: isPositive_def)

text \<open>The reference reading of the validation.\<close>

definition profileOk :: "profile \<Rightarrow> bool" where
  "profileOk p \<longleftrightarrow>
     list_all isCount
       [pMaxDepth p, pMaxFrames p, pMaxLogicalCalls p, pMaxAttempts p, pMaxControllerTurns p, pStoredByteLimit p]
     \<and> isPositive (pMaxConcurrency p) \<and> pred_option isPositive (pTokenLimit p)
     \<and> list_all isPositive (map snd (positiveFields p)) \<and> list_all isCount (map snd (trajectoryFields p))
     \<and> jint (pExtractorValueMaxBytes p) \<le> jint (pExtractorValuesMaxBytes p)
     \<and> jint (pExtractorValuesMaxBytes p) \<le> jint (pExtractorEvidenceMaxBytes p)
     \<and> jint (pExtractorHandleHeadBytes p) + jint (pExtractorHandleTailBytes p) \<le> MAX_SAFE_INTEGER
     \<and> jint (pTrajectoryHeadEntries p) + jint (pTrajectoryTailEntries p) \<le> MAX_SAFE_INTEGER
     \<and> jint (pTrajectoryCodeHeadBytes p) + jint (pTrajectoryCodeTailBytes p) \<le> MAX_SAFE_INTEGER"

lemma isPositive_isCount: "isPositive n \<Longrightarrow> isCount n"
  by (simp add: isPositive_def)

lemma validateProfile_iff: "validateProfile p = Inr () \<longleftrightarrow> profileOk p"
proof -
  have extr: "notAbove (pExtractorValueMaxBytes p) (pExtractorValuesMaxBytes p) m = Inr ()
        \<longleftrightarrow> jint (pExtractorValueMaxBytes p) \<le> jint (pExtractorValuesMaxBytes p)"
      "notAbove (pExtractorValuesMaxBytes p) (pExtractorEvidenceMaxBytes p) m = Inr ()
        \<longleftrightarrow> jint (pExtractorValuesMaxBytes p) \<le> jint (pExtractorEvidenceMaxBytes p)"
      "isPositive (jadd (pExtractorHandleHeadBytes p) (pExtractorHandleTailBytes p))
        \<longleftrightarrow> jint (pExtractorHandleHeadBytes p) + jint (pExtractorHandleTailBytes p) \<le> MAX_SAFE_INTEGER"
    if "list_all isPositive (map snd (positiveFields p))" for m
    using that isPositive_isCount by (auto simp: positiveFields_def notAbove_Inr isPositive_jadd)
  have traj: "isCount (jadd (pTrajectoryHeadEntries p) (pTrajectoryTailEntries p))
        \<longleftrightarrow> jint (pTrajectoryHeadEntries p) + jint (pTrajectoryTailEntries p) \<le> MAX_SAFE_INTEGER"
      "isCount (jadd (pTrajectoryCodeHeadBytes p) (pTrajectoryCodeTailBytes p))
        \<longleftrightarrow> jint (pTrajectoryCodeHeadBytes p) + jint (pTrajectoryCodeTailBytes p) \<le> MAX_SAFE_INTEGER"
    if "list_all isCount (map snd (trajectoryFields p))"
    using that by (auto simp: trajectoryFields_def isCount_jadd)
  have maps: "list_all (\<lambda>c. c = Inr ()) (map (\<lambda>(name, v). safeIntegerCheck name v b) fs)
      \<longleftrightarrow> list_all (if b then isCount else isPositive) (map snd fs)" for b fs
    by (induction fs) (auto split: if_splits)
  show ?thesis
    using extr traj
    unfolding validateProfile_def checkAll_Inr profileOk_def list_all_append maps
    by (cases "pTokenLimit p") auto
qed

lemma positive_wall: "profileOk p \<Longrightarrow> isPositive (pWallMs p)"
  by (simp add: profileOk_def positiveFields_def)

section \<open>Properties\<close>

text \<open>
  limits are resolved exactly from a profile whose numbers are safe integers of the required sign with
  ordered extractor bounds and sums that stay safe, at a safe start time whose deadline is still safe; the
  deadline is the exact sum, and the limits are those every ledger of the run is created from.
\<close>

theorem resolveLimits_exact:
  "(case resolveLimits p startMs of
      Inr ls \<Rightarrow> (profileOk p \<and> isSafeInteger startMs \<and> jint startMs + jint (pWallMs p) \<le> MAX_SAFE_INTEGER)
        \<and> limitsOk ls \<and> ledgerOk (createLedger ls)
        \<and> deadlineMs ls = JI (jint startMs + jint (pWallMs p)) \<and> jint startMs < jint (deadlineMs ls)
        \<and> (deadlinePassed (createLedger ls) startMs = False)
    | Inl e \<Rightarrow> \<not> (profileOk p \<and> isSafeInteger startMs \<and> jint startMs + jint (pWallMs p) \<le> MAX_SAFE_INTEGER))"
proof (cases "profileOk p \<and> isSafeInteger startMs \<and> jint startMs + jint (pWallMs p) \<le> MAX_SAFE_INTEGER")
  case True
  then have w: "isCount (pWallMs p)" "0 < jint (pWallMs p)"
    using positive_wall by (auto simp: isPositive_def)
  note d = jadd_safe_iff [OF _ w(1), of startMs]
  define ls where "ls = limitsOf p (JI (jint startMs + jint (pWallMs p)))"
  have
    f: "maxDepth ls = pMaxDepth p" "maxFrames ls = pMaxFrames p" "maxLogicalCalls ls = pMaxLogicalCalls p"
      "maxAttempts ls = pMaxAttempts p" "maxControllerTurns ls = pMaxControllerTurns p"
      "maxConcurrency ls = pMaxConcurrency p" "tokenLimit ls = pTokenLimit p" "storedByteLimit ls = pStoredByteLimit p"
      "deadlineMs ls = JI (jint startMs + jint (pWallMs p))"
    by (simp_all add: ls_def limitsOf_def)
  have ls: "resolveLimits p startMs = Inr ls"
    using True d validateProfile_iff [of p] by (simp add: resolveLimits_def ls_def del: of_int_add)
  have "limitsOk ls"
    using True by (cases "pTokenLimit p") (auto simp: limitsOk_def f profileOk_def isPositive_def)
  moreover have "deadlinePassed (createLedger ls) startMs = False"
    using True w(2) by (auto simp: deadlinePassed_def createLedger_def f(9) elim!: isSafeIntegerE simp del: of_int_add)
  moreover have "jint (deadlineMs ls) = jint startMs + jint (pWallMs p)"
    unfolding f(9) by (rule jint_JI)
  ultimately show ?thesis
    using True w(2) createLedger_ok [of ls] unfolding ls sum.case by (simp add: f(9))
next
  case False
  have "resolveLimits p startMs \<noteq> Inr ls" for ls
  proof
    assume r: "resolveLimits p startMs = Inr ls"
    then have v: "profileOk p" and s: "isSafeInteger startMs" "isSafeInteger (jadd startMs (pWallMs p))"
      using validateProfile_iff [of p]
      by (auto simp: resolveLimits_def Let_def split: sum.splits if_splits)
    then show False
      using False jadd_safe_iff(1) [OF s(1) isPositive_isCount [OF positive_wall [OF v]]] by auto
  qed
  then show ?thesis using False by (auto split: sum.splits)
qed

text \<open>
  The shipped profile is valid, and a run under it starts with the documented limits at any start time
  that leaves room for the ten-minute deadline.
\<close>

theorem default_profile_valid:
  "validateProfile DEFAULT_PROFILE = Inr ()
   \<and> map_sum id deadlineMs (resolveLimits DEFAULT_PROFILE (Num 1700000000000)) = Inr (Num 1700000600000)"
proof -
  have ok: "profileOk DEFAULT_PROFILE"
    by (simp add: profileOk_def positiveFields_def trajectoryFields_def DEFAULT_PROFILE_def isPositive_def
        MAX_SAFE_INTEGER_def jint_def)
  then have "validateProfile DEFAULT_PROFILE = Inr ()" by (simp add: validateProfile_iff)
  moreover have "jadd (Num 1700000000000) (pWallMs DEFAULT_PROFILE) = Num 1700000600000"
    by (simp add: DEFAULT_PROFILE_def js_simps del: jadd.simps)
  ultimately show ?thesis by (simp add: resolveLimits_def MAX_SAFE_INTEGER_def Let_def limitsOf_def)
qed

end
