(* ===== verification/RunProgress.thy ===== *)
theory RunProgress
  imports Budget
begin

text \<open>
  Live run progress (\<open>src/src/runtime/run-progress.ts\<close>): a tracker with private accounting whose reads project
  scalar snapshots.  The callbacks the tracker is given (the ledger, the clock, the runtime counters) are
  inputs of each operation, and each may throw.  An operation returns the new tracker and the exception it
  throws, if any; snapshots handed to the observer are collected in \<open>tkPublished\<close>.  An observer that calls
  back into the tracker is not modelled.
\<close>

section \<open>Snapshots\<close>

definition RUN_PROGRESS_PHASES :: "jstr list" where
  "RUN_PROGRESS_PHASES =
     map js [''initializing'', ''source_capture'', ''allocating'', ''manifest'', ''source'', ''journal'',
             ''controller'', ''extractor'', ''context'', ''finalizing'']"

datatype run_progress_status = PgRunning | PgCompleted | PgFailed | PgCancelled

record progress_calls =
  pcTotal :: jsnum
  pcActive :: jsnum
  pcFailed :: jsnum
  pcLimit :: jsnum

record progress_frames =
  pfTotal :: jsnum
  pfActive :: jsnum
  pfLimit :: jsnum

record progress_budgets =
  pbTokensUsed :: jsnum
  pbInputTokensUsed :: jsnum
  pbOutputTokensUsed :: jsnum
  pbTokensReserved :: jsnum
  pbTokenLimit :: "jsnum option"
  pbCostUsd :: jsnum
  pbProviderDurationMs :: jsnum
  pbStoredBytes :: jsnum
  pbStoredByteLimit :: jsnum
  pbDeadlineMs :: jsnum

text \<open>A snapshot is a sequence number with the projection it was taken from.\<close>

record progress_body =
  pgRunId :: "jstr option"
  pgPhase :: jstr
  pgStatus :: run_progress_status
  pgElapsedMs :: jsnum
  pgCalls :: progress_calls
  pgFrames :: progress_frames
  pgBudgets :: progress_budgets

record progress_snapshot =
  pgSequence :: nat
  pgBody :: progress_body

definition isRunId :: "jstr \<Rightarrow> bool" where
  "isRunId s \<longleftrightarrow> isPrefix (js ''run_'') s \<and> isSha256 (drop 4 s)"

definition pgInteger :: "jsnum \<Rightarrow> jsnum" where
  "pgInteger v = (if isSafeInteger v \<and> jleq (Num 0) v then v else Num 0)"

definition pgFinite :: "jsnum \<Rightarrow> jsnum" where
  "pgFinite v = (if isFinite v \<and> jleq (Num 0) v then v else Num 0)"

fun jfloor :: "jsnum \<Rightarrow> jsnum" where
  "jfloor (Num r) = JI \<lfloor>r\<rfloor>"
| "jfloor x = x"

definition sameCalls :: "progress_calls \<Rightarrow> progress_calls \<Rightarrow> bool" where
  "sameCalls l r \<longleftrightarrow> jeq (pcTotal l) (pcTotal r) \<and> jeq (pcActive l) (pcActive r) \<and> jeq (pcFailed l) (pcFailed r)
     \<and> jeq (pcLimit l) (pcLimit r)"

definition sameFrames :: "progress_frames \<Rightarrow> progress_frames \<Rightarrow> bool" where
  "sameFrames l r \<longleftrightarrow> jeq (pfTotal l) (pfTotal r) \<and> jeq (pfActive l) (pfActive r) \<and> jeq (pfLimit l) (pfLimit r)"

definition sameBudgets :: "progress_budgets \<Rightarrow> progress_budgets \<Rightarrow> bool" where
  "sameBudgets l r \<longleftrightarrow>
     jeq (pbTokensUsed l) (pbTokensUsed r) \<and> jeq (pbInputTokensUsed l) (pbInputTokensUsed r)
     \<and> jeq (pbOutputTokensUsed l) (pbOutputTokensUsed r) \<and> jeq (pbTokensReserved l) (pbTokensReserved r)
     \<and> rel_option jeq (pbTokenLimit l) (pbTokenLimit r) \<and> jeq (pbCostUsd l) (pbCostUsd r)
     \<and> jeq (pbProviderDurationMs l) (pbProviderDurationMs r) \<and> jeq (pbStoredBytes l) (pbStoredBytes r)
     \<and> jeq (pbStoredByteLimit l) (pbStoredByteLimit r) \<and> jeq (pbDeadlineMs l) (pbDeadlineMs r)"

definition sameSnapshot :: "progress_body \<Rightarrow> progress_body \<Rightarrow> bool" where
  "sameSnapshot l r \<longleftrightarrow>
     pgRunId l = pgRunId r \<and> pgPhase l = pgPhase r \<and> pgStatus l = pgStatus r \<and> jeq (pgElapsedMs l) (pgElapsedMs r)
     \<and> sameCalls (pgCalls l) (pgCalls r) \<and> sameFrames (pgFrames l) (pgFrames r) \<and> sameBudgets (pgBudgets l) (pgBudgets r)"

section \<open>The tracker\<close>

record progress_tracker =
  tkStartMs :: jsnum
  tkLimits :: budget_limits
  tkObserver :: bool
  tkPhase :: jstr
  tkStatus :: run_progress_status
  tkRunId :: "jstr option"
  tkFramesTotal :: jsnum
  tkFramesActive :: nat
  tkFailedCallIds :: "jstr list"
  tkRuntimeGetter :: bool
  tkTerminalNow :: "jsnum option"
  tkElapsedHighWaterMs :: jsnum
  tkSequence :: nat
  tkLast :: progress_snapshot
  tkPublished :: "progress_snapshot list"

text \<open>What the callbacks return while one operation runs.\<close>

record progress_env =
  evLedger :: "js_exn + ledger"
  evNow :: "js_exn + jsnum"
  evActiveCalls :: "js_exn + jsnum"

definition activeCalls :: "progress_tracker \<Rightarrow> budget_usage \<Rightarrow> jsnum option \<Rightarrow> jsnum" where
  "activeCalls t u runtime =
     (if tkStatus t = PgRunning
      then jmax (pgInteger (case runtime of None \<Rightarrow> Num 0 | Some n \<Rightarrow> n)) (pgInteger (activeLeafCalls u))
      else Num 0)"

definition bodyOf :: "progress_tracker \<Rightarrow> budget_usage \<Rightarrow> jsnum option \<Rightarrow> jsnum \<Rightarrow> progress_body" where
  "bodyOf t u runtime elapsed =
     (let ls = tkLimits t
      in \<lparr>pgRunId = tkRunId t, pgPhase = tkPhase t, pgStatus = tkStatus t, pgElapsedMs = elapsed,
          pgCalls =
            \<lparr>pcTotal = pgInteger (logicalCalls u), pcActive = activeCalls t u runtime,
             pcFailed = pgInteger (JI (int (length (tkFailedCallIds t)))), pcLimit = pgInteger (maxLogicalCalls ls)\<rparr>,
          pgFrames =
            \<lparr>pfTotal = pgInteger (tkFramesTotal t),
             pfActive = (if tkStatus t = PgRunning then pgInteger (JI (int (tkFramesActive t))) else Num 0),
             pfLimit = pgInteger (jmin (JI MAX_SAFE_INTEGER) (jadd (maxFrames ls) (Num 1)))\<rparr>,
          pgBudgets =
            \<lparr>pbTokensUsed = pgInteger (tokensUsed u), pbInputTokensUsed = pgInteger (inputTokensUsed u),
             pbOutputTokensUsed = pgInteger (outputTokensUsed u), pbTokensReserved = pgInteger (tokensReserved u),
             pbTokenLimit = map_option pgInteger (tokenLimit ls), pbCostUsd = pgFinite (costUsd u),
             pbProviderDurationMs = pgInteger (providerDurationMs u), pbStoredBytes = pgInteger (storedBytes u),
             pbStoredByteLimit = pgInteger (storedByteLimit ls), pbDeadlineMs = pgInteger (deadlineMs ls)\<rparr>\<rparr>)"

definition elapsedHighWater :: "progress_tracker \<Rightarrow> jsnum \<Rightarrow> jsnum" where
  "elapsedHighWater t end =
     jmax (tkElapsedHighWaterMs t) (pgInteger (jmax (Num 0) (jfloor (jsub end (tkStartMs t)))))"

text \<open>\<open>project\<close> raises the elapsed high-water mark once no callback can throw any more.\<close>

definition project :: "progress_env \<Rightarrow> progress_tracker \<Rightarrow> js_exn + progress_tracker \<times> progress_body" where
  "project env t =
     resBind (evLedger env) (\<lambda>l.
     resBind (if tkRuntimeGetter t then map_sum id Some (evActiveCalls env) else Inr None) (\<lambda>runtime.
     resBind (case tkTerminalNow t of Some n \<Rightarrow> Inr n | None \<Rightarrow> evNow env) (\<lambda>elapsedEnd.
       let elapsed = elapsedHighWater t elapsedEnd
       in Inr (t\<lparr>tkElapsedHighWaterMs := elapsed\<rparr>, bodyOf t (usage l) runtime elapsed))))"

definition getSnapshot :: "progress_env \<Rightarrow> progress_tracker \<Rightarrow> progress_tracker" where
  "getSnapshot env t =
     (case project env t of
        Inl _ \<Rightarrow> t
      | Inr (t', next) \<Rightarrow>
          if sameSnapshot (pgBody (tkLast t')) next then t'
          else t'\<lparr>tkSequence := tkSequence t' + 1, tkLast := \<lparr>pgSequence = tkSequence t' + 1, pgBody = next\<rparr>\<rparr>)"

definition publish :: "progress_env \<Rightarrow> progress_tracker \<Rightarrow> progress_tracker" where
  "publish env t =
     (let t' = getSnapshot env t
      in if tkObserver t' then t'\<lparr>tkPublished := tkPublished t' @ [tkLast t']\<rparr> else t')"

definition createRunProgressTracker ::
    "progress_env \<Rightarrow> jsnum \<Rightarrow> budget_limits \<Rightarrow> bool \<Rightarrow> jsnum option \<Rightarrow> js_exn + progress_tracker" where
  "createRunProgressTracker env startMs ls observer initialFramesTotal =
     (let t = \<lparr>tkStartMs = startMs, tkLimits = ls, tkObserver = observer, tkPhase = js ''initializing'',
               tkStatus = PgRunning, tkRunId = None,
               tkFramesTotal = pgInteger (case initialFramesTotal of None \<Rightarrow> Num 1 | Some n \<Rightarrow> n),
               tkFramesActive = 1, tkFailedCallIds = [], tkRuntimeGetter = False, tkTerminalNow = None,
               tkElapsedHighWaterMs = Num 0, tkSequence = 0, tkLast = undefined, tkPublished = []\<rparr>
      in map_sum id (\<lambda>(t', body). t'\<lparr>tkLast := \<lparr>pgSequence = 0, pgBody = body\<rparr>\<rparr>) (project env t))"

section \<open>Operations\<close>

definition bindRunId :: "progress_env \<Rightarrow> jstr \<Rightarrow> progress_tracker \<Rightarrow> progress_tracker \<times> js_exn option" where
  "bindRunId env v t =
     (if \<not> isRunId v then (t, Some (ThrowTypeError (js ''invalid run progress identity'')))
      else case tkRunId t of
             Some i \<Rightarrow>
               if i \<noteq> v then (t, Some (ThrowError (js ''run progress identity is already bound''))) else (t, None)
           | None \<Rightarrow> (publish env (t\<lparr>tkRunId := Some v\<rparr>), None))"

definition setPhase :: "progress_env \<Rightarrow> jstr \<Rightarrow> progress_tracker \<Rightarrow> progress_tracker \<times> js_exn option" where
  "setPhase env v t =
     (if v \<notin> set RUN_PROGRESS_PHASES then (t, Some (ThrowTypeError (js ''invalid run progress phase'')))
      else if tkStatus t \<noteq> PgRunning \<or> tkPhase t = v then (t, None)
      else (publish env (t\<lparr>tkPhase := v\<rparr>), None))"

definition setRuntimeGetter :: "progress_env \<Rightarrow> progress_tracker \<Rightarrow> progress_tracker \<times> js_exn option" where
  "setRuntimeGetter env t = (publish env (t\<lparr>tkRuntimeGetter := True\<rparr>), None)"

definition frameOpened :: "progress_env \<Rightarrow> progress_tracker \<Rightarrow> progress_tracker \<times> js_exn option" where
  "frameOpened env t =
     (if tkStatus t \<noteq> PgRunning then (t, None)
      else (publish env (t\<lparr>tkFramesTotal := jadd (tkFramesTotal t) (Num 1), tkFramesActive := tkFramesActive t + 1\<rparr>), None))"

definition frameClosed :: "progress_env \<Rightarrow> progress_tracker \<Rightarrow> progress_tracker \<times> js_exn option" where
  "frameClosed env t =
     (if tkStatus t \<noteq> PgRunning \<or> tkFramesActive t = 0 then (t, None)
      else (publish env (t\<lparr>tkFramesActive := tkFramesActive t - 1\<rparr>), None))"

definition callFailed :: "progress_env \<Rightarrow> jstr \<Rightarrow> progress_tracker \<Rightarrow> progress_tracker \<times> js_exn option" where
  "callFailed env callId t =
     (if tkStatus t \<noteq> PgRunning \<or> length callId = 0 \<or> 256 < length callId \<or> callId \<in> set (tkFailedCallIds t)
         \<or> jleq (maxLogicalCalls (tkLimits t)) (JI (int (length (tkFailedCallIds t))))
      then (t, None)
      else (publish env (t\<lparr>tkFailedCallIds := tkFailedCallIds t @ [callId]\<rparr>), None))"

definition finishProgress ::
    "progress_env \<Rightarrow> run_progress_status \<Rightarrow> progress_tracker \<Rightarrow> progress_tracker \<times> js_exn option" where
  "finishProgress env v t =
     (if tkStatus t \<noteq> PgRunning then (t, None)
      else case evNow env of
             Inl e \<Rightarrow> (t\<lparr>tkStatus := v\<rparr>, Some e)
           | Inr n \<Rightarrow>
               ((publish env (t\<lparr>tkStatus := v, tkTerminalNow := Some n\<rparr>))\<lparr>tkRuntimeGetter := False, tkObserver := False\<rparr>,
                None))"

datatype progress_op =
    BindRunId jstr | SetPhase jstr | SetRuntimeGetter | FrameOpened | FrameClosed | CallFailed jstr
  | PublishProgress | ReadSnapshot | FinishProgress run_progress_status

definition progressOp :: "progress_op \<Rightarrow> progress_env \<Rightarrow> progress_tracker \<Rightarrow> progress_tracker" where
  "progressOp op env t =
     (case op of
        BindRunId v \<Rightarrow> fst (bindRunId env v t)
      | SetPhase v \<Rightarrow> fst (setPhase env v t)
      | SetRuntimeGetter \<Rightarrow> fst (setRuntimeGetter env t)
      | FrameOpened \<Rightarrow> fst (frameOpened env t)
      | FrameClosed \<Rightarrow> fst (frameClosed env t)
      | CallFailed c \<Rightarrow> fst (callFailed env c t)
      | PublishProgress \<Rightarrow> publish env t
      | ReadSnapshot \<Rightarrow> getSnapshot env t
      | FinishProgress v \<Rightarrow> fst (finishProgress env v t))"

definition runProgress :: "(progress_op \<times> progress_env) list \<Rightarrow> progress_tracker \<Rightarrow> progress_tracker" where
  "runProgress ops t = fold (\<lambda>(op, env). progressOp op env) ops t"

section \<open>Snapshots are plain and bounded\<close>

lemma pgInteger_isCount [simp]: "isCount (pgInteger v)"
  by (simp add: pgInteger_def isCount_def)

lemma pgFinite_isCost [simp]: "isFinite (pgFinite v)" "jleq (Num 0) (pgFinite v)"
  by (simp_all add: pgFinite_def)

lemma isCount_jmax [simp]: "isCount a \<Longrightarrow> isCount b \<Longrightarrow> isCount (jmax a b)"
  by (auto simp: jmax_def isCount_def)

lemma jint_jmax: "isCount a \<Longrightarrow> isCount b \<Longrightarrow> jint (jmax a b) = max (jint a) (jint b)"
  by (auto simp: isCount_iff jmax_Num simp flip: of_int_max)

lemma isCount_not_NaN: "isCount a \<Longrightarrow> a \<noteq> NaN"
  by (auto simp: isCount_def isSafeInteger_def)

definition bodyOk :: "progress_body \<Rightarrow> bool" where
  "bodyOk b \<longleftrightarrow>
     isCount (pgElapsedMs b)
     \<and> list_all isCount [pcTotal (pgCalls b), pcActive (pgCalls b), pcFailed (pgCalls b), pcLimit (pgCalls b),
          pfTotal (pgFrames b), pfActive (pgFrames b), pfLimit (pgFrames b)]
     \<and> list_all isCount [pbTokensUsed (pgBudgets b), pbInputTokensUsed (pgBudgets b), pbOutputTokensUsed (pgBudgets b),
          pbTokensReserved (pgBudgets b), pbProviderDurationMs (pgBudgets b), pbStoredBytes (pgBudgets b),
          pbStoredByteLimit (pgBudgets b), pbDeadlineMs (pgBudgets b)]
     \<and> pred_option isCount (pbTokenLimit (pgBudgets b)) \<and> isCost (pbCostUsd (pgBudgets b))
     \<and> (if pgStatus b = PgRunning then True else pcActive (pgCalls b) = Num 0 \<and> pfActive (pgFrames b) = Num 0)"

lemma isCost_pgFinite: "isCost (pgFinite v)"
  by (cases v) (auto simp: isCost_def pgFinite_def)

lemma bodyOf_ok: "isCount elapsed \<Longrightarrow> bodyOk (bodyOf t u runtime elapsed)"
  by (cases "tokenLimit (tkLimits t)")
    (auto simp: bodyOk_def bodyOf_def activeCalls_def Let_def isCost_pgFinite)

lemma sameSnapshot_iff: "bodyOk l \<Longrightarrow> sameSnapshot l r \<longleftrightarrow> l = r"
proof -
  assume ok: "bodyOk l"
  have cost: "pbCostUsd (pgBudgets l) \<noteq> NaN" using ok by (auto simp: bodyOk_def isCost_def)
  have lim: "rel_option jeq (pbTokenLimit (pgBudgets l)) y \<longleftrightarrow> pbTokenLimit (pgBudgets l) = y" for y
    using ok isCount_not_NaN by (cases "pbTokenLimit (pgBudgets l)"; cases y) (auto simp: bodyOk_def jeq_def)
  have "jeq x y \<longleftrightarrow> x = y" if "isCount x" for x y
    using isCount_not_NaN [OF that] by (auto simp: jeq_def)
  then show ?thesis
    using ok cost lim
    by (auto simp: sameSnapshot_def sameCalls_def sameFrames_def sameBudgets_def bodyOk_def jeq_def
        intro!: progress_body.equality progress_calls.equality progress_frames.equality progress_budgets.equality)
qed

section \<open>The order of snapshots\<close>

text \<open>
  \<open>before a b\<close>: \<open>b\<close> may be read after \<open>a\<close>.  Equal sequence numbers mean equal snapshots, elapsed time does not
  go back, a bound identity stays, and a terminal snapshot fixes status and phase.
\<close>

definition before :: "progress_snapshot \<Rightarrow> progress_snapshot \<Rightarrow> bool" where
  "before a b \<longleftrightarrow>
     pgSequence a \<le> pgSequence b \<and> (pgSequence a = pgSequence b \<longleftrightarrow> a = b)
     \<and> jint (pgElapsedMs (pgBody a)) \<le> jint (pgElapsedMs (pgBody b))
     \<and> (pgRunId (pgBody a) = None \<or> pgRunId (pgBody a) = pgRunId (pgBody b))
     \<and> (if pgStatus (pgBody a) = PgRunning then True
        else pgStatus (pgBody b) = pgStatus (pgBody a) \<and> pgPhase (pgBody b) = pgPhase (pgBody a))"

lemma before_refl [simp]: "before a a"
  by (simp add: before_def)

lemma before_trans: "before a b \<Longrightarrow> before b c \<Longrightarrow> before a c"
  unfolding before_def by (auto split: if_splits)

definition trackerOk :: "progress_tracker \<Rightarrow> bool" where
  "trackerOk t \<longleftrightarrow>
     isCount (tkElapsedHighWaterMs t) \<and> pgSequence (tkLast t) = tkSequence t \<and> bodyOk (pgBody (tkLast t))
     \<and> jint (pgElapsedMs (pgBody (tkLast t))) \<le> jint (tkElapsedHighWaterMs t)
     \<and> (pgRunId (pgBody (tkLast t)) = None \<or> pgRunId (pgBody (tkLast t)) = tkRunId t)
     \<and> (if pgStatus (pgBody (tkLast t)) = PgRunning then True
        else pgStatus (pgBody (tkLast t)) = tkStatus t \<and> pgPhase (pgBody (tkLast t)) = tkPhase t)
     \<and> sorted_wrt before (tkPublished t @ [tkLast t]) \<and> list_all (bodyOk \<circ> pgBody) (tkPublished t)"

lemma elapsedHighWater_count:
  "isCount (tkElapsedHighWaterMs t) \<Longrightarrow>
    isCount (elapsedHighWater t e) \<and> jint (tkElapsedHighWaterMs t) \<le> jint (elapsedHighWater t e)"
  by (simp add: elapsedHighWater_def jint_jmax)

lemma project_Inr:
  assumes "project env t = Inr (t', b)" and "isCount (tkElapsedHighWaterMs t)"
  shows "t' = t\<lparr>tkElapsedHighWaterMs := pgElapsedMs b\<rparr>" "bodyOk b"
    "jint (tkElapsedHighWaterMs t) \<le> jint (pgElapsedMs b)"
    "pgRunId b = tkRunId t" "pgStatus b = tkStatus t" "pgPhase b = tkPhase t"
proof -
  obtain u runtime e where b: "b = bodyOf t u runtime (elapsedHighWater t e)"
    and t': "t' = t\<lparr>tkElapsedHighWaterMs := elapsedHighWater t e\<rparr>"
    using assms(1) by (auto simp: project_def resBind_eq_Inr Let_def)
  note c = elapsedHighWater_count [OF assms(2), of e]
  show "bodyOk b" unfolding b using c by (intro bodyOf_ok) simp
  show "t' = t\<lparr>tkElapsedHighWaterMs := pgElapsedMs b\<rparr>" "jint (tkElapsedHighWaterMs t) \<le> jint (pgElapsedMs b)"
    "pgRunId b = tkRunId t" "pgStatus b = tkStatus t" "pgPhase b = tkPhase t"
    using c by (simp_all add: b t' bodyOf_def Let_def)
qed

lemma before_last: "sorted_wrt before (xs @ [a]) \<Longrightarrow> before a b \<Longrightarrow> sorted_wrt before (xs @ [b])"
  by (auto simp: sorted_wrt_append intro: before_trans)

lemma getSnapshot_ok [inv_intros]:
  assumes ok: "trackerOk t"
  shows "trackerOk (getSnapshot env t)"
proof (cases "project env t")
  case (Inl e)
  then show ?thesis using ok by (simp add: getSnapshot_def)
next
  case (Inr r)
  obtain t' b where r: "r = (t', b)" by (cases r)
  have c: "isCount (tkElapsedHighWaterMs t)" using ok by (simp add: trackerOk_def)
  note p = project_Inr [OF Inr [unfolded r] c]
  have e: "isCount (pgElapsedMs b)" using p(2) by (simp add: bodyOk_def)
  show ?thesis
  proof (cases "sameSnapshot (pgBody (tkLast t')) b")
    case True
    then show ?thesis
      using ok Inr p(3) e by (simp add: getSnapshot_def r p(1) trackerOk_def)
  next
    case False
    let ?s = "\<lparr>pgSequence = tkSequence t + 1, pgBody = b\<rparr>"
    have "before (tkLast t) ?s"
      using ok p by (auto simp: before_def trackerOk_def split: if_splits)
    then have "sorted_wrt before (tkPublished t @ [?s])"
      using ok before_last unfolding trackerOk_def by blast
    then show ?thesis
      using False ok Inr p e by (simp add: getSnapshot_def r trackerOk_def)
  qed
qed

lemma publish_ok [inv_intros]: "trackerOk t \<Longrightarrow> trackerOk (publish env t)"
  using getSnapshot_ok [of t env]
  by (auto simp: publish_def Let_def trackerOk_def sorted_wrt_append)

text \<open>Each operation publishes from a state the invariant already covers.\<close>

lemma trackerOk_updates [inv_intros]:
  "trackerOk t \<Longrightarrow> tkRunId t = None \<Longrightarrow> trackerOk (t\<lparr>tkRunId := Some v\<rparr>)"
  "trackerOk t \<Longrightarrow> tkStatus t = PgRunning \<Longrightarrow> trackerOk (t\<lparr>tkPhase := p\<rparr>)"
  "trackerOk t \<Longrightarrow> trackerOk (t\<lparr>tkRuntimeGetter := g\<rparr>)"
  "trackerOk t \<Longrightarrow> trackerOk (t\<lparr>tkObserver := g\<rparr>)"
  "trackerOk t \<Longrightarrow> trackerOk (t\<lparr>tkRuntimeGetter := g, tkObserver := g\<rparr>)"
  "trackerOk t \<Longrightarrow> trackerOk (t\<lparr>tkFramesTotal := m, tkFramesActive := k\<rparr>)"
  "trackerOk t \<Longrightarrow> trackerOk (t\<lparr>tkFramesActive := k\<rparr>)"
  "trackerOk t \<Longrightarrow> trackerOk (t\<lparr>tkFramesTotal := m\<rparr>)"
  "trackerOk t \<Longrightarrow> trackerOk (t\<lparr>tkFailedCallIds := ids\<rparr>)"
  "trackerOk t \<Longrightarrow> tkStatus t = PgRunning \<Longrightarrow> trackerOk (t\<lparr>tkStatus := s\<rparr>)"
  "trackerOk t \<Longrightarrow> tkStatus t = PgRunning \<Longrightarrow> trackerOk (t\<lparr>tkStatus := s, tkTerminalNow := Some m\<rparr>)"
  by (auto simp: trackerOk_def split: if_splits)

lemma progressOp_ok: "trackerOk t \<Longrightarrow> trackerOk (progressOp op env t)"
  by (cases op)
    (auto simp: progressOp_def bindRunId_def setPhase_def setRuntimeGetter_def frameOpened_def frameClosed_def
      callFailed_def finishProgress_def split: option.split sum.split intro!: inv_intros)

lemma runProgress_ok: "trackerOk t \<Longrightarrow> trackerOk (runProgress ops t)"
  unfolding runProgress_def by (induction ops arbitrary: t) (auto intro: progressOp_ok)

lemma createRunProgressTracker_ok:
  assumes "createRunProgressTracker env startMs ls observer n = Inr t"
  shows "trackerOk t"
proof -
  obtain t0 t1 b where pr: "project env t0 = Inr (t1, b)" and t: "t = t1\<lparr>tkLast := \<lparr>pgSequence = 0, pgBody = b\<rparr>\<rparr>"
    and t0: "tkElapsedHighWaterMs t0 = Num 0" "tkSequence t0 = 0" "tkPublished t0 = []"
    using assms by (auto simp: createRunProgressTracker_def Let_def map_sum_eq_Inr)
  have c: "isCount (tkElapsedHighWaterMs t0)" by (simp add: t0)
  note p = project_Inr [OF pr c]
  show ?thesis using p by (simp add: t trackerOk_def t0 bodyOk_def)
qed

section \<open>Failed calls\<close>

definition failedOk :: "budget_limits \<Rightarrow> progress_tracker \<Rightarrow> bool" where
  "failedOk ls t \<longleftrightarrow>
     tkLimits t = ls \<and> distinct (tkFailedCallIds t)
     \<and> int (length (tkFailedCallIds t)) \<le> max 0 (jint (maxLogicalCalls ls))"

lemma project_failed: "project env t = Inr (t', b) \<Longrightarrow> tkFailedCallIds t' = tkFailedCallIds t \<and> tkLimits t' = tkLimits t"
  by (auto simp: project_def resBind_eq_Inr Let_def)

lemma publish_failed [simp]:
  "tkFailedCallIds (getSnapshot env t) = tkFailedCallIds t" "tkLimits (getSnapshot env t) = tkLimits t"
  "tkFailedCallIds (publish env t) = tkFailedCallIds t" "tkLimits (publish env t) = tkLimits t"
  by (auto simp: publish_def getSnapshot_def Let_def dest: project_failed split: sum.splits prod.splits)

lemma callFailed_failed:
  assumes "isCount (maxLogicalCalls ls)" and "failedOk ls t"
  shows "failedOk ls (fst (callFailed env c t))"
proof -
  have "\<not> jleq (maxLogicalCalls ls) (JI (int k)) \<longleftrightarrow> int k < jint (maxLogicalCalls ls)" for k
    using assms(1) by (auto simp only: isCount_iff jleq_Num of_int_le_iff jint_JI not_le)
  then show ?thesis
    using assms(2) by (auto simp: callFailed_def failedOk_def simp del: jleq_Num of_int_of_nat_eq)
qed

lemma progressOp_failed:
  assumes "failedOk ls t" and "isCount (maxLogicalCalls ls)"
  shows "failedOk ls (progressOp op env t)"
  using assms callFailed_failed [OF assms(2,1)]
  by (cases op)
    (auto simp: progressOp_def bindRunId_def setPhase_def setRuntimeGetter_def frameOpened_def frameClosed_def
      finishProgress_def failedOk_def split: option.split sum.split)

lemma runProgress_failed: "failedOk ls t \<Longrightarrow> isCount (maxLogicalCalls ls) \<Longrightarrow> failedOk ls (runProgress ops t)"
  unfolding runProgress_def by (induction ops arbitrary: t) (auto intro: progressOp_failed)

lemma createRunProgressTracker_failed:
  "createRunProgressTracker env startMs ls observer n = Inr t \<Longrightarrow> failedOk ls t"
  by (auto simp: createRunProgressTracker_def Let_def map_sum_eq_Inr failedOk_def dest: project_failed)

section \<open>Properties\<close>

text \<open>
  C28: over any sequence of operations and any behaviour of the callbacks, the snapshots handed to the
  observer, followed by the last one read, are ordered: sequence numbers never decrease and identify the
  snapshot, elapsed time never goes back, a bound run identity never changes, and a terminal status and its
  phase are final.  Every number in them is a safe count, and a terminal snapshot has nothing active.
\<close>

theorem progress_snapshots_ordered:
  assumes "createRunProgressTracker env startMs ls observer n = Inr t0"
  shows "sorted_wrt before (tkPublished (runProgress ops t0) @ [tkLast (runProgress ops t0)])
    \<and> list_all (bodyOk \<circ> pgBody) (tkPublished (runProgress ops t0) @ [tkLast (runProgress ops t0)])"
  using runProgress_ok [OF createRunProgressTracker_ok [OF assms], of ops] by (simp add: trackerOk_def)

text \<open>
  the failed-call count of a tracker counts distinct call ids and never passes the call limit, in
  whatever order and however often failures are reported.
\<close>

theorem progress_failures_bounded:
  assumes "createRunProgressTracker env startMs ls observer n = Inr t0" and "isCount (maxLogicalCalls ls)"
  shows "distinct (tkFailedCallIds (runProgress ops t0))
    \<and> int (length (tkFailedCallIds (runProgress ops t0))) \<le> jint (maxLogicalCalls ls)"
  using runProgress_failed [OF createRunProgressTracker_failed [OF assms(1)] assms(2), of ops]
    isCount_bounds [OF assms(2)] by (simp add: failedOk_def)

definition sampleEnv :: progress_env where
  "sampleEnv = \<lparr>evLedger = Inr (createLedger sampleLimits), evNow = Inr (Num 5), evActiveCalls = Inr (Num 0)\<rparr>"

lemma sample_tracker: "\<exists>t. createRunProgressTracker sampleEnv (Num 1) sampleLimits True None = Inr t"
  by (simp add: createRunProgressTracker_def project_def sampleEnv_def Let_def)

theorem progress_snapshots_ordered_witness:
  "\<exists>t. createRunProgressTracker sampleEnv (Num 1) sampleLimits True None = Inr t
     \<and> sorted_wrt before (tkPublished (runProgress [(FrameOpened, sampleEnv), (FinishProgress PgFailed, sampleEnv)] t)
        @ [tkLast (runProgress [(FrameOpened, sampleEnv), (FinishProgress PgFailed, sampleEnv)] t)])"
  using sample_tracker progress_snapshots_ordered [of sampleEnv "Num 1" sampleLimits True None _
    "[(FrameOpened, sampleEnv), (FinishProgress PgFailed, sampleEnv)]"] by blast

theorem progress_failures_bounded_witness:
  "\<exists>t. createRunProgressTracker sampleEnv (Num 1) sampleLimits True None = Inr t
     \<and> int (length (tkFailedCallIds (runProgress [(CallFailed (js ''a''), sampleEnv), (CallFailed (js ''b''), sampleEnv),
          (CallFailed (js ''c''), sampleEnv)] t))) \<le> 2"
proof -
  have "isCount (maxLogicalCalls sampleLimits)" "jint (maxLogicalCalls sampleLimits) = 2"
    by (simp_all add: sampleLimits_def MAX_SAFE_INTEGER_def jint_def)
  then show ?thesis
    using sample_tracker progress_failures_bounded [of sampleEnv "Num 1" sampleLimits True None _
      "[(CallFailed (js ''a''), sampleEnv), (CallFailed (js ''b''), sampleEnv), (CallFailed (js ''c''), sampleEnv)]"]
    by metis
qed

end
