(* ===== verification/Retention.thy ===== *)
theory Retention
  imports Budget RunProgress "HOL-Library.Multiset"
begin

text \<open>
  Managed-run retention: the lifecycle files (\<open>src/src/runtime/run-retention.ts\<close>) and the selection of the runs
  to remove (\<open>src/src/runtime/run-retention-policy.ts\<close>).  Times, counts and byte totals are the integers that
  the metadata parser and the policy check admit (safe, not negative); \<open>localeCompare\<close> is a parameter.
\<close>

section \<open>Lifecycle files\<close>

datatype lifecycle_status = LActive | LCompleted | LFailed | LCancelled

record lifecycle =
  lcStatus :: lifecycle_status
  lcOwner :: jstr
  lcCreatedAtMs :: int
  lcUpdatedAtMs :: int
  lcRunId :: "jstr option"
  lcTerminalAtMs :: "int option"

record active_marker =
  amPid :: int
  amOwner :: jstr
  amStartedAtMs :: int

definition isOwner :: "jstr \<Rightarrow> bool" where
  "isOwner s \<longleftrightarrow> length s = 32 \<and> list_all isLowerHex s"

definition exactFields :: "(jstr \<times> json) list \<Rightarrow> string list \<Rightarrow> string list \<Rightarrow> bool" where
  "exactFields ps required optional \<longleftrightarrow>
     list_all (\<lambda>f. js f \<in> set (map fst ps)) required
     \<and> list_all (\<lambda>k. k \<in> set (map js (required @ optional))) (map fst ps)"

text \<open>\<open>item[key]\<close>: the value of an own property.\<close>

abbreviation field :: "(jstr \<times> json) list \<Rightarrow> string \<Rightarrow> json option" where
  "field ps k \<equiv> map_of ps (js k)"

definition timestampOf :: "json option \<Rightarrow> int option" where
  "timestampOf v = (case v of Some (JNum n) \<Rightarrow> if isCount n then Some (jint n) else None | _ \<Rightarrow> None)"

definition lifecycleStatusOf :: "json option \<Rightarrow> lifecycle_status option" where
  "lifecycleStatusOf v =
     (if v = Some (JStr (js ''active'')) then Some LActive
      else if v = Some (JStr (js ''completed'')) then Some LCompleted
      else if v = Some (JStr (js ''failed'')) then Some LFailed
      else if v = Some (JStr (js ''cancelled'')) then Some LCancelled else None)"

text \<open>An absent \<open>runId\<close> is allowed; a present one must be a run identity.\<close>

definition lifecycleRunId :: "json option \<Rightarrow> jstr option option" where
  "lifecycleRunId v =
     (case v of None \<Rightarrow> Some None | Some (JStr s) \<Rightarrow> if isRunId s then Some (Some s) else None | _ \<Rightarrow> None)"

definition parseLifecycle :: "json \<Rightarrow> js_exn + lifecycle" where
  "parseLifecycle v =
     (let bad = Inl (ThrowTypeError (js ''invalid run lifecycle metadata''));
          badTerminal = Inl (ThrowTypeError (js ''invalid terminal lifecycle metadata''))
      in case v of
        JObj ps \<Rightarrow>
          if \<not> exactFields ps [''schemaVersion'', ''status'', ''owner'', ''createdAtMs'', ''updatedAtMs'']
                 [''runId'', ''terminalAtMs''] \<or> field ps ''schemaVersion'' \<noteq> Some (JNum (Num 1))
          then bad
          else (case (lifecycleStatusOf (field ps ''status''), field ps ''owner'', timestampOf (field ps ''createdAtMs''),
                      timestampOf (field ps ''updatedAtMs''), lifecycleRunId (field ps ''runId'')) of
                  (Some st, Some (JStr owner), Some created, Some updated, Some run) \<Rightarrow>
                    if \<not> isOwner owner \<or> updated < created then bad
                    else let terminal = timestampOf (field ps ''terminalAtMs'')
                         in if (st \<noteq> LActive) \<noteq> (terminal \<noteq> None) then badTerminal
                            else if st \<noteq> LActive \<and> the terminal < updated then badTerminal
                            else Inr \<lparr>lcStatus = st, lcOwner = owner, lcCreatedAtMs = created, lcUpdatedAtMs = updated,
                                      lcRunId = run, lcTerminalAtMs = terminal\<rparr>
                | _ \<Rightarrow> bad)
      | _ \<Rightarrow> bad)"

definition parseMarker :: "json \<Rightarrow> lifecycle \<Rightarrow> js_exn + active_marker" where
  "parseMarker v metadata =
     (let bad = Inl (ThrowTypeError (js ''invalid active lease marker''))
      in case v of
        JObj ps \<Rightarrow>
          if \<not> exactFields ps [''schemaVersion'', ''pid'', ''owner'', ''startedAtMs''] []
             \<or> field ps ''schemaVersion'' \<noteq> Some (JNum (Num 1))
          then bad
          else (case field ps ''pid'' of
                  Some (JNum pid) \<Rightarrow>
                    if \<not> isSafeInteger pid \<or> jleq pid (Num 0) \<or> field ps ''owner'' \<noteq> Some (JStr (lcOwner metadata))
                       \<or> field ps ''startedAtMs'' \<noteq> Some (JNum (JI (lcCreatedAtMs metadata)))
                    then bad
                    else Inr \<lparr>amPid = jint pid, amOwner = lcOwner metadata, amStartedAtMs = lcCreatedAtMs metadata\<rparr>
                | _ \<Rightarrow> bad)
      | _ \<Rightarrow> bad)"

section \<open>The policy\<close>

record retention_policy =
  rpTerminalMaxAgeMs :: jsnum
  rpMaxTerminalRuns :: jsnum
  rpMaxTerminalBytes :: jsnum
  rpAbandonedGraceMs :: jsnum
  rpMaxScanEntries :: jsnum
  rpMaxScanDepth :: jsnum
  rpMaxScanPathBytes :: jsnum
  rpMaxScanFileBytes :: jsnum
  rpMaxScanBytes :: jsnum

definition policyInteger :: "jsnum \<Rightarrow> string \<Rightarrow> nat \<Rightarrow> js_exn + jsnum" where
  "policyInteger v fieldName minimum =
     (if \<not> isSafeInteger v \<or> jless v (JI (int minimum))
      then Inl (ThrowTypeError (js fieldName @ js '' must be a safe integer >= '' @ natString minimum))
      else Inr v)"

text \<open>The policy after the defaults are merged with the host's partial policy.\<close>

definition resolvedPolicy :: "retention_policy \<Rightarrow> js_exn + retention_policy" where
  "resolvedPolicy v =
     resBind (policyInteger (rpTerminalMaxAgeMs v) ''terminalMaxAgeMs'' 0) (\<lambda>a.
     resBind (policyInteger (rpMaxTerminalRuns v) ''maxTerminalRuns'' 0) (\<lambda>b.
     resBind (policyInteger (rpMaxTerminalBytes v) ''maxTerminalBytes'' 0) (\<lambda>c.
     resBind (policyInteger (rpAbandonedGraceMs v) ''abandonedGraceMs'' 0) (\<lambda>d.
     resBind (policyInteger (rpMaxScanEntries v) ''maxScanEntries'' 1) (\<lambda>e.
     resBind (policyInteger (rpMaxScanDepth v) ''maxScanDepth'' 1) (\<lambda>f.
     resBind (policyInteger (rpMaxScanPathBytes v) ''maxScanPathBytes'' 1) (\<lambda>g.
     resBind (policyInteger (rpMaxScanFileBytes v) ''maxScanFileBytes'' 0) (\<lambda>h.
     resBind (policyInteger (rpMaxScanBytes v) ''maxScanBytes'' 0) (\<lambda>i.
       Inr \<lparr>rpTerminalMaxAgeMs = a, rpMaxTerminalRuns = b, rpMaxTerminalBytes = c, rpAbandonedGraceMs = d,
            rpMaxScanEntries = e, rpMaxScanDepth = f, rpMaxScanPathBytes = g, rpMaxScanFileBytes = h,
            rpMaxScanBytes = i\<rparr>)))))))))"

section \<open>Selection\<close>

datatype run_activity = Owned | Live | Inactive | Stale | Ambiguous

record policy_run =
  prName :: jstr
  prBytes :: int
  prActivity :: run_activity
  prMetadata :: lifecycle

definition removable :: "policy_run \<Rightarrow> bool" where
  "removable r \<longleftrightarrow> prActivity r = Inactive \<or> prActivity r = Stale"

text \<open>
  \<open>Array.prototype.sort\<close> with a comparator: stable, here by insertion.  The comparator of the code orders by an
  instant, then by the names' locale order.
\<close>

fun insertBy :: "('a \<Rightarrow> 'a \<Rightarrow> int) \<Rightarrow> 'a \<Rightarrow> 'a list \<Rightarrow> 'a list" where
  "insertBy cmp x [] = [x]"
| "insertBy cmp x (y # ys) = (if cmp x y \<le> 0 then x # y # ys else y # insertBy cmp x ys)"

definition sortBy :: "('a \<Rightarrow> 'a \<Rightarrow> int) \<Rightarrow> 'a list \<Rightarrow> 'a list" where
  "sortBy cmp xs = foldr (insertBy cmp) xs []"

definition byInstant :: "(jstr \<Rightarrow> jstr \<Rightarrow> int) \<Rightarrow> (policy_run \<Rightarrow> int) \<Rightarrow> policy_run \<Rightarrow> policy_run \<Rightarrow> int" where
  "byInstant localeCompare instant a b =
     (if instant a - instant b \<noteq> 0 then instant a - instant b else localeCompare (prName a) (prName b))"

definition terminalAt :: "policy_run \<Rightarrow> int" where
  "terminalAt r = the (lcTerminalAtMs (prMetadata r))"

definition expired :: "retention_policy \<Rightarrow> int \<Rightarrow> bool \<Rightarrow> policy_run \<Rightarrow> bool" where
  "expired policy now force r \<longleftrightarrow> force \<or> jint (rpTerminalMaxAgeMs policy) \<le> now - terminalAt r"

text \<open>The two quota loops differ in the limit and in what removing a run saves.\<close>

fun quotaLoop :: "(policy_run \<Rightarrow> int) \<Rightarrow> int \<Rightarrow> policy_run list \<Rightarrow> jstr set \<Rightarrow> int \<Rightarrow> jstr set" where
  "quotaLoop saves quota [] selected remaining = selected"
| "quotaLoop saves quota (r # rs) selected remaining =
     (if remaining \<le> quota then selected
      else if prName r \<notin> selected \<and> removable r
      then quotaLoop saves quota rs (insert (prName r) selected) (remaining - saves r)
      else quotaLoop saves quota rs selected remaining)"

definition terminalRuns :: "(jstr \<Rightarrow> jstr \<Rightarrow> int) \<Rightarrow> policy_run list \<Rightarrow> policy_run list" where
  "terminalRuns localeCompare runs =
     sortBy (byInstant localeCompare terminalAt) (filter (\<lambda>r. lcStatus (prMetadata r) \<noteq> LActive) runs)"

definition abandonedRuns :: "(jstr \<Rightarrow> jstr \<Rightarrow> int) \<Rightarrow> policy_run list \<Rightarrow> retention_policy \<Rightarrow> int \<Rightarrow> policy_run list" where
  "abandonedRuns localeCompare runs policy now =
     sortBy (byInstant localeCompare (\<lambda>r. lcUpdatedAtMs (prMetadata r)))
       (filter (\<lambda>r. lcStatus (prMetadata r) = LActive \<and> removable r
                  \<and> jint (rpAbandonedGraceMs policy) \<le> now - lcUpdatedAtMs (prMetadata r)) runs)"

definition selectRetentionCandidates ::
    "(jstr \<Rightarrow> jstr \<Rightarrow> int) \<Rightarrow> policy_run list \<Rightarrow> retention_policy \<Rightarrow> int \<Rightarrow> bool \<Rightarrow> jstr set" where
  "selectRetentionCandidates localeCompare runs policy now force =
     (let terminal = terminalRuns localeCompare runs;
          aged = prName ` set (filter (\<lambda>r. removable r \<and> expired policy now force r) terminal);
          counted = quotaLoop (\<lambda>_. 1) (jint (rpMaxTerminalRuns policy)) terminal aged
                      (int (length terminal) - int (card aged));
          sized = quotaLoop prBytes (jint (rpMaxTerminalBytes policy)) terminal counted
                    (sum_list (map (\<lambda>r. if prName r \<in> counted then 0 else prBytes r) terminal))
      in sized \<union> prName ` set (abandonedRuns localeCompare runs policy now))"

section \<open>Sorting\<close>

lemma set_insertBy [simp]: "set (insertBy cmp x xs) = insert x (set xs)"
  by (induction xs) auto

lemma mset_insertBy [simp]: "mset (insertBy cmp x xs) = add_mset x (mset xs)"
  by (induction xs) auto

lemma mset_sortBy [simp]: "mset (sortBy cmp xs) = mset xs"
  unfolding sortBy_def by (induction xs) auto

lemma set_sortBy [simp]: "set (sortBy cmp xs) = set xs"
  using mset_sortBy by (metis set_mset_mset)

lemma sorted_sortBy: "sorted (map instant (sortBy (byInstant lc instant) xs))"
proof -
  have "sorted (map instant (insertBy (byInstant lc instant) x ys))" if "sorted (map instant ys)" for x ys
    using that by (induction ys) (auto simp: byInstant_def split: if_splits)
  then show ?thesis unfolding sortBy_def by (induction xs) auto
qed

section \<open>The quota loops take the oldest removable runs\<close>

definition pending :: "policy_run list \<Rightarrow> jstr set \<Rightarrow> policy_run list" where
  "pending rs selected = filter (\<lambda>r. removable r \<and> prName r \<notin> selected) rs"

lemma pending_insert:
  "distinct (map prName (r # rs)) \<Longrightarrow> pending rs (insert (prName r) S) = pending rs S"
  by (auto simp: pending_def image_iff intro!: filter_cong)

text \<open>
  The loop selects a prefix of the pending runs: the shortest one after which the remainder is within the
  quota, or all of them.
\<close>

lemma quotaLoop_prefix:
  assumes "distinct (map prName rs)"
  shows "\<exists>k \<le> length (pending rs S).
    quotaLoop saves quota rs S n = S \<union> prName ` set (take k (pending rs S))
    \<and> (k = length (pending rs S) \<or> n - sum_list (map saves (take k (pending rs S))) \<le> quota)
    \<and> (\<forall>j<k. quota < n - sum_list (map saves (take j (pending rs S))))"
  using assms
proof (induction rs arbitrary: S n)
  case Nil
  then show ?case by (simp add: pending_def)
next
  case (Cons r rs)
  show ?case
  proof (cases "n \<le> quota")
    case True
    then show ?thesis by (intro exI [of _ 0]) simp
  next
    case over: False
    show ?thesis
    proof (cases "prName r \<notin> S \<and> removable r")
      case False
      then have "pending (r # rs) S = pending rs S" by (auto simp: pending_def)
      moreover have "quotaLoop saves quota (r # rs) S n = quotaLoop saves quota rs S n" using False over by auto
      ultimately show ?thesis using Cons by simp
    next
      case True
      have d: "distinct (map prName rs)" using Cons.prems by simp
      have p: "pending (r # rs) S = r # pending rs S" "pending rs (insert (prName r) S) = pending rs S"
        using True pending_insert [OF Cons.prems] by (auto simp: pending_def)
      obtain k where k: "k \<le> length (pending rs S)"
        "quotaLoop saves quota rs (insert (prName r) S) (n - saves r)
          = insert (prName r) S \<union> prName ` set (take k (pending rs S))"
        "k = length (pending rs S) \<or> n - saves r - sum_list (map saves (take k (pending rs S))) \<le> quota"
        "\<forall>j<k. quota < n - saves r - sum_list (map saves (take j (pending rs S)))"
        using Cons.IH [OF d, of "insert (prName r) S" "n - saves r"] unfolding p(2) by blast
      have "\<forall>j<Suc k. quota < n - sum_list (map saves (take j (r # pending rs S)))"
        using over k(4) by (auto simp: less_Suc_eq_0_disj algebra_simps)
      then show ?thesis
        using True over k(1-3) by (intro exI [of _ "Suc k"]) (auto simp: p(1) algebra_simps)
    qed
  qed
qed

lemma pending_prefix:
  assumes "distinct (map prName rs)"
  shows "pending rs (prName ` set (take k (filter removable rs))) = drop k (filter removable rs)"
proof -
  let ?xs = "filter removable rs"
  have d: "distinct (map prName ?xs)" using assms by (simp add: distinct_map_filter)
  have "pending rs (prName ` set (take k ?xs)) = filter (\<lambda>r. prName r \<notin> prName ` set (take k ?xs)) ?xs"
    by (auto simp: pending_def intro: filter_cong)
  also have "\<dots> = filter (\<lambda>r. prName r \<notin> prName ` set (take k ?xs)) (take k ?xs @ drop k ?xs)" by simp
  also have "\<dots> = drop k ?xs"
  proof -
    have "distinct (map prName (take k ?xs) @ map prName (drop k ?xs))"
      using d by (metis append_take_drop_id map_append)
    then have "\<forall>r\<in>set (drop k ?xs). prName r \<notin> prName ` set (take k ?xs)" by auto
    then show ?thesis unfolding filter_append by (simp add: filter_empty_conv filter_id_conv)
  qed
  finally show ?thesis .
qed

lemma filter_sorted_prefix:
  assumes "sorted_wrt (\<lambda>a b. P b \<longrightarrow> P a) xs"
  shows "\<exists>k\<le>length xs. filter P xs = take k xs \<and> (\<forall>x\<in>set (drop k xs). \<not> P x)"
  using assms
proof (induction xs)
  case (Cons x xs)
  show ?case
  proof (cases "P x")
    case True
    obtain k where "k \<le> length xs" "filter P xs = take k xs" "\<forall>x\<in>set (drop k xs). \<not> P x"
      using Cons by auto
    then show ?thesis using True by (intro exI [of _ "Suc k"]) simp
  next
    case False
    then have "\<forall>y\<in>set xs. \<not> P y" using Cons.prems by auto
    then show ?thesis using False by (intro exI [of _ 0]) (auto simp: filter_empty_conv)
  qed
qed simp

lemma expired_prefix:
  "\<exists>k\<le>length (filter removable (terminalRuns lc runs)).
     filter (\<lambda>r. removable r \<and> expired policy now force r) (terminalRuns lc runs)
       = take k (filter removable (terminalRuns lc runs))
     \<and> (\<forall>r\<in>set (drop k (filter removable (terminalRuns lc runs))). \<not> expired policy now force r)"
proof -
  let ?rem = "filter removable (terminalRuns lc runs)"
  have "sorted (map terminalAt (terminalRuns lc runs))" unfolding terminalRuns_def by (rule sorted_sortBy)
  then have "sorted_wrt (\<lambda>a b. terminalAt a \<le> terminalAt b) ?rem"
    by (simp add: sorted_wrt_map sorted_wrt_filter)
  then have "sorted_wrt (\<lambda>a b. expired policy now force b \<longrightarrow> expired policy now force a) ?rem"
    by (rule sorted_wrt_mono_rel [rotated]) (auto simp: expired_def)
  then show ?thesis
    using filter_sorted_prefix [of "expired policy now force" ?rem] by (simp add: conj_commute)
qed

lemma remaining_sum:
  fixes w :: "policy_run \<Rightarrow> int"
  assumes "distinct (map prName rs)"
  shows "sum_list (map (\<lambda>r. if prName r \<in> prName ` set (take k (filter removable rs)) then 0 else w r) rs)
    = sum_list (map w rs) - sum_list (map w (take k (filter removable rs)))"
proof -
  let ?T = "set (take k (filter removable rs))"
  have d: "distinct rs" "distinct (take k (filter removable rs))" and inj: "inj_on prName (set rs)"
    using assms by (auto simp: distinct_map)
  have sub: "?T \<subseteq> set rs" by (auto dest: in_set_takeD)
  have mem: "prName r \<in> prName ` ?T \<longleftrightarrow> r \<in> ?T" if "r \<in> set rs" for r
    using inj sub that by (auto dest: inj_onD)
  have "sum_list (map (\<lambda>r. if prName r \<in> prName ` ?T then 0 else w r) rs)
      = (\<Sum>r\<in>set rs. if r \<in> ?T then 0 else w r)"
    using d(1) mem by (auto simp: sum_list_distinct_conv_sum_set intro!: sum.cong)
  also have "\<dots> = sum w (set rs - ?T)"
    by (simp add: sum.If_cases Diff_eq Compl_eq)
  also have "\<dots> = sum w (set rs) - sum w ?T" using sub by (simp add: sum_diff)
  finally show ?thesis using d by (simp add: sum_list_distinct_conv_sum_set)
qed

lemma distinct_terminalRuns: "distinct (map prName runs) \<Longrightarrow> distinct (map prName (terminalRuns lc runs))"
proof -
  assume d: "distinct (map prName runs)"
  let ?xs = "filter (\<lambda>r. lcStatus (prMetadata r) \<noteq> LActive) runs"
  have "mset (map prName (terminalRuns lc runs)) = mset (map prName ?xs)"
    by (simp add: terminalRuns_def)
  moreover have "distinct (map prName ?xs)" using d by (simp add: distinct_map_filter)
  ultimately show ?thesis by (metis mset_eq_imp_distinct_iff)
qed

text \<open>
  The number of runs the selection takes from the removable terminal runs, oldest first: enough for the
  age, count and byte rules, and no more.
\<close>

definition selectionSatisfied ::
    "(jstr \<Rightarrow> jstr \<Rightarrow> int) \<Rightarrow> policy_run list \<Rightarrow> retention_policy \<Rightarrow> int \<Rightarrow> bool \<Rightarrow> nat \<Rightarrow> bool" where
  "selectionSatisfied lc runs policy now force k \<longleftrightarrow>
     (let terminal = terminalRuns lc runs; rem = filter removable terminal
      in k = length rem
         \<or> (\<not> expired policy now force (rem ! k) \<and> int (length terminal) - int k \<le> jint (rpMaxTerminalRuns policy)
            \<and> sum_list (map prBytes terminal) - sum_list (map prBytes (take k rem)) \<le> jint (rpMaxTerminalBytes policy)))"

lemma selection_prefix:
  assumes d: "distinct (map prName runs)"
  shows "\<exists>k. selectRetentionCandidates lc runs policy now force
      = prName ` set (take k (filter removable (terminalRuns lc runs))) \<union> prName ` set (abandonedRuns lc runs policy now)
    \<and> k \<le> length (filter removable (terminalRuns lc runs)) \<and> selectionSatisfied lc runs policy now force k
    \<and> (\<forall>j<k. \<not> selectionSatisfied lc runs policy now force j)"
proof -
  define T where "T = terminalRuns lc runs"
  define R where "R = filter removable T"
  have dT: "distinct (map prName T)" unfolding T_def by (rule distinct_terminalRuns [OF d])
  have dR: "distinct (map prName R)" using dT by (simp add: R_def distinct_map_filter)
  obtain k1 where k1: "k1 \<le> length R"
    "filter (\<lambda>r. removable r \<and> expired policy now force r) T = take k1 R"
    "\<forall>r\<in>set (drop k1 R). \<not> expired policy now force r"
    using expired_prefix [of lc runs policy now force] unfolding R_def T_def by blast
  define A where "A = prName ` set (take k1 R)"
  have cardA: "card A = k1"
  proof -
    have "distinct (map prName (take k1 R))" using dR by (metis distinct_take take_map)
    from distinct_card [OF this] show ?thesis using k1(1) by (simp add: A_def)
  qed
  have pA: "pending T A = drop k1 R" unfolding A_def R_def by (rule pending_prefix [OF dT])
  have ones: "sum_list (map (\<lambda>_. 1) (take j xs)) = int j" if "j \<le> length xs" for j and xs :: "policy_run list"
    using that by (simp add: sum_list_triv)
  obtain m where m: "m \<le> length (drop k1 R)"
    "quotaLoop (\<lambda>_. 1) (jint (rpMaxTerminalRuns policy)) T A (int (length T) - int k1) = A \<union> prName ` set (take m (drop k1 R))"
    and m': "m = length (drop k1 R)
      \<or> int (length T) - int k1 - sum_list (map (\<lambda>_. 1) (take m (drop k1 R))) \<le> jint (rpMaxTerminalRuns policy)"
    "\<forall>j<m. jint (rpMaxTerminalRuns policy) < int (length T) - int k1 - sum_list (map (\<lambda>_. 1) (take j (drop k1 R)))"
    using quotaLoop_prefix [OF dT, where S = A and saves = "\<lambda>_. 1" and quota = "jint (rpMaxTerminalRuns policy)"
        and n = "int (length T) - int k1"]
    unfolding pA by blast
  have m3: "m = length (drop k1 R) \<or> int (length T) - int k1 - int m \<le> jint (rpMaxTerminalRuns policy)"
    using m'(1) ones [OF m(1)] by simp
  have m4: "jint (rpMaxTerminalRuns policy) < int (length T) - int k1 - int j" if "j < m" for j
    using m'(2) [rule_format, OF that] ones [of j "drop k1 R"] m(1) that by simp
  define k2 where "k2 = k1 + m"
  define B where "B = prName ` set (take k2 R)"
  have B: "A \<union> prName ` set (take m (drop k1 R)) = B"
    by (auto simp: A_def B_def k2_def take_add)
  have pB: "pending T B = drop k2 R" unfolding B_def R_def by (rule pending_prefix [OF dT])
  have sumB: "sum_list (map (\<lambda>r. if prName r \<in> B then 0 else prBytes r) T)
      = sum_list (map prBytes T) - sum_list (map prBytes (take k2 R))"
    unfolding B_def R_def by (rule remaining_sum [OF dT])
  define total where "total = sum_list (map prBytes T) - sum_list (map prBytes (take k2 R))"
  obtain n where n: "n \<le> length (drop k2 R)"
    "quotaLoop prBytes (jint (rpMaxTerminalBytes policy)) T B total = B \<union> prName ` set (take n (drop k2 R))"
    "n = length (drop k2 R) \<or> total - sum_list (map prBytes (take n (drop k2 R))) \<le> jint (rpMaxTerminalBytes policy)"
    "\<forall>j<n. jint (rpMaxTerminalBytes policy) < total - sum_list (map prBytes (take j (drop k2 R)))"
    using quotaLoop_prefix [OF dT, where S = B and saves = prBytes and quota = "jint (rpMaxTerminalBytes policy)" and n = total]
    unfolding pB by blast
  define k where "k = k2 + n"
  have sel: "selectRetentionCandidates lc runs policy now force
      = prName ` set (take k R) \<union> prName ` set (abandonedRuns lc runs policy now)"
    unfolding selectRetentionCandidates_def Let_def T_def [symmetric] k1(2)
    unfolding A_def [symmetric] cardA m(2) B sumB total_def [symmetric] n(2)
    by (auto simp: B_def k_def take_add)
  have bytes: "sum_list (map prBytes T) - sum_list (map prBytes (take (k2 + j) R))
      = total - sum_list (map prBytes (take j (drop k2 R)))" for j
    by (simp add: total_def take_add)
  have le: "k \<le> length R" "k2 \<le> k" "k1 \<le> k2" using m(1) n(1) k1(1) by (auto simp: k_def k2_def)
  have unexpired: "\<not> expired policy now force (R ! j)" if "k1 \<le> j" "j < length R" for j
    using k1(3) that by (metis Cons_nth_drop_Suc drop_drop le_add_diff_inverse2 list.set_intros(1) set_drop_subset subsetD)
  have sat: "selectionSatisfied lc runs policy now force k"
    using m3 n(3) le bytes [of n] unexpired [of k]
    by (auto simp: selectionSatisfied_def Let_def T_def [symmetric] R_def [symmetric] k_def k2_def)
  have "\<not> selectionSatisfied lc runs policy now force j" if j: "j < k" for j
  proof -
    consider "j < k1" | "k1 \<le> j" "j < k2" | "k2 \<le> j" by linarith
    then have "expired policy now force (R ! j) \<or> jint (rpMaxTerminalRuns policy) < int (length T) - int j
      \<or> jint (rpMaxTerminalBytes policy) < sum_list (map prBytes T) - sum_list (map prBytes (take j R))"
    proof cases
      case 1
      then have "R ! j \<in> set (take k1 R)" using k1(1) by (metis in_set_conv_nth length_take min.absorb2 nth_take)
      then show ?thesis unfolding k1(2) [symmetric] by simp
    next
      case 2
      then show ?thesis using m4 [of "j - k1"] by (simp add: k2_def)
    next
      case 3
      then show ?thesis using n(4) [rule_format, of "j - k2"] j bytes [of "j - k2"] by (simp add: k_def)
    qed
    then show ?thesis
      using j le by (auto simp: selectionSatisfied_def Let_def T_def [symmetric] R_def [symmetric])
  qed
  with sel le sat show ?thesis unfolding R_def T_def by blast
qed

lemma abandoned_iff:
  "r \<in> set (abandonedRuns lc runs policy now) \<longleftrightarrow>
    r \<in> set runs \<and> lcStatus (prMetadata r) = LActive \<and> removable r
    \<and> jint (rpAbandonedGraceMs policy) \<le> now - lcUpdatedAtMs (prMetadata r)"
  by (auto simp: abandonedRuns_def)

lemma terminal_iff: "r \<in> set (terminalRuns lc runs) \<longleftrightarrow> r \<in> set runs \<and> lcStatus (prMetadata r) \<noteq> LActive"
  by (auto simp: terminalRuns_def)

section \<open>Lifecycle round trip\<close>

definition statusText :: "lifecycle_status \<Rightarrow> jstr" where
  "statusText st = js (case st of
     LActive \<Rightarrow> ''active'' | LCompleted \<Rightarrow> ''completed'' | LFailed \<Rightarrow> ''failed'' | LCancelled \<Rightarrow> ''cancelled'')"

definition lifecycleJson :: "lifecycle \<Rightarrow> json" where
  "lifecycleJson m = JObj
     ([(js ''schemaVersion'', JNum (Num 1)), (js ''status'', JStr (statusText (lcStatus m))),
       (js ''owner'', JStr (lcOwner m)), (js ''createdAtMs'', JNum (JI (lcCreatedAtMs m))),
       (js ''updatedAtMs'', JNum (JI (lcUpdatedAtMs m)))]
      @ (case lcRunId m of None \<Rightarrow> [] | Some r \<Rightarrow> [(js ''runId'', JStr r)])
      @ (case lcTerminalAtMs m of None \<Rightarrow> [] | Some t \<Rightarrow> [(js ''terminalAtMs'', JNum (JI t))]))"

definition lifecycleOk :: "lifecycle \<Rightarrow> bool" where
  "lifecycleOk m \<longleftrightarrow>
     isOwner (lcOwner m) \<and> 0 \<le> lcCreatedAtMs m \<and> lcCreatedAtMs m \<le> lcUpdatedAtMs m
     \<and> lcUpdatedAtMs m \<le> MAX_SAFE_INTEGER \<and> pred_option isRunId (lcRunId m)
     \<and> (case lcTerminalAtMs m of
          None \<Rightarrow> lcStatus m = LActive
        | Some t \<Rightarrow> lcStatus m \<noteq> LActive \<and> lcUpdatedAtMs m \<le> t \<and> t \<le> MAX_SAFE_INTEGER)"

lemma timestampOf_Some: "timestampOf v = Some t \<longleftrightarrow> (v = Some (JNum (JI t)) \<and> 0 \<le> t \<and> t \<le> MAX_SAFE_INTEGER)"
  by (auto simp: timestampOf_def isCount_iff split: option.splits json.splits if_splits)

lemma lifecycleStatusOf_Some: "lifecycleStatusOf v = Some st \<longleftrightarrow> v = Some (JStr (statusText st))"
  by (cases st) (auto simp: lifecycleStatusOf_def statusText_def)

lemma lifecycleRunId_Some: "lifecycleRunId v = Some r \<longleftrightarrow> v = map_option JStr r \<and> pred_option isRunId r"
  by (cases r) (auto simp: lifecycleRunId_def split: option.splits json.splits if_splits)

lemma timestampOf_bounds: "timestampOf v = Some t \<Longrightarrow> 0 \<le> t \<and> t \<le> MAX_SAFE_INTEGER"
  by (simp add: timestampOf_Some)

lemma lifecycleRunId_ok: "lifecycleRunId v = Some r \<Longrightarrow> pred_option isRunId r"
  by (simp add: lifecycleRunId_Some)

lemma parseLifecycle_ok:
  assumes "parseLifecycle v = Inr m"
  shows "lifecycleOk m"
  using assms
  by (auto simp: parseLifecycle_def Let_def lifecycleOk_def split: json.splits if_splits option.splits
      dest: timestampOf_bounds lifecycleRunId_ok)

lemma lifecycleJson_fields:
  "\<exists>ps. lifecycleJson m = JObj ps \<and> exactFields ps [''schemaVersion'', ''status'', ''owner'', ''createdAtMs'', ''updatedAtMs'']
        [''runId'', ''terminalAtMs'']
     \<and> field ps ''schemaVersion'' = Some (JNum (Num 1)) \<and> field ps ''status'' = Some (JStr (statusText (lcStatus m)))
     \<and> field ps ''owner'' = Some (JStr (lcOwner m)) \<and> field ps ''createdAtMs'' = Some (JNum (JI (lcCreatedAtMs m)))
     \<and> field ps ''updatedAtMs'' = Some (JNum (JI (lcUpdatedAtMs m)))
     \<and> field ps ''runId'' = map_option JStr (lcRunId m)
     \<and> field ps ''terminalAtMs'' = map_option (\<lambda>t. JNum (JI t)) (lcTerminalAtMs m)"
  by (auto simp: lifecycleJson_def exactFields_def split: option.splits)

lemma parse_lifecycleJson:
  assumes "lifecycleOk m"
  shows "parseLifecycle (lifecycleJson m) = Inr m"
proof -
  obtain ps where ps: "lifecycleJson m = JObj ps"
    "exactFields ps [''schemaVersion'', ''status'', ''owner'', ''createdAtMs'', ''updatedAtMs''] [''runId'', ''terminalAtMs'']"
    "field ps ''schemaVersion'' = Some (JNum (Num 1))" "field ps ''status'' = Some (JStr (statusText (lcStatus m)))"
    "field ps ''owner'' = Some (JStr (lcOwner m))" "field ps ''createdAtMs'' = Some (JNum (JI (lcCreatedAtMs m)))"
    "field ps ''updatedAtMs'' = Some (JNum (JI (lcUpdatedAtMs m)))"
    "field ps ''runId'' = map_option JStr (lcRunId m)"
    "field ps ''terminalAtMs'' = map_option (\<lambda>t. JNum (JI t)) (lcTerminalAtMs m)"
    using lifecycleJson_fields by blast
  have st: "lifecycleStatusOf (field ps ''status'') = Some (lcStatus m)"
    by (simp only: ps lifecycleStatusOf_Some)
  have t: "timestampOf (field ps ''createdAtMs'') = Some (lcCreatedAtMs m)"
    "timestampOf (field ps ''updatedAtMs'') = Some (lcUpdatedAtMs m)"
    using assms unfolding timestampOf_Some ps lifecycleOk_def by auto
  have r: "lifecycleRunId (field ps ''runId'') = Some (lcRunId m)"
    using assms unfolding lifecycleRunId_Some ps lifecycleOk_def by simp
  have e: "timestampOf (field ps ''terminalAtMs'') = lcTerminalAtMs m"
  proof (cases "lcTerminalAtMs m")
    case None
    then show ?thesis by (simp add: ps timestampOf_def)
  next
    case (Some x)
    then show ?thesis using assms unfolding Some timestampOf_Some ps lifecycleOk_def by simp
  qed
  show ?thesis
    using assms unfolding parseLifecycle_def ps(1) Let_def
    by (cases "lcTerminalAtMs m") (simp_all add: ps(2,3,5) st t r e lifecycleOk_def)
qed

section \<open>Properties\<close>

text \<open>
  C30: for runs with distinct names, retention removes exactly a prefix of the removable terminal runs in order
  of age, the shortest one after which the oldest survivor is unexpired and both quotas hold (or every
  removable terminal run), and the removable active runs whose grace period has passed; nothing else.
\<close>

theorem retention_oldest_first:
  assumes "distinct (map prName runs)"
  shows "(\<exists>k. selectRetentionCandidates lc runs policy now force
        = prName ` set (take k (filter removable (terminalRuns lc runs)))
          \<union> prName ` {r \<in> set runs. lcStatus (prMetadata r) = LActive \<and> removable r
                \<and> jint (rpAbandonedGraceMs policy) \<le> now - lcUpdatedAtMs (prMetadata r)}
      \<and> selectionSatisfied lc runs policy now force k
      \<and> k = (LEAST j. selectionSatisfied lc runs policy now force j))
    \<and> mset (terminalRuns lc runs) = mset (filter (\<lambda>r. lcStatus (prMetadata r) \<noteq> LActive) runs)
    \<and> sorted (map terminalAt (terminalRuns lc runs))"
proof -
  have "set (abandonedRuns lc runs policy now) = {r \<in> set runs. lcStatus (prMetadata r) = LActive \<and> removable r
      \<and> jint (rpAbandonedGraceMs policy) \<le> now - lcUpdatedAtMs (prMetadata r)}"
    by (auto simp: abandonedRuns_def)
  moreover obtain k where k: "selectRetentionCandidates lc runs policy now force
      = prName ` set (take k (filter removable (terminalRuns lc runs))) \<union> prName ` set (abandonedRuns lc runs policy now)"
    "selectionSatisfied lc runs policy now force k" "\<forall>j<k. \<not> selectionSatisfied lc runs policy now force j"
    using selection_prefix [OF assms] by blast
  moreover have "k = (LEAST j. selectionSatisfied lc runs policy now force j)"
    using k(2,3) by (intro Least_equality [symmetric]) (auto simp: not_less [symmetric])
  moreover have "sorted (map terminalAt (terminalRuns lc runs))"
    unfolding terminalRuns_def by (rule sorted_sortBy)
  moreover have "mset (terminalRuns lc runs) = mset (filter (\<lambda>r. lcStatus (prMetadata r) \<noteq> LActive) runs)"
    by (simp add: terminalRuns_def)
  ultimately show ?thesis by metis
qed

text \<open>
  a lifecycle record is well formed exactly when its file reads back as itself, and whatever file is
  accepted yields a well-formed record: ordered safe timestamps, and a terminal instant exactly for a
  terminal status.
\<close>

theorem lifecycle_roundtrip:
  "lifecycleOk m = (parseLifecycle (lifecycleJson m) = Inr m)
   \<and> (case parseLifecycle v of Inr n \<Rightarrow> lifecycleOk n | Inl e \<Rightarrow> True)"
  using parseLifecycle_ok parse_lifecycleJson by (auto split: sum.splits)

definition sampleRun :: "string \<Rightarrow> int \<Rightarrow> policy_run" where
  "sampleRun name t = \<lparr>prName = js name, prBytes = 10, prActivity = Inactive,
     prMetadata = \<lparr>lcStatus = LCompleted, lcOwner = [], lcCreatedAtMs = 0, lcUpdatedAtMs = 0, lcRunId = None,
       lcTerminalAtMs = Some t\<rparr>\<rparr>"

definition samplePolicy :: retention_policy where
  "samplePolicy = \<lparr>rpTerminalMaxAgeMs = Num 1000, rpMaxTerminalRuns = Num 1, rpMaxTerminalBytes = Num 100,
     rpAbandonedGraceMs = Num 1000, rpMaxScanEntries = Num 10, rpMaxScanDepth = Num 10, rpMaxScanPathBytes = Num 10,
     rpMaxScanFileBytes = Num 10, rpMaxScanBytes = Num 10\<rparr>"

theorem retention_oldest_first_witness:
  "sorted (map terminalAt (terminalRuns (\<lambda>_ _. 0) [sampleRun ''b'' 7, sampleRun ''a'' 5]))
   \<and> selectRetentionCandidates (\<lambda>_ _. 0) [sampleRun ''b'' 7, sampleRun ''a'' 5] samplePolicy 8 False = {js ''a''}"
proof -
  have "distinct (map prName [sampleRun ''b'' 7, sampleRun ''a'' 5])" by (simp add: sampleRun_def)
  from retention_oldest_first [OF this, of "\<lambda>_ _. 0"]
  have "sorted (map terminalAt (terminalRuns (\<lambda>_ _. 0) [sampleRun ''b'' 7, sampleRun ''a'' 5]))" by blast
  moreover have "selectRetentionCandidates (\<lambda>_ _. 0) [sampleRun ''b'' 7, sampleRun ''a'' 5] samplePolicy 8 False = {js ''a''}"
    by (simp add: selectRetentionCandidates_def terminalRuns_def abandonedRuns_def sortBy_def byInstant_def terminalAt_def
        sampleRun_def samplePolicy_def removable_def expired_def jint_def Let_def del: set_filter)
  ultimately show ?thesis by blast
qed

end
