(* ===== verification/JournalEvent.thy ===== *)
theory JournalEvent
  imports Journal
begin

text \<open>
  The strict decoder of journal events (\<open>src/src/shell/journal-event.ts\<close>): a bounded snapshot of an
  untrusted value, and the field-by-field validation of each event type.  \<open>eventOk\<close> restates the validation
  on the typed events of \<open>Journal\<close>.  The SHA-256 hasher is a parameter.
\<close>

section \<open>The bounded snapshot\<close>

definition MAX_EVENT_DEPTH :: nat where "MAX_EVENT_DEPTH = 5"
definition MAX_EVENT_NODES :: nat where "MAX_EVENT_NODES = 20000"
definition MAX_EVENT_ARRAY :: nat where "MAX_EVENT_ARRAY = 10000"
definition MAX_EVENT_STRING :: nat where "MAX_EVENT_STRING = 1048576"
definition MAX_EVENT_KEYS :: nat where "MAX_EVENT_KEYS = 32"

text \<open>
  \<open>takeNode\<close> is one level of the walk.  The node counter is threaded through; \<open>None\<close> is \<open>undefined\<close>.  The
  items of an array and the values of an object are visited in order by the walk of the next level.
\<close>

fun takeItems :: "(jsval \<Rightarrow> nat \<Rightarrow> (json \<times> nat) option) \<Rightarrow> slot list \<Rightarrow> nat \<Rightarrow> (json list \<times> nat) option" where
  "takeItems w [] n = Some ([], n)"
| "takeItems w (Data v # ss) n =
     (case w v n of
        None \<Rightarrow> None
      | Some (j, n') \<Rightarrow> map_option (map_prod (\<lambda>xs. j # xs) id) (takeItems w ss n'))"
| "takeItems w (_ # ss) n = None"

fun takeProps :: "(jsval \<Rightarrow> nat \<Rightarrow> (json \<times> nat) option) \<Rightarrow> (jstr \<times> slot) list \<Rightarrow> nat \<Rightarrow> ((jstr \<times> json) list \<times> nat) option" where
  "takeProps w [] n = Some ([], n)"
| "takeProps w ((k, Data v) # ps) n =
     (case w v n of
        None \<Rightarrow> None
      | Some (j, n') \<Rightarrow> map_option (map_prod (\<lambda>xs. (k, j) # xs) id) (takeProps w ps n'))"
| "takeProps w ((k, _) # ps) n = None"

definition takeNode :: "(jsval \<Rightarrow> nat \<Rightarrow> (json \<times> nat) option) \<Rightarrow> heap \<Rightarrow> jsval \<Rightarrow> nat \<Rightarrow> (json \<times> nat) option" where
  "takeNode w h v nodes =
     (let n = nodes + 1
      in if MAX_EVENT_NODES < n then None
         else case v of
           VNull \<Rightarrow> Some (JNull, n)
         | VBool b \<Rightarrow> Some (JBool b, n)
         | VStr s \<Rightarrow> if length s \<le> MAX_EVENT_STRING then Some (JStr s, n) else None
         | VNum x \<Rightarrow> if isFinite x then Some (JNum x, n) else None
         | VRef a \<Rightarrow>
             (case h a of
                OArray ss \<Rightarrow>
                  if MAX_EVENT_ARRAY < length ss then None
                  else map_option (map_prod JArr id) (takeItems w ss n)
              | OObject ps \<Rightarrow>
                  if MAX_EVENT_KEYS < length ps then None
                  else map_option (map_prod JObj id) (takeProps w ps n))
         | _ \<Rightarrow> None)"

text \<open>The walk with the number of levels it may still enter.\<close>

primrec takeLevels :: "nat \<Rightarrow> heap \<Rightarrow> jsval \<Rightarrow> nat \<Rightarrow> (json \<times> nat) option" where
  "takeLevels 0 h v nodes = None"
| "takeLevels (Suc l) h v nodes = takeNode (takeLevels l h) h v nodes"

definition snapshotValue :: "heap \<Rightarrow> jsval \<Rightarrow> json option" where
  "snapshotValue h v = map_option fst (takeLevels (MAX_EVENT_DEPTH + 1) h v 0)"

section \<open>Field checks\<close>

type_synonym props = "(jstr \<times> json) list"

definition recordOf :: "json option \<Rightarrow> props option" where
  "recordOf v = (case v of Some (JObj ps) \<Rightarrow> Some ps | _ \<Rightarrow> None)"

abbreviation own :: "props \<Rightarrow> string \<Rightarrow> bool" where
  "own ps k \<equiv> map_of ps (js k) \<noteq> None"

definition exact :: "props \<Rightarrow> string list \<Rightarrow> string list \<Rightarrow> bool" where
  "exact ps required optional \<longleftrightarrow>
     list_all (\<lambda>k. own ps k) required \<and> list_all (\<lambda>k. k \<in> set (map js (required @ optional))) (map fst ps)"

definition stringField :: "props \<Rightarrow> string \<Rightarrow> bool \<Rightarrow> bool" where
  "stringField ps k allowEmpty = (case map_of ps (js k) of Some (JStr s) \<Rightarrow> allowEmpty \<or> s \<noteq> [] | _ \<Rightarrow> False)"

definition booleanField :: "props \<Rightarrow> string \<Rightarrow> bool" where
  "booleanField ps k = (case map_of ps (js k) of Some (JBool _) \<Rightarrow> True | _ \<Rightarrow> False)"

definition integerField :: "props \<Rightarrow> string \<Rightarrow> bool \<Rightarrow> bool" where
  "integerField ps k positive =
     (case map_of ps (js k) of
        Some (JNum n) \<Rightarrow> isSafeInteger n \<and> (if positive then jless (Num 0) n else jleq (Num 0) n)
      | _ \<Rightarrow> False)"

definition matches :: "props \<Rightarrow> string \<Rightarrow> (jstr \<Rightarrow> bool) \<Rightarrow> bool" where
  "matches ps k pattern = (case map_of ps (js k) of Some (JStr s) \<Rightarrow> s \<noteq> [] \<and> pattern s | _ \<Rightarrow> False)"

definition hashField :: "props \<Rightarrow> string \<Rightarrow> bool" where
  "hashField ps k = matches ps k isSha256"

definition isContextRef :: "jstr \<Rightarrow> bool" where
  "isContextRef s \<longleftrightarrow> isPrefix (js ''ctx_'') s \<and> isSha256 (drop 4 s)"

definition contextRefField :: "props \<Rightarrow> string \<Rightarrow> bool" where
  "contextRefField ps k = matches ps k isContextRef"

definition optionalField :: "props \<Rightarrow> string \<Rightarrow> bool \<Rightarrow> bool" where
  "optionalField ps k valid \<longleftrightarrow> \<not> own ps k \<or> valid"

definition oneOf :: "props \<Rightarrow> string \<Rightarrow> string list \<Rightarrow> bool" where
  "oneOf ps k values = matches ps k (\<lambda>s. s \<in> set (map js values))"

definition CALL_KINDS :: "string list" where
  "CALL_KINDS = [''llm'', ''agent'', ''recurse'', ''tool'', ''artifact'', ''context'']"

definition COMPLETION_MODES :: "string list" where
  "COMPLETION_MODES = [''answer'', ''fallback_extract'']"

definition FRAME_STATES :: "string list" where
  "FRAME_STATES = [''open'', ''answered'', ''closed'', ''failed'', ''cancelled'']"

definition OPERATION_KINDS :: "string list" where
  "OPERATION_KINDS = [''controller'', ''llm'', ''extractor'', ''agent'']"

definition AGENT_APPROVAL_DECISIONS :: "string list" where
  "AGENT_APPROVAL_DECISIONS = [''allowlisted'', ''approved'', ''denied'']"

definition OPERATION_OUTCOMES :: "string list" where
  "OPERATION_OUTCOMES = [''ok'', ''error'', ''cancelled'', ''invalid_result'']"

definition CHECKPOINT_VERSION :: jstr where
  "CHECKPOINT_VERSION = js ''pi-rlm.checkpoint.v1''"

text \<open>\<open>/^op_[0-9a-f]{64}$/\<close>, \<open>/^cp_[0-9a-f]{64}$/\<close> and \<open>/^[A-Z][A-Z0-9_]{0,63}$/\<close>.\<close>

definition isIntentId :: "jstr \<Rightarrow> bool" where
  "isIntentId s \<longleftrightarrow> isPrefix (js ''op_'') s \<and> isSha256 (drop 3 s)"

definition isCheckpointId :: "jstr \<Rightarrow> bool" where
  "isCheckpointId s \<longleftrightarrow> isPrefix (js ''cp_'') s \<and> isSha256 (drop 3 s)"

definition isErrorCode :: "jstr \<Rightarrow> bool" where
  "isErrorCode s \<longleftrightarrow>
     (case s of
        [] \<Rightarrow> False
      | c # cs \<Rightarrow> 65 \<le> c \<and> c \<le> 90 \<and> length cs \<le> 63
          \<and> list_all (\<lambda>d. (65 \<le> d \<and> d \<le> 90) \<or> isDigit d \<or> d = 95) cs)"

text \<open>\<open>value[key] === literal\<close>.\<close>

definition isText :: "props \<Rightarrow> string \<Rightarrow> jstr \<Rightarrow> bool" where
  "isText ps k s \<longleftrightarrow> map_of ps (js k) = Some (JStr s)"

definition isNum :: "props \<Rightarrow> string \<Rightarrow> jsnum \<Rightarrow> bool" where
  "isNum ps k n \<longleftrightarrow> n \<noteq> NaN \<and> map_of ps (js k) = Some (JNum n)"

text \<open>\<open>value[refKey] === `ctx_${value[hashKey]}`\<close> for string fields.\<close>

definition refMatches :: "props \<Rightarrow> string \<Rightarrow> string \<Rightarrow> bool" where
  "refMatches ps refKey hashKey =
     (case map_of ps (js hashKey) of Some (JStr h) \<Rightarrow> isText ps refKey (js ''ctx_'' @ h) | _ \<Rightarrow> False)"

definition validError :: "json option \<Rightarrow> bool" where
  "validError v =
     (case recordOf v of
        None \<Rightarrow> False
      | Some ps \<Rightarrow> exact ps [''code'', ''message''] [] \<and> stringField ps ''code'' False \<and> stringField ps ''message'' True)"

definition usageCost :: "props \<Rightarrow> bool" where
  "usageCost ps =
     (case map_of ps (js ''costUsd'') of
        Some (JNum n) \<Rightarrow> isFinite n \<and> jleq (Num 0) n \<and> jleq n (Num 1000000000000)
      | _ \<Rightarrow> False)"

definition validUsage :: "json option \<Rightarrow> bool" where
  "validUsage v =
     (case recordOf v of
        None \<Rightarrow> False
      | Some ps \<Rightarrow>
          exact ps [''attempts'', ''durationMs''] [''inputTokens'', ''outputTokens'', ''totalTokens'', ''costUsd'']
          \<and> integerField ps ''attempts'' False \<and> integerField ps ''durationMs'' False
          \<and> list_all (\<lambda>k. optionalField ps k (integerField ps k False)) [''inputTokens'', ''outputTokens'', ''totalTokens'']
          \<and> optionalField ps ''costUsd'' (usageCost ps))"

definition validLimits :: "json option \<Rightarrow> bool" where
  "validLimits v =
     (case recordOf v of
        None \<Rightarrow> False
      | Some ps \<Rightarrow>
          exact ps [''maxDepth'', ''maxFrames'', ''maxLogicalCalls'', ''maxAttempts'', ''maxControllerTurns'',
                    ''maxConcurrency'', ''storedByteLimit'', ''deadlineMs''] [''tokenLimit'']
          \<and> integerField ps ''maxDepth'' False \<and> integerField ps ''maxFrames'' True
          \<and> integerField ps ''maxLogicalCalls'' False \<and> integerField ps ''maxAttempts'' False
          \<and> integerField ps ''maxControllerTurns'' False \<and> integerField ps ''maxConcurrency'' True
          \<and> integerField ps ''storedByteLimit'' False \<and> integerField ps ''deadlineMs'' False
          \<and> optionalField ps ''tokenLimit'' (integerField ps ''tokenLimit'' False))"

definition validInputRef :: "json \<Rightarrow> bool" where
  "validInputRef v =
     (case recordOf (Some v) of
        None \<Rightarrow> False
      | Some ps \<Rightarrow> exact ps [''name'', ''id'', ''sha256'', ''bytes''] [] \<and> stringField ps ''name'' False
          \<and> contextRefField ps ''id'' \<and> hashField ps ''sha256'' \<and> integerField ps ''bytes'' False
          \<and> refMatches ps ''id'' ''sha256'')"

definition validInputRefs :: "json option \<Rightarrow> bool" where
  "validInputRefs v = (case v of Some (JArr vs) \<Rightarrow> list_all validInputRef vs | _ \<Rightarrow> False)"

definition validStringArray :: "json option \<Rightarrow> bool" where
  "validStringArray v =
     (case v of Some (JArr vs) \<Rightarrow> list_all (\<lambda>x. case x of JStr s \<Rightarrow> s \<noteq> [] | _ \<Rightarrow> False) vs | _ \<Rightarrow> False)"

definition validOperationReservation :: "json option \<Rightarrow> bool" where
  "validOperationReservation v =
     (case recordOf v of
        None \<Rightarrow> False
      | Some ps \<Rightarrow> exact ps [''logicalCalls'', ''attempts'', ''tokens''] []
          \<and> (isNum ps ''logicalCalls'' (Num 0) \<or> isNum ps ''logicalCalls'' (Num 1))
          \<and> isNum ps ''attempts'' (Num 1) \<and> integerField ps ''tokens'' False
          \<and> (case map_of ps (js ''tokens'') of Some (JNum n) \<Rightarrow> jleq n MAX_CALL_TOKENS | _ \<Rightarrow> False))"

definition validOptionalOutput :: "props \<Rightarrow> string \<Rightarrow> string \<Rightarrow> string \<Rightarrow> bool" where
  "validOptionalOutput ps refKey hashKey bytesKey =
     (let count = length (filter (\<lambda>k. own ps k) [refKey, hashKey, bytesKey])
      in count = 0 \<or> (count = 1 \<and> own ps refKey \<and> contextRefField ps refKey)
         \<or> (count = 3 \<and> contextRefField ps refKey \<and> hashField ps hashKey \<and> integerField ps bytesKey False
            \<and> refMatches ps refKey hashKey))"

section \<open>Event types\<close>

definition validRunStarted :: "props \<Rightarrow> bool" where
  "validRunStarted ps \<longleftrightarrow>
     exact ps [''type'', ''runId'', ''manifestHash'', ''limits''] [''inputRefs''] \<and> stringField ps ''runId'' False
     \<and> hashField ps ''manifestHash'' \<and> validLimits (map_of ps (js ''limits''))
     \<and> optionalField ps ''inputRefs'' (validInputRefs (map_of ps (js ''inputRefs'')))"

definition validFrameOpened :: "props \<Rightarrow> bool" where
  "validFrameOpened ps \<longleftrightarrow>
     exact ps [''type'', ''frameId'', ''parentFrameId'', ''depth'', ''objective''] [] \<and> stringField ps ''frameId'' False
     \<and> (map_of ps (js ''parentFrameId'') = Some JNull \<or> stringField ps ''parentFrameId'' True)
     \<and> integerField ps ''depth'' False \<and> stringField ps ''objective'' True"

definition validProgress :: "props \<Rightarrow> string \<Rightarrow> bool" where
  "validProgress ps payload \<longleftrightarrow>
     exact ps [''type'', ''frameId'', ''iteration'', ''ordinal'', payload] [] \<and> stringField ps ''frameId'' False
     \<and> integerField ps ''iteration'' True \<and> integerField ps ''ordinal'' False \<and> stringField ps payload True"

definition validKeyBound :: "props \<Rightarrow> bool" where
  "validKeyBound ps \<longleftrightarrow>
     exact ps [''type'', ''frameId'', ''kind'', ''key'', ''identityHash''] [] \<and> stringField ps ''frameId'' False
     \<and> oneOf ps ''kind'' CALL_KINDS \<and> stringField ps ''key'' True \<and> hashField ps ''identityHash''"

definition validAgentApproval :: "props \<Rightarrow> bool" where
  "validAgentApproval ps \<longleftrightarrow>
     exact ps [''type'', ''frameId'', ''callId'', ''agent'', ''policyId'', ''decision''] []
     \<and> stringField ps ''frameId'' False \<and> stringField ps ''callId'' False \<and> stringField ps ''agent'' False
     \<and> stringField ps ''policyId'' False \<and> oneOf ps ''decision'' AGENT_APPROVAL_DECISIONS"

definition validCellCommitted :: "props \<Rightarrow> bool" where
  "validCellCommitted ps \<longleftrightarrow>
     exact ps [''type'', ''frameId'', ''iteration'', ''reasoning'', ''codeHash'', ''hasResult'', ''outputPreview'']
       [''outputBytes'', ''outputOmittedBytes'', ''usage'', ''outputRef'', ''outputRefSha256'', ''outputRefBytes'', ''error'']
     \<and> stringField ps ''frameId'' False \<and> integerField ps ''iteration'' True \<and> stringField ps ''reasoning'' True
     \<and> hashField ps ''codeHash'' \<and> booleanField ps ''hasResult'' \<and> stringField ps ''outputPreview'' True
     \<and> optionalField ps ''outputBytes'' (integerField ps ''outputBytes'' False)
     \<and> optionalField ps ''outputOmittedBytes'' (integerField ps ''outputOmittedBytes'' False)
     \<and> optionalField ps ''usage'' (validUsage (map_of ps (js ''usage'')))
     \<and> optionalField ps ''error'' (validError (map_of ps (js ''error'')))
     \<and> validOptionalOutput ps ''outputRef'' ''outputRefSha256'' ''outputRefBytes''"

definition validWorkspaceCommitted :: "props \<Rightarrow> bool" where
  "validWorkspaceCommitted ps \<longleftrightarrow>
     exact ps [''type'', ''frameId'', ''iteration'', ''workspaceRef'', ''workspaceSha256'', ''workspaceBytes''] []
     \<and> stringField ps ''frameId'' False \<and> integerField ps ''iteration'' True \<and> contextRefField ps ''workspaceRef''
     \<and> hashField ps ''workspaceSha256'' \<and> integerField ps ''workspaceBytes'' False
     \<and> refMatches ps ''workspaceRef'' ''workspaceSha256''"

definition validEvidenceProjected :: "props \<Rightarrow> bool" where
  "validEvidenceProjected ps \<longleftrightarrow>
     exact ps [''type'', ''frameId'', ''projectionVersion'', ''projectionHash'', ''projectedBytes'', ''maxBytes'',
               ''omittedBytes'', ''omittedItems'', ''truncatedItems'', ''evidenceIdCount'', ''evidenceIdsHash'', ''truncated''] []
     \<and> stringField ps ''frameId'' False \<and> stringField ps ''projectionVersion'' False \<and> hashField ps ''projectionHash''
     \<and> integerField ps ''projectedBytes'' False \<and> integerField ps ''maxBytes'' False
     \<and> integerField ps ''omittedBytes'' False \<and> integerField ps ''omittedItems'' False
     \<and> integerField ps ''truncatedItems'' False \<and> integerField ps ''evidenceIdCount'' False
     \<and> hashField ps ''evidenceIdsHash'' \<and> booleanField ps ''truncated''"

definition validEvidenceCited :: "props \<Rightarrow> bool" where
  "validEvidenceCited ps \<longleftrightarrow>
     exact ps [''type'', ''frameId'', ''evidenceRefs'', ''evidenceRefsHash''] [] \<and> stringField ps ''frameId'' False
     \<and> validStringArray (map_of ps (js ''evidenceRefs'')) \<and> hashField ps ''evidenceRefsHash''"

text \<open>The identity read back from an intent event whose fields passed the checks.\<close>

definition textOf :: "props \<Rightarrow> string \<Rightarrow> jstr" where
  "textOf ps k = (case map_of ps (js k) of Some (JStr s) \<Rightarrow> s | _ \<Rightarrow> [])"

definition numOf :: "props \<Rightarrow> string \<Rightarrow> jsnum" where
  "numOf ps k = (case map_of ps (js k) of Some (JNum n) \<Rightarrow> n | _ \<Rightarrow> NaN)"

definition kindOf :: "jstr \<Rightarrow> operation_kind" where
  "kindOf s = (if s = js ''controller'' then OpController else if s = js ''llm'' then OpLlm
     else if s = js ''extractor'' then OpExtractor else OpAgent)"

definition reservationOf :: "props \<Rightarrow> operation_reservation" where
  "reservationOf ps =
     \<lparr>resLogicalCalls = numOf ps ''logicalCalls'', resAttempts = numOf ps ''attempts'', resTokens = numOf ps ''tokens''\<rparr>"

definition intentIdentity :: "props \<Rightarrow> operation_identity" where
  "intentIdentity ps =
     \<lparr>oiSchemaVersion = OPERATION_JOURNAL_SCHEMA_VERSION, oiRunId = textOf ps ''runId'', oiFrameId = textOf ps ''frameId'',
      oiOperationId = textOf ps ''operationId'', oiKind = kindOf (textOf ps ''kind''), oiKey = textOf ps ''key'',
      oiAttempt = numOf ps ''attempt'', oiRequestIdentityVersion = textOf ps ''requestIdentityVersion'',
      oiRequestSha256 = textOf ps ''requestSha256'',
      oiReservation = (case recordOf (map_of ps (js ''reservation'')) of
                         Some rs \<Rightarrow> reservationOf rs | None \<Rightarrow> reservationOf [])\<rparr>"

definition validOperationIntended :: "hasher \<Rightarrow> props \<Rightarrow> bool" where
  "validOperationIntended hasher ps \<longleftrightarrow>
     exact ps [''type'', ''schemaVersion'', ''runId'', ''frameId'', ''operationId'', ''kind'', ''key'', ''attempt'',
               ''requestIdentityVersion'', ''requestSha256'', ''reservation'', ''intentId''] []
     \<and> isNum ps ''schemaVersion'' OPERATION_JOURNAL_SCHEMA_VERSION
     \<and> stringField ps ''runId'' False \<and> stringField ps ''frameId'' False \<and> stringField ps ''operationId'' False
     \<and> oneOf ps ''kind'' OPERATION_KINDS \<and> stringField ps ''key'' True \<and> integerField ps ''attempt'' True
     \<and> stringField ps ''requestIdentityVersion'' False \<and> hashField ps ''requestSha256''
     \<and> validOperationReservation (map_of ps (js ''reservation'')) \<and> matches ps ''intentId'' isIntentId
     \<and> operationRequestVersionAllowed (kindOf (textOf ps ''kind'')) (textOf ps ''requestIdentityVersion'')
     \<and> deriveOperationIntentId hasher (intentIdentity ps) = Inr (textOf ps ''intentId'')"

definition validOperationSettled :: "props \<Rightarrow> bool" where
  "validOperationSettled ps \<longleftrightarrow>
     exact ps [''type'', ''schemaVersion'', ''runId'', ''frameId'', ''intentId'', ''outcome'', ''usage''] [''errorCode'']
     \<and> isNum ps ''schemaVersion'' OPERATION_JOURNAL_SCHEMA_VERSION
     \<and> stringField ps ''runId'' False \<and> stringField ps ''frameId'' False \<and> matches ps ''intentId'' isIntentId
     \<and> oneOf ps ''outcome'' OPERATION_OUTCOMES \<and> validUsage (map_of ps (js ''usage''))
     \<and> (case recordOf (map_of ps (js ''usage'')) of Some us \<Rightarrow> isNum us ''attempts'' (Num 1) | None \<Rightarrow> False)
     \<and> (if isText ps ''outcome'' (js ''ok'') then \<not> own ps ''errorCode''
        else own ps ''errorCode'' \<and> matches ps ''errorCode'' isErrorCode)"

definition validCheckpointCommitted :: "props \<Rightarrow> bool" where
  "validCheckpointCommitted ps \<longleftrightarrow>
     exact ps [''type'', ''schemaVersion'', ''checkpointVersion'', ''checkpointId'', ''runId'', ''frameId'', ''manifestHash'',
               ''checkpointSequence'', ''checkpointRef'', ''checkpointSha256'', ''checkpointBytes'', ''journalPrefixSha256'',
               ''journalPrefixBytes'', ''journalPrefixEventCount'', ''nextIteration'', ''nextControllerTurn''] []
     \<and> isNum ps ''schemaVersion'' (Num 1) \<and> isText ps ''checkpointVersion'' CHECKPOINT_VERSION
     \<and> matches ps ''checkpointId'' isCheckpointId \<and> stringField ps ''runId'' False \<and> stringField ps ''frameId'' False
     \<and> hashField ps ''manifestHash'' \<and> integerField ps ''checkpointSequence'' True \<and> contextRefField ps ''checkpointRef''
     \<and> hashField ps ''checkpointSha256'' \<and> integerField ps ''checkpointBytes'' False
     \<and> refMatches ps ''checkpointRef'' ''checkpointSha256'' \<and> hashField ps ''journalPrefixSha256''
     \<and> integerField ps ''journalPrefixBytes'' False \<and> integerField ps ''journalPrefixEventCount'' True
     \<and> integerField ps ''nextIteration'' True \<and> integerField ps ''nextControllerTurn'' True"

definition validCallCommitted :: "props \<Rightarrow> bool" where
  "validCallCommitted ps \<longleftrightarrow>
     exact ps [''type'', ''frameId'', ''callId'', ''kind'', ''key'', ''cached'', ''ok'', ''usage'']
       [''outputRef'', ''outputSha256'', ''outputBytes'']
     \<and> stringField ps ''frameId'' False \<and> stringField ps ''callId'' False \<and> oneOf ps ''kind'' CALL_KINDS
     \<and> stringField ps ''key'' True \<and> booleanField ps ''cached'' \<and> booleanField ps ''ok''
     \<and> validUsage (map_of ps (js ''usage'')) \<and> validOptionalOutput ps ''outputRef'' ''outputSha256'' ''outputBytes''"

definition validAnswerCommitted :: "props \<Rightarrow> bool" where
  "validAnswerCommitted ps \<longleftrightarrow>
     exact ps [''type'', ''frameId'', ''completionMode'', ''outputRef''] [''outputSha256'', ''outputBytes'']
     \<and> stringField ps ''frameId'' False \<and> oneOf ps ''completionMode'' COMPLETION_MODES \<and> contextRefField ps ''outputRef''
     \<and> ((\<not> own ps ''outputSha256'' \<and> \<not> own ps ''outputBytes'')
        \<or> (own ps ''outputSha256'' \<and> own ps ''outputBytes'' \<and> hashField ps ''outputSha256''
           \<and> integerField ps ''outputBytes'' False \<and> refMatches ps ''outputRef'' ''outputSha256''))"

definition validFrameClosed :: "props \<Rightarrow> bool" where
  "validFrameClosed ps \<longleftrightarrow>
     exact ps [''type'', ''frameId'', ''state''] [] \<and> stringField ps ''frameId'' False \<and> oneOf ps ''state'' FRAME_STATES"

definition validRunCompleted :: "props \<Rightarrow> bool" where
  "validRunCompleted ps \<longleftrightarrow>
     exact ps [''type'', ''runId'', ''completionMode''] [''outputRef''] \<and> stringField ps ''runId'' False
     \<and> oneOf ps ''completionMode'' COMPLETION_MODES
     \<and> optionalField ps ''outputRef'' (contextRefField ps ''outputRef'')"

definition validRunFailed :: "props \<Rightarrow> bool" where
  "validRunFailed ps \<longleftrightarrow>
     exact ps [''type'', ''runId'', ''code'', ''message''] [] \<and> stringField ps ''runId'' False
     \<and> stringField ps ''code'' False \<and> stringField ps ''message'' True"

definition validRunCancelled :: "props \<Rightarrow> bool" where
  "validRunCancelled ps \<longleftrightarrow>
     exact ps [''type'', ''runId'', ''code'', ''message''] [] \<and> stringField ps ''runId'' False
     \<and> isText ps ''code'' (js ''CANCELLED'') \<and> stringField ps ''message'' True"

text \<open>The dispatch on the event type.\<close>

definition validators :: "hasher \<Rightarrow> (string \<times> (props \<Rightarrow> bool)) list" where
  "validators hasher =
     [(''run_started'', validRunStarted), (''frame_opened'', validFrameOpened),
      (''phase'', \<lambda>ps. validProgress ps ''name''), (''emit'', \<lambda>ps. validProgress ps ''message''),
      (''key_bound'', validKeyBound), (''agent_approval'', validAgentApproval), (''cell_committed'', validCellCommitted),
      (''workspace_committed'', validWorkspaceCommitted), (''fallback_evidence_projected'', validEvidenceProjected),
      (''fallback_evidence_cited'', validEvidenceCited), (''operation_intended'', validOperationIntended hasher),
      (''operation_settled'', validOperationSettled), (''checkpoint_committed'', validCheckpointCommitted),
      (''call_committed'', validCallCommitted), (''answer_committed'', validAnswerCommitted),
      (''frame_closed'', validFrameClosed), (''run_completed'', validRunCompleted), (''run_failed'', validRunFailed),
      (''run_cancelled'', validRunCancelled)]"

definition validEvent :: "hasher \<Rightarrow> props \<Rightarrow> bool" where
  "validEvent hasher ps \<longleftrightarrow>
     stringField ps ''type'' False
     \<and> (case map_of (map (map_prod js id) (validators hasher)) (textOf ps ''type'') of
          Some valid \<Rightarrow> valid ps | None \<Rightarrow> False)"

definition invalidEvent :: interpreter_error where
  "invalidEvent = InterpreterError JOURNAL_CORRUPT (js ''invalid journal event'')"

definition parseRlmEvent :: "hasher \<Rightarrow> heap \<Rightarrow> jsval \<Rightarrow> interpreter_error + props" where
  "parseRlmEvent hasher h input =
     (case recordOf (snapshotValue h input) of
        Some event \<Rightarrow> if validEvent hasher event then Inr event else Inl invalidEvent
      | None \<Rightarrow> Inl invalidEvent)"

section \<open>Typed events as objects\<close>

definition opt :: "string \<Rightarrow> ('a \<Rightarrow> json) \<Rightarrow> 'a option \<Rightarrow> props" where
  "opt k enc v = (case v of None \<Rightarrow> [] | Some x \<Rightarrow> [(js k, enc x)])"

definition usageProps :: "call_usage \<Rightarrow> props" where
  "usageProps u =
     [(js ''attempts'', JNum (uAttempts u))] @ opt ''inputTokens'' JNum (uInputTokens u)
     @ opt ''outputTokens'' JNum (uOutputTokens u) @ opt ''totalTokens'' JNum (uTotalTokens u)
     @ opt ''costUsd'' JNum (uCostUsd u) @ [(js ''durationMs'', JNum (uDurationMs u))]"

definition limitsFields :: "budget_limits \<Rightarrow> props" where
  "limitsFields ls =
     [(js ''maxDepth'', JNum (maxDepth ls)), (js ''maxFrames'', JNum (maxFrames ls)),
      (js ''maxLogicalCalls'', JNum (maxLogicalCalls ls)), (js ''maxAttempts'', JNum (maxAttempts ls)),
      (js ''maxControllerTurns'', JNum (maxControllerTurns ls)), (js ''maxConcurrency'', JNum (maxConcurrency ls))]
     @ opt ''tokenLimit'' JNum (tokenLimit ls)
     @ [(js ''storedByteLimit'', JNum (storedByteLimit ls)), (js ''deadlineMs'', JNum (deadlineMs ls))]"

definition inputRefJson :: "input_ref \<Rightarrow> json" where
  "inputRefJson r = JObj [(js ''name'', JStr (irName r)), (js ''id'', JStr (irId r)), (js ''sha256'', JStr (irSha256 r)),
     (js ''bytes'', JNum (irBytes r))]"

definition modeText :: "completion_mode \<Rightarrow> string" where
  "modeText m = (case m of ModeAnswer \<Rightarrow> ''answer'' | ModeFallbackExtract \<Rightarrow> ''fallback_extract'')"

definition frameStateText :: "frame_state \<Rightarrow> string" where
  "frameStateText st = (case st of FrameOpen \<Rightarrow> ''open'' | FrameAnswered \<Rightarrow> ''answered'' | FrameClosed \<Rightarrow> ''closed''
     | FrameFailed \<Rightarrow> ''failed'' | FrameCancelled \<Rightarrow> ''cancelled'')"

definition decisionText :: "approval_decision \<Rightarrow> string" where
  "decisionText d = (case d of Allowlisted \<Rightarrow> ''allowlisted'' | Approved \<Rightarrow> ''approved'' | Denied \<Rightarrow> ''denied'')"

definition outcomeText :: "operation_outcome \<Rightarrow> string" where
  "outcomeText out = (case out of OutOk \<Rightarrow> ''ok'' | OutError \<Rightarrow> ''error'' | OutCancelled \<Rightarrow> ''cancelled''
     | OutInvalidResult \<Rightarrow> ''invalid_result'')"

definition textField :: "string \<Rightarrow> jstr \<Rightarrow> jstr \<times> json" where
  "textField k s = (js k, JStr s)"

definition numField :: "string \<Rightarrow> jsnum \<Rightarrow> jstr \<times> json" where
  "numField k n = (js k, JNum n)"

definition natField :: "string \<Rightarrow> nat \<Rightarrow> jstr \<times> json" where
  "natField k n = (js k, JNum (JI (int n)))"

definition boolField :: "string \<Rightarrow> bool \<Rightarrow> jstr \<times> json" where
  "boolField k b = (js k, JBool b)"

lemmas field_defs = textField_def numField_def natField_def boolField_def

fun eventFields :: "rlm_event \<Rightarrow> props" where
  "eventFields (RunStarted runId mh ls refs) =
     [textField ''type'' (js ''run_started''), textField ''runId'' runId, textField ''manifestHash'' mh,
      (js ''limits'', JObj (limitsFields ls))] @ opt ''inputRefs'' (\<lambda>rs. JArr (map inputRefJson rs)) refs"
| "eventFields (FrameOpened i parent depth objective) =
     [textField ''type'' (js ''frame_opened''), textField ''frameId'' i,
      (js ''parentFrameId'', case parent of None \<Rightarrow> JNull | Some p \<Rightarrow> JStr p), numField ''depth'' depth,
      textField ''objective'' objective]"
| "eventFields (Phase i iteration ordinal name) =
     [textField ''type'' (js ''phase''), textField ''frameId'' i, natField ''iteration'' iteration,
      natField ''ordinal'' ordinal, textField ''name'' name]"
| "eventFields (Emit i iteration ordinal message) =
     [textField ''type'' (js ''emit''), textField ''frameId'' i, natField ''iteration'' iteration,
      natField ''ordinal'' ordinal, textField ''message'' message]"
| "eventFields (KeyBound i kind key identity) =
     [textField ''type'' (js ''key_bound''), textField ''frameId'' i, textField ''kind'' (kindText kind),
      textField ''key'' key, textField ''identityHash'' identity]"
| "eventFields (AgentApproval i callId agent policy decision) =
     [textField ''type'' (js ''agent_approval''), textField ''frameId'' i, textField ''callId'' callId,
      textField ''agent'' agent, textField ''policyId'' policy, textField ''decision'' (js (decisionText decision))]"
| "eventFields (CellCommitted c) =
     [textField ''type'' (js ''cell_committed''), textField ''frameId'' (ccFrameId c), natField ''iteration'' (ccIteration c),
      textField ''reasoning'' (ccReasoning c), textField ''codeHash'' (ccCodeHash c), boolField ''hasResult'' (ccHasResult c),
      textField ''outputPreview'' (ccOutputPreview c)]
     @ opt ''outputBytes'' JNum (ccOutputBytes c) @ opt ''outputOmittedBytes'' JNum (ccOutputOmittedBytes c)
     @ opt ''usage'' (\<lambda>u. JObj (usageProps u)) (ccUsage c) @ opt ''outputRef'' JStr (ccOutputRef c)
     @ opt ''outputRefSha256'' JStr (ccOutputRefSha256 c) @ opt ''outputRefBytes'' JNum (ccOutputRefBytes c)
     @ opt ''error'' (\<lambda>e. JObj [textField ''code'' (eeCode e), textField ''message'' (eeMessage e)]) (ccError c)"
| "eventFields (WorkspaceCommitted w) =
     [textField ''type'' (js ''workspace_committed''), textField ''frameId'' (wcFrameId w),
      natField ''iteration'' (wcIteration w), textField ''workspaceRef'' (wcWorkspaceRef w),
      textField ''workspaceSha256'' (wcWorkspaceSha256 w), numField ''workspaceBytes'' (wcWorkspaceBytes w)]"
| "eventFields (EvidenceProjected p) =
     [textField ''type'' (js ''fallback_evidence_projected''), textField ''frameId'' (epFrameId p),
      textField ''projectionVersion'' (epProjectionVersion p), textField ''projectionHash'' (epProjectionHash p),
      numField ''projectedBytes'' (epProjectedBytes p), numField ''maxBytes'' (epMaxBytes p),
      numField ''omittedBytes'' (epOmittedBytes p), numField ''omittedItems'' (epOmittedItems p),
      numField ''truncatedItems'' (epTruncatedItems p), numField ''evidenceIdCount'' (epEvidenceIdCount p),
      textField ''evidenceIdsHash'' (epEvidenceIdsHash p), boolField ''truncated'' (epTruncated p)]"
| "eventFields (EvidenceCited i refs h) =
     [textField ''type'' (js ''fallback_evidence_cited''), textField ''frameId'' i, (js ''evidenceRefs'', JArr (map JStr refs)),
      textField ''evidenceRefsHash'' h]"
| "eventFields (OperationIntended x) =
     [textField ''type'' (js ''operation_intended''), numField ''schemaVersion'' (oiSchemaVersion x),
      textField ''runId'' (oiRunId x), textField ''frameId'' (oiFrameId x), textField ''operationId'' (oiOperationId x),
      textField ''kind'' (operationKindText (oiKind x)), textField ''key'' (oiKey x), numField ''attempt'' (oiAttempt x),
      textField ''requestIdentityVersion'' (oiRequestIdentityVersion x), textField ''requestSha256'' (oiRequestSha256 x),
      (js ''reservation'', JObj [numField ''logicalCalls'' (resLogicalCalls (oiReservation x)),
         numField ''attempts'' (resAttempts (oiReservation x)), numField ''tokens'' (resTokens (oiReservation x))]),
      textField ''intentId'' (oiIntentId x)]"
| "eventFields (OperationSettled x) =
     [textField ''type'' (js ''operation_settled''), numField ''schemaVersion'' (osSchemaVersion x),
      textField ''runId'' (osRunId x), textField ''frameId'' (osFrameId x), textField ''intentId'' (osIntentId x),
      textField ''outcome'' (js (outcomeText (osOutcome x))), (js ''usage'', JObj (usageProps (osUsage x)))]
     @ opt ''errorCode'' JStr (osErrorCode x)"
| "eventFields (CheckpointCommitted c) =
     [textField ''type'' (js ''checkpoint_committed''), numField ''schemaVersion'' (Num 1),
      textField ''checkpointVersion'' CHECKPOINT_VERSION, textField ''checkpointId'' (ckCheckpointId c),
      textField ''runId'' (ckRunId c), textField ''frameId'' (ckFrameId c), textField ''manifestHash'' (ckManifestHash c),
      numField ''checkpointSequence'' (ckCheckpointSequence c), textField ''checkpointRef'' (ckCheckpointRef c),
      textField ''checkpointSha256'' (ckCheckpointSha256 c), numField ''checkpointBytes'' (ckCheckpointBytes c),
      textField ''journalPrefixSha256'' (ckJournalPrefixSha256 c), numField ''journalPrefixBytes'' (ckJournalPrefixBytes c),
      numField ''journalPrefixEventCount'' (ckJournalPrefixEventCount c), numField ''nextIteration'' (ckNextIteration c),
      numField ''nextControllerTurn'' (ckNextControllerTurn c)]"
| "eventFields (CallCommitted c) =
     [textField ''type'' (js ''call_committed''), textField ''frameId'' (clFrameId c), textField ''callId'' (clCallId c),
      textField ''kind'' (kindText (clKind c)), textField ''key'' (clKey c), boolField ''cached'' (clCached c),
      boolField ''ok'' (clOk c), (js ''usage'', JObj (usageProps (clUsage c)))]
     @ opt ''outputRef'' JStr (clOutputRef c) @ opt ''outputSha256'' JStr (clOutputSha256 c)
     @ opt ''outputBytes'' JNum (clOutputBytes c)"
| "eventFields (AnswerCommitted i mode ref h b) =
     [textField ''type'' (js ''answer_committed''), textField ''frameId'' i, textField ''completionMode'' (js (modeText mode)),
      textField ''outputRef'' ref] @ opt ''outputSha256'' JStr h @ opt ''outputBytes'' JNum b"
| "eventFields (FrameClosedEvent i st) =
     [textField ''type'' (js ''frame_closed''), textField ''frameId'' i, textField ''state'' (js (frameStateText st))]"
| "eventFields (RunCompleted runId mode ref) =
     [textField ''type'' (js ''run_completed''), textField ''runId'' runId, textField ''completionMode'' (js (modeText mode))]
     @ opt ''outputRef'' JStr ref"
| "eventFields (RunFailed runId code message) =
     [textField ''type'' (js ''run_failed''), textField ''runId'' runId, textField ''code'' code, textField ''message'' message]"
| "eventFields (RunCancelled runId message) =
     [textField ''type'' (js ''run_cancelled''), textField ''runId'' runId, textField ''code'' (js ''CANCELLED''),
      textField ''message'' message]"

section \<open>Well-formed typed events\<close>

definition isPositiveCount :: "jsnum \<Rightarrow> bool" where
  "isPositiveCount n \<longleftrightarrow> isCount n \<and> 0 < jint n"

definition isNatCount :: "nat \<Rightarrow> bool" where
  "isNatCount n \<longleftrightarrow> int n \<le> MAX_SAFE_INTEGER"

definition usageWellFormed :: "call_usage \<Rightarrow> bool" where
  "usageWellFormed u \<longleftrightarrow>
     isCount (uAttempts u) \<and> isCount (uDurationMs u) \<and> pred_option isCount (uInputTokens u)
     \<and> pred_option isCount (uOutputTokens u) \<and> pred_option isCount (uTotalTokens u)
     \<and> pred_option (\<lambda>c. isFinite c \<and> jleq (Num 0) c \<and> jleq c (Num 1000000000000)) (uCostUsd u)"

definition limitsWellFormed :: "budget_limits \<Rightarrow> bool" where
  "limitsWellFormed ls \<longleftrightarrow>
     list_all isCount [maxDepth ls, maxLogicalCalls ls, maxAttempts ls, maxControllerTurns ls, storedByteLimit ls, deadlineMs ls]
     \<and> isPositiveCount (maxFrames ls) \<and> isPositiveCount (maxConcurrency ls) \<and> pred_option isCount (tokenLimit ls)"

definition contentOk :: "jstr \<Rightarrow> jstr \<Rightarrow> jsnum \<Rightarrow> bool" where
  "contentOk ref h b \<longleftrightarrow> isSha256 h \<and> ref = js ''ctx_'' @ h \<and> isCount b"

text \<open>An output reference comes alone or with its hash and size.\<close>

definition outputOk :: "jstr option \<Rightarrow> jstr option \<Rightarrow> jsnum option \<Rightarrow> bool" where
  "outputOk ref h b =
     (case (ref, h, b) of
        (None, None, None) \<Rightarrow> True
      | (Some r, None, None) \<Rightarrow> isContextRef r
      | (Some r, Some d, Some n) \<Rightarrow> contentOk r d n
      | _ \<Rightarrow> False)"

fun eventOk :: "hasher \<Rightarrow> rlm_event \<Rightarrow> bool" where
  "eventOk hasher (RunStarted runId mh ls refs) \<longleftrightarrow>
     runId \<noteq> [] \<and> isSha256 mh \<and> limitsWellFormed ls
     \<and> pred_option (list_all (\<lambda>r. irName r \<noteq> [] \<and> contentOk (irId r) (irSha256 r) (irBytes r))) refs"
| "eventOk hasher (FrameOpened i parent depth objective) \<longleftrightarrow> i \<noteq> [] \<and> isCount depth"
| "eventOk hasher (Phase i iteration ordinal name) \<longleftrightarrow> i \<noteq> [] \<and> 0 < iteration \<and> isNatCount iteration \<and> isNatCount ordinal"
| "eventOk hasher (Emit i iteration ordinal message) \<longleftrightarrow> i \<noteq> [] \<and> 0 < iteration \<and> isNatCount iteration \<and> isNatCount ordinal"
| "eventOk hasher (KeyBound i kind key identity) \<longleftrightarrow> i \<noteq> [] \<and> isSha256 identity"
| "eventOk hasher (AgentApproval i callId agent policy decision) \<longleftrightarrow> i \<noteq> [] \<and> callId \<noteq> [] \<and> agent \<noteq> [] \<and> policy \<noteq> []"
| "eventOk hasher (CellCommitted c) \<longleftrightarrow>
     ccFrameId c \<noteq> [] \<and> 0 < ccIteration c \<and> isNatCount (ccIteration c) \<and> isSha256 (ccCodeHash c)
     \<and> pred_option isCount (ccOutputBytes c) \<and> pred_option isCount (ccOutputOmittedBytes c)
     \<and> pred_option usageWellFormed (ccUsage c) \<and> pred_option (\<lambda>e. eeCode e \<noteq> []) (ccError c)
     \<and> outputOk (ccOutputRef c) (ccOutputRefSha256 c) (ccOutputRefBytes c)"
| "eventOk hasher (WorkspaceCommitted w) \<longleftrightarrow>
     wcFrameId w \<noteq> [] \<and> 0 < wcIteration w \<and> isNatCount (wcIteration w)
     \<and> contentOk (wcWorkspaceRef w) (wcWorkspaceSha256 w) (wcWorkspaceBytes w)"
| "eventOk hasher (EvidenceProjected p) \<longleftrightarrow>
     epFrameId p \<noteq> [] \<and> epProjectionVersion p \<noteq> [] \<and> isSha256 (epProjectionHash p) \<and> isSha256 (epEvidenceIdsHash p)
     \<and> list_all isCount [epProjectedBytes p, epMaxBytes p, epOmittedBytes p, epOmittedItems p, epTruncatedItems p,
          epEvidenceIdCount p]"
| "eventOk hasher (EvidenceCited i refs h) \<longleftrightarrow> i \<noteq> [] \<and> list_all (\<lambda>r. r \<noteq> []) refs \<and> isSha256 h"
| "eventOk hasher (OperationIntended x) \<longleftrightarrow>
     oiSchemaVersion x = OPERATION_JOURNAL_SCHEMA_VERSION \<and> oiRunId x \<noteq> [] \<and> oiFrameId x \<noteq> [] \<and> oiOperationId x \<noteq> []
     \<and> isPositiveCount (oiAttempt x) \<and> isSha256 (oiRequestSha256 x)
     \<and> operationRequestVersionAllowed (oiKind x) (oiRequestIdentityVersion x)
     \<and> resLogicalCalls (oiReservation x) \<in> {Num 0, Num 1} \<and> resAttempts (oiReservation x) = Num 1
     \<and> isCount (resTokens (oiReservation x)) \<and> jleq (resTokens (oiReservation x)) MAX_CALL_TOKENS
     \<and> isIntentId (oiIntentId x)
     \<and> deriveOperationIntentId hasher (operation_identity.truncate x) = Inr (oiIntentId x)"
| "eventOk hasher (OperationSettled x) \<longleftrightarrow>
     osSchemaVersion x = OPERATION_JOURNAL_SCHEMA_VERSION \<and> osRunId x \<noteq> [] \<and> osFrameId x \<noteq> []
     \<and> isIntentId (osIntentId x) \<and> usageWellFormed (osUsage x) \<and> uAttempts (osUsage x) = Num 1
     \<and> (case osErrorCode x of None \<Rightarrow> osOutcome x = OutOk | Some c \<Rightarrow> osOutcome x \<noteq> OutOk \<and> isErrorCode c)"
| "eventOk hasher (CheckpointCommitted c) \<longleftrightarrow>
     isCheckpointId (ckCheckpointId c) \<and> ckRunId c \<noteq> [] \<and> ckFrameId c \<noteq> [] \<and> isSha256 (ckManifestHash c)
     \<and> contentOk (ckCheckpointRef c) (ckCheckpointSha256 c) (ckCheckpointBytes c) \<and> isSha256 (ckJournalPrefixSha256 c)
     \<and> isCount (ckJournalPrefixBytes c)
     \<and> list_all isPositiveCount [ckCheckpointSequence c, ckJournalPrefixEventCount c, ckNextIteration c, ckNextControllerTurn c]"
| "eventOk hasher (CallCommitted c) \<longleftrightarrow>
     clFrameId c \<noteq> [] \<and> clCallId c \<noteq> [] \<and> usageWellFormed (clUsage c)
     \<and> outputOk (clOutputRef c) (clOutputSha256 c) (clOutputBytes c)"
| "eventOk hasher (AnswerCommitted i mode ref h b) \<longleftrightarrow> i \<noteq> [] \<and> outputOk (Some ref) h b"
| "eventOk hasher (FrameClosedEvent i st) \<longleftrightarrow> i \<noteq> []"
| "eventOk hasher (RunCompleted runId mode ref) \<longleftrightarrow> runId \<noteq> [] \<and> pred_option isContextRef ref"
| "eventOk hasher (RunFailed runId code message) \<longleftrightarrow> runId \<noteq> [] \<and> code \<noteq> []"
| "eventOk hasher (RunCancelled runId message) \<longleftrightarrow> runId \<noteq> []"

section \<open>The validation agrees\<close>

lemma isSha256_nonempty: "isSha256 s \<Longrightarrow> s \<noteq> []"
  by (auto simp: isSha256_def)

lemma isContextRef_ctx [simp]: "isContextRef (js ''ctx_'' @ h) \<longleftrightarrow> isSha256 h"
  by (simp add: isContextRef_def isPrefix_iff)

lemma isContextRef_nonempty [simp]: "\<not> isContextRef []"
  by (simp add: isContextRef_def isSha256_def)

lemma pattern_nonempty [simp]: "\<not> isSha256 []" "\<not> isIntentId []" "\<not> isCheckpointId []" "\<not> isErrorCode []"
  by (simp_all add: isSha256_def isIntentId_def isCheckpointId_def isErrorCode_def)

lemma hash_conj [simp]: "(s \<noteq> [] \<and> isSha256 s \<and> P) = (isSha256 s \<and> P)"
  by auto

lemma safe_nonneg [simp]: "(isSafeInteger n \<and> jleq (Num 0) n) = isCount n"
  by (simp add: isCount_def)

lemma safe_positive [simp]: "(isSafeInteger n \<and> jless (Num 0) n) = isPositiveCount n"
proof -
  have "0 < r \<longleftrightarrow> 0 < \<lfloor>r\<rfloor>" if "r = of_int \<lfloor>r\<rfloor>" for r :: rat
    by (subst that) (simp add: of_int_0_less_iff)
  then show ?thesis
    by (cases n) (auto simp: isPositiveCount_def isCount_def isSafeInteger_def jint_def)
qed

lemma isCount_nat [simp]: "isCount (Num (of_nat n)) \<longleftrightarrow> isNatCount n" "isPositiveCount (Num (of_nat n)) \<longleftrightarrow> 0 < n \<and> isNatCount n"
proof -
  have n: "Num (of_nat n) = JI (int n)" by simp
  show "isCount (Num (of_nat n)) \<longleftrightarrow> isNatCount n"
    unfolding n by (simp only: isCount_def isSafeInteger_JI isNatCount_def jleq_Num) simp
  then show "isPositiveCount (Num (of_nat n)) \<longleftrightarrow> 0 < n \<and> isNatCount n"
    unfolding isPositiveCount_def n jint_JI by auto
qed

lemma safe_nat [simp]: "isSafeInteger (Num (of_nat n)) \<longleftrightarrow> isNatCount n"
  using isCount_nat(1) [of n] by (simp add: isCount_def)

text \<open>What each check says of a field that is present.\<close>

lemma field_checks:
  assumes "map_of ps (js k) = Some v"
  shows "stringField ps k e = (case v of JStr s \<Rightarrow> e \<or> s \<noteq> [] | _ \<Rightarrow> False)"
    "booleanField ps k = (case v of JBool _ \<Rightarrow> True | _ \<Rightarrow> False)"
    "integerField ps k False = (case v of JNum n \<Rightarrow> isCount n | _ \<Rightarrow> False)"
    "integerField ps k True = (case v of JNum n \<Rightarrow> isPositiveCount n | _ \<Rightarrow> False)"
    "matches ps k pat = (case v of JStr s \<Rightarrow> s \<noteq> [] \<and> pat s | _ \<Rightarrow> False)"
    "isText ps k t = (v = JStr t)" "isNum ps k m = (m \<noteq> NaN \<and> v = JNum m)"
    "textOf ps k = (case v of JStr s \<Rightarrow> s | _ \<Rightarrow> [])" "numOf ps k = (case v of JNum n \<Rightarrow> n | _ \<Rightarrow> NaN)"
  using assms
  by (simp_all add: stringField_def booleanField_def integerField_def matches_def isText_def isNum_def textOf_def numOf_def
      split: json.splits)

lemmas check_defs = exact_def stringField_def booleanField_def integerField_def matches_def isText_def isNum_def
  hashField_def contextRefField_def oneOf_def optionalField_def refMatches_def recordOf_def field_defs opt_def

lemma usage_exact: "validUsage (Some (JObj (usageProps u))) = usageWellFormed u"
  by (cases "uInputTokens u"; cases "uOutputTokens u"; cases "uTotalTokens u"; cases "uCostUsd u")
    (simp_all add: validUsage_def usageProps_def check_defs usageCost_def usageWellFormed_def conj_ac)

lemma limits_exact: "validLimits (Some (JObj (limitsFields ls))) = limitsWellFormed ls"
  by (cases "tokenLimit ls") (simp_all add: validLimits_def limitsFields_def check_defs limitsWellFormed_def conj_ac)

lemma inputRef_exact: "validInputRef (inputRefJson r) = (irName r \<noteq> [] \<and> contentOk (irId r) (irSha256 r) (irBytes r))"
  by (auto simp: validInputRef_def inputRefJson_def check_defs contentOk_def)

lemma runStarted_exact: "validRunStarted (eventFields (RunStarted i mh ls refs)) = eventOk hasher (RunStarted i mh ls refs)"
  by (cases refs)
    (auto simp: validRunStarted_def check_defs limits_exact validInputRefs_def list.pred_map inputRef_exact comp_def list_all_iff)

text \<open>Optional fields, without a case split on their presence.\<close>

lemma opt_lookup:
  "map_of (opt k enc v @ qs) x = (if x = js k \<and> v \<noteq> None then map_option enc v else map_of qs x)"
  "map_of (opt k enc v) x = (if x = js k then map_option enc v else None)"
  by (auto simp: opt_def split: option.splits)

lemma opt_keys:
  "list_all P (map fst (opt k enc v @ qs)) \<longleftrightarrow> (v = None \<or> P (js k)) \<and> list_all P (map fst qs)"
  "list_all P (map fst (opt k enc v)) \<longleftrightarrow> (v = None \<or> P (js k))"
  by (auto simp: opt_def split: option.splits)

lemma opt_present [simp]: "(if v \<noteq> None then map_option enc v else None) = map_option enc v"
  "(if \<exists>y. v = Some y then map_option enc v else None) = map_option enc v"
  by (cases v; simp)+

lemma optional_checks:
  "map_of ps (js k) = map_option JNum n \<Longrightarrow> optionalField ps k (integerField ps k False) = pred_option isCount n"
  "map_of ps (js k) = map_option enc x \<Longrightarrow> optionalField ps k (P (map_of ps (js k))) = pred_option (\<lambda>y. P (Some (enc y))) x"
  by (cases n; simp add: optionalField_def integerField_def) (cases x; simp add: optionalField_def)

lemma optionalOutput_exact:
  assumes "map_of ps (js rk) = map_option JStr r" "map_of ps (js hk) = map_option JStr h" "map_of ps (js bk) = map_option JNum b"
  shows "validOptionalOutput ps rk hk bk = outputOk r h b"
  using assms isSha256_nonempty
  by (cases r; cases h; cases b)
    (auto simp: validOptionalOutput_def check_defs outputOk_def contentOk_def)

lemma error_exact: "validError (Some (JObj [textField ''code'' c, textField ''message'' m])) = (c \<noteq> [])"
  by (simp add: validError_def check_defs)

lemma cellCommitted_exact: "validCellCommitted (eventFields (CellCommitted c)) = eventOk hasher (CellCommitted c)"
proof -
  let ?ps = "eventFields (CellCommitted c)"
  have look: "map_of ?ps (js ''outputBytes'') = map_option JNum (ccOutputBytes c)"
    "map_of ?ps (js ''outputOmittedBytes'') = map_option JNum (ccOutputOmittedBytes c)"
    "map_of ?ps (js ''usage'') = map_option (\<lambda>u. JObj (usageProps u)) (ccUsage c)"
    "map_of ?ps (js ''error'') = map_option (\<lambda>e. JObj [textField ''code'' (eeCode e), textField ''message'' (eeMessage e)]) (ccError c)"
    "map_of ?ps (js ''outputRef'') = map_option JStr (ccOutputRef c)"
    "map_of ?ps (js ''outputRefSha256'') = map_option JStr (ccOutputRefSha256 c)"
    "map_of ?ps (js ''outputRefBytes'') = map_option JNum (ccOutputRefBytes c)"
    by (simp_all add: field_defs opt_lookup del: map_of_append)
  have req: "map_of ?ps (js ''type'') = Some (JStr (js ''cell_committed''))"
    "map_of ?ps (js ''frameId'') = Some (JStr (ccFrameId c))"
    "map_of ?ps (js ''iteration'') = Some (JNum (JI (int (ccIteration c))))"
    "map_of ?ps (js ''reasoning'') = Some (JStr (ccReasoning c))" "map_of ?ps (js ''codeHash'') = Some (JStr (ccCodeHash c))"
    "map_of ?ps (js ''hasResult'') = Some (JBool (ccHasResult c))"
    "map_of ?ps (js ''outputPreview'') = Some (JStr (ccOutputPreview c))"
    by (simp_all add: field_defs)
  have keys: "list_all (\<lambda>k. k \<in> set (map js ([''type'', ''frameId'', ''iteration'', ''reasoning'', ''codeHash'', ''hasResult'',
      ''outputPreview''] @ [''outputBytes'', ''outputOmittedBytes'', ''usage'', ''outputRef'', ''outputRefSha256'',
      ''outputRefBytes'', ''error'']))) (map fst ?ps)"
    by (simp add: field_defs opt_keys)
  show ?thesis
    unfolding validCellCommitted_def exact_def hashField_def
      optional_checks(1) [OF look(1)] optional_checks(1) [OF look(2)] optional_checks(2) [OF look(3)]
      optional_checks(2) [OF look(4)] optionalOutput_exact [OF look(5,6,7)] usage_exact error_exact
    using keys by (simp add: field_checks [OF req(2)] field_checks [OF req(3)] field_checks [OF req(4)]
        field_checks [OF req(5)] field_checks [OF req(6)] field_checks [OF req(7)] req del: eventFields.simps)
qed

lemma kindOf_text [simp]: "kindOf (operationKindText k) = k"
  by (cases k) (simp_all add: kindOf_def operationKindText_def)

lemma operation_kind_texts [simp]: "operationKindText k \<noteq> []" "operationKindText k \<in> js ` set OPERATION_KINDS"
  by (cases k; simp add: operationKindText_def OPERATION_KINDS_def)+

lemma call_kind_texts [simp]: "kindText l \<noteq> []" "kindText l \<in> js ` set CALL_KINDS"
  by (cases l; simp add: kindText_def CALL_KINDS_def)+

lemma operationIntended_exact:
  "validOperationIntended hasher (eventFields (OperationIntended x)) = eventOk hasher (OperationIntended x)"
proof -
  let ?ps = "eventFields (OperationIntended x)"
  have "intentIdentity ?ps = (operation_identity.truncate x)\<lparr>oiSchemaVersion := OPERATION_JOURNAL_SCHEMA_VERSION\<rparr>"
    by (simp add: intentIdentity_def field_defs recordOf_def reservationOf_def textOf_def numOf_def
        operation_identity.truncate_def)
  moreover have "(operation_identity.truncate x)\<lparr>oiSchemaVersion := OPERATION_JOURNAL_SCHEMA_VERSION\<rparr>
      = operation_identity.truncate x" if "oiSchemaVersion x = OPERATION_JOURNAL_SCHEMA_VERSION"
    using that by (simp add: operation_identity.truncate_def)
  moreover have "validOperationReservation (map_of ?ps (js ''reservation'')) \<longleftrightarrow>
      resLogicalCalls (oiReservation x) \<in> {Num 0, Num 1} \<and> resAttempts (oiReservation x) = Num 1
      \<and> isCount (resTokens (oiReservation x)) \<and> jleq (resTokens (oiReservation x)) MAX_CALL_TOKENS"
    by (auto simp: validOperationReservation_def check_defs)
  moreover have "oiRequestIdentityVersion x \<noteq> []" if "operationRequestVersionAllowed (oiKind x) (oiRequestIdentityVersion x)"
    using that by (auto simp: operationRequestVersionAllowed_def AGENT_REQUEST_IDENTITY_VERSION_def
        PROVIDER_REQUEST_IDENTITY_VERSION_def EXTERNAL_EXTRACTOR_REQUEST_IDENTITY_VERSION_def split: if_splits)
  moreover have "OPERATION_JOURNAL_SCHEMA_VERSION \<noteq> NaN" by (simp add: OPERATION_JOURNAL_SCHEMA_VERSION_def)
  ultimately show ?thesis
    unfolding validOperationIntended_def
    by (simp add: check_defs textOf_def) (auto)
qed

lemma outcome_texts [simp]: "js (outcomeText out) \<noteq> []" "outcomeText out \<noteq> []"
  "outcomeText out \<in> set OPERATION_OUTCOMES" "outcomeText out = ''ok'' \<longleftrightarrow> out = OutOk"
  by (cases out; simp add: outcomeText_def OPERATION_OUTCOMES_def)+

lemma operationSettled_exact: "validOperationSettled (eventFields (OperationSettled x)) = eventOk hasher (OperationSettled x)"
proof -
  have "isNum (usageProps u) ''attempts'' (Num 1) = (uAttempts u = Num 1)" for u
    by (simp add: isNum_def usageProps_def)
  then show ?thesis
    using usage_exact [of "osUsage x"]
    by (cases "osErrorCode x") (auto simp: validOperationSettled_def check_defs OPERATION_JOURNAL_SCHEMA_VERSION_def)
qed

lemma checkpointCommitted_exact:
  "validCheckpointCommitted (eventFields (CheckpointCommitted c)) = eventOk hasher (CheckpointCommitted c)"
  by (auto simp: validCheckpointCommitted_def check_defs contentOk_def)
lemma evidenceProjected_exact:
  "validEvidenceProjected (eventFields (EvidenceProjected c)) = eventOk hasher (EvidenceProjected c)"
  by (auto simp: validEvidenceProjected_def check_defs)
lemma evidenceCited_exact: "validEvidenceCited (eventFields (EvidenceCited i rs h)) = eventOk hasher (EvidenceCited i rs h)"
  by (auto simp: validEvidenceCited_def check_defs validStringArray_def list_all_iff)

lemma mode_texts [simp]: "modeText m \<noteq> []" "modeText m \<in> set COMPLETION_MODES"
  by (cases m; simp add: modeText_def COMPLETION_MODES_def)+

lemma frame_state_texts [simp]: "frameStateText st \<noteq> []" "frameStateText st \<in> set FRAME_STATES"
  by (cases st; simp add: frameStateText_def FRAME_STATES_def)+

lemma decision_texts [simp]: "decisionText d \<noteq> []" "decisionText d \<in> set AGENT_APPROVAL_DECISIONS"
  by (cases d; simp add: decisionText_def AGENT_APPROVAL_DECISIONS_def)+

lemma callCommitted_exact: "validCallCommitted (eventFields (CallCommitted c)) = eventOk hasher (CallCommitted c)"
proof -
  let ?ps = "eventFields (CallCommitted c)"
  have look: "map_of ?ps (js ''outputRef'') = map_option JStr (clOutputRef c)"
    "map_of ?ps (js ''outputSha256'') = map_option JStr (clOutputSha256 c)"
    "map_of ?ps (js ''outputBytes'') = map_option JNum (clOutputBytes c)"
    by (simp_all add: field_defs opt_lookup del: map_of_append)
  have keys: "exact ?ps [''type'', ''frameId'', ''callId'', ''kind'', ''key'', ''cached'', ''ok'', ''usage'']
     [''outputRef'', ''outputSha256'', ''outputBytes'']"
    by (simp add: exact_def field_defs opt_keys)
  show ?thesis
    using keys usage_exact [of "clUsage c"]
    unfolding validCallCommitted_def optionalOutput_exact [OF look]
    by (simp add: stringField_def matches_def oneOf_def booleanField_def field_defs)
qed

lemma answerCommitted_exact: "validAnswerCommitted (eventFields (AnswerCommitted i m r h b)) = eventOk hasher (AnswerCommitted i m r h b)"
  using isSha256_nonempty
  by (cases h; cases b) (auto simp: validAnswerCommitted_def check_defs outputOk_def contentOk_def)

lemma runEvents_exact:
  "validFrameOpened (eventFields (FrameOpened i parent depth objective)) = eventOk hasher (FrameOpened i parent depth objective)"
  "validProgress (eventFields (Phase i it ord name)) ''name'' = eventOk hasher (Phase i it ord name)"
  "validProgress (eventFields (Emit i it ord name)) ''message'' = eventOk hasher (Emit i it ord name)"
  "validKeyBound (eventFields (KeyBound i kind key identity)) = eventOk hasher (KeyBound i kind key identity)"
  "validAgentApproval (eventFields (AgentApproval i c a pol d)) = eventOk hasher (AgentApproval i c a pol d)"
  "validWorkspaceCommitted (eventFields (WorkspaceCommitted w)) = eventOk hasher (WorkspaceCommitted w)"
  "validFrameClosed (eventFields (FrameClosedEvent i st)) = eventOk hasher (FrameClosedEvent i st)"
  "validRunFailed (eventFields (RunFailed i code message)) = eventOk hasher (RunFailed i code message)"
  "validRunCancelled (eventFields (RunCancelled i message)) = eventOk hasher (RunCancelled i message)"
  by (cases parent; simp add: validFrameOpened_def check_defs)
    (auto simp: validProgress_def validKeyBound_def validAgentApproval_def validWorkspaceCommitted_def
      validFrameClosed_def validRunFailed_def validRunCancelled_def check_defs contentOk_def)

lemma runCompleted_exact: "validRunCompleted (eventFields (RunCompleted i m ref)) = eventOk hasher (RunCompleted i m ref)"
  by (cases ref) (auto simp: validRunCompleted_def check_defs)

fun eventType :: "rlm_event \<Rightarrow> string" where
  "eventType (RunStarted _ _ _ _) = ''run_started''"
| "eventType (FrameOpened _ _ _ _) = ''frame_opened''"
| "eventType (Phase _ _ _ _) = ''phase''"
| "eventType (Emit _ _ _ _) = ''emit''"
| "eventType (KeyBound _ _ _ _) = ''key_bound''"
| "eventType (AgentApproval _ _ _ _ _) = ''agent_approval''"
| "eventType (CellCommitted _) = ''cell_committed''"
| "eventType (WorkspaceCommitted _) = ''workspace_committed''"
| "eventType (EvidenceProjected _) = ''fallback_evidence_projected''"
| "eventType (EvidenceCited _ _ _) = ''fallback_evidence_cited''"
| "eventType (OperationIntended _) = ''operation_intended''"
| "eventType (OperationSettled _) = ''operation_settled''"
| "eventType (CheckpointCommitted _) = ''checkpoint_committed''"
| "eventType (CallCommitted _) = ''call_committed''"
| "eventType (AnswerCommitted _ _ _ _ _) = ''answer_committed''"
| "eventType (FrameClosedEvent _ _) = ''frame_closed''"
| "eventType (RunCompleted _ _ _) = ''run_completed''"
| "eventType (RunFailed _ _ _) = ''run_failed''"
| "eventType (RunCancelled _ _) = ''run_cancelled''"

lemma type_field: "map_of (eventFields e) (js ''type'') = Some (JStr (js (eventType e)))" "eventType e \<noteq> []"
  by (cases e; simp add: field_defs)+

lemma map_of_js: "map_of (map (map_prod js id) xs) (js k) = map_of xs k"
  by (induction xs) auto

lemma validEvent_dispatch:
  assumes "map_of ps (js ''type'') = Some (JStr (js t))" and "t \<noteq> []"
  shows "validEvent hasher ps = (case map_of (validators hasher) t of Some valid \<Rightarrow> valid ps | None \<Rightarrow> False)"
  using assms by (simp add: validEvent_def stringField_def textOf_def map_of_js)

lemma event_exact: "validEvent hasher (eventFields e) = eventOk hasher e"
  unfolding validEvent_dispatch [OF type_field]
  by (cases e)
    (simp_all add: validators_def runStarted_exact cellCommitted_exact operationIntended_exact operationSettled_exact
      checkpointCommitted_exact evidenceProjected_exact evidenceCited_exact callCommitted_exact answerCommitted_exact
      runEvents_exact runCompleted_exact del: eventFields.simps eventOk.simps)

section \<open>The snapshot is the value\<close>

lemma takeItems_represents:
  assumes "\<And>v n j n'. w v n = Some (j, n') \<Longrightarrow> represents h v j"
  shows "takeItems w ss n = Some (xs, n') \<Longrightarrow> list_all2 (\<lambda>s x. \<exists>v. s = Data v \<and> represents h v x) ss xs"
proof (induction ss arbitrary: n xs)
  case (Cons s ss)
  then show ?case using assms by (cases s) (fastforce split: option.splits)+
qed simp

lemma takeProps_represents:
  assumes "\<And>v n j n'. w v n = Some (j, n') \<Longrightarrow> represents h v j"
  shows "takeProps w ps n = Some (qs, n') \<Longrightarrow>
    list_all2 (\<lambda>p q. fst p = fst q \<and> (\<exists>v. snd p = Data v \<and> represents h v (snd q))) ps qs"
proof (induction ps arbitrary: n qs)
  case (Cons p ps)
  obtain k s where "p = (k, s)" by (cases p)
  then show ?case using Cons assms by (cases s) (fastforce split: option.splits)+
qed simp

lemma takeLevels_represents: "takeLevels l h v n = Some (j, n') \<Longrightarrow> represents h v j"
proof (induction l arbitrary: v n j n')
  case (Suc l)
  show ?case
    using Suc.prems takeItems_represents [of "takeLevels l h" h] takeProps_represents [of "takeLevels l h" h] Suc.IH
    by (auto simp: takeNode_def Let_def split: jsval.splits jsobj.splits if_splits intro: represents.intros)
qed simp

section \<open>Properties\<close>


text \<open>
  C34: the decoder returns a validated object only if it is the data the input value unfolds to (no accessor,
  hole or cycle), and refuses everything else with the one journal-corruption error.
\<close>

theorem journal_event_decoded:
  "(case parseRlmEvent hasher h input of
      Inr event \<Rightarrow> represents h input (JObj event) \<and> validEvent hasher event
    | Inl e \<Rightarrow> e = invalidEvent)
   \<and> isOk (parseRlmEvent hasher h input) =
      (\<exists>event. snapshotValue h input = Some (JObj event) \<and> validEvent hasher event)"
proof -
  have snap: "represents h input j" if "snapshotValue h input = Some j" for j
    using that by (auto simp: snapshotValue_def simp del: takeLevels.simps dest: takeLevels_represents)
  show ?thesis
  proof (cases "recordOf (snapshotValue h input)")
    case None
    then show ?thesis by (auto simp: parseRlmEvent_def recordOf_def)
  next
    case (Some event)
    then have "snapshotValue h input = Some (JObj event)"
      by (auto simp: recordOf_def split: option.splits json.splits)
    then show ?thesis using snap Some by (auto simp: parseRlmEvent_def)
  qed
qed

end
