(* ===== verification/RecoveryJournal.thy ===== *)
theory RecoveryJournal
  imports JournalEvent Program "HOL-Library.Multiset"
begin

text \<open>
  The strict semantic fold over a recovered journal (\<open>src/src/runtime/run-recovery-journal.ts\<close>): the maps of
  the code are association lists in insertion order, the mutable operation records are addressed by their key
  and segment index, and each \<open>throw\<close> is an \<open>Inl\<close>.  The journal decoder admits safe integers only, so counters
  are integers.  The SHA-256 hasher is a parameter.
\<close>

section \<open>Errors and references\<close>

datatype recovery_code =
    ManifestInvalid | Incompatible | DirectoryInvalid | LockInvalid | CorruptJournal | IdentityMismatch | Orphan
  | AmbiguousOperations | SemanticCorruption | TerminalInconsistent | ContentInvalid | Unstable | AlreadyTerminal
  | CheckpointMissing | CheckpointInvalid | UnsafeTail | UnsupportedState | ComponentMismatch
  | ControllerUnsupported | ControllerStateInvalid

datatype recovery_error = RecoveryError (rvCode: recovery_code) (rvMessage: jstr)

abbreviation semantic :: "string \<Rightarrow> recovery_error + 'a" where
  "semantic m \<equiv> Inl (RecoveryError SemanticCorruption (js m))"

abbreviation identityError :: "string \<Rightarrow> recovery_error + 'a" where
  "identityError m \<equiv> Inl (RecoveryError IdentityMismatch (js m))"

datatype content_role = RoleInput | RoleWorkspace | RoleCall | RoleAnswer | RoleCheckpoint

record content_reference =
  crRole :: content_role
  crId :: jstr
  crSha256 :: jstr
  crBytes :: jsnum
  crEvent :: "rlm_event option"

record manifest_input =
  miName :: jstr
  miSha256 :: jstr
  miBytes :: jsnum

text \<open>The parts of the manifest document the fold reads.\<close>

record manifest_document =
  mdRunId :: jstr
  mdManifestHash :: jstr
  mdLimits :: budget_limits
  mdInputs :: "manifest_input list"
  mdHeap :: heap
  mdProgram :: jsval
  mdHasExtractor :: bool

section \<open>Records\<close>

record operation_segment =
  sgIntents :: "operation_intended list"
  sgOutcomes :: "operation_settled list"
  sgUsage :: call_usage
  sgSettlements :: nat

record operation_record =
  opKind :: operation_kind
  opKey :: jstr
  opSegments :: "operation_segment list"
  opLastAttempt :: int
  opLastIntentId :: jstr

record frame_record =
  frParent :: "jstr option"
  frDepth :: int
  frObjective :: jstr
  frCells :: "(nat \<times> cell_commit) list"
  frWorkspaces :: "(nat \<times> workspace_commit) list"
  frProgress :: "(jstr \<times> rlm_event) list"
  frAnswer :: "rlm_event option"
  frProjection :: "evidence_projection option"
  frCitation :: "jstr list option"
  frClosed :: "frame_state option"
  frOpened :: rlm_event

text \<open>The local variables of \<open>validateRecoveryJournal\<close>.\<close>

record recovery_state =
  rcFrames :: "(jstr \<times> frame_record) list"
  rcCells :: "(jstr \<times> rlm_event) list"
  rcCalls :: "(jstr \<times> call_commit list) list"
  rcKeys :: "(jstr \<times> rlm_event) list"
  rcApprovals :: "(jstr \<times> rlm_event) list"
  rcIntents :: "(jstr \<times> operation_intended) list"
  rcSettlements :: "(jstr \<times> operation_settled) list"
  rcAttemptIntents :: "jstr list"
  rcAttemptRecords :: "(jstr \<times> jstr \<times> nat) list"
  rcOperations :: "(jstr \<times> operation_record) list"
  rcControllerOperations :: "jstr list"
  rcControllerTurns :: int
  rcLogicalCalls :: int
  rcAttempts :: int
  rcTokensReserved :: int
  rcTokensUsed :: int
  rcChildFrames :: int
  rcCheckpointSequence :: int
  rcTerminal :: "rlm_event option"
  rcContent :: "content_reference list"

text \<open>\<open>Map.prototype.set\<close>: an existing key keeps its place.\<close>

definition alSet :: "'k \<Rightarrow> 'v \<Rightarrow> ('k \<times> 'v) list \<Rightarrow> ('k \<times> 'v) list" where
  "alSet k v xs = (if k \<in> fst ` set xs then map (\<lambda>(l, w). (l, if l = k then v else w)) xs else xs @ [(k, v)])"

definition last_opt :: "'a list \<Rightarrow> 'a option" where
  "last_opt xs = (if xs = [] then None else Some (last xs))"

definition rootFrameId :: "manifest_document \<Rightarrow> jstr" where
  "rootFrameId d = mdRunId d @ js '':f0''"

section \<open>Helpers\<close>

text \<open>\<open>same\<close>: equality of canonical texts.\<close>

definition sameProps :: "props \<Rightarrow> props \<Rightarrow> bool" where
  "sameProps a b \<longleftrightarrow> canonicalStringify (JObj a) = canonicalStringify (JObj b)"

definition sameEvent :: "rlm_event \<Rightarrow> rlm_event \<Rightarrow> bool" where
  "sameEvent a b \<longleftrightarrow> sameProps (eventFields a) (eventFields b)"

text \<open>\<open>/^(call_recurse_[a-f0-9]{64}):e([1-9][0-9]*)$/\<close> on the text after the run's frame prefix.\<close>

definition framePrefix :: "jstr \<Rightarrow> jstr" where
  "framePrefix runId = runId @ js '':frame:''"

definition recurseExecution :: "jstr \<Rightarrow> (jstr \<times> nat) option" where
  "recurseExecution s =
     (let callId = take 77 s; ordinal = drop 79 s
      in if isPrefix (js ''call_recurse_'') callId \<and> isSha256 (drop 13 callId) \<and> take 2 (drop 77 s) = js '':e''
            \<and> ordinal \<noteq> [] \<and> list_all isDigit ordinal \<and> hd ordinal \<noteq> 48
         then Some (callId, digitsValue ordinal) else None)"

definition childExecution :: "jstr \<Rightarrow> jstr \<Rightarrow> (jstr \<times> nat) option" where
  "childExecution runId frameId =
     (if isPrefix (framePrefix runId) frameId then recurseExecution (drop (length (framePrefix runId)) frameId) else None)"

definition recoveryKeyRegistryId :: "jstr \<Rightarrow> jstr \<Rightarrow> call_kind \<Rightarrow> jstr \<Rightarrow> recovery_error + jstr" where
  "recoveryKeyRegistryId runId frameId kind key =
     (if kind \<noteq> KRecurse then Inr (kindText kind @ [0] @ key)
      else if frameId = runId @ js '':f0'' then Inr (kindText kind @ [0] @ frameId @ [0] @ key)
      else case childExecution runId frameId of
             None \<Rightarrow> semantic ''recurse key binding has an invalid frame lineage''
           | Some (callId, _) \<Rightarrow> Inr (kindText kind @ [0] @ callId @ [0] @ key))"

definition operationKeyRegistryId :: "jstr \<Rightarrow> jstr \<Rightarrow> jstr" where
  "operationKeyRegistryId kind key = kind @ [0] @ key"

definition recoveryCallRetryFrameCompatible :: "call_commit \<Rightarrow> call_commit \<Rightarrow> bool" where
  "recoveryCallRetryFrameCompatible prior current \<longleftrightarrow>
     clKind prior = clKind current
     \<and> (clKind current = KLlm \<or> clKind current = KAgent \<or> clFrameId prior = clFrameId current)"

text \<open>\<open>rememberExact\<close>: the new registry and whether the key was new, or a conflict.\<close>

definition rememberExact ::
    "('k \<times> rlm_event) list \<Rightarrow> 'k \<Rightarrow> rlm_event \<Rightarrow> string \<Rightarrow> recovery_error + ('k \<times> rlm_event) list \<times> bool" where
  "rememberExact registry key event what =
     (case map_of registry key of
        None \<Rightarrow> Inr (registry @ [(key, event)], True)
      | Some existing \<Rightarrow>
          if \<not> sameEvent existing event then semantic (''conflicting '' @ what @ '' event'') else Inr (registry, False))"

definition roleText :: "content_role \<Rightarrow> string" where
  "roleText r = (case r of RoleInput \<Rightarrow> ''input'' | RoleWorkspace \<Rightarrow> ''workspace'' | RoleCall \<Rightarrow> ''call''
     | RoleAnswer \<Rightarrow> ''answer'' | RoleCheckpoint \<Rightarrow> ''checkpoint'')"

definition reference ::
    "content_role \<Rightarrow> jstr option \<Rightarrow> jstr option \<Rightarrow> jsnum option \<Rightarrow> rlm_event option \<Rightarrow> recovery_error + content_reference" where
  "reference role i digest bytes event =
     (case (i, digest, bytes) of
        (Some r, Some d, Some b) \<Rightarrow>
          if r \<noteq> js ''ctx_'' @ d then semantic (roleText role @ '' event lacks complete content identity'')
          else Inr \<lparr>crRole = role, crId = r, crSha256 = d, crBytes = b, crEvent = event\<rparr>
      | _ \<Rightarrow> semantic (roleText role @ '' event lacks complete content identity''))"

definition addContent :: "content_reference \<Rightarrow> recovery_state \<Rightarrow> recovery_state" where
  "addContent r s = s\<lparr>rcContent := rcContent s @ [r]\<rparr>"

definition setFrame :: "jstr \<Rightarrow> frame_record \<Rightarrow> recovery_state \<Rightarrow> recovery_state" where
  "setFrame i f s = s\<lparr>rcFrames := alSet i f (rcFrames s)\<rparr>"

section \<open>Child frames and recurse calls\<close>

text \<open>Closed child frames, grouped by the call that executed them.\<close>

fun childExecutions ::
    "jstr \<Rightarrow> (jstr \<times> frame_record) list \<Rightarrow> (jstr \<times> (nat \<times> frame_record) list) list
      \<Rightarrow> recovery_error + (jstr \<times> (nat \<times> frame_record) list) list" where
  "childExecutions runId [] grouped = Inr grouped"
| "childExecutions runId ((i, f) # fs) grouped =
     (if frParent f = None then childExecutions runId fs grouped
      else case childExecution runId i of
             None \<Rightarrow> semantic ''closed child frame has an invalid recurse execution identity''
           | Some (callId, ordinal) \<Rightarrow>
               if frClosed f = None then semantic ''closed child frame has an invalid recurse execution identity''
               else childExecutions runId fs
                      (alSet callId ((case map_of grouped callId of None \<Rightarrow> [] | Some g \<Rightarrow> g) @ [(ordinal, f)]) grouped))"

definition executionMatches :: "nat \<Rightarrow> nat \<times> frame_record \<Rightarrow> call_commit \<Rightarrow> bool" where
  "executionMatches index child call \<longleftrightarrow>
     fst child = index + 1 \<and> frParent (snd child) = Some (clFrameId call) \<and> clKind call = KRecurse
     \<and> clOk call = (frClosed (snd child) = Some FrameAnswered)"

fun matchExecutions ::
    "(jstr \<times> call_commit list) list \<Rightarrow> (jstr \<times> (nat \<times> frame_record) list) list
      \<Rightarrow> recovery_error + (jstr \<times> (nat \<times> frame_record) list) list" where
  "matchExecutions [] grouped = Inr grouped"
| "matchExecutions ((callId, executions) # calls) grouped =
     (if map_option clKind (last_opt executions) \<noteq> Some KRecurse then matchExecutions calls grouped
      else let children = sort_key fst (case map_of grouped callId of None \<Rightarrow> [] | Some g \<Rightarrow> g)
           in if length children \<noteq> length executions then semantic ''recurse call executions do not match child frames''
              else if \<not> list_all (\<lambda>(k, child, call). executionMatches k child call) (enumerate 0 (zip children executions))
              then semantic ''recurse call execution does not match its child frame''
              else matchExecutions calls (filter (\<lambda>(i, _). i \<noteq> callId) grouped))"

definition validateRecurseExecutionBijection ::
    "jstr \<Rightarrow> (jstr \<times> frame_record) list \<Rightarrow> (jstr \<times> call_commit list) list \<Rightarrow> recovery_error + unit" where
  "validateRecurseExecutionBijection runId frames calls =
     resBind (childExecutions runId frames []) (\<lambda>grouped.
     resBind (matchExecutions calls grouped) (\<lambda>rest.
       if rest \<noteq> [] then semantic ''closed child frame lacks its recurse call execution'' else Inr ()))"

section \<open>Events\<close>

definition requireFrame :: "recovery_state \<Rightarrow> jstr \<Rightarrow> recovery_error + frame_record" where
  "requireFrame s i =
     (case map_of (rcFrames s) i of
        None \<Rightarrow> semantic ''event references an unopened frame''
      | Some f \<Rightarrow> if frClosed f \<noteq> None then semantic ''event follows frame closure'' else Inr f)"

definition newFrameRecord :: "jstr option \<Rightarrow> jsnum \<Rightarrow> jstr \<Rightarrow> rlm_event \<Rightarrow> frame_record" where
  "newFrameRecord parent depth objective event =
     \<lparr>frParent = parent, frDepth = jint depth, frObjective = objective, frCells = [], frWorkspaces = [], frProgress = [],
      frAnswer = None, frProjection = None, frCitation = None, frClosed = None, frOpened = event\<rparr>"

definition onFrameOpened ::
    "manifest_document \<Rightarrow> jstr \<Rightarrow> jstr \<Rightarrow> jstr option \<Rightarrow> jsnum \<Rightarrow> jstr \<Rightarrow> recovery_state \<Rightarrow> recovery_error + recovery_state" where
  "onFrameOpened d programObjective i parent depth objective s =
     (let event = FrameOpened i parent depth objective
      in if \<not> isPrefix (mdRunId d @ js '':'') i then semantic ''frame identity is outside the run''
         else case map_of (rcFrames s) i of
           Some existing \<Rightarrow>
             if \<not> sameEvent (frOpened existing) event then semantic ''conflicting frame_opened event'' else Inr s
         | None \<Rightarrow>
             (case parent of
                None \<Rightarrow>
                  if i \<noteq> rootFrameId d \<or> jint depth \<noteq> 0 \<or> objective \<noteq> programObjective then semantic ''invalid root frame''
                  else Inr (setFrame i (newFrameRecord parent depth objective event) s)
              | Some p \<Rightarrow>
                  resBind (requireFrame s p) (\<lambda>f.
                    if jint depth \<noteq> frDepth f + 1 \<or> jint (maxDepth (mdLimits d)) < jint depth
                    then semantic ''invalid child frame depth''
                    else if jint (maxFrames (mdLimits d)) < rcChildFrames s + 1
                        \<or> jint (maxLogicalCalls (mdLimits d)) < rcLogicalCalls s + 1
                    then semantic ''frame reservations exceed manifest limits''
                    else Inr (setFrame i (newFrameRecord parent depth objective event)
                           (s\<lparr>rcChildFrames := rcChildFrames s + 1, rcLogicalCalls := rcLogicalCalls s + 1\<rparr>)))))"

definition nextIteration :: "frame_record \<Rightarrow> nat" where
  "nextIteration f = length (frCells f) + 1"

definition onProgress :: "rlm_event \<Rightarrow> jstr \<Rightarrow> nat \<Rightarrow> nat \<Rightarrow> frame_record \<Rightarrow> recovery_state \<Rightarrow> recovery_error + recovery_state" where
  "onProgress event i iteration ordinal f s =
     resBind (rememberExact (frProgress f) (natString iteration @ [0] @ natString ordinal) event ''progress'') (\<lambda>(progress, _).
       if iteration \<noteq> nextIteration f then semantic ''progress iteration is not the next cell''
       else Inr (setFrame i (f\<lparr>frProgress := progress\<rparr>) s))"

definition onWorkspace :: "workspace_commit \<Rightarrow> frame_record \<Rightarrow> recovery_state \<Rightarrow> recovery_error + recovery_state" where
  "onWorkspace w f s =
     (if wcIteration w \<noteq> nextIteration f then semantic ''workspace iteration is not the next cell''
      else case map_of (frWorkspaces f) (wcIteration w) of
        Some existing \<Rightarrow>
          if \<not> sameEvent (WorkspaceCommitted existing) (WorkspaceCommitted w) then semantic ''conflicting workspace event''
          else Inr s
      | None \<Rightarrow>
          map_sum id (\<lambda>r. addContent r (setFrame (wcFrameId w) (f\<lparr>frWorkspaces := frWorkspaces f @ [(wcIteration w, w)]\<rparr>) s))
            (reference RoleWorkspace (Some (wcWorkspaceRef w)) (Some (wcWorkspaceSha256 w)) (Some (wcWorkspaceBytes w)) None))"

text \<open>The controller operation of a committed cell: its last segment must be settled and carry the cell's usage.\<close>

definition controllerSettled :: "recovery_state \<Rightarrow> cell_commit \<Rightarrow> recovery_error + unit" where
  "controllerSettled s c =
     (let controller = map_of (rcOperations s)
            (ccFrameId c @ [0] @ ccFrameId c @ js '':controller:'' @ natString (ccIteration c));
          segment = Option.bind controller (\<lambda>r. last_opt (opSegments r));
          incomplete = (case controller of
             None \<Rightarrow> False
           | Some r \<Rightarrow> opKind r \<noteq> OpController \<or> length (opSegments r) \<noteq> 1
               \<or> (case segment of None \<Rightarrow> True | Some sg \<Rightarrow> sgSettlements sg \<noteq> length (sgIntents sg)))
      in if incomplete then semantic ''cell controller operation is incomplete''
         else if \<not> sameProps (usageProps (case ccUsage c of None \<Rightarrow> ZERO_CALL_USAGE | Some u \<Rightarrow> u))
                    (usageProps (case segment of None \<Rightarrow> ZERO_CALL_USAGE | Some sg \<Rightarrow> sgUsage sg))
         then semantic ''cell usage does not match controller settlements''
         else Inr ())"

definition cellOutput :: "cell_commit \<Rightarrow> recovery_state \<Rightarrow> recovery_error + recovery_state" where
  "cellOutput c s =
     (if ccOutputRef c = None then Inr s
      else map_sum id (\<lambda>r. addContent r s)
             (reference RoleAnswer (ccOutputRef c) (ccOutputRefSha256 c) (ccOutputRefBytes c) None))"

definition onCell :: "manifest_document \<Rightarrow> cell_commit \<Rightarrow> frame_record \<Rightarrow> recovery_state \<Rightarrow> recovery_error + recovery_state" where
  "onCell d c f s =
     (if jint (maxControllerTurns (mdLimits d)) < int (ccIteration c)
      then semantic ''committed cells exceed the manifest turn limit''
      else resBind (rememberExact (rcCells s) (cellKey (ccFrameId c) (ccIteration c)) (CellCommitted c) ''cell'') (\<lambda>(cells, new).
        if \<not> new then Inr s
        else if jint (maxControllerTurns (mdLimits d)) < rcControllerTurns s + 1
        then semantic ''committed cells exceed the global manifest turn limit''
        else if ccIteration c \<noteq> nextIteration f then semantic ''cell iterations are not contiguous''
        else resBind (controllerSettled s c) (\<lambda>_.
          cellOutput c
            (setFrame (ccFrameId c) (f\<lparr>frCells := frCells f @ [(ccIteration c, c)]\<rparr>)
               (s\<lparr>rcCells := cells, rcControllerTurns := rcControllerTurns s + 1\<rparr>)))))"

section \<open>Operations\<close>

definition reserveIntent :: "manifest_document \<Rightarrow> operation_intended \<Rightarrow> recovery_state \<Rightarrow> recovery_error + recovery_state" where
  "reserveIntent d x s =
     (let r = oiReservation x; ls = mdLimits d;
          attempts = rcAttempts s + jint (resAttempts r);
          calls = rcLogicalCalls s + jint (resLogicalCalls r);
          reserved = rcTokensReserved s + jint (resTokens r)
      in if oiRunId x \<noteq> mdRunId d then identityError ''operation intent run does not match the manifest''
         else if map_of (rcIntents s) (oiIntentId x) \<noteq> None then semantic ''duplicate operation intent''
         else if jint (maxAttempts ls) < attempts \<or> jint (maxLogicalCalls ls) < calls
         then semantic ''operation reservations exceed manifest limits''
         else if MAX_SAFE_INTEGER - jint (resTokens r) < rcTokensReserved s
         then semantic ''operation token reservations overflow''
         else if (case tokenLimit ls of None \<Rightarrow> False | Some t \<Rightarrow> jint t - reserved < rcTokensUsed s)
         then semantic ''operation token reservations exceed the manifest token limit''
         else if (oiRequestIdentityVersion x = AGENT_REQUEST_IDENTITY_VERSION
                  \<or> oiRequestIdentityVersion x = EXTERNAL_EXTRACTOR_REQUEST_IDENTITY_VERSION) \<and> jint (resTokens r) \<noteq> 0
         then semantic ''opaque operation has a token reservation''
         else if oiRequestIdentityVersion x = PROVIDER_REQUEST_IDENTITY_VERSION \<and> jint (resTokens r) = 0
         then semantic ''provider operation lacks a token reservation''
         else Inr (s\<lparr>rcAttempts := attempts, rcLogicalCalls := calls, rcTokensReserved := reserved\<rparr>))"

text \<open>The call id derived from a key binding; the hashed object is shallow, so its canonical text exists.\<close>

definition canonicalText :: "json \<Rightarrow> jstr" where
  "canonicalText v = (case canonicalStringify v of Inr t \<Rightarrow> t | Inl _ \<Rightarrow> [])"

definition boundCallId :: "hasher \<Rightarrow> jstr \<Rightarrow> jstr \<Rightarrow> jstr \<Rightarrow> jstr \<Rightarrow> jstr" where
  "boundCallId hasher runId kind key bound =
     js ''call_'' @ kind @ js ''_'' @ hasher (canonicalText (JObj
       [(js ''runId'', JStr runId), (js ''kind'', JStr kind), (js ''key'', JStr key), (js ''identityHash'', JStr bound)]))"

definition bindingHash :: "rlm_event option \<Rightarrow> jstr option" where
  "bindingHash e = (case e of Some (KeyBound _ _ _ h) \<Rightarrow> Some h | _ \<Rightarrow> None)"

definition authorizeController :: "manifest_document \<Rightarrow> operation_intended \<Rightarrow> frame_record \<Rightarrow> recovery_state \<Rightarrow> recovery_error + recovery_state" where
  "authorizeController d x f s =
     (let iteration = natString (nextIteration f)
      in if oiOperationId x \<noteq> oiFrameId x @ js '':controller:'' @ iteration \<or> oiKey x \<noteq> iteration
            \<or> oiRequestIdentityVersion x \<noteq> PROVIDER_REQUEST_IDENTITY_VERSION
         then semantic ''controller operation does not match its authoritative turn''
         else if oiOperationId x \<in> set (rcControllerOperations s) then Inr s
         else if jint (maxControllerTurns (mdLimits d)) < int (length (rcControllerOperations s)) + 1
         then semantic ''controller operations exceed the manifest turn limit''
         else Inr (s\<lparr>rcControllerOperations := rcControllerOperations s @ [oiOperationId x]\<rparr>))"

definition authorizeCall :: "hasher \<Rightarrow> manifest_document \<Rightarrow> operation_intended \<Rightarrow> recovery_state \<Rightarrow> recovery_error + recovery_state" where
  "authorizeCall hasher d x s =
     (let kind = operationKindText (oiKind x);
          expected = map_option (boundCallId hasher (mdRunId d) kind (oiKey x))
            (bindingHash (map_of (rcKeys s) (operationKeyRegistryId kind (oiKey x))))
      in if Some (oiOperationId x) \<noteq> expected then semantic ''call operation lacks its authoritative key binding''
         else if oiKind x = OpLlm \<and> oiRequestIdentityVersion x \<noteq> PROVIDER_REQUEST_IDENTITY_VERSION
         then semantic ''llm operation has an invalid request protocol''
         else if oiKind x = OpAgent
            \<and> (oiRequestIdentityVersion x \<noteq> AGENT_REQUEST_IDENTITY_VERSION
               \<or> (case map_of (rcApprovals s) (oiFrameId x @ [0] @ oiOperationId x) of
                    Some (AgentApproval _ _ _ _ decision) \<Rightarrow> decision = Denied | _ \<Rightarrow> True))
         then semantic ''agent operation lacks prior approval''
         else Inr s)"

definition authorizeIntent :: "hasher \<Rightarrow> manifest_document \<Rightarrow> operation_intended \<Rightarrow> frame_record \<Rightarrow> recovery_state \<Rightarrow> recovery_error + recovery_state" where
  "authorizeIntent hasher d x f s =
     (case oiKind x of
        OpController \<Rightarrow> authorizeController d x f s
      | OpExtractor \<Rightarrow>
          if oiFrameId x \<noteq> rootFrameId d \<or> oiOperationId x \<noteq> mdRunId d @ js '':extractor''
             \<or> Some (oiKey x) \<noteq> map_option epProjectionHash (frProjection f) \<or> \<not> mdHasExtractor d
          then semantic ''extractor operation lacks its authoritative fallback projection''
          else Inr s
      | _ \<Rightarrow> authorizeCall hasher d x s)"

definition operationKey :: "operation_intended \<Rightarrow> jstr" where
  "operationKey x = oiFrameId x @ [0] @ oiOperationId x"

definition attachIntent :: "operation_intended \<Rightarrow> recovery_state \<Rightarrow> recovery_error + recovery_state" where
  "attachIntent x s =
     (let key = operationKey x; operation = map_of (rcOperations s) key;
          attemptKey = key @ [0] @ numString (oiAttempt x); attempt = jint (oiAttempt x);
          opensCall = (jint (resLogicalCalls (oiReservation x)) = 1)
      in if (case operation of None \<Rightarrow> False | Some r \<Rightarrow> opKind r \<noteq> oiKind x \<or> opKey r \<noteq> oiKey x)
         then semantic ''operation identity changed between attempts''
         else if attemptKey \<in> set (rcAttemptIntents s) then semantic ''duplicate operation attempt intent''
         else if attempt \<noteq> (case operation of None \<Rightarrow> 1 | Some r \<Rightarrow> opLastAttempt r + 1)
         then semantic ''operation attempts are not contiguous''
         else if (case operation of None \<Rightarrow> False | Some r \<Rightarrow> map_of (rcSettlements s) (opLastIntentId r) = None)
         then semantic ''operation launched another attempt before prior settlement''
         else if operation = None \<and> \<not> opensCall then semantic ''first operation attempt lacks a logical-call reservation''
         else if oiKind x = OpAgent \<and> \<not> opensCall then semantic ''agent attempt lacks a logical-call reservation''
         else let r = (case operation of
                         None \<Rightarrow> \<lparr>opKind = oiKind x, opKey = oiKey x, opSegments = [], opLastAttempt = 0, opLastIntentId = []\<rparr>
                       | Some r \<Rightarrow> r);
                  segments = (if opensCall
                    then opSegments r @ [\<lparr>sgIntents = [], sgOutcomes = [], sgUsage = ZERO_CALL_USAGE, sgSettlements = 0\<rparr>]
                    else opSegments r)
              in if segments = [] then semantic ''operation attempt has no logical-call segment''
                 else let index = length segments - 1;
                          segments' = segments[index := (last segments)\<lparr>sgIntents := sgIntents (last segments) @ [x]\<rparr>]
                      in Inr (s\<lparr>rcIntents := rcIntents s @ [(oiIntentId x, x)],
                           rcAttemptIntents := rcAttemptIntents s @ [attemptKey],
                           rcAttemptRecords := rcAttemptRecords s @ [(oiIntentId x, key, index)],
                           rcOperations := alSet key
                             (r\<lparr>opSegments := segments', opLastAttempt := attempt, opLastIntentId := oiIntentId x\<rparr>)
                             (rcOperations s)\<rparr>))"

definition onIntended :: "hasher \<Rightarrow> manifest_document \<Rightarrow> operation_intended \<Rightarrow> frame_record \<Rightarrow> recovery_state \<Rightarrow> recovery_error + recovery_state" where
  "onIntended hasher d x f s =
     resBind (reserveIntent d x s) (\<lambda>s. resBind (authorizeIntent hasher d x f s) (attachIntent x))"

definition usageParts :: "call_usage \<Rightarrow> int" where
  "usageParts u = (case uInputTokens u of None \<Rightarrow> 0 | Some n \<Rightarrow> jint n) + (case uOutputTokens u of None \<Rightarrow> 0 | Some n \<Rightarrow> jint n)"

text \<open>The settled attempt's segment gains the outcome and the usage.\<close>

definition settleSegment :: "operation_settled \<Rightarrow> call_usage \<Rightarrow> nat \<Rightarrow> operation_record \<Rightarrow> operation_record" where
  "settleSegment x combined index r =
     r\<lparr>opSegments := (opSegments r)[index :=
         (let sg = opSegments r ! index
          in sg\<lparr>sgUsage := combined, sgSettlements := sgSettlements sg + 1, sgOutcomes := sgOutcomes sg @ [x]\<rparr>)]\<rparr>"

definition onSettled :: "manifest_document \<Rightarrow> operation_settled \<Rightarrow> recovery_state \<Rightarrow> recovery_error + recovery_state" where
  "onSettled d x s =
     (if osRunId x \<noteq> mdRunId d then identityError ''operation settlement run does not match the manifest''
      else case (map_of (rcIntents s) (osIntentId x), map_of (rcAttemptRecords s) (osIntentId x)) of
        (Some intent, Some (key, index)) \<Rightarrow>
          (let u = osUsage x; parts = usageParts u;
               actual = (case uTotalTokens u of None \<Rightarrow> parts | Some t \<Rightarrow> jint t);
               reserved = jint (resTokens (oiReservation intent))
           in if oiFrameId intent \<noteq> osFrameId x then semantic ''operation settlement frame does not match its intent''
              else if map_of (rcSettlements s) (osIntentId x) \<noteq> None then semantic ''duplicate operation settlement''
              else if \<not> isOk (normalizeUsage u CALL_USAGE_LIMITS) \<or> (case uTotalTokens u of None \<Rightarrow> False | Some t \<Rightarrow> jint t < parts)
              then semantic ''operation settlement usage is invalid''
              else if rcTokensReserved s < reserved then semantic ''operation token settlement exceeds reservations''
              else if MAX_SAFE_INTEGER - actual < rcTokensUsed s then semantic ''operation token usage overflows''
              else case map_of (rcOperations s) key of
                None \<Rightarrow> semantic ''operation settlement has no prior intent''
              | Some r \<Rightarrow>
                  (case addUsage (sgUsage (opSegments r ! index)) u of
                     Inl _ \<Rightarrow> semantic ''operation settlement usage aggregate is invalid''
                   | Inr combined \<Rightarrow>
                       Inr (s\<lparr>rcTokensReserved := rcTokensReserved s - reserved, rcTokensUsed := rcTokensUsed s + actual,
                              rcOperations := alSet key (settleSegment x combined index r) (rcOperations s),
                              rcSettlements := rcSettlements s @ [(osIntentId x, x)]\<rparr>)))
      | _ \<Rightarrow> semantic ''operation settlement has no prior intent'')"

section \<open>Checkpoints, calls, answers and closure\<close>

definition unsettled :: "recovery_state \<Rightarrow> jstr list" where
  "unsettled s = filter (\<lambda>i. map_of (rcSettlements s) i = None) (map fst (rcIntents s))"

definition onCheckpoint :: "manifest_document \<Rightarrow> checkpoint_commit \<Rightarrow> recovery_state \<Rightarrow> recovery_error + recovery_state" where
  "onCheckpoint d c s =
     (let rootCells = (case map_of (rcFrames s) (rootFrameId d) of None \<Rightarrow> 0 | Some f \<Rightarrow> length (frCells f));
          openFrames = filter (\<lambda>(i, f). frClosed f = None) (rcFrames s)
      in if ckRunId c \<noteq> mdRunId d \<or> ckManifestHash c \<noteq> mdManifestHash d \<or> ckFrameId c \<noteq> rootFrameId d
         then identityError ''checkpoint identity does not match the run manifest''
         else if jint (ckCheckpointSequence c) \<noteq> rcCheckpointSequence s + 1
         then semantic ''checkpoint sequences are not contiguous''
         else if jint (ckNextIteration c) \<noteq> int rootCells + 1 \<or> jint (ckNextControllerTurn c) \<noteq> rcControllerTurns s + 1
         then semantic ''checkpoint continuation does not match the next controller turn''
         else if unsettled s \<noteq> [] \<or> rcTokensReserved s \<noteq> 0
         then semantic ''checkpoint was committed with an unsettled external operation''
         else if map fst openFrames \<noteq> [rootFrameId d]
         then semantic ''checkpoint was not committed at a quiescent root-frame boundary''
         else resBind (validateRecurseExecutionBijection (mdRunId d) (rcFrames s) (rcCalls s)) (\<lambda>_.
                map_sum id (\<lambda>r. addContent r (s\<lparr>rcCheckpointSequence := jint (ckCheckpointSequence c)\<rparr>))
                  (reference RoleCheckpoint (Some (ckCheckpointRef c)) (Some (ckCheckpointSha256 c)) (Some (ckCheckpointBytes c))
                     (Some (CheckpointCommitted c)))))"

definition callBinding :: "manifest_document \<Rightarrow> call_commit \<Rightarrow> recovery_state \<Rightarrow> recovery_error + rlm_event option" where
  "callBinding d c s =
     (if clKind c = KLlm \<or> clKind c = KAgent
      then Inr (map_of (rcKeys s) (operationKeyRegistryId (kindText (clKind c)) (clKey c)))
      else map_sum id (map_of (rcKeys s)) (recoveryKeyRegistryId (mdRunId d) (clFrameId c) (clKind c) (clKey c)))"

definition operationKindOf :: "call_kind \<Rightarrow> operation_kind option" where
  "operationKindOf k = (if k = KLlm then Some OpLlm else if k = KAgent then Some OpAgent else None)"

text \<open>A model or agent call must carry the id its binding derives and the outcome and usage of its settled operation.\<close>

definition callAuthentic :: "hasher \<Rightarrow> manifest_document \<Rightarrow> call_commit \<Rightarrow> jstr \<Rightarrow> recovery_state \<Rightarrow> bool" where
  "callAuthentic hasher d c bound s =
     (clCallId c = boundCallId hasher (mdRunId d) (kindText (clKind c)) (clKey c) bound
      \<and> (case map_of (rcOperations s) (clFrameId c @ [0] @ clCallId c) of
           None \<Rightarrow> False
         | Some r \<Rightarrow>
             Some (opKind r) = operationKindOf (clKind c)
             \<and> (case last_opt (opSegments r) of
                  None \<Rightarrow> False
                | Some sg \<Rightarrow> sgSettlements sg = length (sgIntents sg)
                    \<and> clOk c = (map_option osOutcome (last_opt (sgOutcomes sg)) = Some OutOk)
                    \<and> sameProps (usageProps (clUsage c)) (usageProps (sgUsage sg)))))"

definition onCall :: "hasher \<Rightarrow> manifest_document \<Rightarrow> call_commit \<Rightarrow> recovery_state \<Rightarrow> recovery_error + recovery_state" where
  "onCall hasher d c s =
     resBind (callBinding d c s) (\<lambda>binding.
       case bindingHash binding of
         None \<Rightarrow> semantic ''committed call lacks one prior key binding''
       | Some bound \<Rightarrow>
           (let executions = (case map_of (rcCalls s) (clCallId c) of None \<Rightarrow> [] | Some es \<Rightarrow> es); prior = last_opt executions
            in if clCached c then semantic ''committed call lacks one prior key binding''
               else if clKind c \<noteq> KRecurse
                  \<and> (case prior of None \<Rightarrow> False | Some p \<Rightarrow> sameEvent (CallCommitted p) (CallCommitted c))
               then Inr s
               else if (case prior of None \<Rightarrow> False
                        | Some p \<Rightarrow> \<not> recoveryCallRetryFrameCompatible p c \<or> clKey p \<noteq> clKey c \<or> clOk p)
               then semantic ''invalid repeated call execution''
               else if operationKindOf (clKind c) \<noteq> None \<and> \<not> callAuthentic hasher d c bound s
               then semantic ''committed call identity or usage does not match authoritative operation settlements''
               else map_sum id (\<lambda>r. addContent r (s\<lparr>rcCalls := alSet (clCallId c) (executions @ [c]) (rcCalls s)\<rparr>))
                      (reference RoleCall (clOutputRef c) (clOutputSha256 c) (clOutputBytes c) (Some (CallCommitted c)))))"

definition onAnswer ::
    "rlm_event \<Rightarrow> jstr \<Rightarrow> completion_mode \<Rightarrow> jstr \<Rightarrow> jstr option \<Rightarrow> jsnum option \<Rightarrow> frame_record \<Rightarrow> recovery_state
      \<Rightarrow> recovery_error + recovery_state" where
  "onAnswer event i mode ref h b f s =
     (case frAnswer f of
        Some a \<Rightarrow> if \<not> sameEvent a event then semantic ''conflicting frame answer'' else Inr s
      | None \<Rightarrow>
          if mode = ModeAnswer
             \<and> (case map_of (frCells f) (length (frCells f)) of
                  None \<Rightarrow> True
                | Some c \<Rightarrow> ccOutputRef c \<noteq> Some ref \<or> ccOutputRefSha256 c \<noteq> h \<or> ccOutputRefBytes c \<noteq> b)
          then semantic ''answer does not match its committed cell''
          else if mode = ModeFallbackExtract \<and> (frProjection f = None \<or> frCitation f = None)
          then semantic ''fallback answer lacks its projection and evidence citations''
          else map_sum id (\<lambda>r. addContent r (setFrame i (f\<lparr>frAnswer := Some event\<rparr>) s))
                 (reference RoleAnswer (Some ref) h b (Some event)))"

definition onClosed :: "jstr \<Rightarrow> frame_state \<Rightarrow> frame_record \<Rightarrow> recovery_state \<Rightarrow> recovery_error + recovery_state" where
  "onClosed i st f s =
     (if st = FrameOpen then semantic ''frame_closed cannot retain open state''
      else if list_ex (\<lambda>(_, child). frParent child = Some i \<and> frClosed child = None) (rcFrames s)
      then semantic ''parent frame closed before its child''
      else Inr (setFrame i (f\<lparr>frClosed := Some st\<rparr>) s))"

definition onProjected :: "manifest_document \<Rightarrow> evidence_projection \<Rightarrow> frame_record \<Rightarrow> recovery_state \<Rightarrow> recovery_error + recovery_state" where
  "onProjected d p f s =
     (if epFrameId p \<noteq> rootFrameId d \<or> frProjection f \<noteq> None \<or> frAnswer f \<noteq> None \<or> jless (epMaxBytes p) (epProjectedBytes p)
         \<or> epTruncated p \<noteq> (jless (Num 0) (epOmittedBytes p) \<or> jless (Num 0) (epOmittedItems p) \<or> jless (Num 0) (epTruncatedItems p))
      then semantic ''invalid fallback evidence projection''
      else Inr (setFrame (epFrameId p) (f\<lparr>frProjection := Some p\<rparr>) s))"

definition onCited ::
    "hasher \<Rightarrow> manifest_document \<Rightarrow> jstr \<Rightarrow> jstr list \<Rightarrow> jstr \<Rightarrow> frame_record \<Rightarrow> recovery_state \<Rightarrow> recovery_error + recovery_state" where
  "onCited hasher d i refs h f s =
     (case frProjection f of
        None \<Rightarrow> semantic ''invalid fallback evidence citation''
      | Some p \<Rightarrow>
          if i \<noteq> rootFrameId d \<or> frCitation f \<noteq> None \<or> \<not> distinct refs
             \<or> jless (epEvidenceIdCount p) (JI (int (length refs))) \<or> h \<noteq> hasher (jsonText (JArr (map JStr refs)))
          then semantic ''invalid fallback evidence citation''
          else Inr (setFrame i (f\<lparr>frCitation := Some refs\<rparr>) s))"

section \<open>The fold\<close>

definition terminalRun :: "rlm_event \<Rightarrow> jstr option" where
  "terminalRun e = (case e of RunCompleted r _ _ \<Rightarrow> Some r | RunFailed r _ _ \<Rightarrow> Some r | RunCancelled r _ \<Rightarrow> Some r | _ \<Rightarrow> None)"

definition recoveryStep :: "hasher \<Rightarrow> manifest_document \<Rightarrow> jstr \<Rightarrow> rlm_event \<Rightarrow> recovery_state \<Rightarrow> recovery_error + recovery_state" where
  "recoveryStep hasher d programObjective event s =
     (if rcTerminal s \<noteq> None then semantic ''event follows the run terminal''
      else case event of
        RunStarted _ _ _ _ \<Rightarrow> semantic ''duplicate run_started event''
      | RunCompleted r _ _ \<Rightarrow>
          if r \<noteq> mdRunId d then identityError ''run terminal does not match the manifest'' else Inr (s\<lparr>rcTerminal := Some event\<rparr>)
      | RunFailed r _ _ \<Rightarrow>
          if r \<noteq> mdRunId d then identityError ''run terminal does not match the manifest'' else Inr (s\<lparr>rcTerminal := Some event\<rparr>)
      | RunCancelled r _ \<Rightarrow>
          if r \<noteq> mdRunId d then identityError ''run terminal does not match the manifest'' else Inr (s\<lparr>rcTerminal := Some event\<rparr>)
      | FrameOpened i parent depth objective \<Rightarrow> onFrameOpened d programObjective i parent depth objective s
      | Phase i iteration ordinal _ \<Rightarrow> resBind (requireFrame s i) (\<lambda>f. onProgress event i iteration ordinal f s)
      | Emit i iteration ordinal _ \<Rightarrow> resBind (requireFrame s i) (\<lambda>f. onProgress event i iteration ordinal f s)
      | WorkspaceCommitted w \<Rightarrow> resBind (requireFrame s (wcFrameId w)) (\<lambda>f. onWorkspace w f s)
      | CellCommitted c \<Rightarrow> resBind (requireFrame s (ccFrameId c)) (\<lambda>f. onCell d c f s)
      | KeyBound i kind key _ \<Rightarrow>
          resBind (requireFrame s i) (\<lambda>_. resBind (recoveryKeyRegistryId (mdRunId d) i kind key) (\<lambda>k.
            map_sum id (\<lambda>(keys, _). s\<lparr>rcKeys := keys\<rparr>) (rememberExact (rcKeys s) k event ''key binding'')))
      | AgentApproval i callId _ _ _ \<Rightarrow>
          resBind (requireFrame s i) (\<lambda>_.
            map_sum id (\<lambda>(approvals, _). s\<lparr>rcApprovals := approvals\<rparr>)
              (rememberExact (rcApprovals s) (i @ [0] @ callId) event ''agent approval''))
      | OperationIntended x \<Rightarrow> resBind (requireFrame s (oiFrameId x)) (\<lambda>f. onIntended hasher d x f s)
      | OperationSettled x \<Rightarrow> resBind (requireFrame s (osFrameId x)) (\<lambda>_. onSettled d x s)
      | CheckpointCommitted c \<Rightarrow> resBind (requireFrame s (ckFrameId c)) (\<lambda>_. onCheckpoint d c s)
      | CallCommitted c \<Rightarrow> resBind (requireFrame s (clFrameId c)) (\<lambda>_. onCall hasher d c s)
      | AnswerCommitted i mode ref h b \<Rightarrow> resBind (requireFrame s i) (\<lambda>f. onAnswer event i mode ref h b f s)
      | FrameClosedEvent i st \<Rightarrow> resBind (requireFrame s i) (\<lambda>f. onClosed i st f s)
      | EvidenceProjected p \<Rightarrow> resBind (requireFrame s (epFrameId p)) (\<lambda>f. onProjected d p f s)
      | EvidenceCited i refs h \<Rightarrow> resBind (requireFrame s i) (\<lambda>f. onCited hasher d i refs h f s))"

fun recoveryFold :: "hasher \<Rightarrow> manifest_document \<Rightarrow> jstr \<Rightarrow> rlm_event list \<Rightarrow> recovery_state \<Rightarrow> recovery_error + recovery_state" where
  "recoveryFold hasher d objective [] s = Inr s"
| "recoveryFold hasher d objective (e # es) s = resBind (recoveryStep hasher d objective e s) (recoveryFold hasher d objective es)"

section \<open>Final checks\<close>

text \<open>Cells whose interpreter failed may lack a workspace.\<close>

definition INTERPRETER_FAILURES :: "string list" where
  "INTERPRETER_FAILURES = [''CPU_LIMIT'', ''HEAP_LIMIT'', ''WORKER_EXIT'', ''JOURNAL_CORRUPT'', ''LATE_CALLBACK'',
     ''UNHANDLED_REJECTION'', ''PARSE_ERROR'', ''DISPOSED'']"

definition answerOf :: "frame_record \<Rightarrow> (completion_mode \<times> jstr) option" where
  "answerOf f = (case frAnswer f of Some (AnswerCommitted _ mode ref _ _) \<Rightarrow> Some (mode, ref) | _ \<Rightarrow> None)"

definition cellProblem :: "frame_record \<Rightarrow> nat \<times> cell_commit \<Rightarrow> string option" where
  "cellProblem f ic =
     (let c = snd ic;
          failed = (case ccError c of None \<Rightarrow> False | Some e \<Rightarrow> eeCode e \<in> set (map js INTERPRETER_FAILURES))
      in if \<not> failed \<and> map_of (frWorkspaces f) (fst ic) = None then Some ''evaluated cell lacks a committed workspace''
         else if ccOutputRef c \<noteq> None \<and> answerOf f \<noteq> map_option (\<lambda>r. (ModeAnswer, r)) (ccOutputRef c)
         then Some ''output-bearing cell lacks its answer event''
         else None)"

definition workspaceProblem :: "bool \<Rightarrow> frame_record \<Rightarrow> nat \<Rightarrow> string option" where
  "workspaceProblem terminal f iteration =
     (if map_of (frCells f) iteration = None \<and> (terminal \<or> iteration \<noteq> nextIteration f)
      then Some ''workspace has no matching cell boundary'' else None)"

definition frameProblems :: "bool \<Rightarrow> frame_record \<Rightarrow> string list" where
  "frameProblems terminal f =
     List.map_filter (cellProblem f) (frCells f) @ List.map_filter (workspaceProblem terminal f) (map fst (frWorkspaces f))"

definition checkTerminal :: "manifest_document \<Rightarrow> rlm_event \<Rightarrow> recovery_state \<Rightarrow> recovery_error + unit" where
  "checkTerminal d terminal s =
     (let root = map_of (rcFrames s) (rootFrameId d); inconsistent = (\<lambda>m. Inl (RecoveryError TerminalInconsistent (js m)))
      in if list_ex (\<lambda>(_, f). frClosed f = None) (rcFrames s) then semantic ''terminal run has an open frame''
         else case terminal of
           RunCompleted _ mode ref \<Rightarrow>
             resBind (validateRecurseExecutionBijection (mdRunId d) (rcFrames s) (rcCalls s)) (\<lambda>_.
               case root of
                 None \<Rightarrow> inconsistent ''completed terminal lacks one matching root answer''
               | Some f \<Rightarrow>
                   if frClosed f \<noteq> Some FrameAnswered \<or> ref = None \<or> answerOf f \<noteq> map_option (\<lambda>r. (mode, r)) ref
                   then inconsistent ''completed terminal lacks one matching root answer'' else Inr ())
         | RunCancelled _ _ \<Rightarrow>
             (case root of
                None \<Rightarrow> Inr ()
              | Some f \<Rightarrow> if frClosed f \<noteq> Some FrameCancelled
                         then inconsistent ''cancelled terminal has inconsistent root state'' else Inr ())
         | RunFailed _ _ _ \<Rightarrow>
             (case root of
                None \<Rightarrow> Inr ()
              | Some f \<Rightarrow> if frClosed f \<noteq> Some FrameFailed
                         then inconsistent ''failed terminal has inconsistent root state'' else Inr ())
         | _ \<Rightarrow> Inr ())"

record recovery_model =
  rmRootFrameId :: jstr
  rmTerminal :: "rlm_event option"
  rmRootAnswer :: "rlm_event option"
  rmContent :: "content_reference list"
  rmCommittedCells :: nat
  rmCommittedCalls :: nat

definition finishRecovery :: "manifest_document \<Rightarrow> recovery_state \<Rightarrow> recovery_error + recovery_model" where
  "finishRecovery d s =
     (case concat (map (frameProblems (rcTerminal s \<noteq> None) \<circ> snd) (rcFrames s)) of
        m # _ \<Rightarrow> semantic m
      | [] \<Rightarrow>
          resBind (case rcTerminal s of None \<Rightarrow> Inr () | Some t \<Rightarrow> checkTerminal d t s) (\<lambda>_.
            if unsettled s \<noteq> []
            then Inl (RecoveryError AmbiguousOperations
                   (js ''one or more external operation intents have no authoritative settlement''))
            else if rcTokensReserved s \<noteq> 0 then semantic ''settled operation journal retains token reservations''
            else Inr \<lparr>rmRootFrameId = rootFrameId d, rmTerminal = rcTerminal s,
                      rmRootAnswer = Option.bind (map_of (rcFrames s) (rootFrameId d)) frAnswer,
                      rmContent = rcContent s, rmCommittedCells = length (rcCells s), rmCommittedCalls = length (rcCalls s)\<rparr>))"

section \<open>The start of the journal\<close>

definition inputMatches :: "input_ref \<Rightarrow> manifest_input \<Rightarrow> bool" where
  "inputMatches item expected \<longleftrightarrow>
     irName item = miName expected \<and> irSha256 item = miSha256 expected \<and> jeq (irBytes item) (miBytes expected)
     \<and> irId item = js ''ctx_'' @ miSha256 expected"

definition initRecovery :: "input_ref list \<Rightarrow> recovery_state" where
  "initRecovery refs =
     \<lparr>rcFrames = [], rcCells = [], rcCalls = [], rcKeys = [], rcApprovals = [], rcIntents = [], rcSettlements = [],
      rcAttemptIntents = [], rcAttemptRecords = [], rcOperations = [], rcControllerOperations = [], rcControllerTurns = 0,
      rcLogicalCalls = 0, rcAttempts = 0, rcTokensReserved = 0, rcTokensUsed = 0, rcChildFrames = 0,
      rcCheckpointSequence = 0, rcTerminal = None,
      rcContent = map (\<lambda>r. \<lparr>crRole = RoleInput, crId = irId r, crSha256 = irSha256 r, crBytes = irBytes r, crEvent = None\<rparr>) refs\<rparr>"

definition isStart :: "rlm_event \<Rightarrow> bool" where
  "isStart e = (case e of RunStarted _ _ _ _ \<Rightarrow> True | _ \<Rightarrow> False)"

definition startRecovery :: "manifest_document \<Rightarrow> rlm_event list \<Rightarrow> recovery_error + recovery_state" where
  "startRecovery d events =
     (case events of
        RunStarted runId manifestHash ls refs # rest \<Rightarrow>
          if list_ex isStart rest then semantic ''journal must contain exactly one run_started event''
          else if runId \<noteq> mdRunId d \<or> manifestHash \<noteq> mdManifestHash d
          then identityError ''journal start does not match the manifest''
          else if \<not> sameProps (limitsFields ls) (limitsFields (mdLimits d))
          then identityError ''journal limits do not match the manifest''
          else (case refs of
            None \<Rightarrow> identityError ''journal inputs do not match the manifest''
          | Some items \<Rightarrow>
              if length items \<noteq> length (mdInputs d) \<or> \<not> list_all2 inputMatches items (mdInputs d)
              then identityError ''journal inputs do not match the manifest''
              else Inr (initRecovery items))
      | _ \<Rightarrow> semantic ''journal does not begin with run_started'')"

definition validateRecoveryJournal :: "hasher \<Rightarrow> manifest_document \<Rightarrow> rlm_event list \<Rightarrow> recovery_error + recovery_model" where
  "validateRecoveryJournal hasher d events =
     resBind (startRecovery d events) (\<lambda>s.
       case normalizeProgram (mdHeap d) (mdProgram d) of
         Inl _ \<Rightarrow> semantic ''manifest program cannot be normalized''
       | Inr program \<Rightarrow>
           resBind (recoveryFold hasher d (pgObjective program) (tl events) s) (finishRecovery d))"

section \<open>What the fold tracks\<close>

definition intendedOf :: "rlm_event list \<Rightarrow> operation_intended list" where
  "intendedOf es = List.map_filter (\<lambda>e. case e of OperationIntended x \<Rightarrow> Some x | _ \<Rightarrow> None) es"

definition settledOf :: "rlm_event list \<Rightarrow> operation_settled list" where
  "settledOf es = List.map_filter (\<lambda>e. case e of OperationSettled x \<Rightarrow> Some x | _ \<Rightarrow> None) es"

lemma intendedOf_simps [simp]:
  "intendedOf [] = []" "intendedOf (es @ fs) = intendedOf es @ intendedOf fs"
  "intendedOf [e] = (case e of OperationIntended x \<Rightarrow> [x] | _ \<Rightarrow> [])"
  "intendedOf (e # es) = (case e of OperationIntended x \<Rightarrow> x # intendedOf es | _ \<Rightarrow> intendedOf es)"
  by (simp_all add: intendedOf_def List.map_filter_def split: rlm_event.splits)

lemma settledOf_simps [simp]:
  "settledOf [] = []" "settledOf (es @ fs) = settledOf es @ settledOf fs"
  "settledOf [e] = (case e of OperationSettled x \<Rightarrow> [x] | _ \<Rightarrow> [])"
  "settledOf (e # es) = (case e of OperationSettled x \<Rightarrow> x # settledOf es | _ \<Rightarrow> settledOf es)"
  by (simp_all add: settledOf_def List.map_filter_def split: rlm_event.splits)

text \<open>The part of the state the accounting depends on; most handlers leave it alone.\<close>

definition accounts where
  "accounts s = (rcIntents s, rcSettlements s, rcAttempts s, rcLogicalCalls s, rcChildFrames s, rcControllerTurns s, rcCells s,
     rcTerminal s)"

lemma accounts_setFrame [simp]: "accounts (setFrame i f s) = accounts s" "accounts (addContent r s) = accounts s"
  by (simp_all add: accounts_def setFrame_def addContent_def)

text \<open>
  \<open>yields P r\<close>: whatever \<open>r\<close> returns satisfies \<open>P\<close>.  The introduction rules follow the shape of a handler, so
  that its guards need no simplification.
\<close>

definition yields :: "('a \<Rightarrow> bool) \<Rightarrow> 'e + 'a \<Rightarrow> bool" where
  "yields P r = (case r of Inl _ \<Rightarrow> True | Inr a \<Rightarrow> P a)"

lemma yieldsD: "yields P r \<Longrightarrow> r = Inr a \<Longrightarrow> P a"
  by (simp add: yields_def)

lemma yields_intros:
  "yields P (Inl e)"
  "P a \<Longrightarrow> yields P (Inr a)"
  "(c \<Longrightarrow> yields P r) \<Longrightarrow> (\<not> c \<Longrightarrow> yields P r') \<Longrightarrow> yields P (if c then r else r')"
  "(\<And>b. q = Inr b \<Longrightarrow> yields P (f b)) \<Longrightarrow> yields P (resBind q f)"
  "(\<And>b. q = Inr b \<Longrightarrow> P (g b)) \<Longrightarrow> yields P (map_sum id g q)"
  "(x = None \<Longrightarrow> yields P r) \<Longrightarrow> (\<And>y. x = Some y \<Longrightarrow> yields P (h y)) \<Longrightarrow> yields P (case x of None \<Rightarrow> r | Some y \<Rightarrow> h y)"
  "(\<And>y z. t = (y, z) \<Longrightarrow> yields P (k y z)) \<Longrightarrow> yields P (case t of (y, z) \<Rightarrow> k y z)"
  by (cases q; auto simp: yields_def split: sum.splits option.splits prod.splits)+

lemma rememberExact_new: "rememberExact registry k e w = Inr (cells, True) \<Longrightarrow> cells = registry @ [(k, e)]"
  by (auto simp: rememberExact_def split: option.splits if_splits)

definition sameAccounts :: "recovery_state \<Rightarrow> recovery_state \<Rightarrow> bool" where
  "sameAccounts s s' \<longleftrightarrow> accounts s' = accounts s"

lemma sameAccounts_simps [simp]:
  "sameAccounts s s" "sameAccounts s (setFrame i f t) = sameAccounts s t" "sameAccounts s (addContent r t) = sameAccounts s t"
  "sameAccounts s (s\<lparr>rcCheckpointSequence := n\<rparr>)" "sameAccounts s (s\<lparr>rcCalls := cs\<rparr>)"
  "sameAccounts s (s\<lparr>rcKeys := ks\<rparr>)" "sameAccounts s (s\<lparr>rcApprovals := as\<rparr>)"
  by (simp_all add: sameAccounts_def) (simp_all add: accounts_def)

lemma plain_handlers:
  "yields (sameAccounts s) (onProgress e i it n f s)"
  "yields (sameAccounts s) (onWorkspace w f s)"
  "yields (sameAccounts s) (onCheckpoint d c s)"
  "yields (sameAccounts s) (onCall hasher d cl s)"
  "yields (sameAccounts s) (onAnswer e i m r h b f s)"
  "yields (sameAccounts s) (onClosed i st f s)"
  "yields (sameAccounts s) (onProjected d p f s)"
  "yields (sameAccounts s) (onCited hasher d i refs hash f s)"
  unfolding onProgress_def onWorkspace_def onCheckpoint_def onCall_def onAnswer_def onClosed_def onProjected_def onCited_def Let_def
  by (intro yields_intros; simp (no_asm))+

lemma onFrameOpened_accounts:
  assumes "onFrameOpened d obj i parent depth objective s = Inr s'"
  shows "sameAccounts s s'
    \<or> (accounts s' = accounts (s\<lparr>rcChildFrames := rcChildFrames s + 1, rcLogicalCalls := rcLogicalCalls s + 1\<rparr>)
       \<and> rcLogicalCalls s + 1 \<le> jint (maxLogicalCalls (mdLimits d)) \<and> rcChildFrames s + 1 \<le> jint (maxFrames (mdLimits d)))"
  (is "?P s'")
proof -
  have "yields ?P (onFrameOpened d obj i parent depth objective s)"
    unfolding onFrameOpened_def Let_def by (intro yields_intros) auto
  then show ?thesis using assms by (rule yieldsD)
qed

lemma onCell_accounts:
  assumes "onCell d c f s = Inr s'"
  shows "sameAccounts s s'
    \<or> (accounts s' = accounts (s\<lparr>rcCells := rcCells s @ [(cellKey (ccFrameId c) (ccIteration c), CellCommitted c)],
          rcControllerTurns := rcControllerTurns s + 1\<rparr>)
       \<and> rcControllerTurns s + 1 \<le> jint (maxControllerTurns (mdLimits d)))"
  (is "?P s'")
proof -
  have "yields ?P (onCell d c f s)"
    unfolding onCell_def cellOutput_def by (intro yields_intros)
      (auto dest!: rememberExact_new simp: accounts_def addContent_def setFrame_def)
  then show ?thesis using assms by (rule yieldsD)
qed

lemma onIntended_accounts:
  assumes "onIntended hasher d x f s = Inr s'"
  shows "accounts s' = accounts (s\<lparr>rcIntents := rcIntents s @ [(oiIntentId x, x)],
        rcAttempts := rcAttempts s + jint (resAttempts (oiReservation x)),
        rcLogicalCalls := rcLogicalCalls s + jint (resLogicalCalls (oiReservation x))\<rparr>)
    \<and> map_of (rcIntents s) (oiIntentId x) = None
    \<and> rcAttempts s + jint (resAttempts (oiReservation x)) \<le> jint (maxAttempts (mdLimits d))
    \<and> rcLogicalCalls s + jint (resLogicalCalls (oiReservation x)) \<le> jint (maxLogicalCalls (mdLimits d))"
proof -
  obtain s1 s2 where r: "reserveIntent d x s = Inr s1" and a: "authorizeIntent hasher d x f s1 = Inr s2"
    and t: "attachIntent x s2 = Inr s'"
    using assms by (auto simp: onIntended_def resBind_eq_Inr)
  have "yields (\<lambda>s2. accounts s2 = accounts s1) (authorizeIntent hasher d x f s1)"
    unfolding authorizeIntent_def authorizeController_def authorizeCall_def Let_def
    by (cases "oiKind x") (simp_all only: operation_kind.case, (intro yields_intros; simp (no_asm) add: accounts_def)+)
  then have "accounts s2 = accounts s1" using a by (rule yieldsD)
  moreover have "yields (\<lambda>s'. accounts s' = accounts (s2\<lparr>rcIntents := rcIntents s2 @ [(oiIntentId x, x)]\<rparr>)) (attachIntent x s2)"
    unfolding attachIntent_def Let_def by (intro yields_intros) (simp (no_asm) add: accounts_def)
  then have "accounts s' = accounts (s2\<lparr>rcIntents := rcIntents s2 @ [(oiIntentId x, x)]\<rparr>)" using t by (rule yieldsD)
  ultimately show ?thesis
    using r by (auto simp: reserveIntent_def Let_def accounts_def split: if_splits)
qed

lemma onSettled_accounts:
  assumes "onSettled d x s = Inr s'"
  shows "accounts s' = accounts (s\<lparr>rcSettlements := rcSettlements s @ [(osIntentId x, x)]\<rparr>)
    \<and> (\<exists>intent. map_of (rcIntents s) (osIntentId x) = Some intent \<and> oiFrameId intent = osFrameId x)
    \<and> map_of (rcSettlements s) (osIntentId x) = None"
  using assms by (auto simp: onSettled_def Let_def accounts_def split: if_splits option.splits sum.splits)

text \<open>The state after the events \<open>es\<close>.\<close>

definition tracks :: "manifest_document \<Rightarrow> rlm_event list \<Rightarrow> recovery_state \<Rightarrow> bool" where
  "tracks d es s \<longleftrightarrow>
     rcIntents s = map (\<lambda>x. (oiIntentId x, x)) (intendedOf es) \<and> distinct (map oiIntentId (intendedOf es))
     \<and> rcSettlements s = map (\<lambda>x. (osIntentId x, x)) (settledOf es) \<and> distinct (map osIntentId (settledOf es))
     \<and> set (map osIntentId (settledOf es)) \<subseteq> set (map oiIntentId (intendedOf es))
     \<and> rcAttempts s = (\<Sum>x\<leftarrow>intendedOf es. jint (resAttempts (oiReservation x)))
     \<and> rcAttempts s \<le> max 0 (jint (maxAttempts (mdLimits d)))
     \<and> rcLogicalCalls s = rcChildFrames s + (\<Sum>x\<leftarrow>intendedOf es. jint (resLogicalCalls (oiReservation x)))
     \<and> rcLogicalCalls s \<le> max 0 (jint (maxLogicalCalls (mdLimits d)))
     \<and> 0 \<le> rcChildFrames s \<and> rcChildFrames s \<le> max 0 (jint (maxFrames (mdLimits d)))
     \<and> rcControllerTurns s = int (length (rcCells s))
     \<and> rcControllerTurns s \<le> max 0 (jint (maxControllerTurns (mdLimits d)))
     \<and> (case rcTerminal s of
          None \<Rightarrow> list_all (\<lambda>e. terminalRun e = None) es
        | Some t \<Rightarrow> es \<noteq> [] \<and> t = last es \<and> terminalRun t \<noteq> None \<and> list_all (\<lambda>e. terminalRun e = None) (butlast es))"

lemma tracks_accounts: "accounts s' = accounts s \<Longrightarrow> tracks d es s' = tracks d es s"
  by (simp add: tracks_def accounts_def)

lemma tracks_plain:
  assumes "tracks d es s" and "rcTerminal s = None" and "sameAccounts s s'"
    and "intendedOf [e] = []" and "settledOf [e] = []" and "terminalRun e = None"
  shows "tracks d (es @ [e]) s'"
  using assms tracks_accounts [of s' s d es] by (simp add: tracks_def sameAccounts_def accounts_def)

text \<open>Events other than frames, cells, operations and terminals leave the accounts alone.\<close>

definition accounted :: "rlm_event \<Rightarrow> bool" where
  "accounted e \<longleftrightarrow> terminalRun e \<noteq> None
     \<or> (case e of FrameOpened _ _ _ _ \<Rightarrow> True | CellCommitted _ \<Rightarrow> True | OperationIntended _ \<Rightarrow> True | OperationSettled _ \<Rightarrow> True
        | _ \<Rightarrow> False)"

lemma recoveryStep_plain:
  assumes "\<not> accounted e"
  shows "yields (sameAccounts s) (recoveryStep hasher d obj e s)"
  using assms unfolding recoveryStep_def
  by (cases e)
    (simp_all only: accounted_def terminalRun_def rlm_event.case option.distinct HOL.simp_thms,
     (intro yields_intros plain_handlers; simp add: case_prod_beta; fail)+)

lemma tracks_step:
  assumes ok: "tracks d es s" and step: "recoveryStep hasher d obj e s = Inr s'"
  shows "tracks d (es @ [e]) s' \<and> rcTerminal s = None"
proof -
  have live: "rcTerminal s = None" using step by (auto simp: recoveryStep_def split: if_splits)
  note st = step [unfolded recoveryStep_def]
  have "tracks d (es @ [e]) s'"
  proof (cases "accounted e")
    case False
    have "sameAccounts s s'" by (rule yieldsD [OF recoveryStep_plain [OF False] step])
    then show ?thesis
      using False by (intro tracks_plain [OF ok live]) (auto simp: accounted_def split: rlm_event.splits)
  next
    case True
    then show ?thesis
    proof (cases e)
      case (FrameOpened i parent depth objective)
      then have "onFrameOpened d obj i parent depth objective s = Inr s'" using st live by simp
      from onFrameOpened_accounts [OF this] show ?thesis
        using ok live by (auto simp: FrameOpened tracks_def accounts_def sameAccounts_def terminalRun_def)
    next
      case (CellCommitted c)
      then obtain f where "onCell d c f s = Inr s'" using st live by (auto simp: resBind_eq_Inr)
      from onCell_accounts [OF this] show ?thesis
        using ok live by (auto simp: CellCommitted tracks_def accounts_def sameAccounts_def terminalRun_def)
    next
      case (OperationIntended x)
      then obtain f where "onIntended hasher d x f s = Inr s'" using st live by (auto simp: resBind_eq_Inr)
      note acc = onIntended_accounts [OF this]
      have "oiIntentId x \<notin> set (map oiIntentId (intendedOf es))"
        using acc ok by (auto simp: tracks_def map_of_eq_None_iff image_image)
      then show ?thesis
        using acc ok live by (auto simp: OperationIntended tracks_def accounts_def terminalRun_def)
    next
      case (OperationSettled x)
      then have "onSettled d x s = Inr s'" using st live by (auto simp: resBind_eq_Inr)
      note acc = onSettled_accounts [OF this]
      have "osIntentId x \<notin> set (map osIntentId (settledOf es))" "osIntentId x \<in> set (map oiIntentId (intendedOf es))"
        using acc ok by (auto simp: tracks_def map_of_eq_None_iff image_image dest!: map_of_SomeD)
      then show ?thesis
        using acc ok live by (auto simp: OperationSettled tracks_def accounts_def terminalRun_def)
    qed (use st live ok in \<open>auto simp: tracks_def terminalRun_def accounted_def split: if_splits\<close>)
  qed
  then show ?thesis using live by simp
qed

lemma recoveryFold_append:
  "recoveryFold hasher d obj (es @ fs) s = resBind (recoveryFold hasher d obj es s) (recoveryFold hasher d obj fs)"
  by (induction es arbitrary: s) (auto simp: resBind_def split: sum.splits)

lemma tracks_fold:
  "recoveryFold hasher d obj es s = Inr s' \<Longrightarrow> tracks d pre s \<Longrightarrow> tracks d (pre @ es) s'"
proof (induction es arbitrary: pre s)
  case (Cons e es)
  then obtain s1 where s1: "recoveryStep hasher d obj e s = Inr s1" "recoveryFold hasher d obj es s1 = Inr s'"
    by (auto simp: resBind_eq_Inr)
  have "tracks d (pre @ [e]) s1" using tracks_step [OF Cons.prems(2) s1(1)] by simp
  from Cons.IH [OF s1(2) this] show ?case by simp
qed simp

lemma tracks_init: "tracks d [] (initRecovery refs)"
  by (simp add: tracks_def initRecovery_def)

section \<open>Content references\<close>

definition addressed :: "content_reference \<Rightarrow> bool" where
  "addressed r \<longleftrightarrow> crId r = js ''ctx_'' @ crSha256 r"

lemma reference_addressed: "reference role i h b e = Inr r \<Longrightarrow> addressed r"
  by (auto simp: reference_def addressed_def split: option.splits if_splits)

text \<open>A step keeps the references and adds addressed ones.\<close>

definition extends :: "recovery_state \<Rightarrow> recovery_state \<Rightarrow> bool" where
  "extends s s' \<longleftrightarrow> rcContent s' = rcContent s \<or> (\<exists>r. rcContent s' = rcContent s @ [r] \<and> addressed r)"

lemma content_simps [simp]: "rcContent (setFrame i f s) = rcContent s" "rcContent (addContent r s) = rcContent s @ [r]"
  by (simp_all add: setFrame_def addContent_def)

lemma extends_simps [simp]: "extends s s"
  by (simp add: extends_def)

lemma extends_same: "rcContent t = rcContent s \<Longrightarrow> extends s t"
  by (simp add: extends_def)

lemma extends_add: "rcContent t = rcContent s \<Longrightarrow> reference role i h b e = Inr r \<Longrightarrow> extends s (addContent r t)"
  by (auto simp: extends_def dest: reference_addressed)

lemma onFrameOpened_extends: "yields (extends s) (onFrameOpened d obj fi parent depth objective s)"
  unfolding onFrameOpened_def Let_def
  by (intro yields_intros) (intro extends_add extends_same; (assumption | simp (no_asm)))+

lemma onProgress_extends: "yields (extends s) (onProgress e i it n f s)"
  unfolding onProgress_def Let_def
  by (intro yields_intros) (intro extends_add extends_same; (assumption | simp (no_asm)))+

lemma onWorkspace_extends: "yields (extends s) (onWorkspace w f s)"
  unfolding onWorkspace_def Let_def
  by (intro yields_intros) (intro extends_add extends_same; (assumption | simp (no_asm)))+

lemma onCell_extends: "yields (extends s) (onCell d cc f s)"
  unfolding onCell_def cellOutput_def Let_def
  by (intro yields_intros) (intro extends_add extends_same; (assumption | simp (no_asm)))+

lemma onCheckpoint_extends: "yields (extends s) (onCheckpoint d c s)"
  unfolding onCheckpoint_def Let_def
  by (intro yields_intros) (intro extends_add extends_same; (assumption | simp (no_asm)))+

lemma onCall_extends: "yields (extends s) (onCall hasher d cl s)"
  unfolding onCall_def Let_def
  by (intro yields_intros) (intro extends_add extends_same; (assumption | simp (no_asm)))+

lemma onAnswer_extends: "yields (extends s) (onAnswer e i m r h b f s)"
  unfolding onAnswer_def Let_def
  by (intro yields_intros) (intro extends_add extends_same; (assumption | simp (no_asm)))+

lemma onClosed_extends: "yields (extends s) (onClosed i st f s)"
  unfolding onClosed_def Let_def
  by (intro yields_intros) (intro extends_add extends_same; (assumption | simp (no_asm)))+

lemma onProjected_extends: "yields (extends s) (onProjected d p f s)"
  unfolding onProjected_def Let_def
  by (intro yields_intros) (intro extends_add extends_same; (assumption | simp (no_asm)))+

lemma onCited_extends: "yields (extends s) (onCited hasher d i refs hash f s)"
  unfolding onCited_def Let_def
  by (intro yields_intros) (intro extends_add extends_same; (assumption | simp (no_asm)))+

lemmas handlers_extend = onFrameOpened_extends onProgress_extends onWorkspace_extends onCell_extends
  onCheckpoint_extends onCall_extends onAnswer_extends onClosed_extends onProjected_extends onCited_extends

lemma onIntended_extends: "yields (extends s) (onIntended hasher d x f s)"
proof -
  have r: "yields (\<lambda>s1. rcContent s1 = rcContent s) (reserveIntent d x s)"
    unfolding reserveIntent_def Let_def by (intro yields_intros) (simp (no_asm))
  have a: "yields (\<lambda>s2. rcContent s2 = rcContent s1) (authorizeIntent hasher d x f s1)" for s1
    unfolding authorizeIntent_def authorizeController_def authorizeCall_def Let_def
    by (cases "oiKind x") (simp_all only: operation_kind.case, (intro yields_intros; simp (no_asm))+)
  have t: "yields (\<lambda>s'. rcContent s' = rcContent s2) (attachIntent x s2)" for s2
    unfolding attachIntent_def Let_def by (intro yields_intros) (simp (no_asm))
  show ?thesis
    unfolding onIntended_def
    by (cases "reserveIntent d x s"; cases "authorizeIntent hasher d x f (projr (reserveIntent d x s))")
      (use r a t in \<open>fastforce simp: yields_def extends_def split: sum.splits\<close>)+
qed

lemma onSettled_extends: "yields (extends s) (onSettled d x s)"
  by (auto simp: yields_def onSettled_def Let_def extends_def split: if_splits option.splits sum.splits)

lemma recoveryStep_extends:
  assumes "recoveryStep hasher d obj e s = Inr s'"
  shows "extends s s'"
proof -
  have "yields (extends s) (recoveryStep hasher d obj e s)"
    unfolding recoveryStep_def
    by (cases e)
      (simp_all only: rlm_event.case,
       (intro yields_intros handlers_extend onIntended_extends onSettled_extends; simp add: extends_same case_prod_beta; fail)+)
  then show ?thesis using assms by (rule yieldsD)
qed

lemma recoveryFold_addressed:
  "recoveryFold hasher d obj es s = Inr s' \<Longrightarrow> list_all addressed (rcContent s) \<Longrightarrow> list_all addressed (rcContent s')"
proof (induction es arbitrary: s)
  case (Cons e es)
  then obtain s1 where s1: "recoveryStep hasher d obj e s = Inr s1" "recoveryFold hasher d obj es s1 = Inr s'"
    by (auto simp: resBind_eq_Inr)
  have "list_all addressed (rcContent s1)"
    using recoveryStep_extends [OF s1(1)] Cons.prems(2) by (auto simp: extends_def)
  then show ?case by (rule Cons.IH [OF s1(2)])
qed simp

lemma startRecovery_Inr:
  assumes "startRecovery d events = Inr s"
  shows "\<exists>ls items rest. events = RunStarted (mdRunId d) (mdManifestHash d) ls (Some items) # rest \<and> \<not> list_ex isStart rest
    \<and> s = initRecovery items \<and> list_all2 inputMatches items (mdInputs d)"
  using assms by (auto simp: startRecovery_def split: list.splits rlm_event.splits if_splits option.splits)

lemma initRecovery_addressed: "list_all2 inputMatches items inputs \<Longrightarrow> list_all addressed (rcContent (initRecovery items))"
  by (auto simp: initRecovery_def addressed_def inputMatches_def list_all2_conv_all_nth list_all_length)

lemma validateRecoveryJournal_Inr:
  assumes "validateRecoveryJournal hasher d events = Inr m"
  obtains ls items rest obj s where
    "events = RunStarted (mdRunId d) (mdManifestHash d) ls (Some items) # rest" "\<not> list_ex isStart rest"
    "recoveryFold hasher d obj rest (initRecovery items) = Inr s" "finishRecovery d s = Inr m"
    "tracks d rest s" "list_all2 inputMatches items (mdInputs d)"
proof -
  obtain s0 where s0: "startRecovery d events = Inr s0"
    using assms by (auto simp: validateRecoveryJournal_def resBind_eq_Inr)
  obtain p where p: "normalizeProgram (mdHeap d) (mdProgram d) = Inr p"
    using assms by (cases "normalizeProgram (mdHeap d) (mdProgram d)") (auto simp: validateRecoveryJournal_def resBind_eq_Inr)
  obtain s where f: "recoveryFold hasher d (pgObjective p) (tl events) s0 = Inr s" "finishRecovery d s = Inr m"
    using assms s0 p by (auto simp: validateRecoveryJournal_def resBind_eq_Inr)
  obtain ls items rest where e: "events = RunStarted (mdRunId d) (mdManifestHash d) ls (Some items) # rest"
    "\<not> list_ex isStart rest" "s0 = initRecovery items" "list_all2 inputMatches items (mdInputs d)"
    using startRecovery_Inr [OF s0] by blast
  have fold: "recoveryFold hasher d (pgObjective p) rest (initRecovery items) = Inr s" using f(1) by (simp add: e)
  have "tracks d ([] @ rest) s" by (rule tracks_fold [OF fold tracks_init])
  then show ?thesis using that e fold f(2) by simp
qed

lemma finishRecovery_Inr:
  assumes "finishRecovery d s = Inr m"
  shows "unsettled s = []" "rmTerminal m = rcTerminal s" "rmContent m = rcContent s" "rmCommittedCells m = length (rcCells s)"
    "rmRootAnswer m = Option.bind (map_of (rcFrames s) (rootFrameId d)) frAnswer"
    "rcTerminal s = Some t \<Longrightarrow> checkTerminal d t s = Inr ()"
  using assms by (auto simp: finishRecovery_def resBind_eq_Inr split: list.splits option.splits if_splits)

lemma settled_all:
  assumes "tracks d es s" and "unsettled s = []"
  shows "mset (map oiIntentId (intendedOf es)) = mset (map osIntentId (settledOf es))"
proof -
  have "map_of (rcSettlements s) (oiIntentId x) \<noteq> None" if "x \<in> set (intendedOf es)" for x
    using assms that by (auto simp: unsettled_def tracks_def filter_empty_conv)
  then have "set (map oiIntentId (intendedOf es)) \<subseteq> set (map osIntentId (settledOf es))"
    using assms(1) by (fastforce simp: tracks_def dest: map_of_SomeD)
  with assms(1) show ?thesis
    by (intro set_eq_iff_mset_eq_distinct [THEN iffD1]) (auto simp: tracks_def)
qed

section \<open>Properties\<close>



text \<open>
  C31: every content reference of an accepted journal is content addressed, and a completed run's answer is
  the root frame's answer with the terminal's mode and reference.
\<close>

theorem recovery_content_addressed:
  "(case validateRecoveryJournal hasher d events of
      Inl e \<Rightarrow> True
    | Inr m \<Rightarrow> list_all addressed (rmContent m)
        \<and> (case rmTerminal m of
             Some (RunCompleted r mode out) \<Rightarrow>
               (\<exists>i ref h b. out = Some ref \<and> rmRootAnswer m = Some (AnswerCommitted i mode ref h b))
           | _ \<Rightarrow> True))"
proof (cases "validateRecoveryJournal hasher d events")
  case (Inr m)
  obtain items rest obj s where fold: "recoveryFold hasher d obj rest (initRecovery items) = Inr s"
    and fin: "finishRecovery d s = Inr m" and ins: "list_all2 inputMatches items (mdInputs d)"
    using validateRecoveryJournal_Inr [OF Inr] by metis
  have "list_all addressed (rmContent m)"
    using recoveryFold_addressed [OF fold initRecovery_addressed [OF ins]] finishRecovery_Inr(3) [OF fin] by simp
  moreover have "\<exists>i ref h b. out = Some ref \<and> rmRootAnswer m = Some (AnswerCommitted i mode ref h b)"
    if "rmTerminal m = Some (RunCompleted r mode out)" for r mode out
    using that finishRecovery_Inr [OF fin]
    by (auto simp: checkTerminal_def resBind_eq_Inr Let_def answerOf_def split: if_splits option.splits rlm_event.splits)
  ultimately show ?thesis by (auto simp: Inr split: option.splits rlm_event.splits)
qed simp

section \<open>A recovered journal\<close>

definition sampleDocument :: manifest_document where
  "sampleDocument = \<lparr>mdRunId = js ''r'', mdManifestHash = [], mdLimits = sampleLimits, mdInputs = [],
     mdHeap = shorthandHeap \<lparr>shObjective = js ''go'', shAdapter = None, shProfile = None\<rparr>, mdProgram = VRef 0,
     mdHasExtractor = False\<rparr>"

definition sampleJournal :: "rlm_event list" where
  "sampleJournal =
     [RunStarted (js ''r'') [] sampleLimits (Some []), FrameOpened (js ''r:f0'') None (Num 0) (js ''go''),
      FrameClosedEvent (js ''r:f0'') FrameFailed, RunFailed (js ''r'') (js ''TIMEOUT'') []]"

lemma sample_program:
  "\<exists>p. normalizeProgram (mdHeap sampleDocument) (mdProgram sampleDocument) = Inr p \<and> pgObjective p = js ''go''"
proof -
  let ?spec = "\<lparr>shObjective = js ''go'', shAdapter = None, shProfile = None\<rparr>"
  have "trim (js ''go'') = js ''go''" "trim (js ''default'') = js ''default''" "trim (js ''text'') = js ''text''"
    by (rule trim_ends; simp add: js_def isJsSpace_def)+
  then obtain p where "compileShorthand ?spec = Inr p" "pgObjective p = js ''go''"
    using compileShorthand_eq [of ?spec] by (simp add: Let_def)
  then show ?thesis by (simp add: sampleDocument_def compileShorthand_def)
qed

definition sampleFrame :: "frame_state option \<Rightarrow> frame_record" where
  "sampleFrame st =
     \<lparr>frParent = None, frDepth = 0, frObjective = js ''go'', frCells = [], frWorkspaces = [], frProgress = [], frAnswer = None,
      frProjection = None, frCitation = None, frClosed = st, frOpened = FrameOpened (js ''r:f0'') None (Num 0) (js ''go'')\<rparr>"

lemma sample_fields [simp]:
  "mdRunId sampleDocument = js ''r''" "mdManifestHash sampleDocument = []" "mdLimits sampleDocument = sampleLimits"
  "mdInputs sampleDocument = []" "rootFrameId sampleDocument = js ''r:f0''"
  by (simp_all add: sampleDocument_def rootFrameId_def js_def)

lemma sample_start: "startRecovery sampleDocument sampleJournal = Inr (initRecovery [])"
  by (simp add: startRecovery_def sampleJournal_def isStart_def sameProps_def)

lemma sample_opened:
  "recoveryStep hasher sampleDocument (js ''go'') (FrameOpened (js ''r:f0'') None (Num 0) (js ''go'')) (initRecovery []) =
     Inr ((initRecovery [])\<lparr>rcFrames := [(js ''r:f0'', sampleFrame None)]\<rparr>)"
proof -
  have "isPrefix (js ''r'' @ js '':'') (js ''r:f0'')" by (simp add: js_def)
  then show ?thesis
    by (simp add: recoveryStep_def initRecovery_def onFrameOpened_def setFrame_def alSet_def newFrameRecord_def sampleFrame_def
        Let_def)
qed

lemma sample_closed:
  "recoveryStep hasher sampleDocument (js ''go'') (FrameClosedEvent (js ''r:f0'') FrameFailed)
     ((initRecovery [])\<lparr>rcFrames := [(js ''r:f0'', sampleFrame None)]\<rparr>) =
     Inr ((initRecovery [])\<lparr>rcFrames := [(js ''r:f0'', sampleFrame (Some FrameFailed))]\<rparr>)"
  by (simp add: recoveryStep_def initRecovery_def onClosed_def requireFrame_def setFrame_def alSet_def sampleFrame_def)

lemma sample_failed:
  "recoveryStep hasher sampleDocument (js ''go'') (RunFailed (js ''r'') (js ''TIMEOUT'') [])
     ((initRecovery [])\<lparr>rcFrames := frames\<rparr>) =
     Inr ((initRecovery [])\<lparr>rcFrames := frames, rcTerminal := Some (RunFailed (js ''r'') (js ''TIMEOUT'') [])\<rparr>)"
  by (simp add: recoveryStep_def initRecovery_def)

lemma sample_finished:
  "\<exists>m. finishRecovery sampleDocument
       ((initRecovery [])\<lparr>rcFrames := [(js ''r:f0'', sampleFrame (Some FrameFailed))],
         rcTerminal := Some (RunFailed (js ''r'') (js ''TIMEOUT'') [])\<rparr>) = Inr m
     \<and> rmTerminal m = Some (last sampleJournal)"
  by (simp add: finishRecovery_def initRecovery_def frameProblems_def sampleFrame_def List.map_filter_def checkTerminal_def
      unsettled_def sampleJournal_def Let_def)

lemma sample_accepted:
  "\<exists>m. validateRecoveryJournal hasher sampleDocument sampleJournal = Inr m \<and> rmTerminal m = Some (last sampleJournal)"
proof -
  obtain p where p: "normalizeProgram (mdHeap sampleDocument) (mdProgram sampleDocument) = Inr p" "pgObjective p = js ''go''"
    using sample_program by blast
  have "tl sampleJournal =
      [FrameOpened (js ''r:f0'') None (Num 0) (js ''go''), FrameClosedEvent (js ''r:f0'') FrameFailed,
       RunFailed (js ''r'') (js ''TIMEOUT'') []]"
    by (simp add: sampleJournal_def)
  then show ?thesis
    using sample_finished by (simp add: validateRecoveryJournal_def sample_start p sample_opened sample_closed sample_failed)
qed



end
