(* ===== verification/CanonicalStream.thy ===== *)
theory CanonicalStream
  imports Preview JsonCanonical
begin

text \<open>
  Streaming canonical JSON (\<open>src/src/shell/canonical-json.ts\<close>): a value is written as a sequence of bounded
  fragments which are hashed, counted and later encoded into a buffer of the counted size.  A stream is the
  list of fragments emitted and the exception that ended it, if any; a sink consumes the fragments in order and
  may throw earlier.  The checkpoint callback is a function of how often it was called before.
\<close>

section \<open>Paths and strings\<close>

definition MAX_FRAGMENT_CODE_UNITS :: nat where
  "MAX_FRAGMENT_CODE_UNITS = 8 * 1024"

definition CHECKPOINT_INTERVAL_BYTES :: nat where
  "CHECKPOINT_INTERVAL_BYTES = 16 * 1024"

datatype path_part = PathIndex nat | PathName jstr

definition pathPart :: "path_part \<Rightarrow> jstr" where
  "pathPart p =
     (case p of
        PathIndex i \<Rightarrow> js ''['' @ natString i @ js '']''
      | PathName k \<Rightarrow> if isIdentifier k then js ''.'' @ k else js ''['' @ quoteString k @ js '']'')"

definition pathText :: "path_part list \<Rightarrow> jstr" where
  "pathText parts = js ''$'' @ concat (map pathPart parts)"

definition hexEscape :: "16 word \<Rightarrow> jstr" where
  "hexEscape c = [92, 117] @ hex4 (unat c)"

text \<open>The fragments emitted so far and the one being filled.\<close>

type_synonym fragments = "jstr list \<times> jstr"

definition appendText :: "jstr \<Rightarrow> fragments \<Rightarrow> fragments" where
  "appendText t st =
     (case st of (out, fragment) \<Rightarrow>
        if MAX_FRAGMENT_CODE_UNITS < length fragment + length t then (out @ [fragment], t) else (out, fragment @ t))"

text \<open>The escapes of the code's \<open>switch\<close> are those of \<open>JSON.stringify\<close>, \<open>escapeUnit\<close>.\<close>

fun emitUnits :: "jstr \<Rightarrow> fragments \<Rightarrow> fragments" where
  "emitUnits [] st = st"
| "emitUnits [c] st = appendText (if isHighSurrogate c \<or> isLowSurrogate c then hexEscape c else escapeUnit c) st"
| "emitUnits (c # d # cs) st =
     (if isHighSurrogate c \<and> isLowSurrogate d then emitUnits cs (appendText [c, d] st)
      else emitUnits (d # cs) (appendText (if isHighSurrogate c \<or> isLowSurrogate c then hexEscape c else escapeUnit c) st))"

definition emitString :: "jstr \<Rightarrow> jstr list" where
  "emitString s =
     (case appendText [34] (emitUnits s ([], [34])) of (out, fragment) \<Rightarrow>
        if fragment \<noteq> [] then out @ [fragment] else out)"

section \<open>The stream\<close>

type_synonym stream = "jstr list \<times> js_exn option"

definition emits :: "jstr list \<Rightarrow> stream" where
  "emits fs = (fs, None)"

definition fails :: "js_exn \<Rightarrow> stream" where
  "fails e = ([], Some e)"

definition andThen :: "stream \<Rightarrow> stream \<Rightarrow> stream" where
  "andThen a b = (case a of (fs, None) \<Rightarrow> (fs @ fst b, snd b) | (fs, Some e) \<Rightarrow> (fs, Some e))"

definition allThen :: "stream list \<Rightarrow> stream" where
  "allThen ss = foldr andThen ss (emits [])"

definition notCanonical :: "string \<Rightarrow> path_part list \<Rightarrow> stream" where
  "notCanonical m path = fails (ThrowTypeError (js m @ pathText path))"

function streamAt :: "heap \<Rightarrow> jsval \<Rightarrow> path_part list \<Rightarrow> nat \<Rightarrow> stream" where
  "streamAt h v path depth =
     (if MAX_JSON_DEPTH < depth then fails (ThrowRangeError (depthMessage @ js '' at '' @ pathText path))
      else case v of
        VNull \<Rightarrow> emits [js ''null'']
      | VStr s \<Rightarrow> emits (emitString s)
      | VBool b \<Rightarrow> emits [if b then js ''true'' else js ''false'']
      | VNum n \<Rightarrow> emits [jsonText (JNum n)]
      | VRef a \<Rightarrow>
          (case h a of
             OArray slots \<Rightarrow>
               andThen (emits [js ''['']) (andThen
                 (allThen (map (\<lambda>(i, slot). andThen (emits (if 0 < i then [js '',''] else []))
                    (case slot of
                       Hole \<Rightarrow> notCanonical ''array hole is not canonical JSON at '' (path @ [PathIndex i])
                     | Accessor _ \<Rightarrow> notCanonical ''accessor property is not canonical JSON at '' (path @ [PathIndex i])
                     | Data w \<Rightarrow> streamAt h w (path @ [PathIndex i]) (Suc depth))) (enumerate 0 slots)))
                 (emits [js '']'']))
           | OObject props \<Rightarrow>
               andThen (emits [js ''{'']) (andThen
                 (allThen (map (\<lambda>(i, p). andThen (emits (if 0 < i then [js '',''] else []))
                    (case p of (k, slot) \<Rightarrow> (case slot of
                       Data w \<Rightarrow> andThen (emits (emitString k @ [js '':''])) (streamAt h w (path @ [PathName k]) (Suc depth))
                     | _ \<Rightarrow> notCanonical ''accessor property is not canonical JSON at '' (path @ [PathName k]))))
                    (enumerate 0 (sort_key fst props))))
                 (emits [js ''}''])))
      | _ \<Rightarrow> notCanonical ''value is not canonical JSON at '' path)"
  by pat_completeness auto
termination
  by (relation "measure (\<lambda>(h, v, path, depth). 101 - depth)") (auto simp: MAX_JSON_DEPTH_def)

declare streamAt.simps [simp del]

definition streamCanonicalJson :: "heap \<Rightarrow> jsval \<Rightarrow> stream" where
  "streamCanonicalJson h v = streamAt h v [] 0"

section \<open>Sinks\<close>

type_synonym checkpoint = "nat \<Rightarrow> js_exn option"

record sink =
  skBytes :: "nat list"
  skSinceCheckpoint :: nat
  skCheckpoints :: nat

definition openSink :: "nat \<Rightarrow> sink" where
  "openSink calls = \<lparr>skBytes = [], skSinceCheckpoint = 0, skCheckpoints = calls\<rparr>"

definition callCheckpoint :: "checkpoint \<Rightarrow> sink \<Rightarrow> js_exn + sink" where
  "callCheckpoint cp st =
     (case cp (skCheckpoints st) of Some e \<Rightarrow> Inl e | None \<Rightarrow> Inr (st\<lparr>skCheckpoints := skCheckpoints st + 1\<rparr>))"

definition checkpointingSink :: "(jstr \<Rightarrow> sink \<Rightarrow> js_exn + sink) \<Rightarrow> checkpoint \<Rightarrow> jstr \<Rightarrow> sink \<Rightarrow> js_exn + sink" where
  "checkpointingSink consume cp fragment st =
     resBind (consume fragment st) (\<lambda>st.
       let since = skSinceCheckpoint st + byteLength fragment
       in if CHECKPOINT_INTERVAL_BYTES \<le> since
          then map_sum id (\<lambda>st. st\<lparr>skSinceCheckpoint := since mod CHECKPOINT_INTERVAL_BYTES\<rparr>) (callCheckpoint cp st)
          else Inr (st\<lparr>skSinceCheckpoint := since\<rparr>))"

fun drain :: "(jstr \<Rightarrow> sink \<Rightarrow> js_exn + sink) \<Rightarrow> jstr list \<Rightarrow> sink \<Rightarrow> js_exn + sink" where
  "drain consume [] st = Inr st"
| "drain consume (f # fs) st = resBind (consume f st) (drain consume fs)"

definition runStream :: "(jstr \<Rightarrow> sink \<Rightarrow> js_exn + sink) \<Rightarrow> stream \<Rightarrow> sink \<Rightarrow> js_exn + sink" where
  "runStream consume s st =
     resBind (drain consume (fst s) st) (\<lambda>st. case snd s of None \<Rightarrow> Inr st | Some e \<Rightarrow> Inl e)"

definition hashFragment :: "jstr \<Rightarrow> sink \<Rightarrow> js_exn + sink" where
  "hashFragment fragment st =
     (if MAX_SAFE_INTEGER - int (byteLength fragment) < int (length (skBytes st))
      then Inl (ThrowRangeError (js ''canonical JSON output is too large''))
      else Inr (st\<lparr>skBytes := skBytes st @ encode fragment\<rparr>))"

text \<open>
  \<open>encoder.encodeInto(fragment, space)\<close>: the code points that fit, as the number of code units read and the
  bytes written.
\<close>

fun encodeInto :: "jstr \<Rightarrow> nat \<Rightarrow> nat \<times> nat list" where
  "encodeInto [] space = (0, [])"
| "encodeInto [c] space = (if length (encode [c]) \<le> space then (1, encode [c]) else (0, []))"
| "encodeInto (c # d # cs) space =
     (let pair = isHighSurrogate c \<and> isLowSurrogate d;
          bs = encode (if pair then [c, d] else [c])
      in if length bs \<le> space
         then (case encodeInto (if pair then cs else d # cs) (space - length bs) of
                 (n, out) \<Rightarrow> ((if pair then 2 else 1) + n, bs @ out))
         else (0, []))"

definition writeFragment :: "nat \<Rightarrow> jstr \<Rightarrow> sink \<Rightarrow> js_exn + sink" where
  "writeFragment bytes fragment st =
     (case encodeInto fragment (bytes - length (skBytes st)) of (n, out) \<Rightarrow>
        if n \<noteq> length fragment then Inl (ThrowError (js ''canonical JSON changed while materializing''))
        else Inr (st\<lparr>skBytes := skBytes st @ out\<rparr>))"

record preparation =
  ppBytes :: nat
  ppSha256 :: jstr
  ppCheckpoints :: nat

definition prepareCanonicalJson :: "(nat list \<Rightarrow> jstr) \<Rightarrow> checkpoint \<Rightarrow> heap \<Rightarrow> jsval \<Rightarrow> js_exn + preparation" where
  "prepareCanonicalJson sha cp h v =
     resBind (callCheckpoint cp (openSink 0)) (\<lambda>st.
       resBind (runStream (checkpointingSink hashFragment cp) (streamCanonicalJson h v) st) (\<lambda>st.
         map_sum id (\<lambda>st. \<lparr>ppBytes = length (skBytes st), ppSha256 = sha (skBytes st), ppCheckpoints = skCheckpoints st\<rparr>)
           (callCheckpoint cp st)))"

text \<open>
  The materialiser walks the value again, in the heap of that moment, into a buffer of \<open>ppBytes\<close> bytes.
\<close>

definition materialize :: "preparation \<Rightarrow> checkpoint \<Rightarrow> heap \<Rightarrow> jsval \<Rightarrow> js_exn + nat list" where
  "materialize p cp h v =
     resBind (callCheckpoint cp (openSink (ppCheckpoints p))) (\<lambda>st.
       resBind (runStream (checkpointingSink (writeFragment (ppBytes p)) cp) (streamCanonicalJson h v) st) (\<lambda>st.
         if length (skBytes st) \<noteq> ppBytes p then Inl (ThrowError (js ''canonical JSON changed while materializing''))
         else map_sum id skBytes (callCheckpoint cp st)))"

section \<open>Sorted text\<close>

text \<open>What the stream spells: the JSON text with every object's keys in code-unit order.\<close>

primrec sortKeys :: "json \<Rightarrow> json" where
  "sortKeys JNull = JNull"
| "sortKeys (JBool b) = JBool b"
| "sortKeys (JNum n) = JNum n"
| "sortKeys (JStr s) = JStr s"
| "sortKeys (JArr vs) = JArr (map sortKeys vs)"
| "sortKeys (JObj ps) = JObj (sort_key fst (map (map_prod id sortKeys) ps))"

definition sortedText :: "json \<Rightarrow> jstr" where
  "sortedText v = jsonText (sortKeys v)"

lemma insort_key_map_prod:
  "insort_key fst (map_prod id f p) (map (map_prod id f) ps) = map (map_prod id f) (insort_key fst p ps)"
  by (induction ps) auto

lemma sort_key_map_prod: "sort_key fst (map (map_prod id f) ps) = map (map_prod id f) (sort_key fst ps)"
proof -
  have "foldr (insort_key fst) (map (map_prod id f) ps) [] = map (map_prod id f) (foldr (insort_key fst) ps [])"
    by (induction ps) (simp_all add: insort_key_map_prod [unfolded id_def])
  then show ?thesis by (simp add: sort_key_def)
qed

lemma list_all2_insort_key:
  assumes "list_all2 (\<lambda>p q. fst p = fst q \<and> R (snd p) (snd q)) ps qs" "fst p = fst q" "R (snd p) (snd q)"
  shows "list_all2 (\<lambda>p q. fst p = fst q \<and> R (snd p) (snd q)) (insort_key fst p ps) (insort_key fst q qs)"
  using assms by (induction rule: list_all2_induct) auto

lemma list_all2_sort_key:
  assumes "list_all2 (\<lambda>p q. fst p = fst q \<and> R (snd p) (snd q)) ps qs"
  shows "list_all2 (\<lambda>p q. fst p = fst q \<and> R (snd p) (snd q)) (sort_key fst ps) (sort_key fst qs)"
proof -
  have "list_all2 (\<lambda>p q. fst p = fst q \<and> R (snd p) (snd q)) (foldr (insort_key fst) ps []) (foldr (insort_key fst) qs [])"
    using assms
  proof (induction rule: list_all2_induct)
    case (Cons x xs y ys)
    then show ?case by (simp add: list_all2_insort_key)
  qed simp
  then show ?thesis by (simp add: sort_key_def)
qed

section \<open>Fragments\<close>

text \<open>No fragment splits a surrogate pair, so fragments may be encoded one by one.\<close>

fun paired :: "jstr \<Rightarrow> bool" where
  "paired [] = True"
| "paired [c] = (\<not> isHighSurrogate c \<and> \<not> isLowSurrogate c)"
| "paired (c # d # cs) =
     (if isHighSurrogate c \<and> isLowSurrogate d then paired cs
      else \<not> isHighSurrogate c \<and> \<not> isLowSurrogate c \<and> paired (d # cs))"

lemma surrogate_unat: "isHigh (unat c) \<longleftrightarrow> isHighSurrogate c" "isLow (unat c) \<longleftrightarrow> isLowSurrogate c"
  by (simp_all add: isHigh_def isLow_def isHighSurrogate_def isLowSurrogate_def word_le_nat_alt)

lemma not_both: "isHighSurrogate c \<Longrightarrow> \<not> isLowSurrogate c"
  by (auto simp: isHigh_def isLow_def simp flip: surrogate_unat)

lemma paired_Cons: "\<not> isHighSurrogate c \<Longrightarrow> paired (c # cs) \<longleftrightarrow> \<not> isLowSurrogate c \<and> paired cs"
  by (cases cs) auto

lemma paired_append: "paired s \<Longrightarrow> paired t \<Longrightarrow> paired (s @ t)"
  by (induction s rule: paired.induct) (auto simp: paired_Cons split: if_splits)

lemma paired_plain: "list_all (\<lambda>c. \<not> isHighSurrogate c \<and> \<not> isLowSurrogate c) s \<Longrightarrow> paired s"
  by (induction s) (auto simp: paired_Cons)

lemma scalars_Cons: "\<not> isHigh u \<Longrightarrow> scalars (u # us) = (if isLow u then 0xFFFD else u) # scalars us"
  by (cases us) auto

lemma encode_append: "paired s \<Longrightarrow> encode (s @ t) = encode s @ encode t"
proof -
  assume "paired s"
  then have "scalars (map unat s @ map unat t) = scalars (map unat s) @ scalars (map unat t)"
    by (induction s rule: paired.induct) (auto simp: scalars_Cons surrogate_unat split: if_splits)
  then show ?thesis by (simp add: encode_def codePoints_def)
qed

lemma encode_concat: "list_all paired fs \<Longrightarrow> encode (concat fs) = concat (map encode fs)"
  by (induction fs) (auto simp: encode_append)

lemma paired_concat: "list_all paired fs \<Longrightarrow> paired (concat fs)"
  by (induction fs) (auto simp: paired_append)

lemma ascii_plain: "unat c < 256 \<Longrightarrow> \<not> isHighSurrogate c \<and> \<not> isLowSurrogate c"
  by (simp add: isHigh_def isLow_def flip: surrogate_unat)

lemma unat_of_char: "unat (of_char c :: 16 word) < 256"
proof -
  have small: "(of_char c :: nat) < 256" by (rule nat_of_char_less_256)
  also have "(256 :: nat) < 2 ^ LENGTH(16)" by simp
  finally have "unat (of_char c :: 16 word) = of_char c"
    by (metis of_nat_of_char unsigned_of_nat take_bit_nat_eq_self)
  with small show ?thesis by simp
qed

lemma paired_js: "paired (js s)"
  by (rule paired_plain) (auto simp: js_def list_all_iff ascii_plain unat_of_char)

lemma hex4_plain: "c \<in> set (hex4 n) \<Longrightarrow> unat c < 256"
proof -
  have "unat (hexDigit d) < 256" if "d < 16" for d
    using that by (simp add: hexDigit_def unat_of_nat take_bit_nat_eq_self)
  then show "c \<in> set (hex4 n) \<Longrightarrow> unat c < 256" by (auto simp: hex4_def)
qed

definition token :: "jstr \<Rightarrow> bool" where
  "token t \<longleftrightarrow> paired t \<and> length t \<le> 6"

lemma token_hexEscape: "token (hexEscape c)"
proof -
  have "paired (hexEscape c)"
    by (rule paired_plain) (auto simp: hexEscape_def list_all_iff ascii_plain dest!: hex4_plain)
  then show ?thesis by (simp add: token_def hexEscape_def hex4_def)
qed

lemma token_escapeUnit: "\<not> isHighSurrogate c \<Longrightarrow> \<not> isLowSurrogate c \<Longrightarrow> token (escapeUnit c)"
  using token_hexEscape [of c]
  by (auto simp: escapeUnit_def token_def hexEscape_def isHighSurrogate_def isLowSurrogate_def)

definition fragmentsOk :: "fragments \<Rightarrow> bool" where
  "fragmentsOk st \<longleftrightarrow> list_all (\<lambda>f. paired f \<and> length f \<le> MAX_FRAGMENT_CODE_UNITS) (snd st # fst st)"

abbreviation written :: "fragments \<Rightarrow> jstr" where
  "written st \<equiv> concat (fst st) @ snd st"

lemma appendText_ok:
  "token t \<Longrightarrow> fragmentsOk st \<Longrightarrow> fragmentsOk (appendText t st) \<and> written (appendText t st) = written st @ t"
  by (cases st) (auto simp: appendText_def fragmentsOk_def token_def paired_append MAX_FRAGMENT_CODE_UNITS_def)

lemma emitUnits_ok:
  "fragmentsOk st \<Longrightarrow> fragmentsOk (emitUnits s st) \<and> written (emitUnits s st) = written st @ quoteUnits s"
proof (induction s st rule: emitUnits.induct)
  case (2 c st)
  have "token (if isHighSurrogate c \<or> isLowSurrogate c then hexEscape c else escapeUnit c)"
    by (simp add: token_hexEscape token_escapeUnit)
  from appendText_ok [OF this 2] show ?case by (simp add: hexEscape_def)
next
  case (3 c d cs st)
  show ?case
  proof (cases "isHighSurrogate c \<and> isLowSurrogate d")
    case True
    then have "token [c, d]" by (simp add: token_def)
    from appendText_ok [OF this 3(3)] 3(1) True show ?thesis by simp
  next
    case False
    have "token (if isHighSurrogate c \<or> isLowSurrogate c then hexEscape c else escapeUnit c)"
      by (simp add: token_hexEscape token_escapeUnit)
    from appendText_ok [OF this 3(3)] 3(2) [OF False] False show ?thesis
      by (auto simp: hexEscape_def split: if_splits)
  qed
qed simp

lemma emitString_ok:
  "list_all (\<lambda>f. paired f \<and> length f \<le> MAX_FRAGMENT_CODE_UNITS) (emitString s) \<and> concat (emitString s) = quoteString s"
proof -
  have "fragmentsOk ([], [34])"
    by (simp add: fragmentsOk_def MAX_FRAGMENT_CODE_UNITS_def isHighSurrogate_def isLowSurrogate_def)
  from emitUnits_ok [OF this, of s]
  have "fragmentsOk (appendText [34] (emitUnits s ([], [34]))) \<and> written (appendText [34] (emitUnits s ([], [34]))) = quoteString s"
    using appendText_ok [of "[34]" "emitUnits s ([], [34])"]
    by (simp add: token_def quoteString_def isHighSurrogate_def isLowSurrogate_def)
  then show ?thesis by (auto simp: emitString_def fragmentsOk_def list_all_iff split: prod.splits if_splits)
qed

section \<open>Streams of plain data\<close>

definition yieldsText :: "stream \<Rightarrow> jstr \<Rightarrow> bool" where
  "yieldsText s t \<longleftrightarrow> snd s = None \<and> concat (fst s) = t \<and> list_all paired (fst s)"

lemma yields_emits: "list_all paired fs \<Longrightarrow> concat fs = t \<Longrightarrow> yieldsText (emits fs) t"
  by (simp add: yieldsText_def emits_def)

lemma yields_js: "yieldsText (emits [js s]) (js s)"
  by (simp add: yieldsText_def emits_def paired_js)

lemma yields_andThen: "yieldsText a s \<Longrightarrow> yieldsText b t \<Longrightarrow> yieldsText (andThen a b) (s @ t)"
  by (auto simp: yieldsText_def andThen_def split: prod.splits option.splits)

definition separated :: "nat \<Rightarrow> jstr list \<Rightarrow> jstr" where
  "separated n ts = (if n = 0 then joinWith (js '','') ts else concat (map ((@) (js '','')) ts))"

lemma separated_Cons: "separated n (t # ts) = (if 0 < n then js '','' else []) @ t @ separated (Suc n) ts"
proof -
  have "joinWith sep (u # us) = u @ concat (map ((@) sep) us)" for sep u and us :: "jstr list"
    by (induction us arbitrary: u) auto
  then show ?thesis by (simp add: separated_def)
qed

lemma yields_items:
  "list_all2 (\<lambda>(i, x) t. yieldsText (f i x) t) (enumerate n xs) ts \<Longrightarrow>
     yieldsText (allThen (map (\<lambda>(i, x). andThen (emits (if 0 < i then [js '',''] else [])) (f i x)) (enumerate n xs)))
       (separated n ts)"
proof (induction xs arbitrary: n ts)
  case Nil
  then show ?case by (simp add: allThen_def separated_def yields_emits)
next
  case (Cons x xs)
  then obtain t us where ts: "ts = t # us" "yieldsText (f n x) t"
    "list_all2 (\<lambda>(i, x) t. yieldsText (f i x) t) (enumerate (Suc n) xs) us"
    by (auto simp: list_all2_Cons1)
  have sep: "yieldsText (emits (if 0 < n then [js '',''] else [])) (if 0 < n then js '','' else [])"
    by (simp add: yields_emits paired_js)
  from yields_andThen [OF yields_andThen [OF sep ts(2)] Cons.IH [OF ts(3)]]
  show ?case by (simp add: ts(1) separated_Cons allThen_def)
qed

lemma list_all2_enumerate:
  "list_all2 P xs ys \<Longrightarrow> (\<And>i x y. x \<in> set xs \<Longrightarrow> y \<in> set ys \<Longrightarrow> P x y \<Longrightarrow> Q i x y)
     \<Longrightarrow> list_all2 (\<lambda>(i, x) y. Q i x y) (enumerate n xs) ys"
  by (induction arbitrary: n rule: list_all2_induct) auto

lemma represents_scalar:
  "represents h v JNull \<longleftrightarrow> v = VNull" "represents h v (JBool b) \<longleftrightarrow> v = VBool b"
  "represents h v (JNum n) \<longleftrightarrow> v = VNum n" "represents h v (JStr s) \<longleftrightarrow> v = VStr s"
  by (auto elim: represents.cases intro: represents.intros)

lemma stream_represents:
  "represents h v j \<Longrightarrow> d + jsonDepth j \<le> MAX_JSON_DEPTH \<Longrightarrow> yieldsText (streamAt h v path d) (sortedText j)"
proof (induction j arbitrary: v path d)
  case (JArr xs)
  obtain a slots where a: "v = VRef a" "h a = OArray slots"
    "list_all2 (\<lambda>s x. \<exists>w. s = Data w \<and> represents h w x) slots xs"
    using JArr.prems(1) by (auto elim: represents.cases)
  let ?item = "\<lambda>i slot. case slot of
      Hole \<Rightarrow> notCanonical ''array hole is not canonical JSON at '' (path @ [PathIndex i])
    | Accessor _ \<Rightarrow> notCanonical ''accessor property is not canonical JSON at '' (path @ [PathIndex i])
    | Data w \<Rightarrow> streamAt h w (path @ [PathIndex i]) (Suc d)"
  have depth: "Suc d + jsonDepth x \<le> MAX_JSON_DEPTH" if "x \<in> set xs" for x
    using JArr.prems(2) that by (auto simp: add_foldr_max_le)
  have "list_all2 (\<lambda>s x. x \<in> set xs \<and> (\<exists>w. s = Data w \<and> represents h w x)) slots xs"
    using a(3) by (auto simp: list_all2_conv_all_nth)
  then have "list_all2 (\<lambda>s t. \<forall>i. yieldsText (?item i s) t) slots (map sortedText xs)"
    using JArr.IH depth unfolding list.rel_map by (auto elim!: list.rel_mono_strong)
  then have "list_all2 (\<lambda>(i, s) t. yieldsText (?item i s) t) (enumerate 0 slots) (map sortedText xs)"
    by (rule list_all2_enumerate) simp
  note items = yields_items [OF this]
  have "yieldsText (streamAt h v path d) (js ''['' @ separated 0 (map sortedText xs) @ js '']'')"
    using yields_andThen [OF yields_js yields_andThen [OF items yields_js]] JArr.prems(2)
    by (subst streamAt.simps) (simp add: a(1,2))
  then show ?case by (simp add: separated_def sortedText_def [abs_def] comp_def)
next
  case (JObj ps)
  obtain a props where a: "v = VRef a" "h a = OObject props"
    "list_all2 (\<lambda>p q. fst p = fst q \<and> (\<exists>w. snd p = Data w \<and> represents h w (snd q))) props ps"
    using JObj.prems(1) by (auto elim: represents.cases)
  let ?item = "\<lambda>i p. case p of (k, slot) \<Rightarrow> (case slot of
      Data w \<Rightarrow> andThen (emits (emitString k @ [js '':''])) (streamAt h w (path @ [PathName k]) (Suc d))
    | _ \<Rightarrow> notCanonical ''accessor property is not canonical JSON at '' (path @ [PathName k]))"
  let ?text = "\<lambda>(k, x). quoteString k @ js '':'' @ sortedText x"
  have depth: "Suc d + jsonDepth x \<le> MAX_JSON_DEPTH" if "(k, x) \<in> set ps" for k x
    using JObj.prems(2) that by (fastforce simp: add_foldr_max_le)
  have key: "yieldsText (emits (emitString k @ [js '':''])) (quoteString k @ js '':'')" for k
    using emitString_ok [of k] by (auto simp: list_all_iff paired_js intro: yields_emits)
  have "list_all2 (\<lambda>p q. q \<in> set ps \<and> fst p = fst q \<and> (\<exists>w. snd p = Data w \<and> represents h w (snd q)))
      (sort_key fst props) (sort_key fst ps)"
    using list_all2_sort_key [OF a(3)] by (rule list.rel_mono_strong) simp
  then have "list_all2 (\<lambda>p t. \<forall>i::nat. yieldsText (?item i p) t) (sort_key fst props) (map ?text (sort_key fst ps))"
    unfolding list.rel_map
  proof (rule list.rel_mono_strong)
    fix p q
    assume pq: "q \<in> set ps \<and> fst p = fst q \<and> (\<exists>w. snd p = Data w \<and> represents h w (snd q))"
    then obtain k w x where eq: "p = (k, Data w)" "q = (k, x)" "(k, x) \<in> set ps" "represents h w x"
      by (cases p; cases q) auto
    have "yieldsText (streamAt h w (path @ [PathName k]) (Suc d)) (sortedText x)"
      using JObj.IH [OF eq(3)] eq(4) depth [OF eq(3)] by simp
    from yields_andThen [OF key this] show "\<forall>i::nat. yieldsText (?item i p) (?text q)" by (simp add: eq)
  qed
  then have "list_all2 (\<lambda>(i, p) t. yieldsText (?item i p) t) (enumerate 0 (sort_key fst props)) (map ?text (sort_key fst ps))"
    by (rule list_all2_enumerate) simp
  note items = yields_items [OF this]
  have "yieldsText (streamAt h v path d) (js ''{'' @ separated 0 (map ?text (sort_key fst ps)) @ js ''}'')"
    using yields_andThen [OF yields_js yields_andThen [OF items yields_js]] JObj.prems(2)
    by (subst streamAt.simps) (simp add: a(1,2))
  then show ?case
    by (simp add: separated_def sortedText_def sort_key_map_prod comp_def split_def)
next
  case (JStr s)
  have "list_all paired (emitString s)" "concat (emitString s) = quoteString s"
    using emitString_ok [of s] by (auto simp: list_all_iff)
  then show ?case using JStr by (simp add: represents_scalar streamAt.simps [of h "VStr s"] sortedText_def yields_emits)
qed (auto simp: represents_scalar streamAt.simps [of h] sortedText_def numString_def paired_js intro!: yields_emits)

text \<open>Conversely, a stream that ends normally was given plain data.\<close>

lemma andThen_None: "snd (andThen a b) = None \<longleftrightarrow> snd a = None \<and> snd b = None"
  by (auto simp: andThen_def split: prod.splits option.splits)

lemma allThen_None: "snd (allThen ss) = None \<longleftrightarrow> (\<forall>s\<in>set ss. snd s = None)"
  by (induction ss) (auto simp: allThen_def andThen_None emits_def)

lemma snd_emits [simp]: "snd (emits fs) = None"
  by (simp add: emits_def)

lemma snd_notCanonical [simp]: "snd (notCanonical m p) = Some (ThrowTypeError (js m @ pathText p))"
  by (simp add: notCanonical_def fails_def)

lemma ball_enumerate: "(\<forall>p\<in>set (enumerate 0 xs). P p) \<longleftrightarrow> (\<forall>i<length xs. P (i, xs ! i))"
  by (auto simp: in_set_enumerate_eq)

lemma streamAt_deep: "MAX_JSON_DEPTH < d \<Longrightarrow> snd (streamAt h v path d) \<noteq> None"
  by (simp add: streamAt.simps fails_def)

lemma streamAt_array:
  assumes "d \<le> MAX_JSON_DEPTH" "h a = OArray slots"
  shows "snd (streamAt h (VRef a) path d) = None \<longleftrightarrow>
    (\<forall>i<length slots. \<exists>w. slots ! i = Data w \<and> snd (streamAt h w (path @ [PathIndex i]) (Suc d)) = None)"
proof -
  have "snd (streamAt h (VRef a) path d) = None \<longleftrightarrow>
    (\<forall>i<length slots. snd (case slots ! i of
       Hole \<Rightarrow> notCanonical ''array hole is not canonical JSON at '' (path @ [PathIndex i])
     | Accessor _ \<Rightarrow> notCanonical ''accessor property is not canonical JSON at '' (path @ [PathIndex i])
     | Data w \<Rightarrow> streamAt h w (path @ [PathIndex i]) (Suc d)) = None)"
    using assms by (simp add: streamAt.simps [of h "VRef a"] andThen_None allThen_None ball_enumerate)
  moreover have "snd (case s of
       Hole \<Rightarrow> notCanonical ''array hole is not canonical JSON at '' p
     | Accessor _ \<Rightarrow> notCanonical ''accessor property is not canonical JSON at '' p
     | Data w \<Rightarrow> streamAt h w p (Suc d)) = None \<longleftrightarrow> (\<exists>w. s = Data w \<and> snd (streamAt h w p (Suc d)) = None)" for s p
    by (cases s) auto
  ultimately show ?thesis by (simp only:)
qed

lemma streamAt_object:
  assumes "d \<le> MAX_JSON_DEPTH" "h a = OObject props"
  shows "snd (streamAt h (VRef a) path d) = None \<longleftrightarrow>
    list_all (\<lambda>(k, s). \<exists>w. s = Data w \<and> snd (streamAt h w (path @ [PathName k]) (Suc d)) = None) props"
proof -
  have "snd (streamAt h (VRef a) path d) = None \<longleftrightarrow>
    (\<forall>i<length props. case sort_key fst props ! i of (k, slot) \<Rightarrow> snd (case slot of
       Data w \<Rightarrow> andThen (emits (emitString k @ [js '':''])) (streamAt h w (path @ [PathName k]) (Suc d))
     | _ \<Rightarrow> notCanonical ''accessor property is not canonical JSON at '' (path @ [PathName k])) = None)"
    using assms by (simp add: streamAt.simps [of h "VRef a"] andThen_None allThen_None ball_enumerate case_prod_beta
        cong: slot.case_cong)
  also have "\<dots> \<longleftrightarrow> (\<forall>p\<in>set (sort_key fst props). case p of (k, slot) \<Rightarrow> snd (case slot of
       Data w \<Rightarrow> andThen (emits (emitString k @ [js '':''])) (streamAt h w (path @ [PathName k]) (Suc d))
     | _ \<Rightarrow> notCanonical ''accessor property is not canonical JSON at '' (path @ [PathName k])) = None)"
    by (simp only: all_set_conv_all_nth length_sort)
  also have "\<dots> \<longleftrightarrow> list_all (\<lambda>(k, s). \<exists>w. s = Data w \<and> snd (streamAt h w (path @ [PathName k]) (Suc d)) = None) props"
  proof -
    have "snd (case s of
         Data w \<Rightarrow> andThen (emits (emitString k @ [js '':''])) (streamAt h w (path @ [PathName k]) (Suc d))
       | _ \<Rightarrow> notCanonical ''accessor property is not canonical JSON at '' (path @ [PathName k])) = None
      \<longleftrightarrow> (\<exists>w. s = Data w \<and> snd (streamAt h w (path @ [PathName k]) (Suc d)) = None)" for k s
      by (cases s) (auto simp: andThen_None)
    then show ?thesis by (simp only: list_all_iff set_sort)
  qed
  finally show ?thesis .
qed

lemma stream_rejects:
  "snd (streamAt h v path d) = None \<Longrightarrow> \<exists>j. represents h v j \<and> d + jsonDepth j \<le> MAX_JSON_DEPTH"
proof (induction "MAX_JSON_DEPTH - d" arbitrary: v path d rule: less_induct)
  case less
  have d: "d \<le> MAX_JSON_DEPTH" using less.prems streamAt_deep not_less by metis
  have step: "\<exists>j. represents h w j \<and> Suc d + jsonDepth j \<le> MAX_JSON_DEPTH"
    if "snd (streamAt h w p (Suc d)) = None" for w p
  proof -
    have "Suc d \<le> MAX_JSON_DEPTH" using that streamAt_deep not_less by metis
    then show ?thesis using that by (intro less.hyps) auto
  qed
  show ?case
  proof (cases v)
    case (VRef a)
    show ?thesis
    proof (cases "h a")
      case (OArray slots)
      have "\<exists>w j. s = Data w \<and> represents h w j \<and> Suc d + jsonDepth j \<le> MAX_JSON_DEPTH" if "s \<in> set slots" for s
        using that less.prems step unfolding VRef streamAt_array [where h = h, OF d OArray] by (metis in_set_conv_nth)
      then obtain f where f: "\<And>s. s \<in> set slots \<Longrightarrow> \<exists>w. s = Data w \<and> represents h w (f s) \<and> Suc d + jsonDepth (f s) \<le> MAX_JSON_DEPTH"
        by metis
      have "represents h v (JArr (map f slots))"
        unfolding VRef
      proof (rule rep_array [where h = h, OF OArray])
        show "list_all2 (\<lambda>s x. \<exists>w. s = Data w \<and> represents h w x) slots (map f slots)"
          unfolding list.rel_map by (rule list.rel_refl_strong) (use f in auto)
      qed
      moreover have "d + jsonDepth (JArr (map f slots)) \<le> MAX_JSON_DEPTH"
        using d f by (auto simp: add_foldr_max_le)
      ultimately show ?thesis by blast
    next
      case (OObject props)
      have "\<exists>w j. s = Data w \<and> represents h w j \<and> Suc d + jsonDepth j \<le> MAX_JSON_DEPTH" if "(k, s) \<in> set props" for k s
      proof -
        have "\<exists>w. s = Data w \<and> snd (streamAt h w (path @ [PathName k]) (Suc d)) = None"
          using that less.prems unfolding VRef streamAt_object [where h = h, OF d OObject] list_all_iff by auto
        then show ?thesis using step by blast
      qed
      then have "\<forall>p\<in>set props. \<exists>j. \<exists>w. snd p = Data w \<and> represents h w j \<and> Suc d + jsonDepth j \<le> MAX_JSON_DEPTH"
        by (metis prod.collapse)
      then obtain f where f: "\<forall>p\<in>set props. \<exists>w. snd p = Data w \<and> represents h w (f p) \<and> Suc d + jsonDepth (f p) \<le> MAX_JSON_DEPTH"
        by metis
      have "represents h v (JObj (map (\<lambda>p. (fst p, f p)) props))"
        unfolding VRef
      proof (rule rep_object [where h = h, OF OObject])
        show "list_all2 (\<lambda>p q. fst p = fst q \<and> (\<exists>w. snd p = Data w \<and> represents h w (snd q))) props
            (map (\<lambda>p. (fst p, f p)) props)"
          unfolding list.rel_map by (rule list.rel_refl_strong) (use f in auto)
      qed
      moreover have "d + jsonDepth (JObj (map (\<lambda>p. (fst p, f p)) props)) \<le> MAX_JSON_DEPTH"
        using d f by (fastforce simp: add_foldr_max_le)
      ultimately show ?thesis by blast
    qed
  qed (use less.prems d in \<open>auto simp: represents_scalar streamAt.simps [of h _ path d]\<close>)
qed

section \<open>Draining a stream\<close>

lemma callCheckpoint_cases:
  "callCheckpoint cp st = Inl e \<Longrightarrow> \<exists>n. cp n = Some e"
  "callCheckpoint cp st = Inr st' \<Longrightarrow> skBytes st' = skBytes st"
  by (auto simp: callCheckpoint_def split: option.splits)

text \<open>A sink that appends the encoding of each fragment, or throws.\<close>

definition appending :: "(jstr \<Rightarrow> sink \<Rightarrow> js_exn + sink) \<Rightarrow> (js_exn \<Rightarrow> bool) \<Rightarrow> jstr list \<Rightarrow> sink \<Rightarrow> bool" where
  "appending consume bad fs st \<longleftrightarrow>
     (case drain consume fs st of
        Inl e \<Rightarrow> bad e
      | Inr st' \<Rightarrow> skBytes st' = skBytes st @ encode (concat fs))"

lemma checkpointingSink_cases:
  "checkpointingSink consume cp f st = Inl e \<Longrightarrow> consume f st = Inl e \<or> (\<exists>n. cp n = Some e)"
  "checkpointingSink consume cp f st = Inr st' \<Longrightarrow> \<exists>st''. consume f st = Inr st'' \<and> skBytes st' = skBytes st''"
  unfolding checkpointingSink_def
   apply (cases "consume f st")
    apply (auto simp: Let_def dest: callCheckpoint_cases(1) split: if_splits)[2]
  apply (cases "consume f st")
   apply (auto simp: Let_def dest: callCheckpoint_cases(2) split: if_splits)
  done

lemma appending_drain:
  assumes "\<And>n st e. n < length fs \<Longrightarrow> skBytes st = bs @ encode (concat (take n fs)) \<Longrightarrow> consume (fs ! n) st = Inl e \<Longrightarrow> bad e"
    and "\<And>n st st'. n < length fs \<Longrightarrow> skBytes st = bs @ encode (concat (take n fs)) \<Longrightarrow> consume (fs ! n) st = Inr st'
      \<Longrightarrow> skBytes st' = skBytes st @ encode (fs ! n)"
    and "\<And>e n. cp n = Some e \<Longrightarrow> bad e"
    and "list_all paired fs" "skBytes st = bs"
  shows "appending (checkpointingSink consume cp) bad fs st"
proof -
  have "case drain (checkpointingSink consume cp) (drop n fs) st of
      Inl e \<Rightarrow> bad e | Inr st' \<Rightarrow> skBytes st' = bs @ encode (concat fs)"
    if "skBytes st = bs @ encode (concat (take n fs))" "n \<le> length fs" for n st
    using that
  proof (induction "length fs - n" arbitrary: n st)
    case 0
    then show ?case by simp
  next
    case (Suc m)
    then have n: "n < length fs" by simp
    have step: "drop n fs = fs ! n # drop (Suc n) fs" using n by (simp add: Cons_nth_drop_Suc)
    have paired: "list_all paired (take n fs)" using assms(4) by (auto simp: list_all_iff dest: in_set_takeD)
    show ?case
    proof (cases "checkpointingSink consume cp (fs ! n) st")
      case (Inl e)
      then show ?thesis
        using checkpointingSink_cases(1) [OF Inl] assms(1) [OF n Suc.prems(1)] assms(3) by (auto simp: step)
    next
      case (Inr st')
      have "skBytes st' = skBytes st @ encode (fs ! n)"
        using checkpointingSink_cases(2) [OF Inr] assms(2) [OF n Suc.prems(1)] by auto
      then have "skBytes st' = bs @ encode (concat (take (Suc n) fs))"
        using Suc.prems(1) n by (simp add: take_Suc_conv_app_nth encode_append [OF paired_concat [OF paired]])
      with Suc.hyps(1) [of "Suc n" st'] Suc.hyps(2) n show ?thesis by (simp add: step Inr)
    qed
  qed
  from this [where n = 0 and st = st] show ?thesis unfolding appending_def assms(5) by (simp add: assms(5))
qed

lemma hashFragment_cases:
  "hashFragment f st = Inl e \<Longrightarrow> MAX_SAFE_INTEGER < int (length (skBytes st) + byteLength f)"
  "hashFragment f st = Inr st' \<Longrightarrow> skBytes st' = skBytes st @ encode f"
  by (auto simp: hashFragment_def split: if_splits)

lemma encodeInto_all:
  "length (encode s) \<le> space \<Longrightarrow> encodeInto s space = (length s, encode s)"
proof (induction s space rule: encodeInto.induct)
  case (3 c d cs space)
  let ?pair = "isHighSurrogate c \<and> isLowSurrogate d"
  have split: "encode (c # d # cs) = encode (if ?pair then [c, d] else [c]) @ encode (if ?pair then cs else d # cs)"
    by (auto simp: encode_def codePoints_def surrogate_unat)
  with 3 show ?case by (auto simp: Let_def split: prod.splits)
qed simp_all

lemma encodeInto_length: "fst (encodeInto s space) \<le> length s"
  by (induction s space rule: encodeInto.induct) (auto simp: Let_def split: prod.splits if_splits)

lemma encodeInto_partial:
  "fst (encodeInto s space) = length s \<Longrightarrow> snd (encodeInto s space) = encode s \<and> length (encode s) \<le> space"
proof (induction s space rule: encodeInto.induct)
  case (3 c d cs space)
  define pair where "pair \<longleftrightarrow> isHighSurrogate c \<and> isLowSurrogate d"
  define bs where "bs = encode (if pair then [c, d] else [c])"
  define rest where "rest = (if pair then cs else d # cs)"
  have split: "encode (c # d # cs) = bs @ encode rest"
    by (auto simp: encode_def codePoints_def surrogate_unat bs_def rest_def pair_def)
  have step: "encodeInto (c # d # cs) space =
      (if length bs \<le> space then case encodeInto rest (space - length bs) of (n, out) \<Rightarrow> ((if pair then 2 else 1) + n, bs @ out)
       else (0, []))"
    by (simp add: Let_def pair_def bs_def rest_def)
  have ih: "fst (encodeInto rest (space - length bs)) = length rest \<Longrightarrow>
      snd (encodeInto rest (space - length bs)) = encode rest \<and> length (encode rest) \<le> space - length bs" if "length bs \<le> space"
    using 3(1) [OF refl refl] that by (simp add: pair_def bs_def rest_def)
  have len: "length (c # d # cs) = (if pair then 2 else 1) + length rest" by (simp add: rest_def)
  obtain n out where e: "encodeInto rest (space - length bs) = (n, out)" by fastforce
  have fits: "length bs \<le> space" using 3(2) unfolding step by (auto split: if_splits)
  then have "n = length rest" using 3(2) unfolding step e len by simp
  with ih [OF fits] e have "out = encode rest" "length (encode rest) \<le> space - length bs" by simp_all
  with fits show ?case unfolding step e split by simp
qed (auto split: if_splits)

section \<open>Order of keys\<close>

text \<open>Trees none of whose property names is an array index.\<close>

primrec indexFree :: "json \<Rightarrow> bool" where
  "indexFree JNull = True"
| "indexFree (JBool b) = True"
| "indexFree (JNum n) = True"
| "indexFree (JStr s) = True"
| "indexFree (JArr vs) = list_all id (map indexFree vs)"
| "indexFree (JObj ps) = (list_all (\<lambda>(k, _). arrayIndex k = None) ps \<and> list_all snd (map (map_prod id indexFree) ps))"

lemma objOf_names:
  assumes "distinct (map fst ps)" "list_all (\<lambda>(k, _). arrayIndex k = None) ps"
  shows "objOf ps = ps"
proof (rule objOf_ordered)
  have "sorted_wrt (\<lambda>k l. case (arrayIndex k, arrayIndex l) of (Some i, Some j) \<Rightarrow> i < j
        | (None, Some _) \<Rightarrow> False | _ \<Rightarrow> True) (map fst ps)"
    using assms(2) by (induction ps) (auto simp: list_all_iff split: option.splits)
  then show "propsOrdered ps" using assms(1) by (simp add: propsOrdered_def)
qed

lemma canonicalize_sortKeys:
  "canonicalizeAt v p d = Inr w \<Longrightarrow> jsonOrdered v \<Longrightarrow> indexFree v \<Longrightarrow> w = sortKeys v"
proof (induction v p d arbitrary: w rule: canonicalizeAt.induct)
  case (1 v path depth)
  have d: "\<not> MAX_JSON_DEPTH < depth"
    using 1(3) canonicalizeAt_deep by auto
  show ?case
  proof (cases v)
    case (JArr vs)
    from 1(3) [unfolded canonicalizeAt.simps [of v path depth]] d JArr obtain ws where ws: "w = JArr ws"
      "list_all2 (\<lambda>r v. r = Inr v) (map (\<lambda>(i, x). canonicalizeAt x (indexPath path i) (Suc depth)) (enumerate 0 vs)) ws"
      by (auto simp: collectItems_Inr)
    have "ws ! i = sortKeys (vs ! i)" if "i < length vs" for i
    proof -
      have "canonicalizeAt (vs ! i) (indexPath path i) (Suc depth) = Inr (ws ! i)"
        using ws(2) that by (auto simp: list_all2_conv_all_nth nth_enumerate_eq)
      moreover have "(i, vs ! i) \<in> set (enumerate 0 vs)" using that by (simp add: in_set_enumerate_eq)
      moreover have "jsonOrdered (vs ! i)" "indexFree (vs ! i)"
        using 1(4,5) JArr that by (auto simp: list_all_iff)
      ultimately show ?thesis using 1(1) d JArr by blast
    qed
    then show ?thesis using ws JArr by (auto simp: list_all2_conv_all_nth intro!: nth_equalityI)
  next
    case (JObj ps)
    from 1(3) [unfolded canonicalizeAt.simps [of v path depth]] d JObj obtain qs where qs: "w = JObj (objOf qs)"
      "list_all2 (\<lambda>r p. fst r = fst p \<and> snd r = Inr (snd p))
         (map (\<lambda>(k, x). (k, canonicalizeAt x (childPath path k) (Suc depth))) (sort_key fst ps)) qs"
      by (auto simp: collectProps_Inr)
    have pair: "q = map_prod id sortKeys p"
      if "p \<in> set (sort_key fst ps)" "fst p = fst q" "canonicalizeAt (snd p) (childPath path (fst p)) (Suc depth) = Inr (snd q)" for p q
    proof -
      obtain k x where p: "p = (k, x)" by (cases p)
      have "jsonOrdered x" "indexFree x" using 1(4,5) JObj that(1) p by (auto simp: list_all_iff)
      with 1(2) [OF d JObj that(1) p [symmetric]] that p have "snd q = sortKeys x" by simp
      with that(2) p show ?thesis by (simp add: prod_eq_iff)
    qed
    have "list_all2 (\<lambda>p q. q = map_prod id sortKeys p) (sort_key fst ps) qs"
      using qs(2) unfolding list.rel_map by (rule list.rel_mono_strong) (use pair in auto)
    then have eq: "qs = map (map_prod id sortKeys) (sort_key fst ps)"
      by (auto simp: list_all2_conv_all_nth intro!: nth_equalityI)
    have "distinct (map fst ps)" using 1(4) JObj by (simp add: propsOrdered_def)
    then have "objOf qs = qs"
      using 1(5) JObj by (intro objOf_names) (auto simp: eq distinct_map_sort_key list_all_iff comp_def)
    with qs(1) eq JObj show ?thesis by (simp add: sort_key_map_prod)
  qed (use 1(3) d in \<open>auto simp: canonicalizeAt.simps\<close>)
qed

lemma canonicalStringify_sorted:
  assumes "jsonOrdered v" "indexFree v" "jsonDepth v \<le> MAX_JSON_DEPTH"
  shows "canonicalStringify v = Inr (sortedText v)"
proof -
  obtain w where "canonicalize v = Inr w" using canonicalize_exists assms(3) by blast
  moreover from this have "w = sortKeys v" using canonicalize_sortKeys assms(1,2) by (simp add: canonicalize_def)
  ultimately show ?thesis by (simp add: canonicalStringify_def sortedText_def)
qed

section \<open>Preparing and materialising\<close>

lemma encode_prefix_bound:
  assumes "list_all paired fs" "n < length fs"
  shows "length (encode (concat (take n fs))) + length (encode (fs ! n)) \<le> length (encode (concat fs))"
proof -
  have paired: "paired (concat (take n fs))" "paired (fs ! n)"
    using assms by (auto simp: list_all_iff intro!: paired_concat dest!: in_set_takeD)
  have "fs = take n fs @ fs ! n # drop (Suc n) fs" using assms(2) by (rule id_take_nth_drop)
  then have "concat fs = concat (take n fs) @ fs ! n @ concat (drop (Suc n) fs)"
    by (metis concat.simps(2) concat_append)
  then show ?thesis using paired by (simp add: encode_append)
qed

lemma drain_hash:
  assumes "list_all paired fs" "skBytes st = []"
  shows "appending (checkpointingSink hashFragment cp)
    (\<lambda>e. (\<exists>n. cp n = Some e) \<or> MAX_SAFE_INTEGER < int (byteLength (concat fs))) fs st"
proof (rule appending_drain [where bs = "[]"])
  fix n st e
  assume n: "n < length fs" and st: "skBytes st = [] @ encode (concat (take n fs))" and e: "hashFragment (fs ! n) st = Inl e"
  from hashFragment_cases(1) [OF e] encode_prefix_bound [OF assms(1) n] st
  show "(\<exists>n. cp n = Some e) \<or> MAX_SAFE_INTEGER < int (byteLength (concat fs))" by (simp add: byteLength_def)
qed (use assms hashFragment_cases(2) in auto)

lemma drain_write:
  assumes "list_all paired fs" "skBytes st = []" "bytes = byteLength (concat fs)"
  shows "appending (checkpointingSink (writeFragment bytes) cp) (\<lambda>e. \<exists>n. cp n = Some e) fs st"
proof -
  have fits: "writeFragment bytes (fs ! n) st = Inr (st\<lparr>skBytes := skBytes st @ encode (fs ! n)\<rparr>)"
    if "n < length fs" "skBytes st = [] @ encode (concat (take n fs))" for n and st :: sink
  proof -
    have "length (encode (fs ! n)) \<le> bytes - length (skBytes st)"
      using encode_prefix_bound [OF assms(1) that(1)] that(2) assms(3) by (simp add: byteLength_def)
    from encodeInto_all [OF this] show ?thesis by (simp add: writeFragment_def)
  qed
  show ?thesis by (rule appending_drain [where bs = "[]"]) (use assms fits in auto)
qed

definition preparedAs :: "(nat list \<Rightarrow> jstr) \<Rightarrow> checkpoint \<Rightarrow> heap \<Rightarrow> jsval \<Rightarrow> jstr \<Rightarrow> bool" where
  "preparedAs sha cp h v t \<longleftrightarrow>
     (case prepareCanonicalJson sha cp h v of
        Inl e \<Rightarrow> (\<exists>n. cp n = Some e) \<or> MAX_SAFE_INTEGER < int (byteLength t)
      | Inr p \<Rightarrow> ppBytes p = byteLength t \<and> ppSha256 p = sha (encode t)
          \<and> (case materialize p cp h v of Inl e \<Rightarrow> \<exists>n. cp n = Some e | Inr bytes \<Rightarrow> bytes = encode t))"

lemma prepared_stream:
  assumes "yieldsText (streamCanonicalJson h v) t"
  shows "preparedAs sha cp h v t"
proof -
  obtain fs where fs: "streamCanonicalJson h v = (fs, None)" "concat fs = t" "list_all paired fs"
    using assms by (cases "streamCanonicalJson h v") (auto simp: yieldsText_def)
  have open_bytes: "skBytes (openSink n) = []" for n by (simp add: openSink_def)
  show ?thesis
  proof (cases "prepareCanonicalJson sha cp h v")
    case (Inl e)
    have "(\<exists>n. cp n = Some e) \<or> MAX_SAFE_INTEGER < int (byteLength t)"
    proof (cases "callCheckpoint cp (openSink 0)")
      case (Inl e')
      with \<open>prepareCanonicalJson sha cp h v = Inl e\<close> callCheckpoint_cases(1) [OF Inl] show ?thesis
        by (simp add: prepareCanonicalJson_def)
    next
      case (Inr st)
      have st: "skBytes st = []" using callCheckpoint_cases(2) [OF Inr] open_bytes by simp
      show ?thesis
        using drain_hash [OF fs(3) st, of cp] \<open>prepareCanonicalJson sha cp h v = Inl e\<close> Inr fs(1,2)
        by (auto simp: prepareCanonicalJson_def runStream_def appending_def resBind_eq_Inl split: sum.splits
            dest: callCheckpoint_cases(1))
    qed
    with Inl show ?thesis by (simp add: preparedAs_def)
  next
    case (Inr p)
    obtain st st' st'' where p: "callCheckpoint cp (openSink 0) = Inr st"
      "drain (checkpointingSink hashFragment cp) fs st = Inr st'" "callCheckpoint cp st' = Inr st''"
      "p = \<lparr>ppBytes = length (skBytes st''), ppSha256 = sha (skBytes st''), ppCheckpoints = skCheckpoints st''\<rparr>"
      using Inr by (auto simp: prepareCanonicalJson_def runStream_def resBind_eq_Inr fs(1))
    have "skBytes st = []" using callCheckpoint_cases(2) [OF p(1)] open_bytes by simp
    then have bytes: "skBytes st'' = encode t"
      using drain_hash [OF fs(3), of st cp] p(2) callCheckpoint_cases(2) [OF p(3)] fs(2) by (simp add: appending_def)
    have pb: "ppBytes p = byteLength (concat fs)" using p(4) bytes fs(2) by (simp add: byteLength_def)
    have "case materialize p cp h v of Inl e \<Rightarrow> \<exists>n. cp n = Some e | Inr bytes \<Rightarrow> bytes = encode t"
    proof (cases "callCheckpoint cp (openSink (ppCheckpoints p))")
      case (Inl e)
      with callCheckpoint_cases(1) [OF Inl] show ?thesis by (simp add: materialize_def)
    next
      case (Inr s)
      have "skBytes s = []" using callCheckpoint_cases(2) [OF Inr] open_bytes by simp
      note written_ok = drain_write [OF fs(3) this pb, of cp]
      show ?thesis
      proof (cases "drain (checkpointingSink (writeFragment (ppBytes p)) cp) fs s")
        case (Inl e)
        with written_ok Inr show ?thesis by (simp add: materialize_def runStream_def fs(1) appending_def)
      next
        case (Inr s')
        with written_ok \<open>skBytes s = []\<close> fs(2) have "skBytes s' = encode t" by (simp add: appending_def)
        moreover have "length (encode t) = ppBytes p" using pb fs(2) by (simp add: byteLength_def)
        ultimately show ?thesis
          using \<open>callCheckpoint cp (openSink (ppCheckpoints p)) = Inr s\<close> Inr callCheckpoint_cases [of cp s']
          by (auto simp: materialize_def runStream_def fs(1) split: sum.splits)
      qed
    qed
    with Inr p(4) bytes show ?thesis by (simp add: preparedAs_def byteLength_def)
  qed
qed

section \<open>Properties\<close>

text \<open>
  C24: streaming ends normally exactly on acyclic plain data of bounded depth, whatever the heap; and then the
  byte count, the hash and the materialised buffer are those of the text whose object keys are in code-unit
  order, unless the checkpoint callback throws or the text is too large to count.
\<close>

theorem streamed_json_exact:
  "(snd (streamCanonicalJson h v) = None) = (\<exists>j. represents h v j \<and> jsonDepth j \<le> MAX_JSON_DEPTH)
   \<and> {j. represents h v j \<and> jsonDepth j \<le> MAX_JSON_DEPTH} \<subseteq> {j. preparedAs sha cp h v (sortedText j)}"
proof
  show "{j. represents h v j \<and> jsonDepth j \<le> MAX_JSON_DEPTH} \<subseteq> {j. preparedAs sha cp h v (sortedText j)}"
    using stream_represents [where d = 0 and path = "[]"] prepared_stream by (auto simp: streamCanonicalJson_def)
  show "(snd (streamCanonicalJson h v) = None) = (\<exists>j. represents h v j \<and> jsonDepth j \<le> MAX_JSON_DEPTH)"
    using stream_represents [where d = 0 and path = "[]"] stream_rejects [of h v "[]" 0]
    by (auto simp: streamCanonicalJson_def yieldsText_def)
qed

text \<open>The recovery check of stored content: the parsed value must print as the bytes that were read.\<close>

definition isCanonicalText :: "json \<Rightarrow> jstr \<Rightarrow> bool" where
  "isCanonicalText parsed t \<longleftrightarrow> isOk (parseJsonTree parsed) \<and> canonicalStringify parsed = Inr t"

lemma isCanonicalText_sorted:
  assumes "sameJson v w" "jsonOrdered v" "jsonOrdered w" "jsonFinite w" "jsonDepth v \<le> MAX_JSON_DEPTH"
    "jsonDepth w \<le> MAX_JSON_DEPTH" "indexFree v"
  shows "isCanonicalText w (sortedText v)"
proof -
  have "canonicalStringify w = canonicalStringify v"
    using canonicalize_same [OF assms(1)] by (simp add: canonicalStringify_def)
  with canonicalStringify_sorted assms have "canonicalStringify w = Inr (sortedText v)" by simp
  moreover have "parseJsonTree w = Inr w"
    using recheck_ok(1) [of 0 w] assms by (simp add: parseJsonTree_def)
  ultimately show ?thesis by (simp add: isCanonicalText_def)
qed



definition indexNamed :: json where
  "indexNamed = JObj [(js ''9'', JNull), (js ''10'', JNull)]"


end
