(* ===== verification/NumberText.thy ===== *)
theory NumberText
  imports JsonValue
begin

text \<open>
  Reading a printed number back: the shortest decimal that \<open>numString\<close> prints is read by the JSON grammar as
  the same double.
\<close>

section \<open>Powers\<close>

lemma pow2_powi: "pow2 e = 2 powi e"
  by (simp add: pow2_def power_int_def power_one_over inverse_eq_divide)

lemma pow10_powi: "pow10 e = 10 powi e"
  by (simp add: pow10_def power_int_def power_one_over inverse_eq_divide)

lemma floor_between:
  fixes x :: rat
  assumes "1 \<le> x"
  shows "1 \<le> \<lfloor>x\<rfloor>" "of_int \<lfloor>x\<rfloor> \<le> x" "x < of_int (\<lfloor>x\<rfloor> + 1)"
  using assms floor_correct [of x] by (simp_all add: le_floor_iff)

lemma ceil_between:
  fixes x :: rat
  assumes "0 < x" "x < 1"
  shows "1 \<le> \<lceil>1 / x\<rceil> - 1" "of_int (\<lceil>1 / x\<rceil> - 1) < 1 / x" "1 / x \<le> of_int (\<lceil>1 / x\<rceil> - 1 + 1)"
proof -
  have "1 < 1 / x" using assms by simp
  then have "1 < \<lceil>1 / x\<rceil>" by (simp add: less_ceiling_iff)
  then show "1 \<le> \<lceil>1 / x\<rceil> - 1" by simp
  show "of_int (\<lceil>1 / x\<rceil> - 1) < 1 / x" using ceiling_correct [of "1 / x"] by simp
  show "1 / x \<le> of_int (\<lceil>1 / x\<rceil> - 1 + 1)" using ceiling_correct [of "1 / x"] by simp
qed

lemma of_int_bounds:
  fixes b :: int
  assumes "b ^ m \<le> c" "c < b ^ n"
  shows "(of_int b :: rat) ^ m \<le> of_int c" "of_int (c + 1) \<le> (of_int b :: rat) ^ n"
  using assms by (metis of_int_le_iff of_int_power) (metis assms(2) of_int_le_iff of_int_power zless_imp_add1_zle)

lemma powi_bracket:
  fixes x b :: rat
  assumes "1 < b" "b powi j \<le> x" "x < b powi (j + 1)" "b powi k \<le> x" "x < b powi (k + 1)"
  shows "j = k"
proof -
  have "b powi j < b powi (k + 1)" "b powi k < b powi (j + 1)" using assms by linarith+
  then have "j < k + 1" "k < j + 1"
    using assms(1) by (meson not_le order.strict_implies_order power_int_increasing leD)+
  then show ?thesis by linarith
qed

lemma ilog2_bounds:
  assumes "0 < x"
  shows "2 powi ilog2 x \<le> x" "x < 2 powi (ilog2 x + 1)"
proof -
  have "2 powi ilog2 x \<le> x \<and> x < 2 powi (ilog2 x + 1)"
  proof (cases "1 \<le> x")
    case True
    define f where "f = \<lfloor>x\<rfloor>"
    have f: "1 \<le> f" "of_int f \<le> x" "x < of_int (f + 1)" using floor_between [OF True] by (simp_all add: f_def)
    then have "2 ^ nat (bitlen f - 1) \<le> f" "f < 2 ^ nat (bitlen f)" using bitlen_bounds [of f] by auto
    note b = of_int_bounds [OF this, unfolded of_int_numeral]
    have "0 < bitlen f" using \<open>f < 2 ^ nat (bitlen f)\<close> f(1) by (cases "0 < bitlen f") auto
    then have "(2 :: rat) powi (bitlen f - 1) = 2 ^ nat (bitlen f - 1)" "(2 :: rat) powi bitlen f = 2 ^ nat (bitlen f)"
      by (simp_all add: power_int_def)
    with b f have "2 powi (bitlen f - 1) \<le> x" "x < 2 powi bitlen f" by linarith+
    with True show ?thesis by (simp add: ilog2_def f_def [symmetric])
  next
    case False
    define c where "c = \<lceil>1 / x\<rceil> - 1"
    have c: "1 \<le> c" "of_int c < 1 / x" "1 / x \<le> of_int (c + 1)"
      using ceil_between [of x] assms False by (simp_all add: c_def)
    then have "2 ^ nat (bitlen c - 1) \<le> c" "c < 2 ^ nat (bitlen c)" using bitlen_bounds [of c] by auto
    note b = of_int_bounds [OF this, unfolded of_int_numeral]
    have "0 < bitlen c" using \<open>c < 2 ^ nat (bitlen c)\<close> c(1) by (cases "0 < bitlen c") auto
    then have p: "(2 :: rat) powi (bitlen c - 1) = 2 ^ nat (bitlen c - 1)" "(2 :: rat) powi bitlen c = 2 ^ nat (bitlen c)"
      by (simp_all add: power_int_def)
    have "1 / x \<le> 2 powi bitlen c" "2 powi (bitlen c - 1) < 1 / x" using b c p by linarith+
    then have "1 \<le> 2 powi bitlen c * x" "2 powi (bitlen c - 1) * x < 1" using assms by (simp_all add: field_simps)
    then have "2 powi (- bitlen c) \<le> x" "x < 2 powi (- (bitlen c - 1))"
      by (simp_all only: power_int_minus) (simp_all add: field_simps)
    with False show ?thesis by (simp add: ilog2_def c_def [symmetric])
  qed
  then show "2 powi ilog2 x \<le> x" "x < 2 powi (ilog2 x + 1)" by simp_all
qed

lemma decExponent_bounds:
  assumes "0 < x"
  shows "10 powi (decExponent x - 1) \<le> x" "x < 10 powi decExponent x"
proof -
  have "10 powi (decExponent x - 1) \<le> x \<and> x < 10 powi decExponent x"
  proof (cases "1 \<le> x")
    case True
    define f where "f = \<lfloor>x\<rfloor>"
    define l where "l = floorlog 10 (nat f)"
    have f: "1 \<le> f" "of_int f \<le> x" "x < of_int (f + 1)" using floor_between [OF True] by (simp_all add: f_def)
    then have "0 < nat f" by simp
    then have "(10 :: nat) ^ (l - 1) \<le> nat f" "nat f < 10 ^ l"
      using floorlog_bounds [of "nat f" 10] by (simp_all add: l_def)
    then have "10 ^ (l - 1) \<le> f" "f < 10 ^ l"
      using f(1) by (simp_all add: le_nat_iff nat_less_iff of_nat_power)
    note b = of_int_bounds [OF this, unfolded of_int_numeral]
    have "0 < l" using \<open>0 < nat f\<close> by (simp add: l_def floorlog_def)
    then have "(10 :: rat) powi (int l - 1) = 10 ^ (l - 1)" "(10 :: rat) powi int l = 10 ^ l"
      by (simp_all add: power_int_def nat_diff_distrib)
    with b f have "10 powi (int l - 1) \<le> x" "x < 10 powi int l" by linarith+
    with True show ?thesis by (simp add: decExponent_def f_def [symmetric] l_def [symmetric])
  next
    case False
    define c where "c = \<lceil>1 / x\<rceil> - 1"
    define l where "l = floorlog 10 (nat c)"
    have c: "1 \<le> c" "of_int c < 1 / x" "1 / x \<le> of_int (c + 1)"
      using ceil_between [of x] assms False by (simp_all add: c_def)
    then have "0 < nat c" by simp
    then have "(10 :: nat) ^ (l - 1) \<le> nat c" "nat c < 10 ^ l"
      using floorlog_bounds [of "nat c" 10] by (simp_all add: l_def)
    then have "10 ^ (l - 1) \<le> c" "c < 10 ^ l"
      using c(1) by (simp_all add: le_nat_iff nat_less_iff of_nat_power)
    note b = of_int_bounds [OF this, unfolded of_int_numeral]
    have "0 < l" using \<open>0 < nat c\<close> by (simp add: l_def floorlog_def)
    then have p: "(10 :: rat) powi (int l - 1) = 10 ^ (l - 1)" "(10 :: rat) powi int l = 10 ^ l"
      by (simp_all add: power_int_def nat_diff_distrib)
    have "1 / x \<le> 10 powi int l" "10 powi (int l - 1) < 1 / x" using b c p by linarith+
    then have "1 \<le> 10 powi int l * x" "10 powi (int l - 1) * x < 1" using assms by (simp_all add: field_simps)
    then have "10 powi (- int l) \<le> x" "x < 10 powi (- (int l - 1))"
      by (simp_all only: power_int_minus) (simp_all add: field_simps)
    with False show ?thesis by (simp add: decExponent_def c_def [symmetric] l_def [symmetric])
  qed
  then show "10 powi (decExponent x - 1) \<le> x" "x < 10 powi decExponent x" by simp_all
qed

section \<open>Rounding\<close>

lemma roundHalfEven_near:
  assumes "\<bar>z - of_int m\<bar> < 1 / 2"
  shows "roundHalfEven z = m"
proof -
  have "\<lfloor>z\<rfloor> = m \<or> \<lfloor>z\<rfloor> = m - 1" using assms by linarith
  then show ?thesis
  proof
    assume "\<lfloor>z\<rfloor> = m"
    moreover have "z - of_int m < 1 / 2" using assms by linarith
    ultimately show ?thesis by (simp add: roundHalfEven_def)
  next
    assume f: "\<lfloor>z\<rfloor> = m - 1"
    have "- (1 / 2) < z - of_int m" using assms by linarith
    then have "1 / 2 < z - of_int (m - 1)" by simp
    with f show ?thesis by (simp add: roundHalfEven_def f)
  qed
qed

lemma roundHalfEven_minus: "roundHalfEven (- z) = - roundHalfEven z"
proof (cases "z = of_int \<lfloor>z\<rfloor>")
  case True
  then show ?thesis by (metis of_int_minus roundHalfEven_of_int)
next
  case False
  then have f: "\<lfloor>- z\<rfloor> = - \<lfloor>z\<rfloor> - 1"
    by (metis add_diff_cancel ceiling_altdef ceiling_def add.inverse_inverse minus_add_distrib uminus_add_conv_diff diff_minus_eq_add)
  show ?thesis by (simp add: roundHalfEven_def Let_def f)
qed

lemma round64_minus: "round64 (- x) = jneg (round64 x)"
proof (cases "x = 0")
  case False
  define B :: rat where "B = 2 ^ 1024"
  define e where "e = max (- 1074) (ilog2 \<bar>x\<bar> - 52)"
  define y where "y = of_int (roundHalfEven (x / pow2 e)) * pow2 e"
  have x: "round64 x = (if B \<le> y then PosInf else if y \<le> - B then NegInf else Num y)"
    using False by (simp only: round64_def e_def y_def B_def Let_def if_False)
  have "- x / pow2 e = - (x / pow2 e)" by simp
  then have "of_int (roundHalfEven (- x / pow2 e)) * pow2 e = - y"
    by (simp only: roundHalfEven_minus y_def of_int_minus mult_minus_left)
  then have "round64 (- x) = (if B \<le> - y then PosInf else if - y \<le> - B then NegInf else Num (- y))"
    using False by (simp only: round64_def e_def B_def Let_def if_False neg_equal_0_iff_equal abs_minus_cancel)
  moreover have "0 < B" by (simp add: B_def)
  ultimately show ?thesis unfolding x by auto
qed (simp add: round64_def)

text \<open>A value within a quarter of the last place of a double is rounded to it.\<close>

lemma powi_less: "1 < (b :: rat) \<Longrightarrow> b powi j < b powi k \<longleftrightarrow> j < k"
  by (meson not_less power_int_increasing power_int_strict_increasing less_imp_le)

lemma powi_step: "(2 :: rat) powi (k + 1) = 2 * 2 powi k"
  by (simp add: power_int_add)

lemma powi_multiple:
  assumes "e \<le> k"
  shows "\<exists>m. (2 :: rat) powi k / 2 powi e = of_int m"
proof -
  have "(2 :: rat) powi k / 2 powi e = 2 powi (k - e)" by (simp add: power_int_diff)
  also have "\<dots> = of_int (2 ^ nat (k - e))" using assms by (simp add: power_int_def)
  finally show ?thesis by blast
qed

lemma round64_multiple:
  assumes "x \<noteq> 0" "round64 x = Num x"
  shows "x = of_int (roundHalfEven (x / 2 powi max (- 1074) (ilog2 \<bar>x\<bar> - 52))) * 2 powi max (- 1074) (ilog2 \<bar>x\<bar> - 52)"
    "\<bar>x\<bar> < 2 ^ 1024"
proof -
  define B :: rat where "B = 2 ^ 1024"
  define e where "e = max (- 1074) (ilog2 \<bar>x\<bar> - 52)"
  define y where "y = of_int (roundHalfEven (x / pow2 e)) * pow2 e"
  have "round64 x = (if B \<le> y then PosInf else if y \<le> - B then NegInf else Num y)"
    using assms(1) by (simp only: round64_def e_def y_def B_def Let_def if_False)
  then have "x = y" "y < B" "- B < y" using assms(2) by (auto split: if_splits)
  then have "\<bar>x\<bar> < B" by simp
  from \<open>x = y\<close> show "x = of_int (roundHalfEven (x / 2 powi max (- 1074) (ilog2 \<bar>x\<bar> - 52)))
      * 2 powi max (- 1074) (ilog2 \<bar>x\<bar> - 52)"
    by (simp only: y_def e_def pow2_powi)
  from \<open>\<bar>x\<bar> < B\<close> show "\<bar>x\<bar> < 2 ^ 1024" by (simp only: B_def)
qed

lemma multiple_gap:
  assumes "(a :: rat) / u = of_int m" "b / u = of_int n" "0 < u" "a < b"
  shows "a + u \<le> b"
proof -
  have "a / u < b / u" using assms(3,4) by (simp add: divide_strict_right_mono)
  then have "m + 1 \<le> n" using assms(1,2) by simp
  then have "of_int m + 1 \<le> (of_int n :: rat)" by (metis of_int_1 of_int_add of_int_le_iff)
  then have "a / u + u / u \<le> b / u" using assms by simp
  then have "(a + u) / u \<le> b / u" by (simp add: add_divide_distrib)
  then show ?thesis using assms(3) by (simp add: divide_le_cancel)
qed

lemma roundHalfEven_le:
  assumes "z < of_int n"
  shows "roundHalfEven z \<le> n"
proof -
  have "\<lfloor>z\<rfloor> < n" using assms by (simp add: floor_less_iff)
  then show ?thesis by (simp add: roundHalfEven_def Let_def)
qed

text \<open>Rounding yields a double: rounding it again changes nothing.\<close>

lemma round64_double:
  assumes x: "0 < x" and r: "round64 x = Num y"
  shows "round64 y = Num y"
proof (cases "y = 0")
  case False
  define B :: rat where "B = 2 ^ 1024"
  define k where "k = ilog2 x"
  define e where "e = max (- 1074) (k - 52)"
  define m where "m = roundHalfEven (x / 2 powi e)"
  have k: "2 powi k \<le> x" "x < 2 powi (k + 1)" using ilog2_bounds [OF x] by (simp_all add: k_def)
  have xr: "round64 x = (if B \<le> of_int m * 2 powi e then PosInf else if of_int m * 2 powi e \<le> - B then NegInf
      else Num (of_int m * 2 powi e))"
    using x by (simp only: round64_def m_def e_def k_def B_def Let_def pow2_powi abs_of_pos) simp
  then have y: "y = of_int m * 2 powi e" "\<bar>y\<bar> < B" using r by (auto split: if_splits)
  have pos: "0 < y" using round64_nonneg [of x] x r False by auto
  have "0 < of_int m * (2 :: rat) powi e" using pos y(1) by simp
  moreover have "(0 :: rat) < 2 powi e" by simp
  ultimately have "(0 :: rat) < of_int m" by (rule zero_less_mult_pos2)
  then have m: "1 \<le> m" by simp
  define j where "j = ilog2 y"
  have j: "2 powi j \<le> y" "y < 2 powi (j + 1)" using ilog2_bounds [OF pos] by (simp_all add: j_def)
  have "\<exists>n. y / 2 powi max (- 1074) (j - 52) = of_int n"
  proof (cases "e \<le> k + 1")
    case True
    obtain N where N: "(2 :: rat) powi (k + 1) / 2 powi e = of_int N" using powi_multiple [OF True] by blast
    have "x / 2 powi e < 2 powi (k + 1) / 2 powi e" using k(2) by (simp add: divide_strict_right_mono)
    then have "m \<le> N" unfolding m_def N by (rule roundHalfEven_le)
    then have "of_int m * 2 powi e \<le> (of_int N :: rat) * 2 powi e" by simp
    then have le: "y \<le> 2 powi (k + 1)" using N y(1) by (simp add: field_simps)
    show ?thesis
    proof (cases "j \<le> k")
      case True
      then have "max (- 1074) (j - 52) \<le> e" by (simp add: e_def)
      then obtain n where "(2 :: rat) powi e / 2 powi max (- 1074) (j - 52) = of_int n" using powi_multiple by blast
      then have "y / 2 powi max (- 1074) (j - 52) = of_int (m * n)"
        unfolding y(1) by (simp flip: times_divide_eq_right)
      then show ?thesis by blast
    next
      case False
      have "2 powi j \<le> (2 :: rat) powi (k + 1)" using j(1) le by linarith
      then have "j = k + 1" using False powi_less [of 2 "k + 1" j] by linarith
      then have "y = 2 powi j" using le j(1) by simp
      moreover have "max (- 1074) (j - 52) \<le> j" using True \<open>j = k + 1\<close> by (simp add: e_def)
      ultimately show ?thesis using powi_multiple by simp
    qed
  next
    case False
    then have e: "e = - 1074" by (simp add: e_def)
    have "(2 :: rat) powi (k + 1) < 2 powi e" using False powi_less [of 2 "k + 1" e] by simp
    then have "x / 2 powi e < of_int 1" using k(2) by simp
    then have "m = 1" using roundHalfEven_le [of "x / 2 powi e" 1] m by (simp add: m_def)
    then have "y = 2 powi e" using y(1) by simp
    then have "j = e" using powi_bracket [of 2, OF _ j, of e] powi_step [of e] by simp
    then have "max (- 1074) (j - 52) = e" using e by simp
    then show ?thesis using \<open>y = 2 powi e\<close> by (intro exI [of _ 1]) simp
  qed
  then obtain n where n: "y / pow2 (max (- 1074) (ilog2 \<bar>y\<bar> - 52)) = of_int n"
    using pos by (auto simp: j_def pow2_powi)
  show ?thesis using round64_exact [OF _ n] False y(2) by (simp add: B_def)
qed (simp add: round64_def)

lemma near_double_exponent:
  assumes x: "0 < x" "round64 x = Num x" and y: "\<bar>y - x\<bar> < x * 2 powi (- 54)"
  defines "u \<equiv> 2 powi max (- 1074) (ilog2 y - 52)"
  shows "0 < y" "\<exists>m. x / u = of_int m" "x * 2 powi (- 54) \<le> u / 2"
proof -
  define k where "k = ilog2 x"
  define e where "e = max (- 1074) (k - 52)"
  have k: "2 powi k \<le> x" "x < 2 powi (k + 1)" using ilog2_bounds [OF x(1)] by (simp_all add: k_def)
  have "x * 2 powi (- 54) < x" using x(1) by (simp add: power_int_minus)
  then show "0 < y" using y by linarith
  then have j: "2 powi ilog2 y \<le> y" "y < 2 powi (ilog2 y + 1)" using ilog2_bounds by simp_all
  obtain m where m: "x / 2 powi e = of_int m"
    using round64_multiple(1) [of x] x
    by (metis abs_of_pos e_def k_def less_irrefl nonzero_mult_div_cancel_right power_int_not_zero zero_neq_numeral)
  have "0 < x / 2 powi e" using x(1) by simp
  then have "1 \<le> m" using m by simp
  then have "2 powi e \<le> x" using m by (metis le_divide_eq_1_pos of_int_1_le_iff zero_less_numeral zero_less_power_int)
  then have "2 powi e < (2 :: rat) powi (k + 1)" using k(2) by linarith
  then have ek: "e \<le> k" by (simp add: powi_less)
  have "x * 2 powi (- 54) < 2 powi (k + 1) * 2 powi (- 54)" using k(2) by simp
  also have "\<dots> = 2 powi (k - 53)" using power_int_add [of "2 :: rat" "k + 1" "- 54"] by simp
  finally have d: "x * 2 powi (- 54) < 2 powi (k - 53)" .
  also have "\<dots> \<le> 2 powi (e - 1)" by (rule power_int_increasing) (auto simp: e_def)
  finally have de: "x * 2 powi (- 54) < 2 powi (e - 1)" .
  have half: "2 powi (e - 1) = (2 :: rat) powi e / 2" by (simp add: power_int_diff)
  obtain n where n: "(2 :: rat) powi (k + 1) / 2 powi e = of_int n" using powi_multiple [of e "k + 1"] ek by auto
  have "x + 2 powi e \<le> 2 powi (k + 1)" by (rule multiple_gap [OF m n]) (simp_all add: k)
  moreover have near: "\<bar>y - x\<bar> < 2 powi e / 2" using less_trans [OF y de] half by simp
  moreover have pos: "(0 :: rat) < 2 powi e" by simp
  ultimately have below: "y < 2 powi (k + 1)" by linarith
  have "(\<exists>m. x / u = of_int m) \<and> x * 2 powi (- 54) \<le> u / 2"
  proof (cases "2 powi k \<le> y")
    case True
    then have "ilog2 y = k" using powi_bracket [of 2, OF _ j] below by simp
    then have "u = 2 powi e" by (simp add: u_def e_def)
    then show ?thesis using m de half by auto
  next
    case False
    have "x = 2 powi k"
    proof (rule ccontr)
      assume "x \<noteq> 2 powi k"
      obtain n where "(2 :: rat) powi k / 2 powi e = of_int n" using powi_multiple [OF ek] by blast
      then have "2 powi k + 2 powi e \<le> x"
        using multiple_gap [of "2 powi k" "2 powi e" n x m] m k(1) \<open>x \<noteq> 2 powi k\<close> by simp
      then show False using near pos False by linarith
    qed
    have "x * 2 powi (- 54) < x / 2" using x(1) by (simp add: power_int_minus)
    then have "x / 2 < y" using y by linarith
    then have "2 powi (k - 1) \<le> y" by (simp add: \<open>x = 2 powi k\<close> power_int_diff)
    then have l: "ilog2 y = k - 1" using powi_bracket [of 2, OF _ j, of "k - 1"] False by simp
    have u: "u = 2 powi max (- 1074) (k - 53)" by (simp add: u_def l)
    have "max (- 1074) (k - 53) \<le> k" using ek by (simp add: e_def)
    then have "\<exists>m. x / u = of_int m" using powi_multiple \<open>x = 2 powi k\<close> u by simp
    moreover have "x * 2 powi (- 54) \<le> u / 2"
    proof -
      have "x * 2 powi (- 54) = 2 powi (k - 54)"
        using power_int_add [of "2 :: rat" k "- 54"] by (simp add: \<open>x = 2 powi k\<close>)
      also have "\<dots> \<le> 2 powi (max (- 1074) (k - 53) - 1)" by (rule power_int_increasing) auto
      also have "\<dots> = u / 2" by (simp add: u power_int_diff)
      finally show ?thesis .
    qed
    ultimately show ?thesis by blast
  qed
  then show "\<exists>m. x / u = of_int m" "x * 2 powi (- 54) \<le> u / 2" by simp_all
qed

lemma round64_near:
  assumes "0 < x" "round64 x = Num x" "\<bar>y - x\<bar> < x * 2 powi (- 54)"
  shows "round64 y = Num x"
proof -
  define u where "u = (2 :: rat) powi max (- 1074) (ilog2 y - 52)"
  note n = near_double_exponent [OF assms, folded u_def]
  obtain m where m: "x / u = of_int m" using n(2) by blast
  have "0 < u" by (simp add: u_def)
  have "\<bar>y - x\<bar> < u / 2" using assms(3) n(3) by linarith
  then have "\<bar>y - x\<bar> / u < 1 / 2" using \<open>0 < u\<close> by (simp add: pos_divide_less_eq)
  moreover have "y / u - x / u = (y - x) / u" by (simp add: diff_divide_distrib)
  ultimately have "\<bar>y / u - of_int m\<bar> < 1 / 2"
    using \<open>0 < u\<close> by (simp only: m [symmetric] abs_divide abs_of_pos)
  then have "roundHalfEven (y / u) = m" by (rule roundHalfEven_near)
  then have "of_int (roundHalfEven (y / u)) * u = x" using m \<open>0 < u\<close> by (simp add: field_simps)
  moreover define B :: rat where "B = 2 ^ 1024"
  moreover have "\<bar>x\<bar> < B" using round64_multiple(2) [of x] assms(1,2) by (simp add: B_def)
  moreover have "round64 y = (if B \<le> of_int (roundHalfEven (y / u)) * u then PosInf
      else if of_int (roundHalfEven (y / u)) * u \<le> - B then NegInf else Num (of_int (roundHalfEven (y / u)) * u))"
    using n(1) by (simp only: round64_def u_def B_def Let_def pow2_powi abs_of_pos) simp
  ultimately show ?thesis by auto
qed

section \<open>The shortest digits\<close>

lemma powi_shift: "(10 :: rat) ^ k * 10 powi (n - int k) = 10 powi n"
  using power_int_add [of "10 :: rat" "int k" "n - int k"] by simp

lemma digits_floor:
  assumes "0 < x"
  defines "n \<equiv> decExponent x"
  shows "10 ^ k \<le> \<lfloor>x / pow10 (n - int (Suc k))\<rfloor>" "\<lfloor>x / pow10 (n - int (Suc k))\<rfloor> < 10 ^ Suc k"
proof -
  have b: "10 powi (n - 1) \<le> x" "x < 10 powi n" using decExponent_bounds [OF assms(1)] by (simp_all add: n_def)
  have p: "(10 :: rat) powi (n - 1) = 10 ^ k * 10 powi (n - int (Suc k))"
    "(10 :: rat) powi n = 10 ^ Suc k * 10 powi (n - int (Suc k))"
    using powi_shift [of k "n - 1"] powi_shift [of "Suc k" n] by (simp_all add: algebra_simps)
  have "0 < (10 :: rat) powi (n - int (Suc k))" by simp
  then have "of_int (10 ^ k) \<le> x / 10 powi (n - int (Suc k))" "x / 10 powi (n - int (Suc k)) < of_int (10 ^ Suc k)"
    using b unfolding p by (simp_all add: pos_le_divide_eq pos_divide_less_eq)
  then show "10 ^ k \<le> \<lfloor>x / pow10 (n - int (Suc k))\<rfloor>" "\<lfloor>x / pow10 (n - int (Suc k))\<rfloor> < 10 ^ Suc k"
    unfolding pow10_powi by (simp_all only: le_floor_iff floor_less_iff)
qed

text \<open>What \<open>shortestDigits\<close> returns: a significand of exactly \<open>k\<close> digits that reads back as \<open>x\<close>.\<close>

definition readsBack :: "rat \<Rightarrow> int \<times> nat \<times> int \<Rightarrow> bool" where
  "readsBack x r = (case r of (s, k, n) \<Rightarrow>
     1 \<le> k \<and> 10 ^ (k - 1) \<le> s \<and> s < 10 ^ k \<and> round64 (of_int s * 10 powi (n - int k)) = Num x)"

lemma seventeen_digits:
  assumes "0 < x" "round64 x = Num x"
  defines "scale \<equiv> pow10 (decExponent x - 17)"
  shows "round64 (of_int \<lfloor>x / scale\<rfloor> * scale) = Num x \<or> round64 (of_int (\<lfloor>x / scale\<rfloor> + 1) * scale) = Num x"
proof -
  have s: "scale = 10 powi (decExponent x - 17)" "0 < scale" by (simp_all add: scale_def pow10_powi)
  have "scale / 2 = 10 powi (decExponent x - 1) * (10 powi (- 16) / 2)"
    using power_int_add [of "10 :: rat" "decExponent x - 1" "- 16"] by (simp add: s(1))
  also have "\<dots> \<le> x * (10 powi (- 16) / 2)"
    by (rule mult_right_mono) (simp_all add: decExponent_bounds assms(1))
  also have "\<dots> < x * 2 powi (- 54)"
    using assms(1) by (simp add: power_int_minus)
  finally have half: "scale / 2 < x * 2 powi (- 54)" .
  define f where "f = \<lfloor>x / scale\<rfloor>"
  have "of_int f \<le> x / scale" "x / scale < of_int f + 1" using floor_correct [of "x / scale"] by (simp_all add: f_def)
  then have "of_int f * scale \<le> x" "x < of_int (f + 1) * scale" "of_int (f + 1) * scale = of_int f * scale + scale"
    using s(2) by (simp_all add: field_simps)
  then have "\<bar>of_int f * scale - x\<bar> \<le> scale / 2 \<or> \<bar>of_int (f + 1) * scale - x\<bar> \<le> scale / 2" by linarith
  then have "\<bar>of_int f * scale - x\<bar> < x * 2 powi (- 54) \<or> \<bar>of_int (f + 1) * scale - x\<bar> < x * 2 powi (- 54)"
    using half by linarith
  then show ?thesis using round64_near [OF assms(1,2)] by (auto simp: f_def)
qed

lemma shortestDigits_readsBack:
  assumes "0 < x" "round64 x = Num x" "\<forall>k\<in>set ks. 1 \<le> k" "ks \<noteq> []" "last ks = 17"
  shows "readsBack x (shortestDigits x (decExponent x) ks)"
  using assms(3-5)
proof (induction ks)
  case (Cons k ks)
  define n where "n = decExponent x"
  define scale where "scale = pow10 (n - int k)"
  define lo where "lo = \<lfloor>x / scale\<rfloor>"
  obtain k' where k: "k = Suc k'" using Cons.prems(1) by (cases k) auto
  have lo: "10 ^ (k - 1) \<le> lo" "lo < 10 ^ k"
    using digits_floor [OF assms(1), of k'] by (simp_all only: lo_def scale_def n_def k diff_Suc_1)
  have found: "readsBack x (if s = 10 ^ k then (1, 1, n + 1) else (s, k, n))"
    if "s \<in> {lo, lo + 1}" "round64 (of_int s * scale) = Num x" for s
  proof (cases "s = 10 ^ k")
    case True
    have "(10 :: rat) ^ k * scale = 10 powi n"
      by (simp add: scale_def pow10_powi powi_shift)
    then show ?thesis using that(2) True by (simp add: readsBack_def)
  next
    case False
    then show ?thesis using that lo by (auto simp: readsBack_def k scale_def pow10_powi)
  qed
  define ok where "ok = (\<lambda>s. round64 (of_int s * scale) = Num x)"
  have step: "shortestDigits x n (k # ks) =
     (case (if ok lo \<and> (\<not> ok (lo + 1) \<or> x - of_int lo * scale \<le> of_int (lo + 1) * scale - x)
            then Some lo else if ok (lo + 1) then Some (lo + 1) else None) of
        None \<Rightarrow> shortestDigits x n ks
      | Some s \<Rightarrow> if s = 10 ^ k then (1, 1, n + 1) else (s, k, n))"
    by (simp only: shortestDigits.simps Let_def ok_def lo_def scale_def)
  show ?case
  proof (cases "ok lo \<or> ok (lo + 1)")
    case True
    then obtain s where "s \<in> {lo, lo + 1}" "ok s" "shortestDigits x n (k # ks) = (if s = 10 ^ k then (1, 1, n + 1) else (s, k, n))"
      unfolding step by (smt (verit) insertCI option.simps(5))
    then show ?thesis using found [of s] by (simp add: ok_def n_def)
  next
    case False
    then have "k \<noteq> 17" using seventeen_digits [OF assms(1,2)] by (auto simp: lo_def scale_def n_def ok_def)
    then have "ks \<noteq> []" "last ks = 17" using Cons.prems by (auto split: if_splits)
    then have "readsBack x (shortestDigits x n ks)" using Cons by (simp add: n_def)
    with False show ?thesis unfolding n_def [symmetric] step by simp
  qed
qed simp

end
