(* ===== verification/JsonText.thy ===== *)
theory JsonText
  imports NumberText JsonCanonical
begin

text \<open>
  \<open>JSON.parse\<close>: the JSON grammar over UTF-16 code units.  Numbers are read as the exact decimal and rounded
  once, a later property with the same name replaces the earlier one, and integer-like names are moved to the
  front as in every JavaScript object.  The recursion is bounded by the length of the text.
\<close>

section \<open>Numbers\<close>

definition readFraction :: "jstr \<Rightarrow> (jstr \<times> jstr) option" where
  "readFraction s =
     (case s of
        [] \<Rightarrow> Some ([], [])
      | c # r \<Rightarrow>
          if c \<noteq> 46 then Some ([], s)
          else if takeWhile isDigit r = [] then None else Some (takeWhile isDigit r, dropWhile isDigit r))"

definition readSign :: "jstr \<Rightarrow> bool \<times> jstr" where
  "readSign s = (case s of [] \<Rightarrow> (False, []) | c # r \<Rightarrow> if c = 45 then (True, r) else if c = 43 then (False, r) else (False, s))"

definition readExponent :: "jstr \<Rightarrow> (int \<times> jstr) option" where
  "readExponent s =
     (case s of
        [] \<Rightarrow> Some (0, [])
      | c # r \<Rightarrow>
          if c \<noteq> 101 \<and> c \<noteq> 69 then Some (0, s)
          else case readSign r of (neg, t) \<Rightarrow>
            if takeWhile isDigit t = [] then None
            else Some (if neg then - int (digitsValue (takeWhile isDigit t)) else int (digitsValue (takeWhile isDigit t)),
                       dropWhile isDigit t))"

definition readUnsigned :: "jstr \<Rightarrow> (rat \<times> jstr) option" where
  "readUnsigned s =
     (let ds = takeWhile isDigit s
      in if ds = [] \<or> (hd ds = 48 \<and> length ds \<noteq> 1) then None
         else case readFraction (dropWhile isDigit s) of
                None \<Rightarrow> None
              | Some (fs, t) \<Rightarrow>
                  (case readExponent t of
                     None \<Rightarrow> None
                   | Some (e, r) \<Rightarrow> Some (of_nat (digitsValue (ds @ fs)) * pow10 (e - int (length fs)), r)))"

definition readNumber :: "jstr \<Rightarrow> (jsnum \<times> jstr) option" where
  "readNumber s =
     (case s of
        [] \<Rightarrow> None
      | c # r \<Rightarrow>
          if c = 45 then map_option (\<lambda>(x, t). (round64 (- x), t)) (readUnsigned r)
          else map_option (\<lambda>(x, t). (round64 x, t)) (readUnsigned s))"

section \<open>Strings\<close>

definition hexValue :: "16 word \<Rightarrow> nat option" where
  "hexValue c =
     (if isDigit c then Some (unat c - 48)
      else if 97 \<le> c \<and> c \<le> 102 then Some (unat c - 87)
      else if 65 \<le> c \<and> c \<le> 70 then Some (unat c - 55)
      else None)"

definition hex4Value :: "16 word \<Rightarrow> 16 word \<Rightarrow> 16 word \<Rightarrow> 16 word \<Rightarrow> 16 word option" where
  "hex4Value a b c d =
     (case (hexValue a, hexValue b, hexValue c, hexValue d) of
        (Some i, Some j, Some k, Some l) \<Rightarrow> Some (word_of_nat (4096 * i + 256 * j + 16 * k + l))
      | _ \<Rightarrow> None)"

definition escapeValue :: "16 word \<Rightarrow> 16 word option" where
  "escapeValue e =
     (if e = 34 \<or> e = 92 \<or> e = 47 then Some e
      else if e = 98 then Some 8 else if e = 102 then Some 12 else if e = 110 then Some 10
      else if e = 114 then Some 13 else if e = 116 then Some 9 else None)"

text \<open>The rest of a string after its opening quote.\<close>

fun readUnits :: "jstr \<Rightarrow> (jstr \<times> jstr) option" where
  "readUnits [] = None"
| "readUnits (c # cs) =
     (if c = 34 then Some ([], cs)
      else if c = 92 then
        (case cs of
           [] \<Rightarrow> None
         | e # ds \<Rightarrow>
             if e = 117 then
               (case ds of
                  h1 # h2 # h3 # h4 # es \<Rightarrow>
                    (case hex4Value h1 h2 h3 h4 of
                       None \<Rightarrow> None
                     | Some u \<Rightarrow> map_option (apfst (Cons u)) (readUnits es))
                | _ \<Rightarrow> None)
             else (case escapeValue e of None \<Rightarrow> None | Some u \<Rightarrow> map_option (apfst (Cons u)) (readUnits ds)))
      else if c < 32 then None
      else map_option (apfst (Cons c)) (readUnits cs))"

section \<open>Values\<close>

definition isSpace :: "16 word \<Rightarrow> bool" where
  "isSpace c \<longleftrightarrow> c = 32 \<or> c = 9 \<or> c = 10 \<or> c = 13"

abbreviation skipSpace :: "jstr \<Rightarrow> jstr" where
  "skipSpace s \<equiv> dropWhile isSpace s"

definition startsWith :: "16 word \<Rightarrow> jstr \<Rightarrow> jstr option" where
  "startsWith c s = (case skipSpace s of [] \<Rightarrow> None | d # r \<Rightarrow> if d = c then Some r else None)"

fun readValue :: "nat \<Rightarrow> jstr \<Rightarrow> (json \<times> jstr) option"
  and readItems :: "nat \<Rightarrow> jstr \<Rightarrow> (json list \<times> jstr) option"
  and readMembers :: "nat \<Rightarrow> jstr \<Rightarrow> ((jstr \<times> json) list \<times> jstr) option"
where
  "readValue 0 s = None"
| "readValue (Suc n) s =
     (case skipSpace s of
        [] \<Rightarrow> None
      | c # cs \<Rightarrow>
          if c = 34 then map_option (apfst JStr) (readUnits cs)
          else if c = 91 then
            (case startsWith 93 cs of
               Some r \<Rightarrow> Some (JArr [], r)
             | None \<Rightarrow> map_option (apfst JArr) (readItems n cs))
          else if c = 123 then
            (case startsWith 125 cs of
               Some r \<Rightarrow> Some (JObj [], r)
             | None \<Rightarrow> map_option (apfst (\<lambda>ps. JObj (objOf ps))) (readMembers n cs))
          else if isPrefix (js ''true'') (c # cs) then Some (JBool True, drop 4 (c # cs))
          else if isPrefix (js ''false'') (c # cs) then Some (JBool False, drop 5 (c # cs))
          else if isPrefix (js ''null'') (c # cs) then Some (JNull, drop 4 (c # cs))
          else map_option (apfst JNum) (readNumber (c # cs)))"
| "readItems 0 s = None"
| "readItems (Suc n) s =
     (case readValue n s of
        None \<Rightarrow> None
      | Some (v, r) \<Rightarrow>
          (case startsWith 93 r of
             Some t \<Rightarrow> Some ([v], t)
           | None \<Rightarrow>
               (case startsWith 44 r of
                  None \<Rightarrow> None
                | Some t \<Rightarrow> map_option (apfst (Cons v)) (readItems n t))))"
| "readMembers 0 s = None"
| "readMembers (Suc n) s =
     (case startsWith 34 s of
        None \<Rightarrow> None
      | Some r \<Rightarrow>
          (case readUnits r of
             None \<Rightarrow> None
           | Some (k, r) \<Rightarrow>
               (case startsWith 58 r of
                  None \<Rightarrow> None
                | Some r \<Rightarrow>
                    (case readValue n r of
                       None \<Rightarrow> None
                     | Some (v, r) \<Rightarrow>
                         (case startsWith 125 r of
                            Some t \<Rightarrow> Some ([(k, v)], t)
                          | None \<Rightarrow>
                              (case startsWith 44 r of
                                 None \<Rightarrow> None
                               | Some t \<Rightarrow> map_option (apfst (Cons (k, v))) (readMembers n t)))))))"

definition jsonParse :: "jstr \<Rightarrow> json option" where
  "jsonParse s =
     (case readValue (2 * length s + 1) s of
        None \<Rightarrow> None
      | Some (v, r) \<Rightarrow> if skipSpace r = [] then Some v else None)"

section \<open>Reading numbers back\<close>

lemma digitsValue_append: "digitsValue (s @ t) = digitsValue s * 10 ^ length t + digitsValue t"
proof (induction t rule: rev_induct)
  case Nil
  show ?case by (simp add: digitsValue_def)
next
  case (snoc c t)
  then show ?case by (simp only: append_assoc [symmetric] digitsValue_snoc) (simp add: algebra_simps)
qed

lemma digitsValue_zeros [simp]: "digitsValue (replicate n 48) = 0"
  by (induction n) (simp_all add: digitsValue_def)

definition digitUnit :: "nat \<Rightarrow> 16 word" where
  "digitUnit d = word_of_nat (48 + d)"

lemma of_char_digit:
  assumes "d < 10"
  shows "(of_char (char_of (48 + d)) :: 16 word) = digitUnit d"
proof -
  have "(of_char (char_of (48 + d) :: char) :: nat) = 48 + d" using assms by simp
  then show ?thesis unfolding digitUnit_def by (metis of_nat_of_char)
qed

lemma unat_digit: "d < 10 \<Longrightarrow> unat (digitUnit d) = 48 + d"
  by (simp add: digitUnit_def unsigned_of_nat take_bit_nat_eq_self del: of_nat_add)

lemma isDigit_unat: "isDigit c \<longleftrightarrow> 48 \<le> unat c \<and> unat c \<le> 57"
  by (simp add: isDigit_def word_le_nat_alt)

lemma isDigit_digitUnit: "d < 10 \<Longrightarrow> isDigit (digitUnit d)"
  by (simp add: isDigit_unat unat_digit)

text \<open>The decimal numeral of a number: digits only, no leading zero, and the value is the number.\<close>

lemma natString_step: "10 \<le> n \<Longrightarrow> natString n = natString (n div 10) @ [digitUnit (n mod 10)]"
  by (simp add: natString_def decNat.simps [of n] js_def of_char_digit)

lemma natString_digit: "n < 10 \<Longrightarrow> natString n = [digitUnit n]"
  by (simp add: natString_def decNat.simps [of n] js_def of_char_digit)

lemma natString_digits: "list_all isDigit (natString n) \<and> digitsValue (natString n) = n \<and> natString n \<noteq> []"
proof (induction n rule: less_induct)
  case (less n)
  show ?case
  proof (cases "n < 10")
    case True
    then show ?thesis by (simp add: natString_digit isDigit_digitUnit unat_digit digitsValue_single)
  next
    case False
    then have "n div 10 < n" by simp
    with less have "list_all isDigit (natString (n div 10))" "digitsValue (natString (n div 10)) = n div 10" by blast+
    with False show ?thesis
      by (simp add: natString_step isDigit_digitUnit unat_digit digitsValue_append digitsValue_single)
  qed
qed

lemma natString_value [simp]: "digitsValue (natString n) = n"
  and natString_all: "list_all isDigit (natString n)"
  and natString_nonempty [simp]: "natString n \<noteq> []"
  using natString_digits by blast+

lemma natString_head: "0 < n \<Longrightarrow> hd (natString n) \<noteq> 48"
proof (induction n rule: less_induct)
  case (less n)
  show ?case
  proof (cases "n < 10")
    case True
    then have "unat (hd (natString n)) = 48 + n" by (simp add: natString_digit unat_digit)
    then show ?thesis using less.prems by auto
  next
    case False
    then have "n div 10 < n" "0 < n div 10" by auto
    with less False show ?thesis by (simp add: natString_step)
  qed
qed

lemma natString_length: "10 ^ k \<le> n \<Longrightarrow> n < 10 ^ Suc k \<Longrightarrow> length (natString n) = Suc k"
proof (induction k arbitrary: n)
  case 0
  then show ?case by (simp add: natString_digit)
next
  case (Suc k)
  have "(10 :: nat) ^ k \<le> n div 10" "n div 10 < 10 ^ Suc k" using Suc.prems by (simp_all add: less_mult_imp_div_less less_eq_div_iff_mult_less_eq)
  moreover have "10 \<le> n" using Suc.prems(1) one_le_power [of "10 :: nat" k] by (simp add: order_trans [rotated])
  ultimately show ?case using Suc.IH by (simp add: natString_step)
qed

lemma dropWhile_all: "list_all P xs \<Longrightarrow> ys = [] \<or> \<not> P (hd ys) \<Longrightarrow> takeWhile P (xs @ ys) = xs \<and> dropWhile P (xs @ ys) = ys"
  by (cases ys) (auto simp: list_all_iff takeWhile_append dropWhile_append)

text \<open>A text after which a number has ended.\<close>

definition numberEnd :: "jstr \<Rightarrow> bool" where
  "numberEnd r \<longleftrightarrow> r = [] \<or> (\<not> isDigit (hd r) \<and> hd r \<notin> {46, 101, 69})"

lemma numberEnd_parts:
  assumes "numberEnd r"
  shows "r = [] \<or> \<not> isDigit (hd r)" "readFraction r = Some ([], r)" "readExponent r = Some (0, r)"
  using assms by (cases r; auto simp: numberEnd_def readFraction_def readExponent_def)+

lemma readFraction_digits:
  assumes "list_all isDigit fs" "fs \<noteq> []" "t = [] \<or> \<not> isDigit (hd t)"
  shows "readFraction (46 # fs @ t) = Some (fs, t)"
  using dropWhile_all [OF assms(1,3)] assms(2) by (simp add: readFraction_def)

lemma readUnsigned_parts:
  assumes "list_all isDigit ds" "ds \<noteq> []" "hd ds = 48 \<longrightarrow> length ds = 1" "t = [] \<or> \<not> isDigit (hd t)"
    "readFraction t = Some (fs, t')" "readExponent t' = Some (e, r)"
  shows "readUnsigned (ds @ t) = Some (of_nat (digitsValue (ds @ fs)) * pow10 (e - int (length fs)), r)"
  using dropWhile_all [OF assms(1,4)] assms(2,3,5,6) by (simp add: readUnsigned_def Let_def)

lemma js_zeros [simp]: "js (replicate n CHR ''0'') = replicate n 48"
  by (simp add: js_def)

lemma js_take: "js (take n s) = take n (js s)" and js_drop: "js (drop n s) = drop n (js s)"
  by (simp_all add: js_def take_map drop_map)

lemma js_singles: "js ''.'' = [46]" "js ''e'' = [101]" "js ''+'' = [43]" "js ''-'' = [45]" "js ''0.'' = [48, 46]" "js ''0'' = [48]"
  by (simp_all add: js_def)

lemma not_digits: "\<not> isDigit 46" "\<not> isDigit 101" "\<not> isDigit 43" "\<not> isDigit 45" "isDigit 48"
  by (simp_all add: isDigit_def)

lemma readExponent_text:
  assumes "numberEnd r"
  shows "readExponent (101 # (if 0 \<le> m then 43 else 45) # natString (nat \<bar>m\<bar>) @ r) = Some (m, r)"
  using dropWhile_all [OF natString_all numberEnd_parts(1) [OF assms], of "nat \<bar>m\<bar>"]
  by (cases "0 \<le> m") (simp_all add: readExponent_def readSign_def)

lemma readUnsigned_layout:
  assumes s: "1 \<le> k" "10 ^ (k - 1) \<le> s" "s < 10 ^ k" and r: "numberEnd r"
  shows "readUnsigned (js (layoutDigits (decNat (nat s)) k n) @ r) = Some (of_int s * 10 powi (n - int k), r)"
proof -
  define ds where "ds = js (decNat (nat s))"
  obtain k' where k: "k = Suc k'" using s(1) by (cases k) auto
  have pos: "0 < s" using s(2) by (metis less_le_trans zero_less_numeral zero_less_power)
  have "10 ^ k' \<le> nat s" "nat s < 10 ^ Suc k'"
    using s pos by (simp_all add: k nat_less_iff le_nat_iff)
  then have len: "length ds = k" using natString_length by (simp add: ds_def natString_def k)
  have ds: "list_all isDigit ds" "ds \<noteq> []" "hd ds \<noteq> 48" "digitsValue ds = nat s"
    using natString_all natString_nonempty natString_head natString_value pos by (simp_all add: ds_def flip: natString_def)
  note ended = numberEnd_parts [OF r]
  have val: "(of_nat (nat s) :: rat) = of_int s" using pos by simp
  show ?thesis
  proof (cases "int k \<le> n \<and> n \<le> 21")
    case True
    have "readUnsigned ((ds @ replicate (nat (n - int k)) 48) @ r)
        = Some (of_nat (digitsValue ((ds @ replicate (nat (n - int k)) 48) @ [])) * pow10 (0 - int (length ([] :: jstr))), r)"
      by (rule readUnsigned_parts [OF _ _ _ ended(1,2,3)]) (use ds in \<open>auto simp: list_all_iff not_digits\<close>)
    then show ?thesis
      using True by (simp add: layoutDigits_def ds_def [symmetric] digitsValue_append ds val pow10_def power_int_def)
  next
    case c1: False
    show ?thesis
    proof (cases "0 < n \<and> n \<le> 21")
      case True
      then have n: "0 < nat n" "nat n < k" using c1 by auto
      have "readUnsigned (take (nat n) ds @ 46 # drop (nat n) ds @ r)
          = Some (of_nat (digitsValue (take (nat n) ds @ drop (nat n) ds)) * pow10 (0 - int (length (drop (nat n) ds))), r)"
      proof (rule readUnsigned_parts [OF _ _ _ _ readFraction_digits ended(3)])
        show "list_all isDigit (take (nat n) ds)" "list_all isDigit (drop (nat n) ds)"
          using ds(1) by (auto simp: list_all_iff dest: in_set_takeD in_set_dropD)
      qed (use n ds len ended(1) in \<open>auto simp: not_digits\<close>)
      then show ?thesis
        using True c1 len n by (simp add: layoutDigits_def js_take js_drop js_Cons ds_def [symmetric] ds val pow10_powi of_nat_diff)
    next
      case c2: False
      show ?thesis
      proof (cases "- 6 < n \<and> n \<le> 0")
        case True
        have "readUnsigned ([48] @ 46 # (replicate (nat (- n)) 48 @ ds) @ r)
            = Some (of_nat (digitsValue ([48] @ replicate (nat (- n)) 48 @ ds)) * pow10 (0 - int (length (replicate (nat (- n)) (48 :: 16 word) @ ds))), r)"
          by (rule readUnsigned_parts [OF _ _ _ _ readFraction_digits ended(3)])
            (use ds ended(1) in \<open>auto simp: list_all_iff not_digits\<close>)
        moreover have "digitsValue ([48] @ replicate (nat (- n)) 48 @ ds) = nat s"
          by (simp only: digitsValue_append digitsValue_zeros ds(4)) (simp add: digitsValue_single)
        ultimately show ?thesis
          using True c1 c2 len by (simp add: layoutDigits_def js_Cons ds_def [symmetric] val pow10_powi)
      next
        case c3: False
        define ex where "ex = 101 # (if 0 \<le> n - 1 then 43 else 45) # natString (nat \<bar>n - 1\<bar>) @ r"
        have ex: "readExponent ex = Some (n - 1, r)" "ex \<noteq> []" "hd ex = 101"
          using readExponent_text [OF r, of "n - 1"] by (simp_all add: ex_def)
        have layout: "js (layoutDigits (decNat (nat s)) k n) @ r = take 1 ds @ (if k = 1 then [] else 46 # drop 1 ds) @ ex"
          using c1 c2 c3
          by (auto simp: layoutDigits_def js_take js_drop js_Cons ds_def natString_def ex_def)
        have fs: "readFraction ((if k = 1 then [] else 46 # drop 1 ds) @ ex) = Some (drop 1 ds, ex)"
        proof (cases "k = 1")
          case True
          then show ?thesis using ex len by (cases ex) (auto simp: readFraction_def)
        next
          case False
          then show ?thesis
            using readFraction_digits [of "drop 1 ds" ex] ds(1) ex len s(1)
            by (auto simp: list_all_iff not_digits dest: in_set_dropD)
        qed
        have "readUnsigned (take 1 ds @ (if k = 1 then [] else 46 # drop 1 ds) @ ex)
            = Some (of_nat (digitsValue (take 1 ds @ drop 1 ds)) * pow10 (n - 1 - int (length (drop 1 ds))), r)"
          by (rule readUnsigned_parts [OF _ _ _ _ fs ex(1)])
            (use ds ex in \<open>auto simp: list_all_iff not_digits dest: in_set_takeD\<close>)
        then show ?thesis unfolding layout using len s(1) ds(4) by (simp add: val pow10_powi of_nat_diff)
      qed
    qed
  qed
qed

text \<open>A double is a rational that rounding keeps; every printed double is read back.\<close>

definition isDouble :: "jsnum \<Rightarrow> bool" where
  "isDouble n \<longleftrightarrow> (case n of Num x \<Rightarrow> round64 x = Num x | _ \<Rightarrow> False)"

lemma readUnsigned_pos:
  assumes "0 < x" "round64 x = Num x" "numberEnd r"
  shows "\<exists>y. readUnsigned (js (posNumString x) @ r) = Some (y, r) \<and> round64 y = Num x"
proof -
  have "[1..<18] = [1..<17] @ [17 :: nat]" by (simp add: upt_rec)
  then have "readsBack x (shortestDigits x (decExponent x) [1..<18])"
    using shortestDigits_readsBack [OF assms(1,2), of "[1..<18]"] by simp
  then obtain s k n where r: "shortestDigits x (decExponent x) [1..<18] = (s, k, n)" "1 \<le> k" "10 ^ (k - 1) \<le> s" "s < 10 ^ k"
    "round64 (of_int s * 10 powi (n - int k)) = Num x"
    by (cases "shortestDigits x (decExponent x) [1..<18]") (auto simp: readsBack_def)
  then show ?thesis
    using readUnsigned_layout [OF r(2,3,4) assms(3), of n] by (simp add: posNumString_def r(1))
qed

lemma readUnsigned_head: "readUnsigned s \<noteq> None \<Longrightarrow> s \<noteq> [] \<and> isDigit (hd s)"
  by (cases s) (auto simp: readUnsigned_def Let_def split: if_splits)

lemma readNumber_unsigned: "readUnsigned s \<noteq> None \<Longrightarrow> readNumber s = map_option (\<lambda>(x, t). (round64 x, t)) (readUnsigned s)"
  using readUnsigned_head [of s] by (cases s) (auto simp: readNumber_def not_digits)

lemma readNumber_numString:
  assumes "isDouble n" "numberEnd r"
  shows "readNumber (numString n @ r) = Some (n, r)" "hd (numString n) = 45 \<or> isDigit (hd (numString n))" "numString n \<noteq> []"
proof -
  obtain x where x: "n = Num x" "round64 x = Num x" using assms(1) by (auto simp: isDouble_def split: jsnum.splits)
  have "readNumber (numString n @ r) = Some (n, r) \<and> (hd (numString n) = 45 \<or> isDigit (hd (numString n))) \<and> numString n \<noteq> []"
  proof (cases "x = 0")
    case True
    have "readUnsigned ([48] @ r) = Some (of_nat (digitsValue ([48] @ [])) * pow10 (0 - int (length ([] :: jstr))), r)"
      by (rule readUnsigned_parts [OF _ _ _ numberEnd_parts [OF assms(2)]]) (simp_all add: not_digits)
    then have "readUnsigned (48 # r) = Some (0, r)" by (simp add: digitsValue_single)
    then show ?thesis
      using True x by (simp add: numString_def js_singles readNumber_unsigned not_digits)
  next
    case nz: False
    show ?thesis
    proof (cases "0 < x")
      case True
      from readUnsigned_pos [OF True x(2) assms(2)] obtain y where
        y: "readUnsigned (js (posNumString x) @ r) = Some (y, r)" "round64 y = Num x" by blast
      from readUnsigned_pos [OF True x(2), of "[]"] obtain z where
        "readUnsigned (js (posNumString x)) = Some (z, [])" by (auto simp: numberEnd_def)
      then have "js (posNumString x) \<noteq> []" "isDigit (hd (js (posNumString x)))"
        using readUnsigned_head [of "js (posNumString x)"] by auto
      then show ?thesis using True x y by (simp add: numString_def readNumber_unsigned)
    next
      case False
      then have "0 < - x" "round64 (- x) = Num (- x)" using nz x(2) by (auto simp: round64_minus)
      from readUnsigned_pos [OF this assms(2)] obtain y where
        y: "readUnsigned (js (posNumString (- x)) @ r) = Some (y, r)" "round64 y = Num (- x)" by blast
      then show ?thesis
        using False nz x by (simp add: numString_def js_Cons readNumber_def round64_minus)
    qed
  qed
  then show "readNumber (numString n @ r) = Some (n, r)" "hd (numString n) = 45 \<or> isDigit (hd (numString n))" "numString n \<noteq> []"
    by blast+
qed

section \<open>Reading strings back\<close>

lemma hexValue_all: "list_all (\<lambda>d. hexValue (hexDigit d) = Some d) [0..<16]"
  by code_simp

lemma hexValue_hexDigit: "d < 16 \<Longrightarrow> hexValue (hexDigit d) = Some d"
  using hexValue_all by (simp add: list_all_iff)

lemma hexDigits_sum:
  fixes n :: nat
  assumes "n < 65536"
  shows "4096 * (n div 4096 mod 16) + 256 * (n div 256 mod 16) + 16 * (n div 16 mod 16) + n mod 16 = n"
proof -
  have d: "n div 256 = n div 16 div 16" "n div 4096 = n div 16 div 16 div 16" by (simp_all flip: div_mult2_eq)
  have s: "16 * (m div 16) + m mod 16 = m" for m :: nat by simp
  have "n div 4096 < 16" using assms by (simp add: less_mult_imp_div_less)
  then have "n div 4096 mod 16 = n div 16 div 16 div 16" using d by simp
  then show ?thesis using s [of n] s [of "n div 16"] s [of "n div 16 div 16"] unfolding d by linarith
qed

lemma hex4_parts: "hex4 (unat u) = [a, b, c, d] \<Longrightarrow> hex4Value a b c d = Some u"
proof -
  assume h: "hex4 (unat u) = [a, b, c, d]"
  have "unat u < 65536" using unsigned_less [of u] by simp
  from hexDigits_sum [OF this]
  have "word_of_nat (4096 * (unat u div 4096 mod 16) + 256 * (unat u div 256 mod 16) + 16 * (unat u div 16 mod 16) + unat u mod 16) = u"
    by (simp only:) simp
  then show ?thesis using h by (auto simp: hex4_def hex4Value_def hexValue_hexDigit simp del: of_nat_add of_nat_mult)
qed

lemma readUnits_hex: "readUnits ([92, 117] @ hex4 (unat u) @ r) = map_option (apfst (Cons u)) (readUnits r)"
proof -
  obtain a b c d where h: "hex4 (unat u) = [a, b, c, d]" by (simp add: hex4_def)
  then show ?thesis using hex4_parts [OF h] by simp
qed

lemma readUnits_escape:
  "readUnits (escapeUnit c @ r) = map_option (apfst (Cons c)) (readUnits r)"
proof (cases "c = 8 \<or> c = 9 \<or> c = 10 \<or> c = 12 \<or> c = 13 \<or> c = 34 \<or> c = 92")
  case True
  then show ?thesis by (auto simp: escapeUnit_def escapeValue_def)
next
  case False
  then show ?thesis using readUnits_hex [of c r] by (auto simp: escapeUnit_def)
qed

lemma readUnits_plain: "\<not> c < 32 \<Longrightarrow> c \<noteq> 34 \<Longrightarrow> c \<noteq> 92 \<Longrightarrow> readUnits (c # r) = map_option (apfst (Cons c)) (readUnits r)"
  by simp

lemma surrogate_plain: "isHighSurrogate c \<or> isLowSurrogate c \<Longrightarrow> \<not> c < 32 \<and> c \<noteq> 34 \<and> c \<noteq> 92"
  by (auto simp: isHighSurrogate_def isLowSurrogate_def word_less_nat_alt word_le_nat_alt)

lemma readUnits_quoteUnits: "readUnits (quoteUnits s @ 34 # r) = Some (s, r)"
proof (induction s rule: quoteUnits.induct)
  case (2 c)
  then show ?case using readUnits_escape [of c "34 # r"] readUnits_hex [of c "34 # r"] by simp
next
  case (3 c d cs)
  show ?case
  proof (cases "isHighSurrogate c \<and> isLowSurrogate d")
    case True
    then show ?thesis using 3(1) surrogate_plain [of c] surrogate_plain [of d]
      by (simp del: readUnits.simps add: readUnits_plain)
  next
    case False
    then show ?thesis
      using 3(2,3) readUnits_escape [of c "quoteUnits (d # cs) @ 34 # r"] readUnits_hex [of c "quoteUnits (d # cs) @ 34 # r"]
      by (auto simp del: readUnits.simps)
  qed
qed simp

section \<open>Reading values back\<close>

primrec jsonDoubles :: "json \<Rightarrow> bool" where
  "jsonDoubles JNull = True"
| "jsonDoubles (JBool b) = True"
| "jsonDoubles (JNum n) = isDouble n"
| "jsonDoubles (JStr s) = True"
| "jsonDoubles (JArr vs) = list_all id (map jsonDoubles vs)"
| "jsonDoubles (JObj ps) = list_all snd (map (map_prod id jsonDoubles) ps)"

lemma startsWith_eq: "startsWith c (c # r) = (if isSpace c then startsWith c r else Some r)"
  by (simp add: startsWith_def)

lemma startsWith_other: "\<not> isSpace d \<Longrightarrow> d \<noteq> c \<Longrightarrow> startsWith c (d # r) = None"
  by (simp add: startsWith_def)

lemma numberEnd_separators: "numberEnd (44 # r)" "numberEnd (93 # r)" "numberEnd (125 # r)" "numberEnd []"
  by (simp_all add: numberEnd_def isDigit_def)

text \<open>What a printed value begins with.\<close>

definition valueHead :: "16 word \<Rightarrow> bool" where
  "valueHead c \<longleftrightarrow> c \<in> {34, 91, 123, 116, 102, 110, 45} \<or> isDigit c"

lemma valueHead_not: "valueHead c \<Longrightarrow> \<not> isSpace c \<and> c \<noteq> 93 \<and> c \<noteq> 125"
  by (auto simp: valueHead_def isSpace_def isDigit_def)

lemma jsonText_head:
  assumes "jsonDoubles v"
  shows "\<exists>c cs. jsonText v = c # cs \<and> valueHead c"
proof (cases v)
  case (JNum n)
  then have n: "isDouble n" using assms by simp
  then have "isFinite n" by (auto simp: isDouble_def split: jsnum.splits)
  then show ?thesis
    using JNum readNumber_numString(2,3) [OF n numberEnd_separators(4)]
    by (cases "numString n") (auto simp: valueHead_def)
qed (auto simp: js_def quoteString_def valueHead_def)

text \<open>The fuel a printed value needs.\<close>

definition readsAs :: "(nat \<Rightarrow> jstr \<Rightarrow> ('a \<times> jstr) option) \<Rightarrow> jstr \<Rightarrow> 'a \<Rightarrow> jstr \<Rightarrow> bool" where
  "readsAs read t a r \<longleftrightarrow> (\<forall>n. 2 * length t < n \<longrightarrow> read n (t @ r) = Some (a, r))"

lemma readItems_texts:
  assumes "\<And>v r. v \<in> set vs \<Longrightarrow> numberEnd r \<Longrightarrow> readsAs readValue (jsonText v) v r" and "vs \<noteq> []"
    and "2 * length (joinWith (js '','') (map jsonText vs)) + 1 < n"
  shows "readItems n (joinWith (js '','') (map jsonText vs) @ 93 # r) = Some (vs, r)"
  using assms
proof (induction vs arbitrary: n)
  case (Cons v vs)
  obtain m where n: "n = Suc m" using Cons.prems(3) by (cases n) auto
  show ?case
  proof (cases vs)
    case Nil
    have "readValue m (jsonText v @ 93 # r) = Some (v, 93 # r)"
      using Cons.prems(1) [of v "93 # r"] Cons.prems(3) numberEnd_separators(2) by (simp add: readsAs_def Nil n)
    then show ?thesis by (simp add: Nil n startsWith_eq isSpace_def)
  next
    case (Cons w ws)
    define t where "t = joinWith (js '','') (map jsonText vs)"
    have text': "joinWith (js '','') (map jsonText (v # vs)) = jsonText v @ 44 # t" by (simp add: Cons t_def js_Cons)
    have len: "2 * length (jsonText v @ 44 # t) + 1 < n" using Cons.prems(3) unfolding text' .
    have "readValue m (jsonText v @ 44 # t @ 93 # r) = Some (v, 44 # t @ 93 # r)"
      using Cons.prems(1) [of v "44 # t @ 93 # r"] len numberEnd_separators(1) by (simp add: readsAs_def n)
    moreover have "readItems m (t @ 93 # r) = Some (vs, r)"
      unfolding t_def
    proof (rule Cons.IH)
      show "2 * length (joinWith (js '','') (map jsonText vs)) + 1 < m"
        using len by (simp add: n flip: t_def)
    qed (use Cons.prems(1) Cons in auto)
    ultimately show ?thesis
      unfolding text' by (simp add: n startsWith_eq startsWith_other isSpace_def)
  qed
qed simp

abbreviation memberText :: "jstr \<times> json \<Rightarrow> jstr" where
  "memberText p \<equiv> quoteString (fst p) @ js '':'' @ jsonText (snd p)"

lemma readMembers_texts:
  assumes "\<And>p r. p \<in> set ps \<Longrightarrow> numberEnd r \<Longrightarrow> readsAs readValue (jsonText (snd p)) (snd p) r" and "ps \<noteq> []"
    and "2 * length (joinWith (js '','') (map memberText ps)) + 1 < n"
  shows "readMembers n (joinWith (js '','') (map memberText ps) @ 125 # r) = Some (ps, r)"
  using assms
proof (induction ps arbitrary: n)
  case (Cons p ps)
  obtain m where n: "n = Suc m" using Cons.prems(3) by (cases n) auto
  obtain k v where p: "p = (k, v)" by (cases p)
  have member: "memberText p @ t = 34 # quoteUnits k @ 34 # 58 # jsonText v @ t" for t
    by (simp add: p quoteString_def js_Cons)
  have key: "readUnits (quoteUnits k @ 34 # t) = Some (k, t)" for t by (rule readUnits_quoteUnits)
  show ?case
  proof (cases ps)
    case Nil
    have "readValue m (jsonText v @ 125 # r) = Some (v, 125 # r)"
      using Cons.prems(1) [of p "125 # r"] Cons.prems(3) numberEnd_separators(3) by (simp add: readsAs_def Nil n p)
    then have "readMembers n (memberText p @ 125 # r) = Some ([(k, v)], r)"
      unfolding member by (simp add: n key startsWith_eq isSpace_def)
    then show ?thesis by (simp only: Nil list.map joinWith.simps p)
  next
    case (Cons q qs)
    define t where "t = joinWith (js '','') (map memberText ps)"
    have text': "joinWith (js '','') (map memberText (p # ps)) = memberText p @ 44 # t"
      by (simp add: Cons t_def js_Cons)
    have len: "2 * length (memberText p @ 44 # t) + 1 < n" using Cons.prems(3) unfolding text' .
    have "readValue m (jsonText v @ 44 # t @ 125 # r) = Some (v, 44 # t @ 125 # r)"
      using Cons.prems(1) [of p "44 # t @ 125 # r"] len numberEnd_separators(1) by (simp add: readsAs_def n p)
    moreover have "readMembers m (t @ 125 # r) = Some (ps, r)"
      unfolding t_def
    proof (rule Cons.IH)
      show "2 * length (joinWith (js '','') (map memberText ps)) + 1 < m"
        using len by (simp add: n flip: t_def)
    qed (use Cons.prems(1) Cons in auto)
    ultimately have "readMembers n (memberText p @ 44 # t @ 125 # r) = Some ((k, v) # ps, r)"
      unfolding member by (simp add: n key startsWith_eq startsWith_other isSpace_def)
    then show ?thesis unfolding text' by (simp add: p)
  qed
qed simp

lemma readValue_literal:
  assumes "0 < n"
  shows "readValue n (js ''null'' @ r) = Some (JNull, r)" "readValue n (js ''true'' @ r) = Some (JBool True, r)"
    "readValue n (js ''false'' @ r) = Some (JBool False, r)"
  using assms by (cases n; simp add: js_Cons isSpace_def)+

lemma readValue_jsonText:
  "jsonOrdered v \<Longrightarrow> jsonDoubles v \<Longrightarrow> numberEnd r \<Longrightarrow> readsAs readValue (jsonText v) v r"
proof (induction v arbitrary: r)
  case (JNum x)
  then have x: "isDouble x" "isFinite x" by (auto simp: isDouble_def split: jsnum.splits)
  obtain c cs where t: "numString x = c # cs" using readNumber_numString(3) [OF x(1) numberEnd_separators(4)] by (cases "numString x") auto
  have "c = 45 \<or> isDigit c" using readNumber_numString(2) [OF x(1) numberEnd_separators(4)] t by simp
  then have c: "\<not> isSpace c" "c \<notin> {34, 91, 123, 116, 102, 110}" by (auto simp: isSpace_def isDigit_def)
  have "readValue n (numString x @ r) = Some (JNum x, r)" if "0 < n" for n
    using that c readNumber_numString(1) [OF x(1) JNum.prems(3)] by (cases n) (simp_all add: t js_Cons)
  then show ?case using x by (simp add: readsAs_def)
next
  case (JStr s)
  have "readValue n (34 # quoteUnits s @ 34 # r) = Some (JStr s, r)" if "0 < n" for n
    using that readUnits_quoteUnits [of s r] by (cases n) (simp_all add: isSpace_def)
  then show ?case by (simp add: readsAs_def quoteString_def)
next
  case (JArr vs)
  have items: "readsAs readValue (jsonText v) v r" if "v \<in> set vs" "numberEnd r" for v r
    using JArr that by (auto simp: list_all_iff)
  define t where "t = joinWith (js '','') (map jsonText vs)"
  have text': "jsonText (JArr vs) @ r = 91 # t @ 93 # r" "length (jsonText (JArr vs)) = length t + 2"
    by (simp_all add: t_def js_Cons)
  have "readValue n (91 # t @ 93 # r) = Some (JArr vs, r)" if n: "2 * (length t + 2) < n" for n
  proof (cases n)
    case (Suc m)
    show ?thesis
    proof (cases vs)
      case Nil
      then show ?thesis using Suc by (simp add: t_def isSpace_def startsWith_eq)
    next
      case (Cons w ws)
      obtain c cs where c: "jsonText w = c # cs" "valueHead c" using jsonText_head [of w] JArr.prems(2) Cons by auto
      have "t = jsonText w @ (if ws = [] then [] else 44 # joinWith (js '','') (map jsonText ws))"
        by (cases ws) (simp_all add: t_def Cons js_Cons)
      then have "startsWith 93 (t @ 93 # r) = None" using c valueHead_not [of c] by (simp add: startsWith_other)
      moreover have "readItems m (t @ 93 # r) = Some (vs, r)"
        unfolding t_def by (rule readItems_texts [OF items]) (use n Suc Cons in \<open>auto simp: t_def\<close>)
      ultimately show ?thesis using Suc by (simp add: isSpace_def)
    qed
  qed (use n in simp)
  then show ?case unfolding readsAs_def text' by blast
next
  case (JObj ps)
  have members: "readsAs readValue (jsonText (snd p)) (snd p) r" if "p \<in> set ps" "numberEnd r" for p r
  proof (rule JObj.IH [OF that(1) _ _ _ that(2)])
    show "snd p \<in> Basic_BNFs.snds p" by (simp add: snds.simps prod_eq_iff)
    show "jsonOrdered (snd p)" "jsonDoubles (snd p)"
      using JObj.prems(1,2) that(1) by (simp_all add: list_all_iff)
  qed
  have ordered: "objOf ps = ps" using JObj.prems(1) by (simp add: objOf_ordered)
  define t where "t = joinWith (js '','') (map memberText ps)"
  have "map (\<lambda>(k, t). quoteString k @ js '':'' @ t) (map (map_prod id jsonText) ps) = map memberText ps" by auto
  then have "jsonText (JObj ps) = [123] @ t @ [125]"
    by (simp only: jsonText.simps t_def) (simp add: js_Cons)
  then have text': "jsonText (JObj ps) @ r = 123 # t @ 125 # r" "length (jsonText (JObj ps)) = length t + 2"
    by simp_all
  have "readValue n (123 # t @ 125 # r) = Some (JObj ps, r)" if n: "2 * (length t + 2) < n" for n
  proof (cases n)
    case (Suc m)
    show ?thesis
    proof (cases ps)
      case Nil
      then show ?thesis using Suc by (simp add: t_def isSpace_def startsWith_eq)
    next
      case (Cons q qs)
      have "\<exists>u. t = 34 # u"
        by (cases qs) (simp_all add: t_def Cons quoteString_def)
      then have "startsWith 125 (t @ 125 # r) = None" by (auto simp: startsWith_other isSpace_def)
      moreover have "readMembers m (t @ 125 # r) = Some (ps, r)"
        unfolding t_def by (rule readMembers_texts [OF members]) (use n Suc Cons in \<open>auto simp: t_def\<close>)
      ultimately show ?thesis using Suc by (simp add: isSpace_def ordered)
    qed
  qed (use n in simp)
  then show ?case unfolding readsAs_def text' by blast
qed (auto simp: readsAs_def readValue_literal)

text \<open>\<open>JSON.parse(JSON.stringify(v))\<close> is \<open>v\<close>.\<close>

lemma jsonParse_jsonText:
  assumes "jsonOrdered v" "jsonDoubles v"
  shows "jsonParse (jsonText v) = Some v"
proof -
  have "readValue (2 * length (jsonText v) + 1) (jsonText v) = Some (v, [])"
    using readValue_jsonText [OF assms numberEnd_separators(4)] unfolding readsAs_def append_Nil2 by (meson less_add_one)
  then show ?thesis unfolding jsonParse_def by simp
qed

section \<open>The fuel suffices\<close>

lemma readUnits_shorter: "readUnits s = Some (u, r) \<Longrightarrow> length r < length s"
proof (induction s arbitrary: u r rule: readUnits.induct)
  case (2 c cs)
  then show ?case
    by (fastforce split: if_splits list.splits option.splits simp: apfst_def map_prod_def)
qed simp

lemma startsWith_shorter: "startsWith c s = Some r \<Longrightarrow> length r < length s"
  using length_dropWhile_le [of isSpace s] by (auto simp: startsWith_def split: list.splits if_splits)

lemma readFraction_shorter: "readFraction s = Some (fs, t) \<Longrightarrow> length t \<le> length s"
  by (cases s) (auto simp: readFraction_def le_SucI length_dropWhile_le split: if_splits)

lemma readUnsigned_shorter: "readUnsigned s = Some (x, r) \<Longrightarrow> length r < length s"
proof -
  assume h: "readUnsigned s = Some (x, r)"
  then obtain fs t e where p: "takeWhile isDigit s \<noteq> []" "readFraction (dropWhile isDigit s) = Some (fs, t)" "readExponent t = Some (e, r)"
    by (auto simp: readUnsigned_def Let_def split: if_splits option.splits)
  have "length s = length (takeWhile isDigit s) + length (dropWhile isDigit s)"
    by (metis length_append takeWhile_dropWhile_id)
  moreover have "length t \<le> length (dropWhile isDigit s)"
    using p(2) by (rule readFraction_shorter)
  moreover have "length r \<le> length t"
  proof (cases t)
    case (Cons c u)
    obtain neg w where sign: "readSign u = (neg, w)" by fastforce
    have "length w \<le> length u" using sign by (auto simp: readSign_def split: list.splits if_splits)
    then show ?thesis
      using p(3) Cons sign length_dropWhile_le [of isDigit w] by (auto simp: readExponent_def split: if_splits)
  qed (use p(3) in \<open>simp add: readExponent_def\<close>)
  ultimately show ?thesis using p(1) by (cases "takeWhile isDigit s") auto
qed

lemma readNumber_shorter: "readNumber s = Some (x, r) \<Longrightarrow> length r < length s"
  by (cases s) (auto simp: readNumber_def dest!: readUnsigned_shorter split: if_splits)

lemma read_shorter:
  "readValue n s = Some (v, r) \<Longrightarrow> length r < length s"
  "readItems n s = Some (vs, r) \<Longrightarrow> length r < length s"
  "readMembers n s = Some (ps, r) \<Longrightarrow> length r < length s"
proof (induction n s and n s and n s arbitrary: v r and vs r and ps r rule: readValue_readItems_readMembers.induct)
  case (2 n s)
  obtain c cs where s: "skipSpace s = c # cs" using 2(3) by (auto split: list.splits)
  have "length r < length (c # cs)"
    using 2 s by (auto split: if_splits option.splits simp: less_SucI
        dest!: readUnits_shorter startsWith_shorter readNumber_shorter)
  then show ?case using length_dropWhile_le [of isSpace s] s by simp
next
  case (4 n s)
  then show ?case
    by (fastforce split: option.splits dest: startsWith_shorter)
next
  case (6 n s)
  then show ?case
    by (fastforce split: option.splits dest: startsWith_shorter readUnits_shorter)
qed simp_all

text \<open>Fuel above twice the length of the text makes no difference, so \<open>jsonParse\<close> never stops early.\<close>

lemma read_fuel:
  "2 * length s < n \<Longrightarrow> 2 * length s < m \<Longrightarrow> readValue n s = readValue m s"
  "2 * length s + 1 < n \<Longrightarrow> 2 * length s + 1 < m \<Longrightarrow> readItems n s = readItems m s"
  "2 * length s + 1 < n \<Longrightarrow> 2 * length s + 1 < m \<Longrightarrow> readMembers n s = readMembers m s"
proof (induction n s and n s and n s arbitrary: m and m and m rule: readValue_readItems_readMembers.induct)
  case (2 n s)
  obtain m' where m: "m = Suc m'" using 2(4) by (cases m) auto
  show ?case
  proof (cases "skipSpace s")
    case (Cons c cs)
    have "length (c # cs) \<le> length s" using length_dropWhile_le [of isSpace s] Cons by simp
    then have len: "2 * length cs + 1 < n" "2 * length cs + 1 < m'" using 2(3,4) by (simp_all add: m)
    have "readItems n cs = readItems m' cs" if "c = 91" "startsWith 93 cs = None"
      by (rule 2(1) [OF Cons _ that len]) (simp add: that)
    moreover have "readMembers n cs = readMembers m' cs" if "c = 123" "startsWith 125 cs = None"
      by (rule 2(2) [OF Cons _ _ that len]) (simp_all add: that)
    ultimately show ?thesis by (simp add: Cons m split: option.splits)
  next
    case Nil
    then show ?thesis by (simp only: m readValue.simps list.case)
  qed
next
  case (4 n s)
  obtain m' where m: "m = Suc m'" using 4(4) by (cases m) auto
  have len: "2 * length s < n" "2 * length s < m'" using 4(3,4) by (simp_all add: m)
  have "readValue n s = readValue m' s" by (rule 4(1) [OF len])
  moreover have "readItems n t = readItems m' t" if "readValue n s = Some (v, r)" "startsWith 93 r = None" "startsWith 44 r = Some t" for v r t
    by (rule 4(2) [OF that(1) refl that(2,3)])
      (use len read_shorter(1) [OF that(1)] startsWith_shorter [OF that(3)] in linarith)+
  ultimately show ?case
    by (cases "readValue m' s"; cases "startsWith 93 (snd (the (readValue m' s)))";
        cases "startsWith 44 (snd (the (readValue m' s)))") (auto simp: m)
next
  case (6 n s)
  obtain m' where m: "m = Suc m'" using 6(4) by (cases m) auto
  have len: "2 * length s < n" "2 * length s < m'" using 6(3,4) by (simp_all add: m)
  have one: "readValue n r = readValue m' r"
    if "startsWith 34 s = Some r1" "readUnits r1 = Some (k, r2)" "startsWith 58 r2 = Some r" for r1 k r2 r
    by (rule 6(1) [OF that(1,2) refl that(3)])
      (use len startsWith_shorter [OF that(1)] readUnits_shorter [OF that(2)] startsWith_shorter [OF that(3)] in linarith)+
  have two: "readMembers n t = readMembers m' t"
    if "startsWith 34 s = Some r1" "readUnits r1 = Some (k, r2)" "startsWith 58 r2 = Some r3" "readValue n r3 = Some (v, r)"
      "startsWith 125 r = None" "startsWith 44 r = Some t" for r1 k r2 r3 v r t
    by (rule 6(2) [OF that(1,2) refl that(3,4) refl that(5,6)])
      (use len startsWith_shorter [OF that(1)] readUnits_shorter [OF that(2)] startsWith_shorter [OF that(3)]
        read_shorter(1) [OF that(4)] startsWith_shorter [OF that(6)] in linarith)+
  show ?case
  proof (cases "startsWith 34 s")
    case s1: (Some r1)
    show ?thesis
    proof (cases "readUnits r1")
      case (Some p)
      obtain k r2 where p: "p = (k, r2)" by (cases p)
      show ?thesis
      proof (cases "startsWith 58 r2")
        case s3: (Some r3)
        note value' = one [OF s1 Some [unfolded p] s3]
        show ?thesis
        proof (cases "readValue n r3")
          case None
          then show ?thesis using s1 Some p s3 value' by (simp only: m readMembers.simps option.case prod.case)
        next
          case s4: (Some q)
          obtain v r4 where q: "q = (v, r4)" by (cases q)
          note rest = two [OF s1 Some [unfolded p] s3 s4 [unfolded q]]
          have s5: "readValue n r3 = Some (v, r4)" "readValue m' r3 = Some (v, r4)" using s4 value' q by simp_all
          show ?thesis
            using rest
            by (cases "startsWith 125 r4"; cases "startsWith 44 r4")
              (simp_all add: m s1 Some [unfolded p] s3 s5 del: readValue.simps)
        qed
      qed (use s1 Some p in \<open>simp only: m readMembers.simps option.case prod.case\<close>)
    qed (use s1 in \<open>simp only: m readMembers.simps option.case\<close>)
  qed (simp only: m readMembers.simps option.case)
qed simp_all

end
