(* ===== verification/TextBytes.thy ===== *)
theory TextBytes
  imports CanonicalStream JsonText
begin

text \<open>
  Text as bytes: \<open>Buffer.from(text)\<close>, \<open>buffer.toString("utf8")\<close> and the fatal \<open>TextDecoder\<close>, and what a printed
  JSON value looks like in bytes: it decodes to itself and has no line feed, so lines of a file can be told apart.
\<close>

section \<open>Decoders\<close>

text \<open>\<open>buffer.toString("utf8")\<close>: malformed sequences become replacement characters, a byte order mark is kept.\<close>

definition bufferText :: "nat list \<Rightarrow> jstr" where
  "bufferText bs = map word_of_nat (concat (map utf16 (decodeUtf8 bs)))"

text \<open>
  \<open>new TextDecoder("utf-8", { fatal: true })\<close>: malformed input is an error, a leading byte order mark is dropped.
  A byte sequence is well formed when the code points read from it encode to it.
\<close>

definition fatalDecode :: "nat list \<Rightarrow> jstr option" where
  "fatalDecode bs = (if utf8s (decodeUtf8 bs) = bs then Some (decode bs) else None)"

section \<open>Text that survives\<close>

lemma unat_word_of_nat16: "u < 65536 \<Longrightarrow> unat (word_of_nat u :: 16 word) = u"
  by (simp add: unsigned_of_nat take_bit_nat_eq_self)

lemma surrogate_pair:
  assumes "isHigh u" "isLow v"
  shows "utf16 (0x10000 + (u - 0xD800) * 0x400 + (v - 0xDC00)) = [u, v]"
proof -
  define a b where "a = u - 0xD800" and "b = v - 0xDC00"
  have a: "u = 0xD800 + a" "a < 0x400" using assms(1) unfolding isHigh_def a_def by linarith+
  have b: "v = 0xDC00 + b" "b < 0x400" using assms(2) unfolding isLow_def b_def by linarith+
  show ?thesis using a(2) b(2) by (simp add: utf16_def a(1) b(1))
qed

lemma utf16_scalars: "paired s \<Longrightarrow> concat (map utf16 (scalars (map unat s))) = map unat s"
proof (induction s rule: paired.induct)
  case (2 c)
  have "unat c < 65536" using unsigned_less [of c] by simp
  with 2 show ?case by (simp add: surrogate_unat utf16_def)
next
  case (3 c d cs)
  have c: "utf16 (unat c) = [unat c]" using unsigned_less [of c] by (simp add: utf16_def)
  show ?case
  proof (cases "isHighSurrogate c \<and> isLowSurrogate d")
    case True
    then show ?thesis using 3 surrogate_pair [of "unat c" "unat d"] by (simp add: surrogate_unat)
  next
    case False
    then show ?thesis using 3 c by (auto simp: surrogate_unat)
  qed
qed simp

lemma decodeUtf8_encode: "decodeUtf8 (encode s) = codePoints s"
  unfolding encode_def by (rule decode_utf8s) (use codePoints_isScalar in blast)

lemma bufferText_encode: "paired s \<Longrightarrow> bufferText (encode s) = s"
  by (simp add: bufferText_def decodeUtf8_encode codePoints_def utf16_scalars comp_def)

lemma fatalDecode_encode:
  assumes "paired s" "s = [] \<or> hd s \<noteq> 0xFEFF"
  shows "fatalDecode (encode s) = Some s"
proof -
  have "stripBom (codePoints s) = codePoints s"
  proof (cases s rule: paired.cases)
    case (2 c)
    then show ?thesis using assms(2) by (auto simp: codePoints_def stripBom_def word_unat_eq_iff)
  next
    case (3 c d cs)
    then have "unat c \<noteq> 0xFEFF" using assms(2) by (simp add: word_unat_eq_iff)
    with 3 assms(1) show ?thesis by (auto simp: codePoints_def stripBom_def surrogate_unat)
  qed (simp add: codePoints_def stripBom_def)
  moreover have "utf8s (codePoints s) = encode s" by (simp add: encode_def)
  ultimately show ?thesis
    using bufferText_encode [OF assms(1)] by (simp add: fatalDecode_def decode_def bufferText_def decodeUtf8_encode)
qed

section \<open>Printed values\<close>

lemma paired_escape: "paired (quoteUnits s)"
proof -
  have "fragmentsOk (emitUnits s ([], [])) \<and> written (emitUnits s ([], [])) = quoteUnits s"
    using emitUnits_ok [of "([], [])" s] by (simp add: fragmentsOk_def)
  then show ?thesis
    using paired_append [OF paired_concat, of "fst (emitUnits s ([], []))" "snd (emitUnits s ([], []))"]
    by (auto simp: fragmentsOk_def list_all_iff)
qed

lemma paired_joinWith: "paired sep \<Longrightarrow> list_all paired ts \<Longrightarrow> paired (joinWith sep ts)"
  by (induction sep ts rule: joinWith.induct) (auto intro: paired_append)

lemma paired_quoteString: "paired (quoteString s)"
proof -
  have "paired [34]" by (rule paired_plain) (simp add: isHighSurrogate_def isLowSurrogate_def)
  then show ?thesis unfolding quoteString_def by (intro paired_append paired_escape)
qed

lemma paired_jsonText: "paired (jsonText v)"
proof (induction v)
  case (JNum n)
  then show ?case by (auto simp: numString_def paired_js)
next
  case (JArr vs)
  then show ?case by (auto intro!: paired_append paired_js paired_joinWith simp: list_all_iff)
next
  case (JObj ps)
  then show ?case
    by (fastforce intro!: paired_append paired_js paired_joinWith paired_quoteString simp: list_all_iff)
qed (auto simp: paired_js paired_quoteString)

text \<open>No control character is printed.\<close>

definition noControls :: "jstr \<Rightarrow> bool" where
  "noControls s \<longleftrightarrow> list_all (\<lambda>c. 32 \<le> unat c) s"

lemma noControls_append [simp]: "noControls (s @ t) \<longleftrightarrow> noControls s \<and> noControls t"
  by (auto simp: noControls_def)

lemma noControls_joinWith: "noControls sep \<Longrightarrow> list_all noControls ts \<Longrightarrow> noControls (joinWith sep ts)"
  by (induction sep ts rule: joinWith.induct) (auto simp: noControls_def)

lemma noControls_hex4: "noControls (hex4 n)"
proof -
  have "list_all (\<lambda>d. 32 \<le> unat (hexDigit d)) [0..<16]" by code_simp
  then have "32 \<le> unat (hexDigit d)" if "d < 16" for d using that by (simp add: list_all_iff)
  then show ?thesis by (simp add: noControls_def hex4_def)
qed

lemma noControls_quoteUnits: "noControls (quoteUnits s)"
proof -
  have hex: "noControls ([92, 117] @ hex4 n)" for n using noControls_hex4 by (simp add: noControls_def)
  have esc: "noControls (escapeUnit c)" for c using hex [of "unat c"] by (auto simp: escapeUnit_def noControls_def word_less_nat_alt)
  have sur: "32 \<le> unat c" if "isHighSurrogate c \<or> isLowSurrogate c" for c
    using surrogate_plain [OF that] by (simp add: word_less_nat_alt)
  show ?thesis
    by (induction s rule: quoteUnits.induct) (use hex esc sur in \<open>auto simp: noControls_def\<close>)
qed

lemma noControls_digits: "list_all isDigit s \<Longrightarrow> noControls s"
  by (auto simp: noControls_def isDigit_unat list_all_iff)

lemma noControls_layout: "noControls (js ds) \<Longrightarrow> noControls (js (layoutDigits ds k n))"
  using noControls_digits [OF natString_all [of "nat \<bar>n - 1\<bar>"]]
  by (auto simp: layoutDigits_def js_take js_drop js_Cons noControls_def natString_def list_all_iff
      dest: in_set_takeD in_set_dropD)

lemma noControls_numString: "noControls (numString n)"
proof -
  have "noControls (js (decNat m))" for m using noControls_digits [OF natString_all [of m]] by (simp add: natString_def)
  then have "noControls (js (posNumString x))" for x
    by (auto simp: posNumString_def noControls_layout split: prod.splits)
  then show ?thesis by (auto simp: numString_def noControls_def js_Cons split: jsnum.splits)
qed

lemma noControls_list: "(\<And>t. t \<in> set ts \<Longrightarrow> noControls t) \<Longrightarrow> noControls (joinWith (js '','') ts)"
  by (rule noControls_joinWith) (simp_all add: noControls_def list_all_iff js_Cons)

lemma noControls_quoteString: "noControls (quoteString k)"
  using noControls_quoteUnits [of k] by (simp add: quoteString_def) (simp add: noControls_def)

lemma noControls_marks:
  "noControls (js ''['')" "noControls (js '']'')" "noControls (js ''{'')" "noControls (js ''}'')" "noControls (js '':'')"
  "noControls (js ''null'')" "noControls (js ''true'')" "noControls (js ''false'')"
  by (simp_all add: noControls_def js_Cons)

lemma noControls_jsonText: "noControls (jsonText v)"
proof (induction v)
  case (JArr vs)
  then show ?case by (auto intro!: noControls_list simp: noControls_marks)
next
  case (JObj ps)
  then show ?case by (fastforce intro!: noControls_list simp: noControls_marks noControls_quoteString)
qed (simp_all add: noControls_numString noControls_quoteString noControls_marks)

end
