(* ===== verification/EventText.thy ===== *)
theory EventText
  imports JournalEvent TextBytes "HOL-Library.Multiset"
begin

text \<open>
  Journal events as text: an event object is written in canonical form, read back by \<open>JSON.parse\<close> and decoded
  again.  The decoder's checks look properties up by name, so the event read back passes them when the written
  one did; its value is the canonical form of what was written.
\<close>

section \<open>Decoding a parsed value\<close>

text \<open>
  The snapshot of \<open>journal-event.ts\<close> on a value that \<open>JSON.parse\<close> returned: the walk of \<open>snapshotValue\<close> over a
  tree, which has no accessors, holes or cycles.
\<close>

fun treeItems :: "(json \<Rightarrow> nat \<Rightarrow> (json \<times> nat) option) \<Rightarrow> json list \<Rightarrow> nat \<Rightarrow> (json list \<times> nat) option" where
  "treeItems w [] n = Some ([], n)"
| "treeItems w (v # vs) n =
     (case w v n of
        None \<Rightarrow> None
      | Some (j, n') \<Rightarrow> map_option (map_prod (\<lambda>xs. j # xs) id) (treeItems w vs n'))"

fun treeProps :: "(json \<Rightarrow> nat \<Rightarrow> (json \<times> nat) option) \<Rightarrow> props \<Rightarrow> nat \<Rightarrow> (props \<times> nat) option" where
  "treeProps w [] n = Some ([], n)"
| "treeProps w ((k, v) # ps) n =
     (case w v n of
        None \<Rightarrow> None
      | Some (j, n') \<Rightarrow> map_option (map_prod (\<lambda>xs. (k, j) # xs) id) (treeProps w ps n'))"

definition treeNode :: "(json \<Rightarrow> nat \<Rightarrow> (json \<times> nat) option) \<Rightarrow> json \<Rightarrow> nat \<Rightarrow> (json \<times> nat) option" where
  "treeNode w v nodes =
     (let n = nodes + 1
      in if MAX_EVENT_NODES < n then None
         else case v of
           JStr s \<Rightarrow> if length s \<le> MAX_EVENT_STRING then Some (v, n) else None
         | JNum x \<Rightarrow> if isFinite x then Some (v, n) else None
         | JArr vs \<Rightarrow> if MAX_EVENT_ARRAY < length vs then None else map_option (map_prod JArr id) (treeItems w vs n)
         | JObj ps \<Rightarrow> if MAX_EVENT_KEYS < length ps then None else map_option (map_prod JObj id) (treeProps w ps n)
         | _ \<Rightarrow> Some (v, n))"

primrec treeLevels :: "nat \<Rightarrow> json \<Rightarrow> nat \<Rightarrow> (json \<times> nat) option" where
  "treeLevels 0 v nodes = None"
| "treeLevels (Suc l) v nodes = treeNode (treeLevels l) v nodes"

definition treeSnapshot :: "json \<Rightarrow> json option" where
  "treeSnapshot v = map_option fst (treeLevels (MAX_EVENT_DEPTH + 1) v 0)"

definition parseEventTree :: "hasher \<Rightarrow> json \<Rightarrow> interpreter_error + props" where
  "parseEventTree hasher input =
     (case recordOf (treeSnapshot input) of
        Some event \<Rightarrow> if validEvent hasher event then Inr event else Inl invalidEvent
      | None \<Rightarrow> Inl invalidEvent)"

section \<open>The bounds of the snapshot\<close>

primrec treeOk :: "nat \<Rightarrow> json \<Rightarrow> bool" where
  "treeOk 0 v = False"
| "treeOk (Suc l) v =
     (case v of
        JStr s \<Rightarrow> length s \<le> MAX_EVENT_STRING
      | JNum x \<Rightarrow> isFinite x
      | JArr vs \<Rightarrow> length vs \<le> MAX_EVENT_ARRAY \<and> list_all (treeOk l) vs
      | JObj ps \<Rightarrow> length ps \<le> MAX_EVENT_KEYS \<and> list_all (\<lambda>p. treeOk l (snd p)) ps
      | _ \<Rightarrow> True)"

primrec nodes :: "json \<Rightarrow> nat" where
  "nodes JNull = 1"
| "nodes (JBool b) = 1"
| "nodes (JNum n) = 1"
| "nodes (JStr s) = 1"
| "nodes (JArr vs) = 1 + sum_list (map nodes vs)"
| "nodes (JObj ps) = 1 + sum_list (map snd (map (map_prod id nodes) ps))"

lemma snd_map_prod_id: "map snd (map (map_prod id f) ps) = map (f \<circ> snd) ps"
  by simp

lemma treeItems_copies:
  assumes "\<And>v n. v \<in> set vs \<Longrightarrow> n + nodes v \<le> MAX_EVENT_NODES \<Longrightarrow> w v n = Some (v, n + nodes v)"
    and "n + sum_list (map nodes vs) \<le> MAX_EVENT_NODES"
  shows "treeItems w vs n = Some (vs, n + sum_list (map nodes vs))"
  using assms by (induction vs arbitrary: n) (auto simp: add.assoc)

lemma treeProps_copies:
  assumes "\<And>p n. p \<in> set ps \<Longrightarrow> n + nodes (snd p) \<le> MAX_EVENT_NODES \<Longrightarrow> w (snd p) n = Some (snd p, n + nodes (snd p))"
    and "n + sum_list (map (nodes \<circ> snd) ps) \<le> MAX_EVENT_NODES"
  shows "treeProps w ps n = Some (ps, n + sum_list (map (nodes \<circ> snd) ps))"
  using assms
proof (induction ps arbitrary: n)
  case (Cons p ps)
  then show ?case by (cases p) (force simp: add.assoc)
qed simp

lemma treeLevels_copies:
  "treeOk l v \<Longrightarrow> n + nodes v \<le> MAX_EVENT_NODES \<Longrightarrow> treeLevels l v n = Some (v, n + nodes v)"
proof (induction l arbitrary: v n)
  case (Suc l)
  show ?case
  proof (cases v)
    case (JArr vs)
    have "treeItems (treeLevels l) vs (n + 1) = Some (vs, n + 1 + sum_list (map nodes vs))"
      using Suc JArr by (intro treeItems_copies) (auto simp: list_all_iff)
    then show ?thesis using Suc.prems JArr by (simp add: treeNode_def Let_def)
  next
    case (JObj ps)
    have "treeProps (treeLevels l) ps (n + 1) = Some (ps, n + 1 + sum_list (map (nodes \<circ> snd) ps))"
      using Suc JObj by (intro treeProps_copies) (auto simp: list_all_iff comp_def)
    then show ?thesis using Suc.prems JObj by (simp add: treeNode_def Let_def comp_def)
  qed (use Suc.prems in \<open>auto simp: treeNode_def Let_def\<close>)
qed simp

text \<open>A snapshot is its argument.\<close>

definition copiedBy :: "nat \<Rightarrow> (json \<Rightarrow> nat \<Rightarrow> (json \<times> nat) option) \<Rightarrow> bool" where
  "copiedBy l w \<longleftrightarrow> (\<forall>v n j m. w v n = Some (j, m) \<longrightarrow> j = v \<and> treeOk l v \<and> m = n + nodes v \<and> m \<le> MAX_EVENT_NODES)"

lemma copiedByD: "copiedBy l w \<Longrightarrow> w v n = Some (j, m) \<Longrightarrow> j = v \<and> treeOk l v \<and> m = n + nodes v \<and> m \<le> MAX_EVENT_NODES"
  unfolding copiedBy_def by blast

lemma treeItems_same:
  "copiedBy l w \<Longrightarrow> treeItems w vs n = Some (ws, m) \<Longrightarrow> n \<le> MAX_EVENT_NODES
    \<Longrightarrow> ws = vs \<and> list_all (treeOk l) vs \<and> m = n + sum_list (map nodes vs) \<and> m \<le> MAX_EVENT_NODES"
proof (induction vs arbitrary: n ws)
  case (Cons v vs)
  then obtain j n' ws' where s: "w v n = Some (j, n')" "treeItems w vs n' = Some (ws', m)" "ws = j # ws'"
    by (auto split: option.splits)
  from copiedByD [OF Cons.prems(1) s(1)] Cons.IH [OF Cons.prems(1) s(2)] show ?case by (simp add: s(3))
qed simp

lemma treeProps_same:
  "copiedBy l w \<Longrightarrow> treeProps w ps n = Some (qs, m) \<Longrightarrow> n \<le> MAX_EVENT_NODES
    \<Longrightarrow> qs = ps \<and> list_all (\<lambda>p. treeOk l (snd p)) ps \<and> m = n + sum_list (map (nodes \<circ> snd) ps) \<and> m \<le> MAX_EVENT_NODES"
proof (induction ps arbitrary: n qs)
  case (Cons p ps)
  obtain k v where p: "p = (k, v)" by (cases p)
  obtain j n' qs' where s: "w v n = Some (j, n')" "treeProps w ps n' = Some (qs', m)" "qs = (k, j) # qs'"
    using Cons.prems(2) p by (auto split: option.splits)
  from copiedByD [OF Cons.prems(1) s(1)] Cons.IH [OF Cons.prems(1) s(2)] show ?case by (simp add: s(3) p)
qed simp

lemma treeLevels_same: "copiedBy l (treeLevels l)"
proof (induction l)
  case (Suc l)
  have "j = v \<and> treeOk (Suc l) v \<and> m = n + nodes v \<and> m \<le> MAX_EVENT_NODES"
    if h: "treeLevels (Suc l) v n = Some (j, m)" for v n j m
  proof (cases v)
    case (JArr vs)
    then obtain ws where w: "n + 1 \<le> MAX_EVENT_NODES" "length vs \<le> MAX_EVENT_ARRAY" "treeItems (treeLevels l) vs (n + 1) = Some (ws, m)" "j = JArr ws"
      using h by (auto simp: treeNode_def Let_def split: if_splits)
    then show ?thesis using treeItems_same [OF Suc w(3,1)] JArr by simp
  next
    case (JObj ps)
    then obtain qs where q: "n + 1 \<le> MAX_EVENT_NODES" "length ps \<le> MAX_EVENT_KEYS" "treeProps (treeLevels l) ps (n + 1) = Some (qs, m)" "j = JObj qs"
      using h by (auto simp: treeNode_def Let_def split: if_splits)
    then show ?thesis using treeProps_same [OF Suc q(3,1)] JObj by (simp add: comp_def)
  qed (use h in \<open>auto simp: treeNode_def Let_def split: if_splits\<close>)
  then show ?case unfolding copiedBy_def by blast
qed (simp add: copiedBy_def)

lemma treeSnapshot_iff:
  "treeSnapshot v = Some w \<longleftrightarrow> w = v \<and> treeOk (MAX_EVENT_DEPTH + 1) v \<and> nodes v \<le> MAX_EVENT_NODES"
proof
  assume "treeSnapshot v = Some w"
  then obtain m where "treeLevels (MAX_EVENT_DEPTH + 1) v 0 = Some (w, m)"
    by (auto simp: treeSnapshot_def simp del: treeLevels.simps)
  from copiedByD [OF treeLevels_same this] show "w = v \<and> treeOk (MAX_EVENT_DEPTH + 1) v \<and> nodes v \<le> MAX_EVENT_NODES" by simp
next
  assume "w = v \<and> treeOk (MAX_EVENT_DEPTH + 1) v \<and> nodes v \<le> MAX_EVENT_NODES"
  then show "treeSnapshot v = Some w"
    using treeLevels_copies [of "MAX_EVENT_DEPTH + 1" v 0] by (simp add: treeSnapshot_def del: treeLevels.simps)
qed

section \<open>Reordering keeps the bounds\<close>

lemma same_object_sorted:
  assumes "distinct (map fst ps)" "distinct (map fst qs)" "\<And>k. rel_option R (map_of ps k) (map_of qs k)"
  shows "length ps = length (qs :: (jstr \<times> json) list)"
    "sum_list (map (f \<circ> snd) ps) = sum_list (map (f \<circ> snd) qs) \<or> \<not> (\<forall>v w. R v w \<longrightarrow> (f v :: nat) = f w)"
    "(\<And>v w. R v w \<Longrightarrow> P v \<Longrightarrow> Q w) \<Longrightarrow> list_all (\<lambda>p. P (snd p)) ps \<Longrightarrow> list_all (\<lambda>p. Q (snd p)) qs"
proof -
  note m = sorted_objects_match [OF assms]
  show "length ps = length qs" using list_all2_lengthD [OF m] by simp
  have sums: "sum_list (map g (sort_key fst xs)) = sum_list (map g (xs :: (jstr \<times> json) list))" for xs and g :: "_ \<Rightarrow> nat"
    by (simp flip: sum_mset_sum_list)
  show "sum_list (map (f \<circ> snd) ps) = sum_list (map (f \<circ> snd) qs) \<or> \<not> (\<forall>v w. R v w \<longrightarrow> f v = f w)"
  proof (cases "\<forall>v w. R v w \<longrightarrow> f v = f w")
    case True
    from m have "map (f \<circ> snd) (sort_key fst ps) = map (f \<circ> snd) (sort_key fst qs)"
      using True by (induction rule: list_all2_induct) auto
    then show ?thesis using sums [of "f \<circ> snd" ps] sums [of "f \<circ> snd" qs] by simp
  qed simp
  assume r: "\<And>v w. R v w \<Longrightarrow> P v \<Longrightarrow> Q w" and p: "list_all (\<lambda>p. P (snd p)) ps"
  from p have "list_all (\<lambda>p. P (snd p)) (sort_key fst ps)" by (simp add: list_all_iff)
  with m have "list_all (\<lambda>p. Q (snd p)) (sort_key fst qs)"
    using r by (induction rule: list_all2_induct) auto
  then show "list_all (\<lambda>p. Q (snd p)) qs" by (simp add: list_all_iff)
qed

lemma nodes_same: "sameJson v w \<Longrightarrow> nodes v = nodes w"
proof (induction rule: sameJson.induct)
  case (same_array vs ws)
  then have "map nodes vs = map nodes ws" by (induction rule: list_all2_induct) auto
  then show ?case by simp
next
  case (same_object ps qs)
  have "sum_list (map (nodes \<circ> snd) ps) = sum_list (map (nodes \<circ> snd) qs)"
    using same_object_sorted(2) [of ps qs "\<lambda>v w. sameJson v w \<and> nodes v = nodes w" nodes] same_object by blast
  then show ?case by (simp add: comp_def)
qed simp

lemma treeOk_same: "sameJson v w \<Longrightarrow> treeOk l v \<Longrightarrow> treeOk l w"
proof (induction l arbitrary: v w)
  case (Suc l)
  from Suc.prems(1) show ?case
  proof cases
    case (same_array vs ws)
    have "list_all (treeOk l) ws" if "list_all (treeOk l) vs"
      using same_array(3) that Suc.IH by (induction rule: list_all2_induct) auto
    then show ?thesis using Suc.prems(2) same_array list_all2_lengthD [OF same_array(3)] by simp
  next
    case (same_object ps qs)
    have "list_all (\<lambda>p. treeOk l (snd p)) qs" if "list_all (\<lambda>p. treeOk l (snd p)) ps"
      using same_object_sorted(3) [OF same_object(3,4,5), of "treeOk l" "treeOk l"] that Suc.IH by blast
    then show ?thesis using Suc.prems(2) same_object same_object_sorted(1) [OF same_object(3,4,5)] by simp
  qed (use Suc.prems in simp)
qed simp

lemma jsonDoubles_same: "sameJson v w \<Longrightarrow> jsonDoubles v \<Longrightarrow> jsonDoubles w"
proof (induction rule: sameJson.induct)
  case (same_array vs ws)
  have "list_all jsonDoubles ws" if "list_all jsonDoubles vs"
    using same_array(1) that by (induction rule: list_all2_induct) auto
  then show ?case using same_array(2) by (simp add: list_all_iff)
next
  case (same_object ps qs)
  have "list_all (\<lambda>p. jsonDoubles (snd p)) qs" if "list_all (\<lambda>p. jsonDoubles (snd p)) ps"
    using same_object_sorted(3) [OF same_object(1,2,3), of jsonDoubles jsonDoubles] that by blast
  then show ?case using same_object(4) by (simp add: list_all_iff)
qed simp

lemma treeOk_depth: "treeOk l v \<Longrightarrow> jsonDepth v < l"
proof (induction l arbitrary: v)
  case (Suc l)
  have max_le: "foldr max xs 0 \<le> (n :: nat) \<longleftrightarrow> (\<forall>x\<in>set xs. x \<le> n)" for xs n by (induction xs) auto
  show ?case
  proof (cases v)
    case (JArr vs)
    then show ?thesis using Suc by (auto simp: less_Suc_eq_le max_le list_all_iff Suc_le_eq)
  next
    case (JObj ps)
    then show ?thesis using Suc by (auto simp: less_Suc_eq_le max_le list_all_iff Suc_le_eq)
  qed (use Suc.prems in auto)
qed simp

section \<open>Reordering keeps the checks\<close>

definition sameProps :: "props \<Rightarrow> props \<Rightarrow> bool" where
  "sameProps ps qs \<longleftrightarrow> (\<forall>k. rel_option sameJson (map_of ps k) (map_of qs k))"

lemma sameProps_lookup: "sameProps ps qs \<Longrightarrow> rel_option sameJson (map_of ps k) (map_of qs k)"
  unfolding sameProps_def by blast

lemma sameProps_keys: "sameProps ps qs \<Longrightarrow> fst ` set ps = fst ` set qs"
  by (rule map_of_rel_keys [of sameJson]) (rule sameProps_lookup)

lemma sameJson_objects: "sameJson (JObj ps) (JObj qs) \<Longrightarrow> sameProps ps qs"
  by (erule sameJson_objectE) (auto simp: sameProps_def option.rel_refl same_refl)

inductive_simps sameJson_scalar [simp]:
  "sameJson JNull w" "sameJson (JBool b) w" "sameJson (JNum n) w" "sameJson (JStr s) w"

lemma sameJson_array_shape: "sameJson (JArr vs) w \<Longrightarrow> \<exists>ws. w = JArr ws \<and> list_all2 sameJson vs ws"
  by (erule sameJson_arrayE) (auto simp: list.rel_refl same_refl)

lemma sameJson_object_shape: "sameJson (JObj ps) w \<Longrightarrow> \<exists>qs. w = JObj qs \<and> sameProps ps qs"
  by (erule sameJson_objectE) (auto simp: sameProps_def option.rel_refl same_refl)

text \<open>The two properties found under one name.\<close>

lemma sameFieldE:
  assumes "rel_option sameJson a b"
  obtains "a = None" "b = None"
    | v where "a = Some v" "b = Some v" "\<not> isJsonArray v" "\<not> isJsonObject v"
    | vs ws where "a = Some (JArr vs)" "b = Some (JArr ws)" "list_all2 sameJson vs ws"
    | ps qs where "a = Some (JObj ps)" "b = Some (JObj qs)" "sameProps ps qs"
  using assms
proof (cases rule: option.rel_cases)
  case (Some v w)
  show thesis
  proof (cases v)
    case (JArr vs)
    then show thesis using that(3) sameJson_array_shape Some by blast
  next
    case (JObj ps)
    then show thesis using that(4) sameJson_object_shape Some by blast
  qed (use that(2) [of v] Some in \<open>auto simp: isJsonArray_def isJsonObject_def\<close>)
qed (use that(1) in simp)

lemma own_same: "sameProps ps qs \<Longrightarrow> (map_of ps k = None) = (map_of qs k = None)"
  by (erule sameFieldE [OF sameProps_lookup [where k = k]]) simp_all

lemma exact_same:
  assumes "sameProps ps qs"
  shows "exact ps req opts = exact qs req opts"
proof -
  have keys: "list_all P (map fst xs) = (\<forall>k\<in>fst ` set xs. P k)" for P and xs :: props
    by (simp add: list_all_iff)
  show ?thesis unfolding exact_def keys sameProps_keys [OF assms] own_same [OF assms] ..
qed

lemma scalar_same:
  assumes "sameProps ps qs"
  shows "(map_of ps k = Some (JStr t)) = (map_of qs k = Some (JStr t))" "(map_of ps k = Some JNull) = (map_of qs k = Some JNull)"
    "(map_of ps k = Some (JNum n)) = (map_of qs k = Some (JNum n))"
  by (rule sameFieldE [OF sameProps_lookup [OF assms, where k = k]]; force)+

lemma stringField_same: "sameProps ps qs \<Longrightarrow> stringField ps k b = stringField qs k b"
  by (erule sameFieldE [OF sameProps_lookup [where k = "js k"]]) (simp_all add: stringField_def)

lemma booleanField_same: "sameProps ps qs \<Longrightarrow> booleanField ps k = booleanField qs k"
  by (erule sameFieldE [OF sameProps_lookup [where k = "js k"]]) (simp_all add: booleanField_def)

lemma integerField_same: "sameProps ps qs \<Longrightarrow> integerField ps k b = integerField qs k b"
  by (erule sameFieldE [OF sameProps_lookup [where k = "js k"]]) (simp_all add: integerField_def)

lemma matches_same: "sameProps ps qs \<Longrightarrow> matches ps k f = matches qs k f"
  by (erule sameFieldE [OF sameProps_lookup [where k = "js k"]]) (simp_all add: matches_def)

lemma isText_same: "sameProps ps qs \<Longrightarrow> isText ps k t = isText qs k t"
  by (simp add: isText_def scalar_same)

lemma isNum_same: "sameProps ps qs \<Longrightarrow> isNum ps k n = isNum qs k n"
  by (simp add: isNum_def scalar_same)

lemma textOf_same: "sameProps ps qs \<Longrightarrow> textOf ps k = textOf qs k"
  by (erule sameFieldE [OF sameProps_lookup [where k = "js k"]]) (simp_all add: textOf_def)

lemma numOf_same: "sameProps ps qs \<Longrightarrow> numOf ps k = numOf qs k"
  by (erule sameFieldE [OF sameProps_lookup [where k = "js k"]]) (simp_all add: numOf_def)

lemma refMatches_same:
  assumes "sameProps ps qs"
  shows "refMatches ps k l = refMatches qs k l"
  by (rule sameFieldE [OF sameProps_lookup [OF assms, where k = "js l"]])
    (simp_all add: refMatches_def isText_same [OF assms] split: json.split)

lemma usageCost_same: "sameProps ps qs \<Longrightarrow> usageCost ps = usageCost qs"
  by (erule sameFieldE [OF sameProps_lookup [where k = "js ''costUsd''"]]) (simp_all add: usageCost_def)

lemma tokens_same:
  "sameProps ps qs \<Longrightarrow>
     (case map_of ps k of Some (JNum n) \<Rightarrow> f n | _ \<Rightarrow> False) = (case map_of qs k of Some (JNum n) \<Rightarrow> f n | _ \<Rightarrow> False)"
  by (erule sameFieldE [OF sameProps_lookup [where k = k]]) simp_all

lemma validOptionalOutput_same:
  assumes "sameProps ps qs"
  shows "validOptionalOutput ps a b c = validOptionalOutput qs a b c"
  unfolding validOptionalOutput_def contextRefField_def hashField_def own_same [OF assms] matches_same [OF assms]
    integerField_same [OF assms] refMatches_same [OF assms] ..

lemmas same_fields = own_same exact_same scalar_same stringField_same booleanField_same integerField_same matches_same
  isText_same isNum_same textOf_same numOf_same refMatches_same usageCost_same tokens_same validOptionalOutput_same

lemma recordOf_same:
  assumes "rel_option sameJson a b"
  shows "rel_option sameProps (recordOf a) (recordOf b)"
  using assms by (rule sameFieldE) (auto simp: recordOf_def isJsonObject_def split: json.splits)

lemma record_check:
  assumes "rel_option sameJson a b" "\<And>ps qs. sameProps ps qs \<Longrightarrow> P ps = P qs"
  shows "(case recordOf a of None \<Rightarrow> False | Some ps \<Rightarrow> P ps) = (case recordOf b of None \<Rightarrow> False | Some ps \<Rightarrow> P ps)"
  using recordOf_same [OF assms(1)] assms(2) by (cases rule: option.rel_cases) auto

lemma nested_same:
  assumes "rel_option sameJson a b"
  shows "validError a = validError b" "validUsage a = validUsage b" "validLimits a = validLimits b"
    "validOperationReservation a = validOperationReservation b"
    "(case recordOf a of None \<Rightarrow> False | Some us \<Rightarrow> isNum us k n) = (case recordOf b of None \<Rightarrow> False | Some us \<Rightarrow> isNum us k n)"
    "(case recordOf a of Some rs \<Rightarrow> reservationOf rs | None \<Rightarrow> r) = (case recordOf b of Some rs \<Rightarrow> reservationOf rs | None \<Rightarrow> r)"
proof -
  show "validError a = validError b" "validUsage a = validUsage b" "validLimits a = validLimits b"
    "validOperationReservation a = validOperationReservation b"
    unfolding validError_def validUsage_def validLimits_def validOperationReservation_def optionalField_def
    by (rule record_check [OF assms]; simp only: same_fields)+
  show "(case recordOf a of None \<Rightarrow> False | Some us \<Rightarrow> isNum us k n) = (case recordOf b of None \<Rightarrow> False | Some us \<Rightarrow> isNum us k n)"
    by (rule record_check [OF assms]) (simp only: same_fields)
  show "(case recordOf a of Some rs \<Rightarrow> reservationOf rs | None \<Rightarrow> r) = (case recordOf b of Some rs \<Rightarrow> reservationOf rs | None \<Rightarrow> r)"
    using recordOf_same [OF assms] by (cases rule: option.rel_cases) (simp_all add: reservationOf_def numOf_same)
qed

lemma validInputRef_same: "sameJson v w \<Longrightarrow> validInputRef v = validInputRef w"
  unfolding validInputRef_def contextRefField_def hashField_def by (rule record_check) (simp_all only: same_fields option.rel_inject)

lemma arrays_same:
  assumes "rel_option sameJson a b"
  shows "validInputRefs a = validInputRefs b" "validStringArray a = validStringArray b"
proof -
  have refs: "list_all validInputRef vs = list_all validInputRef ws" if "list_all2 sameJson vs ws" for vs ws
    using that by (induction rule: list_all2_induct) (auto simp: validInputRef_same)
  have one: "(case x of JStr s \<Rightarrow> s \<noteq> [] | _ \<Rightarrow> False) = (case y of JStr s \<Rightarrow> s \<noteq> [] | _ \<Rightarrow> False)" if "sameJson x y" for x y
    by (rule sameFieldE [of "Some x" "Some y"]) (use that in auto)
  have texts: "list_all (\<lambda>x. case x of JStr s \<Rightarrow> s \<noteq> [] | _ \<Rightarrow> False) vs = list_all (\<lambda>x. case x of JStr s \<Rightarrow> s \<noteq> [] | _ \<Rightarrow> False) ws"
    if "list_all2 sameJson vs ws" for vs ws
    using that by (induction rule: list_all2_induct) (simp_all add: one)
  show "validInputRefs a = validInputRefs b" "validStringArray a = validStringArray b"
    using assms by (rule sameFieldE; auto simp: validInputRefs_def validStringArray_def refs texts)+
qed

lemma validEvent_same:
  assumes "sameProps ps qs"
  shows "validEvent hasher ps = validEvent hasher qs"
proof -
  note f = same_fields [OF assms]
  note n = nested_same [OF sameProps_lookup [OF assms]] arrays_same [OF sameProps_lookup [OF assms]]
  have intent: "intentIdentity ps = intentIdentity qs"
    unfolding intentIdentity_def f n(6) ..
  have "list_all2 (\<lambda>x y. fst x = fst y \<and> snd x ps = snd y qs) (validators hasher) (validators hasher)"
    unfolding validators_def list.rel_inject list_all2_Nil fst_conv snd_conv contextRefField_def hashField_def oneOf_def optionalField_def
      validRunStarted_def validFrameOpened_def validProgress_def validKeyBound_def validAgentApproval_def validCellCommitted_def
      validWorkspaceCommitted_def validEvidenceProjected_def validEvidenceCited_def validOperationIntended_def
      validOperationSettled_def validCheckpointCommitted_def validCallCommitted_def validAnswerCommitted_def validFrameClosed_def
      validRunCompleted_def validRunFailed_def validRunCancelled_def f n intent
    by simp
  then have "list_all (\<lambda>x. snd x ps = snd x qs) (validators hasher)"
    by (simp add: list.rel_map list_all2_same list_all_iff)
  then have "(case map_of (map (map_prod js id) (validators hasher)) k of Some valid \<Rightarrow> valid ps | None \<Rightarrow> False)
      = (case map_of (map (map_prod js id) (validators hasher)) k of Some valid \<Rightarrow> valid qs | None \<Rightarrow> False)" for k
    by (fastforce simp: list_all_iff split: option.splits dest!: map_of_SomeD)
  then show ?thesis by (simp only: validEvent_def f)
qed

section \<open>Canonical events\<close>

lemma collectItems_map: "(\<And>i v. (i, v) \<in> set xs \<Longrightarrow> f (i, v) = Inr v) \<Longrightarrow> collectItems (map f xs) = Inr (map snd xs)"
  by (induction xs) auto

lemma collectProps_map: "(\<And>k v. (k, v) \<in> set ps \<Longrightarrow> f (k, v) = (k, Inr v)) \<Longrightarrow> collectProps (map f ps) = Inr ps"
  by (induction ps) auto

lemma depth_item: "v \<in> set vs \<Longrightarrow> jsonDepth v < jsonDepth (JArr vs)"
  by (induction vs) auto

lemma depth_prop: "(k, v) \<in> set ps \<Longrightarrow> jsonDepth v < jsonDepth (JObj ps)"
  by (induction ps) auto

text \<open>A canonical value is its own canonical form.\<close>

lemma canonicalForm_fixed:
  "canonicalForm v \<Longrightarrow> d + jsonDepth v \<le> MAX_JSON_DEPTH \<Longrightarrow> canonicalizeAt v p d = Inr v"
proof (induction v arbitrary: p d)
  case (JArr vs)
  have "canonicalizeAt x (indexPath p i) (Suc d) = Inr x" if "(i, x) \<in> set (enumerate 0 vs)" for i x
  proof (rule JArr.IH)
    show x: "x \<in> set vs" using that by (auto dest: in_set_zipE simp: enumerate_eq_zip)
    show "canonicalForm x" using JArr.prems(1) x by (simp add: list_all_iff)
    show "Suc d + jsonDepth x \<le> MAX_JSON_DEPTH" using JArr.prems(2) depth_item [OF x] by simp
  qed
  then have "collectItems (map (\<lambda>(i, x). canonicalizeAt x (indexPath p i) (Suc d)) (enumerate 0 vs)) = Inr vs"
    using collectItems_map [of "enumerate 0 vs" "\<lambda>(i, x). canonicalizeAt x (indexPath p i) (Suc d)"] by simp
  then show ?case using JArr.prems(2) by (simp add: canonicalizeAt.simps [of "JArr vs"])
next
  case (JObj ps)
  have sorted: "sorted_wrt (<) (map entryKey ps)" "distinct (map fst ps)"
    using JObj.prems(1) sorted_keys_distinct by auto
  have kept: "objOf (sort_key fst ps) = ps"
    using objOf_sort_key [OF sorted(2)] sorted(1) by (simp add: sort_key_id_if_sorted strict_sorted_iff)
  have "canonicalizeAt x (childPath p k) (Suc d) = Inr x" if "(k, x) \<in> set (sort_key fst ps)" for k x
  proof (rule JObj.IH)
    show x: "(k, x) \<in> set ps" using that by simp
    show "x \<in> Basic_BNFs.snds (k, x)" by simp
    show "canonicalForm x" using JObj.prems(1) x by (force simp: list_all_iff)
    show "Suc d + jsonDepth x \<le> MAX_JSON_DEPTH" using JObj.prems(2) depth_prop [OF x] by simp
  qed
  then have "collectProps (map (\<lambda>(k, x). (k, canonicalizeAt x (childPath p k) (Suc d))) (sort_key fst ps)) = Inr (sort_key fst ps)"
    by (intro collectProps_map) auto
  then show ?case using JObj.prems(2) kept by (simp add: canonicalizeAt.simps [of "JObj ps"])
qed (simp_all add: canonicalizeAt.simps)

lemma canonicalForm_canonical: "canonicalForm v \<Longrightarrow> jsonDepth v \<le> MAX_JSON_DEPTH \<Longrightarrow> canonicalize v = Inr v"
  using canonicalForm_fixed [of v 0] by (simp add: canonicalize_def)

text \<open>The events a store is given: objects the decoder accepts, with JavaScript's property order and numbers.\<close>

definition eventGood :: "hasher \<Rightarrow> props \<Rightarrow> bool" where
  "eventGood hasher e \<longleftrightarrow> parseEventTree hasher (JObj e) = Inr e \<and> jsonOrdered (JObj e) \<and> jsonDoubles (JObj e)"

definition canonProps :: "props \<Rightarrow> props" where
  "canonProps e = (case canonicalize (JObj e) of Inr (JObj c) \<Rightarrow> c | _ \<Rightarrow> [])"

lemma parseEventTree_iff:
  "parseEventTree hasher v = Inr e \<longleftrightarrow>
     v = JObj e \<and> treeOk (MAX_EVENT_DEPTH + 1) v \<and> nodes v \<le> MAX_EVENT_NODES \<and> validEvent hasher e"
proof (cases "treeSnapshot v")
  case None
  then have "\<not> (treeOk (MAX_EVENT_DEPTH + 1) v \<and> nodes v \<le> MAX_EVENT_NODES)"
    using treeSnapshot_iff [of v v] by auto
  with None show ?thesis by (auto simp: parseEventTree_def recordOf_def simp del: treeOk.simps)
next
  case (Some w)
  then have "w = v" "treeOk (MAX_EVENT_DEPTH + 1) v" "nodes v \<le> MAX_EVENT_NODES" using treeSnapshot_iff by blast+
  with Some show ?thesis by (auto simp: parseEventTree_def recordOf_def simp del: treeOk.simps split: json.splits)
qed

lemma eventGood_iff:
  "eventGood hasher e \<longleftrightarrow> treeOk (MAX_EVENT_DEPTH + 1) (JObj e) \<and> nodes (JObj e) \<le> MAX_EVENT_NODES
     \<and> validEvent hasher e \<and> jsonOrdered (JObj e) \<and> jsonDoubles (JObj e)"
  unfolding eventGood_def parseEventTree_iff by blast

lemma eventGood_depth: "eventGood hasher e \<Longrightarrow> jsonDepth (JObj e) \<le> MAX_EVENT_DEPTH"
  unfolding eventGood_iff using treeOk_depth by fastforce

lemma canonProps_facts:
  assumes "eventGood hasher e"
  shows "canonicalize (JObj e) = Inr (JObj (canonProps e))" "canonicalForm (JObj (canonProps e))"
    "sameJson (JObj e) (JObj (canonProps e))"
proof -
  have "jsonDepth (JObj e) \<le> MAX_JSON_DEPTH"
    using eventGood_depth [OF assms] by (simp add: MAX_EVENT_DEPTH_def MAX_JSON_DEPTH_def)
  then obtain w where w: "canonicalize (JObj e) = Inr w" using canonicalize_exists by blast
  then have "canonicalForm w \<and> sameJson (JObj e) w"
    using canonicalizeAt_Inr assms by (auto simp: canonicalize_def eventGood_def)
  moreover then obtain c where "w = JObj c" using sameJson_object_shape by blast
  ultimately show "canonicalize (JObj e) = Inr (JObj (canonProps e))" "canonicalForm (JObj (canonProps e))"
    "sameJson (JObj e) (JObj (canonProps e))"
    using w by (simp_all add: canonProps_def)
qed

lemma sameProps_canon: "eventGood hasher e \<Longrightarrow> sameProps e (canonProps e)"
  by (rule sameJson_objects [OF canonProps_facts(3)])

lemma eventGood_canon:
  assumes "eventGood hasher e"
  shows "eventGood hasher (canonProps e)"
  using assms treeOk_same [OF canonProps_facts(3) [OF assms]] nodes_same [OF canonProps_facts(3) [OF assms]]
    validEvent_same [OF sameProps_canon [OF assms]] canonicalForm_ordered [OF canonProps_facts(2) [OF assms]]
    jsonDoubles_same [OF canonProps_facts(3) [OF assms]]
  unfolding eventGood_iff by metis

lemma canonProps_idem: "eventGood hasher e \<Longrightarrow> canonProps (canonProps e) = canonProps e"
  using canonicalize_idem [OF canonProps_facts(1), of hasher e] unfolding canonProps_def [of "canonProps e"]
  by (simp add: eventGood_def)

text \<open>Reading a printed canonical value back.\<close>

lemma jsonParse_canonical: "canonicalForm w \<Longrightarrow> jsonDoubles w \<Longrightarrow> jsonParse (jsonText w) = Some w"
  by (rule jsonParse_jsonText [OF canonicalForm_ordered])

lemma event_reads_back:
  assumes "eventGood hasher e"
  shows "canonicalStringify (JObj e) = Inr (jsonText (JObj (canonProps e)))"
    "jsonParse (jsonText (JObj (canonProps e))) = Some (JObj (canonProps e))"
    "parseEventTree hasher (JObj (canonProps e)) = Inr (canonProps e)"
proof -
  show "canonicalStringify (JObj e) = Inr (jsonText (JObj (canonProps e)))"
    unfolding canonicalStringify_def canonProps_facts(1) [OF assms] by simp
  show "jsonParse (jsonText (JObj (canonProps e))) = Some (JObj (canonProps e))"
    using canonProps_facts(2) [OF assms] eventGood_canon [OF assms] by (intro jsonParse_canonical) (auto simp: eventGood_def)
  show "parseEventTree hasher (JObj (canonProps e)) = Inr (canonProps e)"
    using eventGood_canon [OF assms] by (simp add: eventGood_def)
qed

end
