(* ===== verification/JournalStore.thy ===== *)
theory JournalStore
  imports EventText
begin

text \<open>
  The durable journal (\<open>src/src/shell/journal-store.ts\<close>): an append-only file of canonical JSON lines, each a
  single event or a checksummed batch.  The file is a list of bytes.  The file system may refuse any operation
  and may leave part of an append behind; a record \<open>journal_io\<close> says what it does during one transaction.
  Transactions of a store run one after the other, as its queue has them.  The scan is that of a caller without
  a checkpoint callback.
\<close>

section \<open>Records\<close>

definition BATCH_RECORD_TYPE :: jstr where
  "BATCH_RECORD_TYPE = js ''journal_batch''"

definition BATCH_RECORD_VERSION :: jsnum where
  "BATCH_RECORD_VERSION = Num 1"

definition MAX_JOURNAL_AUTHORITY_BYTES :: nat where
  "MAX_JOURNAL_AUTHORITY_BYTES = 32 * 1024 * 1024"

record batch_record =
  brBatchId :: jstr
  brChecksum :: jstr
  brEvents :: "props list"

datatype journal_record = EventRecord props | BatchRecord batch_record

definition makeBatchRecord :: "hasher \<Rightarrow> props list \<Rightarrow> js_exn + batch_record" where
  "makeBatchRecord hasher events =
     map_sum id (\<lambda>t. \<lparr>brBatchId = js ''batch_'' @ hasher t, brChecksum = hasher t, brEvents = events\<rparr>)
       (canonicalStringify (JArr (map JObj events)))"

definition batchJson :: "batch_record \<Rightarrow> json" where
  "batchJson r = JObj
     [(js ''type'', JStr BATCH_RECORD_TYPE), (js ''version'', JNum BATCH_RECORD_VERSION),
      (js ''batchId'', JStr (brBatchId r)), (js ''checksum'', JStr (brChecksum r)), (js ''events'', JArr (map JObj (brEvents r)))]"

definition recordJson :: "journal_record \<Rightarrow> json" where
  "recordJson r = (case r of EventRecord e \<Rightarrow> JObj e | BatchRecord b \<Rightarrow> batchJson b)"

definition recordLine :: "journal_record \<Rightarrow> js_exn + jstr" where
  "recordLine r = map_sum id (\<lambda>t. t @ [10]) (canonicalStringify (recordJson r))"

section \<open>Batches the runtime writes\<close>

definition isType :: "string \<Rightarrow> props \<Rightarrow> bool" where
  "isType t e \<longleftrightarrow> isText e ''type'' (js t)"

text \<open>\<open>left[k] === right[l]\<close>: \<open>NaN\<close> is not equal to itself, and no two events share an array or object.\<close>

definition comparable :: "json option \<Rightarrow> bool" where
  "comparable v = (case v of Some (JNum n) \<Rightarrow> n \<noteq> NaN | Some (JArr _) \<Rightarrow> False | Some (JObj _) \<Rightarrow> False | _ \<Rightarrow> True)"

definition sameField :: "props \<Rightarrow> string \<Rightarrow> props \<Rightarrow> string \<Rightarrow> bool" where
  "sameField ps k qs l \<longleftrightarrow> map_of ps (js k) = map_of qs (js l) \<and> comparable (map_of ps (js k))"

definition hasFullCellOutput :: "props \<Rightarrow> bool" where
  "hasFullCellOutput cell \<longleftrightarrow>
     stringField cell ''outputRef'' True \<and> hashField cell ''outputRefSha256''
     \<and> refMatches cell ''outputRef'' ''outputRefSha256'' \<and> integerField cell ''outputRefBytes'' False"

definition hasFullAnswerOutput :: "props \<Rightarrow> bool" where
  "hasFullAnswerOutput answer \<longleftrightarrow>
     hashField answer ''outputSha256'' \<and> refMatches answer ''outputRef'' ''outputSha256'' \<and> integerField answer ''outputBytes'' False"

definition sameOutput :: "props \<Rightarrow> props \<Rightarrow> bool" where
  "sameOutput cell answer \<longleftrightarrow>
     hasFullCellOutput cell \<and> hasFullAnswerOutput answer \<and> sameField cell ''outputRef'' answer ''outputRef''
     \<and> sameField cell ''outputRefSha256'' answer ''outputSha256'' \<and> sameField cell ''outputRefBytes'' answer ''outputBytes''"

definition isProgress :: "props \<Rightarrow> bool" where
  "isProgress e \<longleftrightarrow> isType ''phase'' e \<or> isType ''emit'' e"

definition cellIndexes :: "props list \<Rightarrow> nat list" where
  "cellIndexes events = map fst (filter (\<lambda>p. isType ''cell_committed'' (snd p)) (enumerate 0 events))"

text \<open>The progress events that precede the cell of a batch.\<close>

definition cellProgress :: "props \<Rightarrow> props list \<Rightarrow> bool" where
  "cellProgress cell before \<longleftrightarrow>
     list_all (\<lambda>(i, p). isProgress p \<and> sameField p ''frameId'' cell ''frameId'' \<and> sameField p ''iteration'' cell ''iteration''
        \<and> isNum p ''ordinal'' (Num (of_nat i))) (enumerate 0 before)"

definition validBatchSemantics :: "props list \<Rightarrow> bool" where
  "validBatchSemantics events =
     (if 1 < length (filter (isType ''answer_committed'') events) then False
      else if length events = 2 \<and> isType ''fallback_evidence_cited'' (events ! 0) \<and> isType ''answer_committed'' (events ! 1)
      then sameField (events ! 0) ''frameId'' (events ! 1) ''frameId''
           \<and> isText (events ! 1) ''completionMode'' (js ''fallback_extract'') \<and> hasFullAnswerOutput (events ! 1)
      else case cellIndexes events of
        [c] \<Rightarrow>
          (let cell = events ! c
           in (c + 1 = length events \<or> c + 2 = length events) \<and> cellProgress cell (take c events)
              \<and> (if length events \<le> c + 1
                 then \<not> own cell ''outputRef'' \<and> \<not> own cell ''outputRefSha256'' \<and> \<not> own cell ''outputRefBytes''
                 else isType ''answer_committed'' (events ! (c + 1))
                      \<and> sameField (events ! (c + 1)) ''frameId'' cell ''frameId''
                      \<and> isText (events ! (c + 1)) ''completionMode'' (js ''answer'') \<and> sameOutput cell (events ! (c + 1))))
      | _ \<Rightarrow> False)"

section \<open>Scanning\<close>

record event_position =
  epEventIndex :: nat
  epPrefixBytes :: nat
  epEndBytes :: nat

record journal_scan =
  scEvents :: "props list"
  scPositions :: "event_position list"
  scVerified :: nat
  scBatchIds :: "jstr list"

definition corruptLine :: "hasher \<Rightarrow> nat \<Rightarrow> jstr \<Rightarrow> interpreter_error" where
  "corruptLine hasher n line =
     InterpreterError JOURNAL_CORRUPT
       (js ''corrupt journal line '' @ natString n @ js '' ('' @ take 12 (hasher line) @ js '')'')"

definition pushEvent :: "nat \<Rightarrow> nat \<Rightarrow> props \<Rightarrow> journal_scan \<Rightarrow> journal_scan" where
  "pushEvent lineStart lineEnd e sc = sc\<lparr>
     scPositions := scPositions sc @ [\<lparr>epEventIndex = length (scEvents sc), epPrefixBytes = lineStart, epEndBytes = lineEnd\<rparr>],
     scEvents := scEvents sc @ [e]\<rparr>"

fun parseEvents :: "hasher \<Rightarrow> json list \<Rightarrow> props list option" where
  "parseEvents hasher [] = Some []"
| "parseEvents hasher (v # vs) =
     (case parseEventTree hasher v of
        Inl _ \<Rightarrow> None
      | Inr e \<Rightarrow> map_option (Cons e) (parseEvents hasher vs))"

text \<open>\<open>/^batch_[0-9a-f]{64}$/\<close>\<close>

definition isBatchId :: "jstr \<Rightarrow> bool" where
  "isBatchId s \<longleftrightarrow> isPrefix (js ''batch_'') s \<and> isSha256 (drop 6 s)"

definition batchEnvelope :: "props \<Rightarrow> (jstr \<times> jstr \<times> json list) option" where
  "batchEnvelope envelope =
     (if joinWith [0] (sort (map fst envelope))
           = joinWith [0] [js ''batchId'', js ''checksum'', js ''events'', js ''type'', js ''version'']
         \<and> isNum envelope ''version'' BATCH_RECORD_VERSION
      then case (map_of envelope (js ''batchId''), map_of envelope (js ''checksum''), map_of envelope (js ''events'')) of
             (Some (JStr i), Some (JStr c), Some (JArr vs)) \<Rightarrow>
               if isBatchId i \<and> isSha256 c \<and> vs \<noteq> [] then Some (i, c, vs) else None
           | _ \<Rightarrow> None
      else None)"

definition scanBatch :: "hasher \<Rightarrow> jstr \<Rightarrow> nat \<Rightarrow> nat \<Rightarrow> props \<Rightarrow> journal_scan \<Rightarrow> journal_scan option" where
  "scanBatch hasher line lineStart lineEnd envelope sc =
     (case batchEnvelope envelope of
        None \<Rightarrow> None
      | Some (i, c, vs) \<Rightarrow>
          (case parseEvents hasher vs of
             None \<Rightarrow> None
           | Some es \<Rightarrow>
               if \<not> validBatchSemantics es then None
               else case makeBatchRecord hasher es of
                 Inl _ \<Rightarrow> None
               | Inr expected \<Rightarrow>
                   if i \<noteq> brBatchId expected \<or> c \<noteq> brChecksum expected
                      \<or> recordLine (BatchRecord expected) \<noteq> Inr (line @ [10]) then None
                   else if brBatchId expected \<in> set (scBatchIds sc) then Some sc
                   else Some ((fold (pushEvent lineStart lineEnd) es sc)
                          \<lparr>scBatchIds := scBatchIds sc @ [brBatchId expected]\<rparr>)))"

definition scanEvent :: "hasher \<Rightarrow> nat \<Rightarrow> nat \<Rightarrow> json \<Rightarrow> journal_scan \<Rightarrow> journal_scan option" where
  "scanEvent hasher lineStart lineEnd parsed sc =
     (case parseEventTree hasher parsed of Inl _ \<Rightarrow> None | Inr e \<Rightarrow> Some (pushEvent lineStart lineEnd e sc))"

definition scanLine :: "hasher \<Rightarrow> jstr \<Rightarrow> nat \<Rightarrow> nat \<Rightarrow> journal_scan \<Rightarrow> journal_scan option" where
  "scanLine hasher line lineStart lineEnd sc =
     (if line = [] then None
      else case jsonParse line of
        None \<Rightarrow> None
      | Some parsed \<Rightarrow>
          (case parsed of
             JObj envelope \<Rightarrow>
               if isText envelope ''type'' BATCH_RECORD_TYPE then scanBatch hasher line lineStart lineEnd envelope sc
               else scanEvent hasher lineStart lineEnd parsed sc
           | _ \<Rightarrow> scanEvent hasher lineStart lineEnd parsed sc))"

definition verifiedLength :: "nat list \<Rightarrow> nat" where
  "verifiedLength raw =
     (if raw = [] \<or> last raw = 10 then length raw else length raw - length (takeWhile (\<lambda>b. b \<noteq> 10) (rev raw)))"

text \<open>The loop over the complete lines; \<open>rest\<close> is what follows \<open>lineStart\<close>.\<close>

function scanLines :: "hasher \<Rightarrow> nat list \<Rightarrow> nat \<Rightarrow> nat \<Rightarrow> journal_scan \<Rightarrow> interpreter_error + journal_scan" where
  "scanLines hasher rest lineStart lineNumber sc =
     (if 10 \<notin> set rest then Inr sc
      else let raw = takeWhile (\<lambda>b. b \<noteq> 10) rest;
               lineEnd = lineStart + length raw + 1;
               line = bufferText raw
           in case scanLine hasher line lineStart lineEnd sc of
                None \<Rightarrow> Inl (corruptLine hasher lineNumber line)
              | Some sc \<Rightarrow> scanLines hasher (drop (length raw + 1) rest) lineEnd (lineNumber + 1) sc)"
  by pat_completeness auto
termination
  by (relation "measure (\<lambda>(hasher, rest, lineStart, lineNumber, sc). length rest)") (auto simp: Let_def intro!: diff_less length_pos_if_in_set)

declare scanLines.simps [simp del]

definition scanJournal :: "hasher \<Rightarrow> nat list \<Rightarrow> interpreter_error + journal_scan" where
  "scanJournal hasher raw =
     map_sum id (\<lambda>sc. sc\<lparr>scVerified := verifiedLength raw\<rparr>)
       (scanLines hasher (take (verifiedLength raw) raw) 0 0
          \<lparr>scEvents = [], scPositions = [], scVerified = 0, scBatchIds = []\<rparr>)"

definition parseJournalSnapshotBytes :: "hasher \<Rightarrow> nat list \<Rightarrow> interpreter_error + (props list \<times> event_position list \<times> nat)" where
  "parseJournalSnapshotBytes hasher raw =
     map_sum id (\<lambda>sc. (scEvents sc, scPositions sc, scVerified sc)) (scanJournal hasher raw)"

definition parseJournalBytes :: "hasher \<Rightarrow> nat list \<Rightarrow> interpreter_error + props list" where
  "parseJournalBytes hasher raw = map_sum id fst (parseJournalSnapshotBytes hasher raw)"

section \<open>Appending\<close>

definition isTerminal :: "props \<Rightarrow> bool" where
  "isTerminal e \<longleftrightarrow> isType ''run_completed'' e \<or> isType ''run_failed'' e \<or> isType ''run_cancelled'' e"

definition sameProgressIdentity :: "props \<Rightarrow> props \<Rightarrow> bool" where
  "sameProgressIdentity x y \<longleftrightarrow>
     sameField x ''frameId'' y ''frameId'' \<and> sameField x ''iteration'' y ''iteration'' \<and> sameField x ''ordinal'' y ''ordinal''"

datatype append_phase = EventPhase | StatusCachePhase

datatype append_cause = CorruptCause interpreter_error | IoCause | ThrownCause js_exn

record append_error =
  aePhase :: append_phase
  aeEventDurable :: bool
  aeCause :: append_cause

datatype disposition = DispCommitted | DispDeduplicated | DispIgnored

datatype status_cache = CacheRefreshed | CacheSkipped | CacheFailed append_error

record append_outcome =
  aoEvents :: "disposition list"
  aoStatusCache :: status_cache

text \<open>
  One transaction of the file system.  An operation that fails may have had its effect or not; a rejected append
  leaves the first bytes of the line in the file.
\<close>

datatype io_result = IoOk | IoFailed | IoFailedAfter

record journal_io =
  ioOpen :: bool
  ioRead :: bool
  ioRepair :: io_result
  ioRepairSync :: bool
  ioAppend :: "nat option"
  ioSync :: bool
  ioReread :: bool
  ioResync :: bool
  ioTruncate :: io_result
  ioTruncateSync :: bool
  ioClose :: bool
  ioStatus :: bool

definition eventFailure :: "append_cause \<Rightarrow> append_error" where
  "eventFailure c = \<lparr>aePhase = EventPhase, aeEventDurable = False, aeCause = c\<rparr>"

definition corruptCause :: "string \<Rightarrow> append_cause" where
  "corruptCause m = CorruptCause (InterpreterError JOURNAL_CORRUPT (js m))"

definition readBoundedJournalHandle :: "bool \<Rightarrow> nat list \<Rightarrow> append_cause + nat list" where
  "readBoundedJournalHandle readable bytes =
     (if \<not> readable then Inl IoCause
      else if MAX_JOURNAL_AUTHORITY_BYTES < length bytes
      then Inl (corruptCause ''journal is not one bounded private regular file'')
      else Inr bytes)"

text \<open>The file is opened and scanned; an incomplete last record is cut off first.\<close>

definition openScanned :: "hasher \<Rightarrow> journal_io \<Rightarrow> nat list \<Rightarrow> nat list \<times> (append_cause + journal_scan)" where
  "openScanned hasher io bytes =
     (if \<not> ioOpen io then (bytes, Inl IoCause)
      else case readBoundedJournalHandle (ioRead io) bytes of
        Inl c \<Rightarrow> (bytes, Inl c)
      | Inr raw \<Rightarrow>
          (case scanJournal hasher raw of
             Inl e \<Rightarrow> (bytes, Inl (CorruptCause e))
           | Inr sc \<Rightarrow>
               if scVerified sc = length raw then (bytes, Inr sc)
               else let cut = take (scVerified sc) bytes
                    in case ioRepair io of
                         IoFailed \<Rightarrow> (bytes, Inl IoCause)
                       | IoFailedAfter \<Rightarrow> (cut, Inl IoCause)
                       | IoOk \<Rightarrow>
                           if \<not> ioRepairSync io then (cut, Inl IoCause)
                           else (cut, case scanJournal hasher (take (scVerified sc) raw) of
                                        Inl e \<Rightarrow> Inl (CorruptCause e) | Inr sc \<Rightarrow> Inr sc)))"

fun acceptLoop :: "props list \<Rightarrow> bool \<Rightarrow> props list \<Rightarrow> disposition list \<times> props list" where
  "acceptLoop [] terminalSeen progress = ([], [])"
| "acceptLoop (e # es) terminalSeen progress =
     (if terminalSeen then apfst (Cons DispIgnored) (acceptLoop es terminalSeen progress)
      else if isProgress e \<and> list_ex (\<lambda>x. sameProgressIdentity x e) progress
      then apfst (Cons DispDeduplicated) (acceptLoop es terminalSeen progress)
      else map_prod (Cons DispCommitted) (Cons e)
             (acceptLoop es (isTerminal e) (if isProgress e then progress @ [e] else progress)))"

record append_plan =
  apDispositions :: "disposition list"
  apAccepted :: "props list"
  apRefresh :: bool

definition terminalIndex :: "props list \<Rightarrow> nat option" where
  "terminalIndex batch = (case filter (\<lambda>p. isTerminal (snd p)) (enumerate 0 batch) of [] \<Rightarrow> None | p # _ \<Rightarrow> Some (fst p))"

definition exactReplay :: "hasher \<Rightarrow> journal_scan \<Rightarrow> props list \<Rightarrow> js_exn + bool" where
  "exactReplay hasher sc batch =
     map_sum id (\<lambda>r. brBatchId r \<in> set (scBatchIds sc))
       (makeBatchRecord hasher (case terminalIndex batch of None \<Rightarrow> batch | Some i \<Rightarrow> take (i + 1) batch))"

definition planAppend :: "hasher \<Rightarrow> journal_scan \<Rightarrow> props list \<Rightarrow> bool \<Rightarrow> js_exn + append_plan" where
  "planAppend hasher sc batch batched =
     (if list_ex isTerminal (scEvents sc)
      then Inr \<lparr>apDispositions = map (\<lambda>_. DispIgnored) batch, apAccepted = [], apRefresh = list_ex isTerminal batch\<rparr>
      else resBind (if batched then exactReplay hasher sc batch else Inr False) (\<lambda>replay.
        if replay
        then Inr \<lparr>apDispositions = map (\<lambda>(i, _). case terminalIndex batch of
                      Some t \<Rightarrow> if t < i then DispIgnored else DispDeduplicated | None \<Rightarrow> DispDeduplicated) (enumerate 0 batch),
                  apAccepted = [], apRefresh = False\<rparr>
        else (case acceptLoop batch False (filter isProgress (scEvents sc)) of (ds, accepted) \<Rightarrow>
          Inr \<lparr>apDispositions = ds, apAccepted = accepted, apRefresh = (accepted \<noteq> [] \<or> list_ex isTerminal batch)\<rparr>)))"

definition reconcileRejectedAppend ::
    "hasher \<Rightarrow> journal_io \<Rightarrow> nat \<Rightarrow> nat list \<Rightarrow> jstr option \<Rightarrow> nat list \<Rightarrow> nat list \<times> (append_cause + bool)" where
  "reconcileRejectedAppend hasher io baseBytes expected expectedBatchId bytes =
     (case readBoundedJournalHandle (ioReread io) bytes of
        Inl c \<Rightarrow> (bytes, Inl c)
      | Inr raw \<Rightarrow>
          if drop baseBytes raw = expected
             \<and> (case scanJournal hasher raw of
                  Inl _ \<Rightarrow> False
                | Inr sc \<Rightarrow> scVerified sc = length raw
                    \<and> (case expectedBatchId of None \<Rightarrow> True | Some i \<Rightarrow> i \<in> set (scBatchIds sc)))
          then (bytes, if ioResync io then Inr True else Inl IoCause)
          else case ioTruncate io of
            IoFailed \<Rightarrow> (bytes, Inl IoCause)
          | IoFailedAfter \<Rightarrow> (take baseBytes bytes, Inl IoCause)
          | IoOk \<Rightarrow> (take baseBytes bytes, if ioTruncateSync io then Inr False else Inl IoCause))"

definition rejectedAppend ::
    "hasher \<Rightarrow> journal_io \<Rightarrow> nat \<Rightarrow> nat list \<Rightarrow> jstr option \<Rightarrow> nat list \<Rightarrow> nat list \<times> append_error" where
  "rejectedAppend hasher io baseBytes expected expectedBatchId bytes =
     (case reconcileRejectedAppend hasher io baseBytes expected expectedBatchId bytes of
        (bytes, Inl c) \<Rightarrow> (bytes, eventFailure c)
      | (bytes, Inr durable) \<Rightarrow> (bytes, \<lparr>aePhase = EventPhase, aeEventDurable = durable, aeCause = IoCause\<rparr>))"

definition writeLine ::
    "hasher \<Rightarrow> journal_io \<Rightarrow> nat \<Rightarrow> nat list \<Rightarrow> jstr option \<Rightarrow> nat list \<Rightarrow> nat list \<times> append_error option" where
  "writeLine hasher io baseBytes expected expectedBatchId bytes =
     (case ioAppend io of
        Some n \<Rightarrow> map_prod id Some (rejectedAppend hasher io baseBytes expected expectedBatchId (bytes @ take n expected))
      | None \<Rightarrow>
          if ioSync io then (bytes @ expected, None)
          else map_prod id Some (rejectedAppend hasher io baseBytes expected expectedBatchId (bytes @ expected)))"

text \<open>What a successful write phase leaves: the dispositions, whether to refresh the status, and durability.\<close>

record append_written =
  awDispositions :: "disposition list"
  awRefresh :: bool
  awDurable :: bool

definition plannedRecord :: "hasher \<Rightarrow> props list \<Rightarrow> bool \<Rightarrow> js_exn + journal_record" where
  "plannedRecord hasher accepted batched =
     (if batched then map_sum id BatchRecord (makeBatchRecord hasher accepted) else Inr (EventRecord (hd accepted)))"

definition recordBatchId :: "journal_record \<Rightarrow> jstr option" where
  "recordBatchId r = (case r of EventRecord _ \<Rightarrow> None | BatchRecord b \<Rightarrow> Some (brBatchId b))"

definition writePlan ::
    "hasher \<Rightarrow> journal_io \<Rightarrow> journal_scan \<Rightarrow> append_plan \<Rightarrow> bool \<Rightarrow> nat list \<Rightarrow> nat list \<times> (append_error + append_written)" where
  "writePlan hasher io sc plan batched bytes =
     (if apAccepted plan = []
      then (bytes, Inr \<lparr>awDispositions = apDispositions plan, awRefresh = apRefresh plan, awDurable = False\<rparr>)
      else if batched \<and> \<not> validBatchSemantics (apAccepted plan)
      then (bytes, Inl (eventFailure (corruptCause ''invalid deduplicated journal batch'')))
      else case plannedRecord hasher (apAccepted plan) batched of
        Inl e \<Rightarrow> (bytes, Inl (eventFailure (ThrownCause e)))
      | Inr r \<Rightarrow>
          if (case recordBatchId r of None \<Rightarrow> False | Some i \<Rightarrow> i \<in> set (scBatchIds sc))
          then (bytes, Inr \<lparr>awDispositions = map (\<lambda>d. if d = DispCommitted then DispDeduplicated else d) (apDispositions plan),
                            awRefresh = False, awDurable = False\<rparr>)
          else case recordLine r of
            Inl e \<Rightarrow> (bytes, Inl (eventFailure (ThrownCause e)))
          | Inr line \<Rightarrow>
              if int MAX_JOURNAL_AUTHORITY_BYTES - int (scVerified sc) < int (byteLength line)
              then (bytes, Inl (eventFailure (corruptCause ''journal append exceeds the authority byte limit'')))
              else case writeLine hasher io (scVerified sc) (encode line) (recordBatchId r) bytes of
                (bytes, Some e) \<Rightarrow> (bytes, Inl e)
              | (bytes, None) \<Rightarrow>
                  (bytes, Inr \<lparr>awDispositions = apDispositions plan, awRefresh = apRefresh plan, awDurable = True\<rparr>))"

text \<open>The end of a transaction: the handle is closed and the status cache rewritten.\<close>

definition finishAppend :: "journal_io \<Rightarrow> append_written \<Rightarrow> append_error + append_outcome" where
  "finishAppend io w =
     (if \<not> ioClose io then Inl \<lparr>aePhase = EventPhase, aeEventDurable = awDurable w, aeCause = IoCause\<rparr>
      else Inr \<lparr>aoEvents = awDispositions w,
                aoStatusCache = (if \<not> awRefresh w then CacheSkipped
                  else if ioStatus io then CacheRefreshed
                  else CacheFailed \<lparr>aePhase = StatusCachePhase, aeEventDurable = awDurable w, aeCause = IoCause\<rparr>)\<rparr>)"

definition appendTransaction ::
    "hasher \<Rightarrow> journal_io \<Rightarrow> props list \<Rightarrow> bool \<Rightarrow> nat list \<Rightarrow> nat list \<times> (append_error + append_outcome)" where
  "appendTransaction hasher io batch batched bytes =
     (case openScanned hasher io bytes of
        (bytes, Inl c) \<Rightarrow> (bytes, Inl (eventFailure c))
      | (bytes, Inr sc) \<Rightarrow>
          (case planAppend hasher sc batch batched of
             Inl e \<Rightarrow> (bytes, Inl (eventFailure (ThrownCause e)))
           | Inr plan \<Rightarrow>
               (case writePlan hasher io sc plan batched bytes of
                  (bytes, Inl e) \<Rightarrow> (bytes, Inl e)
                | (bytes, Inr w) \<Rightarrow> (bytes, finishAppend io w))))"

text \<open>\<open>append\<close> and \<open>appendBatch\<close> on events as the caller holds them.\<close>

definition journalAppend :: "hasher \<Rightarrow> journal_io \<Rightarrow> heap \<Rightarrow> jsval \<Rightarrow> nat list \<Rightarrow> nat list \<times> (append_error + append_outcome)" where
  "journalAppend hasher io h event bytes =
     (case parseRlmEvent hasher h event of
        Inl e \<Rightarrow> (bytes, Inl (eventFailure (CorruptCause e)))
      | Inr e \<Rightarrow> appendTransaction hasher io [e] False bytes)"

fun parseBatch :: "hasher \<Rightarrow> heap \<Rightarrow> jsval list \<Rightarrow> interpreter_error + props list" where
  "parseBatch hasher h [] = Inr []"
| "parseBatch hasher h (v # vs) =
     (case parseRlmEvent hasher h v of Inl e \<Rightarrow> Inl e | Inr e \<Rightarrow> map_sum id (Cons e) (parseBatch hasher h vs))"

definition journalAppendBatch ::
    "hasher \<Rightarrow> journal_io \<Rightarrow> heap \<Rightarrow> jsval list \<Rightarrow> nat list \<Rightarrow> nat list \<times> (append_error + append_outcome)" where
  "journalAppendBatch hasher io h batch bytes =
     (case parseBatch hasher h batch of
        Inl e \<Rightarrow> (bytes, Inl (eventFailure (CorruptCause e)))
      | Inr es \<Rightarrow>
          if \<not> validBatchSemantics es then (bytes, Inl (eventFailure (corruptCause ''invalid journal batch'')))
          else appendTransaction hasher io es True bytes)"

section \<open>Reading under the store's queue\<close>

record authority_snapshot =
  asEvents :: "props list"
  asPositions :: "event_position list"
  asVerified :: nat
  asPrefixSha256 :: jstr
  asPrefix :: "nat list"

definition authorityOf :: "(nat list \<Rightarrow> jstr) \<Rightarrow> nat list \<Rightarrow> journal_scan \<Rightarrow> authority_snapshot" where
  "authorityOf rawHasher raw sc =
     \<lparr>asEvents = scEvents sc, asPositions = scPositions sc, asVerified = scVerified sc,
      asPrefixSha256 = rawHasher (take (scVerified sc) raw), asPrefix = take (scVerified sc) raw\<rparr>"

text \<open>The file is opened, read and closed, and what was read is scanned.\<close>

definition readScanned :: "hasher \<Rightarrow> journal_io \<Rightarrow> nat list \<Rightarrow> append_cause + (nat list \<times> journal_scan)" where
  "readScanned hasher io bytes =
     (if \<not> ioOpen io then Inl IoCause
      else case readBoundedJournalHandle (ioRead io) bytes of
        Inl c \<Rightarrow> Inl (if ioClose io then c else IoCause)
      | Inr raw \<Rightarrow>
          if \<not> ioClose io then Inl IoCause
          else map_sum CorruptCause (Pair raw) (scanJournal hasher raw))"

definition inspectTail ::
    "hasher \<Rightarrow> (nat list \<Rightarrow> jstr) \<Rightarrow> journal_io \<Rightarrow> nat list \<Rightarrow> append_cause + (authority_snapshot \<times> nat)" where
  "inspectTail hasher rawHasher io bytes =
     map_sum id (\<lambda>(raw, sc). (authorityOf rawHasher raw sc, length raw - scVerified sc)) (readScanned hasher io bytes)"

definition authoritySnapshot ::
    "hasher \<Rightarrow> (nat list \<Rightarrow> jstr) \<Rightarrow> journal_io \<Rightarrow> nat list \<Rightarrow> append_cause + authority_snapshot" where
  "authoritySnapshot hasher rawHasher io bytes =
     (case readScanned hasher io bytes of
        Inl c \<Rightarrow> Inl c
      | Inr (raw, sc) \<Rightarrow>
          if scVerified sc \<noteq> length raw
          then Inl (corruptCause ''journal has an incomplete tail at checkpoint boundary'')
          else Inr (authorityOf rawHasher raw sc))"

text \<open>\<open>readEvents\<close>: a missing file has no events.\<close>

definition readEventsInternal :: "hasher \<Rightarrow> journal_io \<Rightarrow> nat list option \<Rightarrow> append_cause + props list" where
  "readEventsInternal hasher io stored =
     (case stored of
        None \<Rightarrow> Inr []
      | Some bytes \<Rightarrow> map_sum id (\<lambda>(raw, sc). scEvents sc) (readScanned hasher io bytes))"

text \<open>
  \<open>repairIncompleteTail\<close>, whose caller owns the writer lease: the snapshot and the number of bytes removed, or
  the failure.
\<close>

definition repairIncompleteTail ::
    "hasher \<Rightarrow> (nat list \<Rightarrow> jstr) \<Rightarrow> journal_io \<Rightarrow> nat list \<Rightarrow> nat list \<times> (append_cause + authority_snapshot \<times> nat)" where
  "repairIncompleteTail hasher rawHasher io bytes =
     (if \<not> ioOpen io then (bytes, Inl IoCause)
      else case readBoundedJournalHandle (ioRead io) bytes of
        Inl c \<Rightarrow> (bytes, Inl c)
      | Inr raw \<Rightarrow>
          (case scanJournal hasher raw of
             Inl e \<Rightarrow> (bytes, Inl (CorruptCause e))
           | Inr sc \<Rightarrow>
               let removed = length raw - scVerified sc;
                   finished = (if ioClose io then Inr (authorityOf rawHasher raw sc, removed) else Inl IoCause)
               in if removed = 0 then (bytes, finished)
                  else case ioRepair io of
                    IoFailed \<Rightarrow> (bytes, Inl IoCause)
                  | IoFailedAfter \<Rightarrow> (take (scVerified sc) bytes, Inl IoCause)
                  | IoOk \<Rightarrow> (take (scVerified sc) bytes, if ioRepairSync io then finished else Inl IoCause)))"

end
