(* ===== verification/JournalScan.thy ===== *)
theory JournalScan
  imports JournalStore
begin

text \<open>
  Reading a journal back.  A file that consists of record lines, followed by a torn line, scans to exactly the
  events of its records: in their order, each batch once, with the byte range of their line.
\<close>

section \<open>Lines in bytes\<close>

lemma scalars_bound: "(\<forall>u\<in>set us. 32 \<le> u) \<Longrightarrow> c \<in> set (scalars us) \<Longrightarrow> 32 \<le> c"
  by (induction us rule: scalars.induct) (auto split: if_splits)

lemma utf8_bound: "32 \<le> c \<Longrightarrow> b \<in> set (utf8 c) \<Longrightarrow> 32 \<le> b"
  by (auto simp: utf8_def split: if_splits)

lemma noControls_encode: "noControls t \<Longrightarrow> 10 \<notin> set (encode t)"
proof
  assume t: "noControls t" "10 \<in> set (encode t)"
  then obtain c where c: "c \<in> set (scalars (map unat t))" "10 \<in> set (utf8 c)"
    by (auto simp: encode_def utf8s_def codePoints_def)
  have "32 \<le> c" by (rule scalars_bound [OF _ c(1)]) (use t(1) in \<open>auto simp: noControls_def list_all_iff\<close>)
  with utf8_bound c(2) show False by fastforce
qed

lemma encode_line: "paired t \<Longrightarrow> encode (t @ [10]) = encode t @ [10]"
  by (simp add: encode_append encode_def [of "[10]"] codePoints_def isHigh_def isLow_def utf8_def utf8s_def)

lemma takeWhile_line: "10 \<notin> set l \<Longrightarrow> takeWhile (\<lambda>b. b \<noteq> 10) (l @ 10 # r) = l"
  for l :: "nat list"
  by (induction l) auto

lemma verifiedLength_append:
  assumes "10 \<notin> set tail" "raw = [] \<or> last raw = 10"
  shows "verifiedLength (raw @ tail) = length raw"
proof (cases "tail = []")
  case True
  then show ?thesis using assms(2) by (simp add: verifiedLength_def)
next
  case False
  then have "last (raw @ tail) \<noteq> 10" using assms(1) by (metis last_appendR last_in_set)
  moreover have "takeWhile (\<lambda>b. b \<noteq> 10) (rev tail @ rev raw) = rev tail"
    using assms by (cases raw rule: rev_cases) (auto simp: takeWhile_append takeWhile_eq_all_conv)
  ultimately show ?thesis using False by (auto simp: verifiedLength_def)
qed

section \<open>Records as written and as read\<close>

definition hexHasher :: "hasher \<Rightarrow> bool" where
  "hexHasher hasher \<longleftrightarrow> (\<forall>s. isSha256 (hasher s))"

definition recordGood :: "hasher \<Rightarrow> journal_record \<Rightarrow> bool" where
  "recordGood hasher r =
     (case r of
        EventRecord e \<Rightarrow> eventGood hasher e
      | BatchRecord b \<Rightarrow> makeBatchRecord hasher (brEvents b) = Inr b \<and> brEvents b \<noteq> []
          \<and> list_all (eventGood hasher) (brEvents b) \<and> validBatchSemantics (brEvents b))"

definition recordText :: "journal_record \<Rightarrow> jstr" where
  "recordText r = (case canonicalize (recordJson r) of Inr w \<Rightarrow> jsonText w | Inl _ \<Rightarrow> [])"

definition recordBytes :: "journal_record \<Rightarrow> nat list" where
  "recordBytes r = encode (recordText r @ [10])"

definition recordEvents :: "journal_record \<Rightarrow> props list" where
  "recordEvents r = (case r of EventRecord e \<Rightarrow> [canonProps e] | BatchRecord b \<Rightarrow> map canonProps (brEvents b))"

lemma canonicalForm_unique:
  assumes "sameJson v w" "canonicalForm v" "canonicalForm w" "jsonDepth v \<le> MAX_JSON_DEPTH" "jsonDepth w \<le> MAX_JSON_DEPTH"
  shows "v = w"
  using canonicalize_same [OF assms(1)] canonicalForm_canonical [OF assms(2,4)] canonicalForm_canonical [OF assms(3,5)] by simp

lemma sameProps_sym: "sameProps ps qs \<Longrightarrow> sameProps qs ps"
  unfolding sameProps_def by (metis option.rel_flip conversep_iff option.rel_mono_strong sameJson_sym)

lemma scalar_fixed: "rel_option sameJson a b \<Longrightarrow> comparable a \<Longrightarrow> b = a"
  by (cases a; cases b) (auto simp: comparable_def split: json.splits)

lemma sameField_kept:
  assumes "sameProps ps ps'" "sameProps qs qs'" "sameField ps k qs l"
  shows "sameField ps' k qs' l"
proof -
  have eq: "map_of ps (js k) = map_of qs (js l)" "comparable (map_of ps (js k))" "comparable (map_of qs (js l))"
    using assms(3) by (auto simp: sameField_def)
  show ?thesis
    using eq scalar_fixed [OF sameProps_lookup [OF assms(1)] eq(2)] scalar_fixed [OF sameProps_lookup [OF assms(2)] eq(3)]
    unfolding sameField_def by metis
qed

lemma sameField_same: "sameProps ps ps' \<Longrightarrow> sameProps qs qs' \<Longrightarrow> sameField ps k qs l = sameField ps' k qs' l"
  using sameField_kept sameProps_sym by metis

lemma isType_same: "sameProps ps qs \<Longrightarrow> isType t ps = isType t qs"
  by (simp add: isType_def isText_same)

lemma outputs_same:
  assumes "sameProps ps qs"
  shows "hasFullCellOutput ps = hasFullCellOutput qs" "hasFullAnswerOutput ps = hasFullAnswerOutput qs"
  unfolding hasFullCellOutput_def hasFullAnswerOutput_def hashField_def same_fields [OF assms] by (rule refl)+

lemma sameOutput_same:
  assumes "sameProps ps ps'" "sameProps qs qs'"
  shows "sameOutput ps qs = sameOutput ps' qs'"
  unfolding sameOutput_def outputs_same [OF assms(1)] outputs_same [OF assms(2)] sameField_same [OF assms] ..

lemma length_filter_same:
  "list_all2 sameProps es fs \<Longrightarrow> length (filter (isType t) es) = length (filter (isType t) fs)"
  by (induction rule: list_all2_induct) (simp_all add: isType_same)

lemma cellIndexes_same: "list_all2 sameProps es fs \<Longrightarrow> cellIndexes es = cellIndexes fs"
proof -
  assume "list_all2 sameProps es fs"
  then have "map fst (filter (\<lambda>p. isType ''cell_committed'' (snd p)) (enumerate n es))
      = map fst (filter (\<lambda>p. isType ''cell_committed'' (snd p)) (enumerate n fs))" for n
    by (induction arbitrary: n rule: list_all2_induct) (simp_all add: isType_same)
  then show ?thesis by (simp add: cellIndexes_def)
qed

lemma cellProgress_same:
  assumes "sameProps cell cell'" "list_all2 sameProps es fs"
  shows "cellProgress cell es = cellProgress cell' fs"
proof -
  from assms(2) have "list_all (\<lambda>(i, p). isProgress p \<and> sameField p ''frameId'' cell ''frameId'' \<and> sameField p ''iteration'' cell ''iteration''
        \<and> isNum p ''ordinal'' (Num (of_nat i))) (enumerate n es)
      = list_all (\<lambda>(i, p). isProgress p \<and> sameField p ''frameId'' cell' ''frameId'' \<and> sameField p ''iteration'' cell' ''iteration''
        \<and> isNum p ''ordinal'' (Num (of_nat i))) (enumerate n fs)" for n
    by (induction arbitrary: n rule: list_all2_induct)
      (simp_all add: isProgress_def isType_same isNum_same sameField_same [OF _ assms(1)])
  then show ?thesis by (simp add: cellProgress_def)
qed

lemma validBatchSemantics_same:
  assumes "list_all2 sameProps es fs"
  shows "validBatchSemantics es = validBatchSemantics fs"
proof -
  have len: "length es = length fs" using assms by (rule list_all2_lengthD)
  have at: "sameProps (es ! i) (fs ! i)" if "i < length fs" for i
    using list_all2_nthD [OF assms] that len by simp
  have bound: "c < length fs" if "cellIndexes fs = [c]" for c
  proof -
    have "c \<in> set (cellIndexes fs)" using that by simp
    then show ?thesis by (auto simp: cellIndexes_def in_set_enumerate_eq)
  qed
  have pair: "(length fs = 2 \<and> isType ''fallback_evidence_cited'' (es ! 0) \<and> isType ''answer_committed'' (es ! 1))
      = (length fs = 2 \<and> isType ''fallback_evidence_cited'' (fs ! 0) \<and> isType ''answer_committed'' (fs ! 1))"
  proof (cases "length fs = 2")
    case True
    then have "sameProps (es ! 0) (fs ! 0)" "sameProps (es ! 1) (fs ! 1)" using at by simp_all
    then show ?thesis by (simp only: isType_same)
  qed simp
  have fallback: "(sameField (es ! 0) ''frameId'' (es ! 1) ''frameId''
      \<and> isText (es ! 1) ''completionMode'' (js ''fallback_extract'') \<and> hasFullAnswerOutput (es ! 1))
    = (sameField (fs ! 0) ''frameId'' (fs ! 1) ''frameId''
      \<and> isText (fs ! 1) ''completionMode'' (js ''fallback_extract'') \<and> hasFullAnswerOutput (fs ! 1))" if "length fs = 2"
    using sameField_same [OF at [of 0] at [of 1]] isText_same [OF at [of 1]] outputs_same(2) [OF at [of 1]] that by simp
  have cell: "cellProgress (es ! c) (take c es) = cellProgress (fs ! c) (take c fs)"
    "own (es ! c) k = own (fs ! c) k" if "c < length fs" for c k
    using cellProgress_same [OF at [OF that] list_all2_takeI [OF assms]] own_same [OF at [OF that]] by simp_all
  have answer: "(isType ''answer_committed'' (es ! (c + 1)) \<and> sameField (es ! (c + 1)) ''frameId'' (es ! c) ''frameId''
      \<and> isText (es ! (c + 1)) ''completionMode'' (js ''answer'') \<and> sameOutput (es ! c) (es ! (c + 1)))
    = (isType ''answer_committed'' (fs ! (c + 1)) \<and> sameField (fs ! (c + 1)) ''frameId'' (fs ! c) ''frameId''
      \<and> isText (fs ! (c + 1)) ''completionMode'' (js ''answer'') \<and> sameOutput (fs ! c) (fs ! (c + 1)))" if "c + 1 < length fs" for c
  proof -
    have s: "sameProps (es ! c) (fs ! c)" "sameProps (es ! (c + 1)) (fs ! (c + 1))" using that at by simp_all
    show ?thesis
      by (simp only: isType_same [OF s(2)] isText_same [OF s(2)] sameField_same [OF s(2,1)] sameOutput_same [OF s])
  qed
  show ?thesis
  proof (cases "length fs = 2 \<and> isType ''fallback_evidence_cited'' (fs ! 0) \<and> isType ''answer_committed'' (fs ! 1)")
    case True
    note es = True [folded pair]
    show ?thesis
      unfolding validBatchSemantics_def length_filter_same [OF assms] len
      unfolding if_P [OF True] if_P [OF es] using fallback True by presburger
  next
    case False
    note no = False [folded pair]
    show ?thesis
    proof (cases "\<exists>c. cellIndexes fs = [c]")
      case True
      then obtain c where c: "cellIndexes fs = [c]" by blast
      note b = bound [OF c]
      show ?thesis
        unfolding validBatchSemantics_def length_filter_same [OF assms] len cellIndexes_same [OF assms] c
        unfolding if_not_P [OF False] if_not_P [OF no] list.case Let_def cell [OF b]
        using answer [of c] by (cases "length fs \<le> c + 1") (simp_all only: not_le if_True if_False)
    next
      case none: False
      then have "(case cellIndexes fs of [c] \<Rightarrow> P c | _ \<Rightarrow> False) = False" for P
        by (cases "cellIndexes fs"; cases "tl (cellIndexes fs)") auto
      then show ?thesis
        unfolding validBatchSemantics_def length_filter_same [OF assms] len cellIndexes_same [OF assms]
        unfolding if_not_P [OF False] if_not_P [OF no] by presburger
    qed
  qed
qed

text \<open>The canonical text of a record.\<close>

lemma sameProps_events: "list_all (eventGood hasher) es \<Longrightarrow> list_all2 sameProps es (map canonProps es)"
  by (induction es) (auto simp: sameProps_canon)

lemma sameJson_events: "list_all (eventGood hasher) es \<Longrightarrow> sameJson (JArr (map JObj es)) (JArr (map JObj (map canonProps es)))"
  by (rule same_array, induction es) (auto simp: canonProps_facts(3))

definition canonBatch :: "batch_record \<Rightarrow> batch_record" where
  "canonBatch b = b\<lparr>brEvents := map canonProps (brEvents b)\<rparr>"

lemma makeBatchRecord_iff:
  "makeBatchRecord hasher es = Inr b \<longleftrightarrow>
     (\<exists>t. canonicalStringify (JArr (map JObj es)) = Inr t \<and> brBatchId b = js ''batch_'' @ hasher t
        \<and> brChecksum b = hasher t \<and> brEvents b = es)"
  by (cases b) (auto simp: makeBatchRecord_def)

lemma makeBatchRecord_canon:
  assumes "makeBatchRecord hasher es = Inr b" "list_all (eventGood hasher) es"
  shows "makeBatchRecord hasher (map canonProps es) = Inr (canonBatch b)"
  using assms(1) canonicalize_same [OF sameJson_events [OF assms(2)]]
  by (auto simp: makeBatchRecord_def canonicalStringify_def canonBatch_def)

lemma batch_names:
  "distinct [js ''type'', js ''version'', js ''batchId'', js ''checksum'', js ''events'']"
  "sorted [js ''batchId'', js ''checksum'', js ''events'', js ''type'', js ''version'']"
  by (simp_all add: js_def)

lemma batchJson_keys: "batchJson b = JObj ps \<Longrightarrow> map fst ps = [js ''type'', js ''version'', js ''batchId'', js ''checksum'', js ''events'']"
  by (auto simp: batchJson_def)

lemma batchJson_same:
  assumes "list_all (eventGood hasher) (brEvents b)"
  shows "sameJson (batchJson b) (batchJson (canonBatch b))"
  unfolding batchJson_def
  by (rule same_object)
    (use batch_names(1) sameJson_events [OF assms] in \<open>simp_all add: canonBatch_def same_refl\<close>)

lemma batchJson_depth:
  assumes "list_all (eventGood hasher) (brEvents b)"
  shows "jsonDepth (batchJson b) \<le> MAX_JSON_DEPTH"
proof -
  have "jsonDepth (JObj e) \<le> 5" if "e \<in> set (brEvents b)" for e
    using that assms eventGood_depth [of hasher e] by (simp add: list_all_iff MAX_EVENT_DEPTH_def)
  moreover have "foldr max xs 0 \<le> (n :: nat) \<longleftrightarrow> (\<forall>x\<in>set xs. x \<le> n)" for xs n by (induction xs) auto
  ultimately have "jsonDepth (JArr (map JObj (brEvents b))) \<le> 6" by auto
  then show ?thesis by (simp add: batchJson_def MAX_JSON_DEPTH_def)
qed

lemma eventGood_canonical:
  assumes "eventGood hasher e" "canonicalForm w" "sameJson (JObj e) w"
  shows "w = JObj (canonProps e)"
proof (rule canonicalForm_unique)
  show "sameJson w (JObj (canonProps e))"
    using sameJson_trans [OF sameJson_sym [OF assms(3)] canonProps_facts(3) [OF assms(1)]] .
  have small: "jsonDepth v \<le> MAX_JSON_DEPTH" if "treeOk (MAX_EVENT_DEPTH + 1) v" for v
    using treeOk_depth [OF that] by (simp add: MAX_JSON_DEPTH_def MAX_EVENT_DEPTH_def)
  show "jsonDepth w \<le> MAX_JSON_DEPTH"
    by (rule small [OF treeOk_same [OF assms(3)]]) (use assms(1) eventGood_iff in blast)
  show "jsonDepth (JObj (canonProps e)) \<le> MAX_JSON_DEPTH"
    by (rule small) (use eventGood_canon [OF assms(1)] eventGood_iff in blast)
qed (use assms canonProps_facts(2) in auto)

text \<open>A batch record is read back with its fields and its events in canonical form.\<close>

lemma isDouble_int: "\<bar>k\<bar> \<le> 2 ^ 53 \<Longrightarrow> isDouble (JI k)"
  by (simp add: isDouble_def round64_of_int)

lemma batchJson_wellFormed:
  assumes "list_all (eventGood hasher) (brEvents b)"
  shows "jsonOrdered (batchJson b)" "jsonDoubles (batchJson b)"
proof -
  have names: "arrayIndex (js ''type'') = None" "arrayIndex (js ''version'') = None" "arrayIndex (js ''batchId'') = None"
    "arrayIndex (js ''checksum'') = None" "arrayIndex (js ''events'') = None"
    by (simp_all add: arrayIndex_def js_def isDigit_def)
  have "list_all (\<lambda>e. jsonOrdered (JObj e)) (brEvents b)" "list_all (\<lambda>e. jsonDoubles (JObj e)) (brEvents b)"
    using assms by (auto simp: eventGood_def list_all_iff)
  then show "jsonOrdered (batchJson b)" "jsonDoubles (batchJson b)"
    using names batch_names(1) isDouble_int [of 1]
    by (simp_all add: batchJson_def propsOrdered_def BATCH_RECORD_VERSION_def list_all_iff)
qed

lemma canonicalForm_array: "canonicalForm (JArr vs) \<Longrightarrow> v \<in> set vs \<Longrightarrow> canonicalForm v"
  by (auto simp: list_all_iff)

lemma canonicalForm_prop: "canonicalForm (JObj ps) \<Longrightarrow> map_of ps k = Some v \<Longrightarrow> canonicalForm v"
  by (fastforce simp: list_all_iff dest: map_of_SomeD)

lemma canonical_events:
  assumes "list_all (eventGood hasher) es" "list_all2 sameJson (map JObj es) ws" "list_all canonicalForm ws"
  shows "ws = map JObj (map canonProps es)"
  using assms
proof (induction es arbitrary: ws)
  case (Cons e es)
  then obtain w ws' where "ws = w # ws'" "sameJson (JObj e) w" "list_all2 sameJson (map JObj es) ws'"
    by (auto simp: list_all2_Cons1)
  with Cons show ?case using eventGood_canonical [of hasher e w] by simp
qed simp

text \<open>A batch record is read back with its fields and its events in canonical form.\<close>

lemma batch_reads_back:
  assumes good: "list_all (eventGood hasher) (brEvents b)"
  obtains ps where "canonicalize (batchJson b) = Inr (JObj ps)" "canonicalForm (JObj ps)" "jsonDoubles (JObj ps)"
    "sort (map fst ps) = [js ''batchId'', js ''checksum'', js ''events'', js ''type'', js ''version'']"
    "map_of ps (js ''type'') = Some (JStr BATCH_RECORD_TYPE)" "map_of ps (js ''version'') = Some (JNum BATCH_RECORD_VERSION)"
    "map_of ps (js ''batchId'') = Some (JStr (brBatchId b))" "map_of ps (js ''checksum'') = Some (JStr (brChecksum b))"
    "map_of ps (js ''events'') = Some (JArr (map JObj (map canonProps (brEvents b))))"
proof -
  obtain w where w: "canonicalize (batchJson b) = Inr w"
    using canonicalize_exists batchJson_depth [OF good] by blast
  have f: "canonicalForm w" "sameJson (batchJson b) w"
    using canonicalizeAt_Inr w batchJson_wellFormed(1) [OF good] by (auto simp: canonicalize_def)
  define bs where "bs = [(js ''type'', JStr BATCH_RECORD_TYPE), (js ''version'', JNum BATCH_RECORD_VERSION),
      (js ''batchId'', JStr (brBatchId b)), (js ''checksum'', JStr (brChecksum b)), (js ''events'', JArr (map JObj (brEvents b)))]"
  have bj: "batchJson b = JObj bs" by (simp add: batchJson_def bs_def)
  obtain ps where ps: "w = JObj ps" "sameProps bs ps" using sameJson_object_shape f(2) unfolding bj by blast
  have look: "rel_option sameJson (map_of bs k) (map_of ps k)" for k by (rule sameProps_lookup [OF ps(2)])
  have scalars: "map_of ps (js ''type'') = Some (JStr BATCH_RECORD_TYPE)" "map_of ps (js ''version'') = Some (JNum BATCH_RECORD_VERSION)"
    "map_of ps (js ''batchId'') = Some (JStr (brBatchId b))" "map_of ps (js ''checksum'') = Some (JStr (brChecksum b))"
    using look [of "js ''type''"] look [of "js ''version''"] look [of "js ''batchId''"] look [of "js ''checksum''"]
    by (auto simp: bs_def option_rel_Some1)
  obtain x where x: "map_of ps (js ''events'') = Some x" "sameJson (JArr (map JObj (brEvents b))) x"
    using look [of "js ''events''"] by (auto simp: bs_def option_rel_Some1)
  obtain ws where ws: "x = JArr ws" "list_all2 sameJson (map JObj (brEvents b)) ws"
    using sameJson_array_shape [OF x(2)] by blast
  have "canonicalForm x" by (rule canonicalForm_prop [OF _ x(1)]) (use f(1) ps(1) in simp)
  then have "list_all canonicalForm ws" by (simp add: ws(1) list_all_iff)
  with canonical_events [OF good ws(2)] have events: "map_of ps (js ''events'') = Some (JArr (map JObj (map canonProps (brEvents b))))"
    using x(1) ws(1) by simp
  have "distinct (map fst ps)" by (rule sorted_keys_distinct) (use f(1) ps(1) in simp)
  moreover have "set (map fst ps) = set [js ''batchId'', js ''checksum'', js ''events'', js ''type'', js ''version'']"
    using sameProps_keys [OF ps(2)] by (auto simp: bs_def)
  ultimately have "sort (map fst ps) = [js ''batchId'', js ''checksum'', js ''events'', js ''type'', js ''version'']"
    using batch_names by (intro sorted_distinct_set_unique) auto
  then show thesis
    using that w f(1) ps(1) scalars events jsonDoubles_same [OF f(2) batchJson_wellFormed(2) [OF good]] by simp
qed

text \<open>What scanning one record line does.\<close>

definition recordScan :: "nat \<Rightarrow> nat \<Rightarrow> journal_record \<Rightarrow> journal_scan \<Rightarrow> journal_scan" where
  "recordScan lineStart lineEnd r sc =
     (case r of
        EventRecord e \<Rightarrow> pushEvent lineStart lineEnd (canonProps e) sc
      | BatchRecord b \<Rightarrow>
          if brBatchId b \<in> set (scBatchIds sc) then sc
          else (fold (pushEvent lineStart lineEnd) (map canonProps (brEvents b)) sc)
                 \<lparr>scBatchIds := scBatchIds sc @ [brBatchId b]\<rparr>)"

lemma not_batch: "validEvent hasher e \<Longrightarrow> \<not> isText e ''type'' BATCH_RECORD_TYPE"
  by (auto simp: validEvent_def textOf_def isText_def validators_def BATCH_RECORD_TYPE_def)

lemma parseEvents_good: "list_all (eventGood hasher) es \<Longrightarrow> parseEvents hasher (map JObj es) = Some es"
  by (induction es) (simp_all add: eventGood_def)

lemma scanLine_record:
  assumes hasher: "hexHasher hasher" and good: "recordGood hasher r"
  shows "recordLine r = Inr (recordText r @ [10])" "scanLine hasher (recordText r) ls le sc = Some (recordScan ls le r sc)"
proof -
  have nonempty: "jsonText (JObj ps) \<noteq> []" for ps by (simp add: js_Cons)
  have "recordLine r = Inr (recordText r @ [10]) \<and> scanLine hasher (recordText r) ls le sc = Some (recordScan ls le r sc)"
  proof (cases r)
    case (EventRecord e)
    then have e: "eventGood hasher e" using good by (simp add: recordGood_def)
    note reads = event_reads_back [OF e]
    have "recordText r = jsonText (JObj (canonProps e))"
      using canonProps_facts(1) [OF e] by (simp add: recordText_def recordJson_def EventRecord)
    moreover have "\<not> isText (canonProps e) ''type'' BATCH_RECORD_TYPE"
      using eventGood_canon [OF e] not_batch eventGood_iff by blast
    ultimately show ?thesis
      using reads nonempty by (simp add: recordLine_def recordJson_def EventRecord scanLine_def scanEvent_def recordScan_def del: jsonText.simps)
  next
    case (BatchRecord b)
    then have b: "makeBatchRecord hasher (brEvents b) = Inr b" "brEvents b \<noteq> []" "list_all (eventGood hasher) (brEvents b)"
      "validBatchSemantics (brEvents b)"
      using good by (auto simp: recordGood_def)
    obtain ps where ps: "canonicalize (batchJson b) = Inr (JObj ps)" "canonicalForm (JObj ps)" "jsonDoubles (JObj ps)"
      "sort (map fst ps) = [js ''batchId'', js ''checksum'', js ''events'', js ''type'', js ''version'']"
      "map_of ps (js ''type'') = Some (JStr BATCH_RECORD_TYPE)" "map_of ps (js ''version'') = Some (JNum BATCH_RECORD_VERSION)"
      "map_of ps (js ''batchId'') = Some (JStr (brBatchId b))" "map_of ps (js ''checksum'') = Some (JStr (brChecksum b))"
      "map_of ps (js ''events'') = Some (JArr (map JObj (map canonProps (brEvents b))))"
      using batch_reads_back [OF b(3)] .
    have line: "recordText r = jsonText (JObj ps)" by (simp add: recordText_def recordJson_def BatchRecord ps(1))
    have ids: "isSha256 (brChecksum b)" "brBatchId b = js ''batch_'' @ brChecksum b"
      using b(1) hasher by (auto simp: makeBatchRecord_iff hexHasher_def)
    have "canonicalize (batchJson (canonBatch b)) = Inr (JObj ps)"
      using canonicalize_same [OF batchJson_same [OF b(3)]] ps(1) by simp
    then have again: "recordLine (BatchRecord (canonBatch b)) = Inr (jsonText (JObj ps) @ [10])"
      by (simp add: recordLine_def recordJson_def canonicalStringify_def del: jsonText.simps)
    have goods: "list_all (eventGood hasher) (map canonProps (brEvents b))"
      using b(3) by (auto simp: list_all_iff eventGood_canon)
    have "batchEnvelope ps = Some (brBatchId b, brChecksum b, map JObj (map canonProps (brEvents b)))"
      using ps ids b(2) by (simp add: batchEnvelope_def isNum_def BATCH_RECORD_VERSION_def isBatchId_def isPrefix_iff)
    moreover have "validBatchSemantics (map canonProps (brEvents b))"
      using validBatchSemantics_same [OF sameProps_events [OF b(3)]] b(4) by simp
    ultimately have "scanBatch hasher (jsonText (JObj ps)) ls le ps sc = Some (recordScan ls le r sc)"
      using parseEvents_good [OF goods] makeBatchRecord_canon [OF b(1,3)] again
      by (simp add: scanBatch_def recordScan_def BatchRecord canonBatch_def del: jsonText.simps)
    then have "scanLine hasher (jsonText (JObj ps)) ls le sc = Some (recordScan ls le r sc)"
      using jsonParse_canonical [OF ps(2,3)] ps(5) nonempty by (simp add: scanLine_def isText_def del: jsonText.simps)
    moreover have "recordLine r = Inr (recordText r @ [10])"
      using ps(1) line by (simp add: recordLine_def recordJson_def BatchRecord canonicalStringify_def del: jsonText.simps)
    ultimately show ?thesis by (simp only: line)
  qed
  then show "recordLine r = Inr (recordText r @ [10])" "scanLine hasher (recordText r) ls le sc = Some (recordScan ls le r sc)"
    by blast+
qed

section \<open>Files\<close>

definition logBytes :: "journal_record list \<Rightarrow> nat list" where
  "logBytes rs = concat (map recordBytes rs)"

lemma logBytes_simps [simp]: "logBytes [] = []" "logBytes (r # rs) = recordBytes r @ logBytes rs" "logBytes (rs @ ss) = logBytes rs @ logBytes ss"
  by (simp_all add: logBytes_def)

fun scanRecords :: "journal_record list \<Rightarrow> nat \<Rightarrow> journal_scan \<Rightarrow> journal_scan" where
  "scanRecords [] start sc = sc"
| "scanRecords (r # rs) start sc =
     scanRecords rs (start + length (recordBytes r)) (recordScan start (start + length (recordBytes r)) r sc)"

lemma recordBytes_line:
  "recordBytes r = encode (recordText r) @ [10]" "10 \<notin> set (encode (recordText r))" "bufferText (encode (recordText r)) = recordText r"
proof -
  have p: "paired (recordText r)" by (auto simp: recordText_def paired_jsonText split: sum.split)
  have n: "noControls (recordText r)" by (auto simp: recordText_def noControls_jsonText split: sum.split) (simp add: noControls_def)
  show "recordBytes r = encode (recordText r) @ [10]" by (simp add: recordBytes_def encode_line [OF p])
  show "10 \<notin> set (encode (recordText r))" by (rule noControls_encode [OF n])
  show "bufferText (encode (recordText r)) = recordText r" by (rule bufferText_encode [OF p])
qed

lemma scanLines_log:
  assumes "hexHasher hasher" "list_all (recordGood hasher) rs"
  shows "scanLines hasher (logBytes rs) start n sc = Inr (scanRecords rs start sc)"
  using assms(2)
proof (induction rs arbitrary: start n sc)
  case Nil
  show ?case by (simp add: scanLines.simps)
next
  case (Cons r rs)
  define l where "l = encode (recordText r)"
  have bytes: "logBytes (r # rs) = l @ 10 # logBytes rs" using recordBytes_line(1) by (simp add: l_def)
  have tw: "takeWhile (\<lambda>b. b \<noteq> 10) (l @ 10 # logBytes rs) = l"
    by (rule takeWhile_line) (simp add: l_def recordBytes_line(2))
  have len: "length (recordBytes r) = length l + 1" by (simp add: recordBytes_line(1) l_def)
  have "scanLine hasher (bufferText l) start (start + length l + 1) sc = Some (recordScan start (start + length l + 1) r sc)"
    using scanLine_record(2) [OF assms(1)] Cons.prems by (simp add: l_def recordBytes_line(3))
  moreover have "scanLines hasher (logBytes rs) (start + length l + 1) (n + 1) (recordScan start (start + length l + 1) r sc)
      = Inr (scanRecords rs (start + length l + 1) (recordScan start (start + length l + 1) r sc))"
    by (rule Cons.IH) (use Cons.prems in simp)
  ultimately show ?case
    unfolding bytes scanLines.simps [of hasher "l @ 10 # logBytes rs"] by (simp add: tw Let_def len)
qed

definition freshScan :: journal_scan where
  "freshScan = \<lparr>scEvents = [], scPositions = [], scVerified = 0, scBatchIds = []\<rparr>"

definition logScan :: "journal_record list \<Rightarrow> journal_scan" where
  "logScan rs = (scanRecords rs 0 freshScan)\<lparr>scVerified := length (logBytes rs)\<rparr>"

lemma logBytes_last: "logBytes rs = [] \<or> last (logBytes rs) = 10"
  by (cases rs rule: rev_cases) (simp_all add: recordBytes_line(1))

text \<open>A journal file: record lines, then what a torn append left.\<close>

lemma scanJournal_log:
  assumes "hexHasher hasher" "list_all (recordGood hasher) rs" "10 \<notin> set tail"
  shows "scanJournal hasher (logBytes rs @ tail) = Inr (logScan rs)"
proof -
  have "verifiedLength (logBytes rs @ tail) = length (logBytes rs)"
    by (rule verifiedLength_append [OF assms(3) logBytes_last])
  then show ?thesis
    using scanLines_log [OF assms(1,2), of 0 0 freshScan] by (simp add: scanJournal_def logScan_def freshScan_def)
qed

section \<open>The events of a log\<close>

definition batchIds :: "journal_record list \<Rightarrow> jstr list" where
  "batchIds rs = concat (map (\<lambda>r. case recordBatchId r of None \<Rightarrow> [] | Some i \<Rightarrow> [i]) rs)"

lemma batchIds_simps [simp]:
  "batchIds [] = []" "batchIds (EventRecord e # rs) = batchIds rs" "batchIds (BatchRecord b # rs) = brBatchId b # batchIds rs"
  "batchIds (rs @ ss) = batchIds rs @ batchIds ss"
  by (simp_all add: batchIds_def recordBatchId_def)

lemma pushEvent_fields [simp]:
  "scEvents (pushEvent a b e sc) = scEvents sc @ [e]" "scBatchIds (pushEvent a b e sc) = scBatchIds sc"
  "scVerified (pushEvent a b e sc) = scVerified sc"
  by (simp_all add: pushEvent_def)

lemma fold_pushEvent [simp]:
  "scEvents (fold (pushEvent a b) es sc) = scEvents sc @ es" "scBatchIds (fold (pushEvent a b) es sc) = scBatchIds sc"
  by (induction es arbitrary: sc) simp_all

lemma scanRecords_events:
  assumes "distinct (scBatchIds sc @ batchIds rs)"
  shows "scEvents (scanRecords rs start sc) = scEvents sc @ concat (map recordEvents rs)"
    "scBatchIds (scanRecords rs start sc) = scBatchIds sc @ batchIds rs"
proof -
  have "scEvents (scanRecords rs start sc) = scEvents sc @ concat (map recordEvents rs)
      \<and> scBatchIds (scanRecords rs start sc) = scBatchIds sc @ batchIds rs"
    using assms
  proof (induction rs arbitrary: start sc)
    case (Cons r rs)
    show ?case
    proof (cases r)
      case (EventRecord e)
      then show ?thesis using Cons by (simp add: recordScan_def recordEvents_def)
    next
      case (BatchRecord b)
      then show ?thesis using Cons by (simp add: recordScan_def recordEvents_def)
    qed
  qed simp
  then show "scEvents (scanRecords rs start sc) = scEvents sc @ concat (map recordEvents rs)"
    "scBatchIds (scanRecords rs start sc) = scBatchIds sc @ batchIds rs" by blast+
qed

lemma logScan_fields:
  assumes "distinct (batchIds rs)"
  shows "scEvents (logScan rs) = concat (map recordEvents rs)" "scBatchIds (logScan rs) = batchIds rs"
    "scVerified (logScan rs) = length (logBytes rs)"
  using scanRecords_events [of freshScan rs 0] assms by (simp_all add: logScan_def freshScan_def)

end
