(* ===== verification/JournalAppend.thy ===== *)
theory JournalAppend
  imports JournalScan "HOL-Library.Sublist"
begin

text \<open>
  Appending to a journal.  Whatever the file system does during a transaction, the file remains a list of record
  lines followed by an incomplete one, and its records are those before, or those before and the one appended:
  the store refines an append-only log of events.
\<close>

section \<open>Journal files\<close>

definition journalFile :: "hasher \<Rightarrow> journal_record list \<Rightarrow> nat list \<Rightarrow> bool" where
  "journalFile hasher rs bytes \<longleftrightarrow>
     list_all (recordGood hasher) rs \<and> distinct (batchIds rs) \<and> (\<exists>tail. bytes = logBytes rs @ tail \<and> 10 \<notin> set tail)"

definition logEvents :: "journal_record list \<Rightarrow> props list" where
  "logEvents rs = concat (map recordEvents rs)"

lemma logEvents_simps [simp]: "logEvents [] = []" "logEvents (rs @ ss) = logEvents rs @ logEvents ss" "logEvents [r] = recordEvents r"
  by (simp_all add: logEvents_def)

lemma journalFile_scan:
  "hexHasher hasher \<Longrightarrow> journalFile hasher rs bytes \<Longrightarrow> scanJournal hasher bytes = Inr (logScan rs)"
  unfolding journalFile_def using scanJournal_log by blast

lemma journalFile_log: "journalFile hasher rs bytes \<Longrightarrow> journalFile hasher rs (logBytes rs)"
  unfolding journalFile_def by (metis append_Nil2 empty_iff list.set(1))

lemma journalFile_take: "journalFile hasher rs bytes \<Longrightarrow> take (length (logBytes rs)) bytes = logBytes rs"
  unfolding journalFile_def by auto

lemma journal_events:
  "hexHasher hasher \<Longrightarrow> journalFile hasher rs bytes \<Longrightarrow> parseJournalBytes hasher bytes = Inr (logEvents rs)"
  using journalFile_scan logScan_fields(1) [of rs]
  by (simp add: parseJournalBytes_def parseJournalSnapshotBytes_def journalFile_def logEvents_def)

lemma journalFile_reads:
  assumes "hexHasher hasher" "journalFile hasher rs bytes"
  shows "scanJournal hasher bytes = Inr (logScan rs)" "scanJournal hasher (logBytes rs) = Inr (logScan rs)"
    "scVerified (logScan rs) = length (logBytes rs)" "length (logBytes rs) = length bytes \<longleftrightarrow> bytes = logBytes rs"
    "take (length (logBytes rs)) bytes = logBytes rs" "journalFile hasher rs (logBytes rs)"
proof -
  show "scanJournal hasher bytes = Inr (logScan rs)" by (rule journalFile_scan [OF assms])
  show "journalFile hasher rs (logBytes rs)" by (rule journalFile_log [OF assms(2)])
  then show "scanJournal hasher (logBytes rs) = Inr (logScan rs)" by (rule journalFile_scan [OF assms(1)])
  show "scVerified (logScan rs) = length (logBytes rs)" using assms(2) logScan_fields(3) by (simp add: journalFile_def)
  show "length (logBytes rs) = length bytes \<longleftrightarrow> bytes = logBytes rs" using assms(2) by (auto simp: journalFile_def)
  show "take (length (logBytes rs)) bytes = logBytes rs" by (rule journalFile_take [OF assms(2)])
qed

lemma openScanned_file:
  assumes "hexHasher hasher" "journalFile hasher rs bytes"
  shows "case openScanned hasher io bytes of
      (bytes', Inl c) \<Rightarrow> journalFile hasher rs bytes'
    | (bytes', Inr sc) \<Rightarrow> bytes' = logBytes rs \<and> sc = logScan rs"
  using assms(2) journalFile_log [OF assms(2)]
  by (simp add: openScanned_def readBoundedJournalHandle_def Let_def journalFile_reads [OF assms] split: io_result.split)

lemma repair_file:
  assumes "hexHasher hasher" "journalFile hasher rs bytes"
  shows "journalFile hasher rs (fst (repairIncompleteTail hasher rawHasher io bytes))"
  using assms(2) journalFile_log [OF assms(2)]
  by (simp add: repairIncompleteTail_def readBoundedJournalHandle_def Let_def journalFile_reads [OF assms] split: io_result.split)

section \<open>Writing one record\<close>

lemma torn_line:
  assumes "n < length (recordBytes r)"
  shows "10 \<notin> set (take n (recordBytes r))"
  using assms recordBytes_line(1,2) [of r] by (auto simp: take_Cons' dest: in_set_takeD split: if_splits)

text \<open>A record the log does not have yet.\<close>

definition freshRecord :: "hasher \<Rightarrow> journal_record list \<Rightarrow> journal_record \<Rightarrow> bool" where
  "freshRecord hasher rs r \<longleftrightarrow> recordGood hasher r \<and> (case recordBatchId r of None \<Rightarrow> True | Some i \<Rightarrow> i \<notin> set (batchIds rs))"

lemma journalFile_snoc:
  assumes "journalFile hasher rs bytes" "freshRecord hasher rs r"
  shows "journalFile hasher (rs @ [r]) (logBytes (rs @ [r]))"
  using assms unfolding journalFile_def freshRecord_def
  by (cases r) (auto simp: recordBatchId_def intro: exI [of _ "[]"])

lemma rejectedAppend_file:
  assumes hasher: "hexHasher hasher" and bytes: "journalFile hasher rs bytes" and fresh: "freshRecord hasher rs r"
    and part: "part = take n (recordBytes r)"
    and rejected: "rejectedAppend hasher io (length (logBytes rs)) (recordBytes r) (recordBatchId r) (logBytes rs @ part) = (bytes', e)"
  shows "journalFile hasher rs bytes' \<and> \<not> aeEventDurable e \<or> journalFile hasher (rs @ [r]) bytes'"
proof (cases "n < length (recordBytes r)")
  case True
  have torn: "journalFile hasher rs (logBytes rs @ part)"
    using bytes torn_line [OF True] unfolding journalFile_def part by auto
  have "part \<noteq> recordBytes r" using True part by (metis length_take min.absorb4 nat_neq_iff)
  then show ?thesis
    using rejected torn journalFile_log [OF bytes]
    by (auto simp: rejectedAppend_def reconcileRejectedAppend_def readBoundedJournalHandle_def eventFailure_def
        split: if_splits io_result.splits)
next
  case False
  then have whole: "logBytes rs @ part = logBytes (rs @ [r])" using part by simp
  note snoc = journalFile_snoc [OF bytes fresh]
  have "scanJournal hasher (logBytes (rs @ [r])) = Inr (logScan (rs @ [r]))" by (rule journalFile_scan [OF hasher snoc])
  moreover have "distinct (batchIds (rs @ [r]))" using snoc by (simp add: journalFile_def)
  note logScan_fields [OF this]
  moreover have "case recordBatchId r of None \<Rightarrow> True | Some i \<Rightarrow> i \<in> set (batchIds (rs @ [r]))"
    by (cases r) (simp_all add: recordBatchId_def)
  ultimately show ?thesis
    using rejected snoc unfolding whole
    by (auto simp: rejectedAppend_def reconcileRejectedAppend_def readBoundedJournalHandle_def eventFailure_def
        split: if_splits io_result.splits option.splits)
qed

lemma writeLine_file:
  assumes hasher: "hexHasher hasher" and bytes: "journalFile hasher rs bytes" and fresh: "freshRecord hasher rs r"
    and "writeLine hasher io (length (logBytes rs)) (recordBytes r) (recordBatchId r) (logBytes rs) = (bytes', x)"
  shows "case x of None \<Rightarrow> journalFile hasher (rs @ [r]) bytes'
    | Some e \<Rightarrow> journalFile hasher rs bytes' \<and> \<not> aeEventDurable e \<or> journalFile hasher (rs @ [r]) bytes'"
proof (cases "ioAppend io")
  case (Some n)
  then show ?thesis
    using assms(4) rejectedAppend_file [OF hasher bytes fresh refl [of "take n (recordBytes r)"]]
    by (auto simp: writeLine_def map_prod_def split: prod.splits)
next
  case None
  have all: "recordBytes r = take (length (recordBytes r)) (recordBytes r)" by simp
  show ?thesis
  proof (cases "ioSync io")
    case True
    then show ?thesis using assms(4) None journalFile_snoc [OF bytes fresh] by (auto simp: writeLine_def)
  next
    case False
    then show ?thesis
      using assms(4) None rejectedAppend_file [OF hasher bytes fresh all]
      by (auto simp: writeLine_def map_prod_def split: prod.splits)
  qed
qed

section \<open>What a transaction accepts\<close>

definition committedOf :: "disposition list \<Rightarrow> props list \<Rightarrow> props list" where
  "committedOf ds batch = map snd (filter (\<lambda>p. fst p = DispCommitted) (zip ds batch))"

lemma committedOf_simps [simp]:
  "committedOf [] batch = []" "committedOf (d # ds) (e # es) = (if d = DispCommitted then e # committedOf ds es else committedOf ds es)"
  by (simp_all add: committedOf_def)

lemma committedOf_none: "DispCommitted \<notin> set ds \<Longrightarrow> committedOf ds batch = []"
  by (auto simp: committedOf_def filter_empty_conv dest: set_zip_leftD)

text \<open>Two events that may not both be in a log.\<close>

definition sameProgress :: "props \<Rightarrow> props \<Rightarrow> bool" where
  "sameProgress x y \<longleftrightarrow> isProgress x \<and> isProgress y \<and> sameProgressIdentity x y"

text \<open>Only the last event of a log may be terminal, and no progress event is repeated.\<close>

definition logOk :: "props list \<Rightarrow> bool" where
  "logOk es \<longleftrightarrow> list_all (\<lambda>e. \<not> isTerminal e) (butlast es) \<and> sorted_wrt (\<lambda>x y. \<not> sameProgress x y) es"

lemma acceptLoop_committed:
  "acceptLoop es t p = (ds, acc) \<Longrightarrow> acc = committedOf ds es \<and> length ds = length es"
proof (induction es t p arbitrary: ds acc rule: acceptLoop.induct)
  case (2 e es t p)
  then show ?case by (fastforce simp: apfst_def map_prod_def split: if_splits prod.splits)
qed simp

lemma acceptLoop_subseq: "acceptLoop es t p = (ds, acc) \<Longrightarrow> subseq acc es"
proof (induction es t p arbitrary: ds acc rule: acceptLoop.induct)
  case (2 e es t p)
  then show ?case by (fastforce simp: apfst_def map_prod_def split: if_splits prod.splits)
qed simp

lemma acceptLoop_ok:
  "acceptLoop es t p = (ds, acc) \<Longrightarrow> list_all isProgress p
    \<Longrightarrow> logOk acc \<and> (t \<longrightarrow> acc = []) \<and> (\<forall>x\<in>set p. \<forall>a\<in>set acc. \<not> sameProgress x a)"
proof (induction es t p arbitrary: ds acc rule: acceptLoop.induct)
  case (2 e es t p)
  show ?case
  proof (cases "t \<or> isProgress e \<and> list_ex (\<lambda>x. sameProgressIdentity x e) p")
    case True
    then show ?thesis using 2 by (auto simp: apfst_def map_prod_def split: if_splits prod.splits)
  next
    case False
    obtain ds' acc' where r: "acceptLoop es (isTerminal e) (if isProgress e then p @ [e] else p) = (ds', acc')" "acc = e # acc'"
      using 2(4) False by (auto simp: map_prod_def split: prod.splits)
    have p: "list_all isProgress (if isProgress e then p @ [e] else p)" using 2(5) by simp
    have ih: "logOk acc' \<and> (isTerminal e \<longrightarrow> acc' = []) \<and> (\<forall>x\<in>set (if isProgress e then p @ [e] else p). \<forall>a\<in>set acc'. \<not> sameProgress x a)"
      using 2(3) [OF _ _ r(1) p] False by blast
    have fresh: "\<not> sameProgress x e" if "x \<in> set p" for x
      using False that by (auto simp: sameProgress_def list_ex_iff)
    have later: "\<not> sameProgress e a" if "a \<in> set acc'" for a
      using ih that by (cases "isProgress e") (auto simp: sameProgress_def)
    show ?thesis
      using ih fresh later False by (auto simp: r(2) logOk_def split: if_splits)
  qed
qed (simp add: logOk_def)

lemma canon_same:
  assumes "eventGood hasher x"
  shows "isTerminal (canonProps x) = isTerminal x" "isProgress (canonProps x) = isProgress x"
  using isType_same [OF sameProps_canon [OF assms]] by (simp_all add: isTerminal_def isProgress_def)

lemma canon_sameProgress:
  assumes "eventGood hasher x" "eventGood hasher y"
  shows "sameProgress (canonProps x) (canonProps y) = sameProgress x y" "sameProgress (canonProps x) y = sameProgress x y"
    "sameProgress x (canonProps y) = sameProgress x y"
proof -
  have r: "sameProps v v" for v by (auto simp: sameProps_def option.rel_refl same_refl)
  note s = sameProps_sym [OF sameProps_canon [OF assms(1)]] sameProps_sym [OF sameProps_canon [OF assms(2)]]
  show "sameProgress (canonProps x) (canonProps y) = sameProgress x y" "sameProgress (canonProps x) y = sameProgress x y"
    "sameProgress x (canonProps y) = sameProgress x y"
    unfolding sameProgress_def sameProgressIdentity_def canon_same [OF assms(1)] canon_same [OF assms(2)]
    using sameField_same [OF s] sameField_same [OF s(1) r] sameField_same [OF r s(2)] by simp_all
qed

lemma sorted_wrt_map_good:
  assumes "list_all (eventGood hasher) acc"
  shows "sorted_wrt (\<lambda>x y. \<not> sameProgress x y) (map canonProps acc) = sorted_wrt (\<lambda>x y. \<not> sameProgress x y) acc"
  using assms by (induction acc) (auto simp: list_all_iff canon_sameProgress(1))

lemma logOk_canon: "list_all (eventGood hasher) acc \<Longrightarrow> logOk (map canonProps acc) = logOk acc"
proof -
  assume good: "list_all (eventGood hasher) acc"
  have "list_all (\<lambda>e. \<not> isTerminal e) (map canonProps (butlast acc)) = list_all (\<lambda>e. \<not> isTerminal e) (butlast acc)"
  proof -
    have "isTerminal (canonProps e) = isTerminal e" if "e \<in> set (butlast acc)" for e
      using good in_set_butlastD [OF that] canon_same(1) by (metis list_all_iff)
    then show ?thesis by (simp add: list_all_iff)
  qed
  then show ?thesis by (simp add: logOk_def sorted_wrt_map_good [OF good] flip: map_butlast)
qed

text \<open>Appending what the loop accepts keeps the log well formed.\<close>

lemma acceptLoop_logOk:
  assumes "logOk es" "\<not> list_ex isTerminal es" "list_all (eventGood hasher) es"
    and "acceptLoop batch False (filter isProgress es) = (ds, acc)" "list_all (eventGood hasher) batch"
  shows "logOk (es @ map canonProps acc)" "list_all (eventGood hasher) acc"
proof -
  show good: "list_all (eventGood hasher) acc"
    using assms(5) acceptLoop_committed [OF assms(4)] by (auto simp: list_all_iff committedOf_def dest!: set_zip_rightD)
  have "logOk acc" "\<forall>x\<in>set (filter isProgress es). \<forall>a\<in>set acc. \<not> sameProgress x a"
    using acceptLoop_ok [OF assms(4)] by (auto simp: list_all_iff)
  have "\<not> sameProgress x (canonProps a)" if "x \<in> set es" "a \<in> set acc" for x a
  proof -
    have "sameProgress x (canonProps a) = sameProgress x a"
      using canon_sameProgress(3) assms(3) good that by (metis list_all_iff)
    moreover have "\<not> sameProgress x a"
      using \<open>\<forall>x\<in>set (filter isProgress es). \<forall>a\<in>set acc. \<not> sameProgress x a\<close> that by (auto simp: sameProgress_def)
    ultimately show ?thesis by simp
  qed
  moreover have "logOk (map canonProps acc)" using logOk_canon [OF good] \<open>logOk acc\<close> by simp
  ultimately show "logOk (es @ map canonProps acc)"
    using assms(1,2) by (auto simp: logOk_def sorted_wrt_append butlast_append list_all_iff list_ex_iff dest: in_set_butlastD)
qed

lemma planAppend_cases:
  assumes "planAppend hasher sc batch batched = Inr plan"
  shows "apAccepted plan = [] \<and> committedOf (apDispositions plan) batch = []
    \<or> \<not> list_ex isTerminal (scEvents sc)
      \<and> acceptLoop batch False (filter isProgress (scEvents sc)) = (apDispositions plan, apAccepted plan)"
proof -
  have none: "DispCommitted \<notin> set (map (\<lambda>(i, _). case t of Some t \<Rightarrow> if t < i then DispIgnored else DispDeduplicated
      | None \<Rightarrow> DispDeduplicated) (enumerate 0 batch))" for t
    by (auto split: option.splits if_splits)
  have ignored: "DispCommitted \<notin> set (map (\<lambda>_. DispIgnored) batch)" by auto
  show ?thesis
    using assms committedOf_none [OF none] committedOf_none [OF ignored]
    by (auto simp: planAppend_def resBind_eq_Inr split: if_splits prod.splits)
qed

section \<open>The transaction\<close>

text \<open>The records a transaction added, and what its result says of them.\<close>

definition appendedTo :: "hasher \<Rightarrow> journal_record list \<Rightarrow> props list \<Rightarrow> journal_record list \<Rightarrow> bool" where
  "appendedTo hasher rs batch ss \<longleftrightarrow>
     ss = [] \<or> (\<exists>r ds acc. ss = [r] \<and> \<not> list_ex isTerminal (logEvents rs)
       \<and> acceptLoop batch False (filter isProgress (logEvents rs)) = (ds, acc) \<and> acc \<noteq> [] \<and> recordEvents r = map canonProps acc)"

lemma plannedRecord_good:
  assumes "list_all (eventGood hasher) acc" "acc \<noteq> []" "batched \<longrightarrow> validBatchSemantics acc" "batched \<or> length acc = 1"
    "plannedRecord hasher acc batched = Inr r"
  shows "recordGood hasher r" "recordEvents r = map canonProps acc"
proof -
  have "recordGood hasher r \<and> recordEvents r = map canonProps acc"
  proof (cases batched)
    case True
    then obtain b where b: "makeBatchRecord hasher acc = Inr b" "r = BatchRecord b"
      using assms(5) by (auto simp: plannedRecord_def)
    then have "brEvents b = acc" by (auto simp: makeBatchRecord_iff)
    then show ?thesis using assms b True by (simp add: recordGood_def recordEvents_def)
  next
    case False
    then obtain e where "acc = [e]" using assms(4) by (auto simp: length_Suc_conv)
    then show ?thesis using assms False by (auto simp: plannedRecord_def recordGood_def recordEvents_def)
  qed
  then show "recordGood hasher r" "recordEvents r = map canonProps acc" by blast+
qed

lemma committed_dedup: "DispCommitted \<notin> set (map (\<lambda>d. if d = DispCommitted then DispDeduplicated else d) ds)"
  by auto

lemma writePlan_file:
  assumes hasher: "hexHasher hasher" and log: "journalFile hasher rs (logBytes rs)"
    and batch: "list_all (eventGood hasher) batch" "batched \<or> length batch = 1"
    and plan: "planAppend hasher (logScan rs) batch batched = Inr plan"
  shows "case writePlan hasher io (logScan rs) plan batched (logBytes rs) of (bytes', result) \<Rightarrow>
    \<exists>ss. journalFile hasher (rs @ ss) bytes' \<and> appendedTo hasher rs batch ss
      \<and> (case result of
           Inr w \<Rightarrow> logEvents ss = map canonProps (committedOf (awDispositions w) batch) \<and> (awDurable w \<longrightarrow> ss \<noteq> [])
         | Inl e \<Rightarrow> aeEventDurable e \<longrightarrow> ss \<noteq> [])"
proof -
  have scan: "scEvents (logScan rs) = logEvents rs" "scBatchIds (logScan rs) = batchIds rs" "scVerified (logScan rs) = length (logBytes rs)"
    using log logScan_fields [of rs] by (simp_all add: journalFile_def logEvents_def)
  show ?thesis
  proof (cases "apAccepted plan = []")
    case True
    have "committedOf (apDispositions plan) batch = []"
      using planAppend_cases [OF plan] acceptLoop_committed True by metis
    then show ?thesis using True log by (auto simp: writePlan_def appendedTo_def intro!: exI [of _ "[]"])
  next
    case acc: False
    define as where "as = apAccepted plan"
    have loop: "\<not> list_ex isTerminal (logEvents rs)" "acceptLoop batch False (filter isProgress (logEvents rs)) = (apDispositions plan, as)"
      using planAppend_cases [OF plan] acc scan(1) by (auto simp: as_def)
    have as: "as = committedOf (apDispositions plan) batch" "length (apDispositions plan) = length batch"
      using acceptLoop_committed [OF loop(2)] by simp_all
    have good: "list_all (eventGood hasher) as"
      using batch(1) as(1) by (auto simp: list_all_iff committedOf_def dest!: set_zip_rightD)
    have same: "journalFile hasher (rs @ []) (logBytes rs)" "appendedTo hasher rs batch []"
      using log by (simp_all add: appendedTo_def)
    show ?thesis
    proof (cases "batched \<and> \<not> validBatchSemantics as")
      case True
      then show ?thesis using same acc by (auto simp: writePlan_def as_def eventFailure_def intro: exI [of _ "[]"])
    next
      case sem: False
      show ?thesis
      proof (cases "plannedRecord hasher as batched")
        case (Inl e)
        then show ?thesis using same acc sem by (auto simp: writePlan_def eventFailure_def simp flip: as_def intro: exI [of _ "[]"])
      next
        case (Inr r)
        have "batched \<or> length as = 1"
        proof (cases batched)
          case False
          then obtain x d where "batch = [x]" "apDispositions plan = [d]"
            using batch(2) as(2) by (auto simp: length_Suc_conv)
          then show ?thesis using as(1) acc by (auto simp: as_def split: if_splits)
        qed simp
        note r = plannedRecord_good [OF good _ _ this Inr]
        have r: "recordGood hasher r" "recordEvents r = map canonProps as" using r acc sem by (auto simp: as_def)
        show ?thesis
        proof (cases "case recordBatchId r of None \<Rightarrow> False | Some i \<Rightarrow> i \<in> set (batchIds rs)")
          case True
          then have "writePlan hasher io (logScan rs) plan batched (logBytes rs) = (logBytes rs,
              Inr \<lparr>awDispositions = map (\<lambda>d. if d = DispCommitted then DispDeduplicated else d) (apDispositions plan),
                   awRefresh = False, awDurable = False\<rparr>)"
            using acc sem Inr by (simp add: writePlan_def scan flip: as_def split: option.splits)
          then show ?thesis
            using same committedOf_none [OF committed_dedup] by (auto intro!: exI [of _ "[]"])
        next
          case new: False
          have line: "recordLine r = Inr (recordText r @ [10])" by (rule scanLine_record(1) [OF hasher r(1)])
          have fresh: "freshRecord hasher rs r" using r(1) new by (auto simp: freshRecord_def split: option.splits)
          have added: "appendedTo hasher rs batch [r]" using loop r(2) acc by (auto simp: appendedTo_def as_def)
          obtain bytes' x where w: "writeLine hasher io (length (logBytes rs)) (recordBytes r) (recordBatchId r) (logBytes rs) = (bytes', x)"
            by fastforce
          note file' = writeLine_file [OF hasher log fresh w]
          show ?thesis
          proof (cases "int MAX_JOURNAL_AUTHORITY_BYTES - int (length (logBytes rs)) < int (byteLength (recordText r @ [10]))")
            case True
            then have "writePlan hasher io (logScan rs) plan batched (logBytes rs) = (logBytes rs,
                Inl (eventFailure (corruptCause ''journal append exceeds the authority byte limit'')))"
              using acc sem Inr new line by (auto simp: writePlan_def scan simp flip: as_def split: option.splits)
            then show ?thesis using same by (auto simp: eventFailure_def intro!: exI [of _ "[]"])
          next
            case small: False
            have eq: "writePlan hasher io (logScan rs) plan batched (logBytes rs) =
              (case x of Some e \<Rightarrow> (bytes', Inl e)
               | None \<Rightarrow> (bytes', Inr \<lparr>awDispositions = apDispositions plan, awRefresh = apRefresh plan, awDurable = True\<rparr>))"
              using acc sem Inr line small w new
              by (cases "recordBatchId r"; cases x) (auto simp: writePlan_def scan recordBytes_def simp flip: as_def)
            show ?thesis
            proof (cases x)
              case None
              then show ?thesis using eq file' added r(2) as(1) by (auto intro!: exI [of _ "[r]"])
            next
              case (Some e)
              then show ?thesis
                using eq file' added same by (auto intro: exI [of _ "[]"] exI [of _ "[r]"])
            qed
          qed
        qed
      qed
    qed
  qed
qed

lemma appendTransaction_file:
  assumes hasher: "hexHasher hasher" and log: "journalFile hasher rs bytes"
    and batch: "list_all (eventGood hasher) batch" "batched \<or> length batch = 1"
    and run: "appendTransaction hasher io batch batched bytes = (bytes', result)"
  shows "\<exists>ss. journalFile hasher (rs @ ss) bytes' \<and> appendedTo hasher rs batch ss
    \<and> (case result of
         Inr out \<Rightarrow> logEvents ss = map canonProps (committedOf (aoEvents out) batch)
       | Inl e \<Rightarrow> aeEventDurable e \<longrightarrow> ss \<noteq> [])"
proof -
  have same: "\<exists>ss. journalFile hasher (rs @ ss) b \<and> appendedTo hasher rs batch ss
      \<and> (aeEventDurable (eventFailure c) \<longrightarrow> ss \<noteq> [])" if "journalFile hasher rs b" for b c
    using that by (intro exI [of _ "[]"]) (simp add: appendedTo_def eventFailure_def)
  obtain b x where os: "openScanned hasher io bytes = (b, x)" by fastforce
  note opened = openScanned_file [OF hasher log, of io, unfolded os]
  show ?thesis
  proof (cases x)
    case (Inl c)
    then show ?thesis using run os opened same [of b c] by (auto simp: appendTransaction_def)
  next
    case (Inr sc)
    then have sc: "b = logBytes rs" "sc = logScan rs" using opened by simp_all
    have log': "journalFile hasher rs (logBytes rs)" by (rule journalFile_log [OF log])
    show ?thesis
    proof (cases "planAppend hasher (logScan rs) batch batched")
      case (Inl e)
      then show ?thesis using run os Inr sc same [OF log'] by (auto simp: appendTransaction_def)
    next
      case plan: (Inr plan)
      obtain b' w where w: "writePlan hasher io (logScan rs) plan batched (logBytes rs) = (b', w)" by fastforce
      have "bytes' = b'" "result = (case w of Inl e \<Rightarrow> Inl e | Inr w \<Rightarrow> finishAppend io w)"
        using run os Inr sc plan w by (auto simp: appendTransaction_def split: sum.splits)
      then show ?thesis
        using writePlan_file [OF hasher log' batch plan, of io, unfolded w]
        by (cases w) (fastforce simp: finishAppend_def)+
    qed
  qed
qed

section \<open>Histories of a journal\<close>

inductive journalStep :: "hasher \<Rightarrow> nat list \<Rightarrow> nat list \<Rightarrow> bool" for hasher where
  appended: "list_all (eventGood hasher) batch \<Longrightarrow> if batched then validBatchSemantics batch else length batch = 1
    \<Longrightarrow> appendTransaction hasher io batch batched bytes = (bytes', result) \<Longrightarrow> journalStep hasher bytes bytes'"
| repaired: "repairIncompleteTail hasher rawHasher io bytes = (bytes', result) \<Longrightarrow> journalStep hasher bytes bytes'"

definition journalReach :: "hasher \<Rightarrow> nat list \<Rightarrow> bool" where
  "journalReach hasher = (journalStep hasher)\<^sup>*\<^sup>* []"

definition journalGood :: "hasher \<Rightarrow> journal_record list \<Rightarrow> nat list \<Rightarrow> bool" where
  "journalGood hasher rs bytes \<longleftrightarrow>
     journalFile hasher rs bytes \<and> logOk (logEvents rs) \<and> list_all (eventGood hasher) (logEvents rs)"

lemma recordEvents_good: "recordGood hasher r \<Longrightarrow> list_all (eventGood hasher) (recordEvents r)"
  by (auto simp: recordGood_def recordEvents_def list_all_iff eventGood_canon split: journal_record.splits)

lemma logEvents_good: "journalFile hasher rs bytes \<Longrightarrow> list_all (eventGood hasher) (logEvents rs)"
  using recordEvents_good by (fastforce simp: journalFile_def logEvents_def list_all_iff)

lemma appended_good:
  assumes "journalGood hasher rs bytes" "journalFile hasher (rs @ ss) bytes'" "appendedTo hasher rs batch ss"
    "list_all (eventGood hasher) batch"
  shows "journalGood hasher (rs @ ss) bytes'"
proof (cases "ss = []")
  case False
  then obtain r ds acc where r: "ss = [r]" "\<not> list_ex isTerminal (logEvents rs)" "recordEvents r = map canonProps acc"
      "acceptLoop batch False (filter isProgress (logEvents rs)) = (ds, acc)"
    using assms(3) by (auto simp: appendedTo_def)
  have "logOk (logEvents rs @ map canonProps acc)"
    using assms(1,4) r acceptLoop_logOk by (meson journalGood_def)
  then show ?thesis using assms(2) r logEvents_good [OF assms(2)] by (simp add: journalGood_def)
qed (use assms in \<open>simp add: journalGood_def\<close>)

lemma journalStep_good:
  assumes "hexHasher hasher" "journalGood hasher rs bytes" "journalStep hasher bytes bytes'"
  shows "\<exists>ss. journalGood hasher (rs @ ss) bytes'"
  using assms(3)
proof cases
  case (appended batch batched io result)
  have "batched \<or> length batch = 1" using appended(2) by (auto split: if_splits)
  then show ?thesis
    using appendTransaction_file [OF assms(1) _ appended(1) _ appended(3)] appended_good [OF assms(2) _ _ appended(1)] assms(2)
    unfolding journalGood_def by meson
next
  case (repaired rawHasher io result)
  then show ?thesis
    using repair_file [OF assms(1), of rs bytes rawHasher io] assms(2) by (intro exI [of _ "[]"]) (simp add: journalGood_def)
qed

lemma journalSteps_good:
  assumes "hexHasher hasher" "(journalStep hasher)\<^sup>*\<^sup>* bytes bytes'" "journalGood hasher rs bytes"
  shows "\<exists>ss. journalGood hasher (rs @ ss) bytes'"
  using assms(2)
proof induction
  case base
  show ?case using assms(3) by (intro exI [of _ "[]"]) simp
next
  case (step y z)
  then obtain ss where "journalGood hasher (rs @ ss) y" by blast
  from journalStep_good [OF assms(1) this step(2)] show ?case by (metis append.assoc)
qed

lemma journalReach_good: "hexHasher hasher \<Longrightarrow> journalReach hasher bytes \<Longrightarrow> \<exists>rs. journalGood hasher rs bytes"
  using journalSteps_good [of hasher "[]" bytes "[]"]
  by (auto simp: journalReach_def journalGood_def journalFile_def logOk_def)

text \<open>A file system that does what it is asked.\<close>

definition reliableIo :: journal_io where
  "reliableIo = \<lparr>ioOpen = True, ioRead = True, ioRepair = IoOk, ioRepairSync = True, ioAppend = None, ioSync = True,
     ioReread = True, ioResync = True, ioTruncate = IoOk, ioTruncateSync = True, ioClose = True, ioStatus = True\<rparr>"

section \<open>The log a journal implements\<close>

text \<open>
  The specification: a log of events to which a batch adds what the acceptance loop lets through, in canonical
  form, unless the log already ends in a terminal event.
\<close>

definition admitted :: "props list \<Rightarrow> props list \<Rightarrow> props list" where
  "admitted before batch = (if list_ex isTerminal before then [] else snd (acceptLoop batch False (filter isProgress before)))"

definition logAppend :: "props list \<Rightarrow> props list \<Rightarrow> props list" where
  "logAppend before batch = before @ map canonProps (admitted before batch)"

lemma journalGood_events: "hexHasher hasher \<Longrightarrow> journalGood hasher rs bytes \<Longrightarrow> parseJournalBytes hasher bytes = Inr (logEvents rs)"
  by (simp add: journalGood_def journal_events)

lemma appended_log:
  assumes "appendedTo hasher rs batch ss" "ss \<noteq> []"
  shows "logEvents (rs @ ss) = logAppend (logEvents rs) batch" "logEvents ss \<noteq> []"
  using assms by (auto simp: appendedTo_def logAppend_def admitted_def)

text \<open>
  C5: The journal store refines an append-only log.  On a file any history of appends and repairs has left, a
  transaction leaves the log as it was or appends exactly the admitted events of its batch, whatever the file
  system does; on success the log grew by the events reported as committed, and a failure is reported durable only
  if the log grew.
\<close>

theorem append_refines_log:
  assumes "hexHasher hasher" "journalReach hasher bytes" "list_all (eventGood hasher) batch" "batched \<or> length batch = 1"
    and "appendTransaction hasher io batch batched bytes = (bytes', result)"
  shows "\<exists>before after. parseJournalBytes hasher bytes = Inr before \<and> parseJournalBytes hasher bytes' = Inr after
    \<and> after \<in> {before, logAppend before batch}
    \<and> (case result of
         Inr out \<Rightarrow> after = before @ map canonProps (committedOf (aoEvents out) batch)
       | Inl e \<Rightarrow> (aeEventDurable e \<longrightarrow> after = logAppend before batch \<and> after \<noteq> before))"
proof -
  obtain rs where rs: "journalGood hasher rs bytes" using journalReach_good [OF assms(1,2)] by blast
  then have jf: "journalFile hasher rs bytes" by (simp add: journalGood_def)
  from appendTransaction_file [OF assms(1) this assms(3-5)] obtain ss
    where ss: "journalFile hasher (rs @ ss) bytes'" "appendedTo hasher rs batch ss"
      "case result of Inr out \<Rightarrow> logEvents ss = map canonProps (committedOf (aoEvents out) batch)
        | Inl e \<Rightarrow> aeEventDurable e \<longrightarrow> ss \<noteq> []" by blast
  have "parseJournalBytes hasher bytes = Inr (logEvents rs)" "parseJournalBytes hasher bytes' = Inr (logEvents (rs @ ss))"
    by (rule journal_events [OF assms(1) jf], rule journal_events [OF assms(1) ss(1)])
  then show ?thesis
    using ss(3) appended_log [OF ss(2)]
    by (intro exI [of _ "logEvents rs"] exI [of _ "logEvents (rs @ ss)"], cases "ss = []") (auto split: sum.splits)
qed

text \<open>
  C7: Whatever the history of appends, failures and repairs, the journal reads back: every event is valid, only
  the last one may end the run, and no progress event of a frame is recorded twice.
\<close>

theorem journal_stays_readable:
  assumes "hexHasher hasher" "journalReach hasher bytes"
  shows "\<exists>before. parseJournalBytes hasher bytes = Inr before
    \<and> list_all (\<lambda>e. parseEventTree hasher (JObj e) = Inr e) before
    \<and> list_all (\<lambda>e. \<not> isTerminal e) (butlast before)
    \<and> sorted_wrt (\<lambda>x y. \<not> sameProgress x y) before"
proof -
  obtain rs where rs: "journalGood hasher rs bytes" using journalReach_good [OF assms] by blast
  then show ?thesis
    using journalGood_events [OF assms(1) rs] by (auto simp: journalGood_def logOk_def eventGood_def list_all_iff)
qed

text \<open>
  C6: Nothing recorded is lost.  What a journal reads at any moment is a prefix of what it reads after any
  further appends, failures and repairs.
\<close>

theorem journal_keeps_events:
  assumes "hexHasher hasher" "journalReach hasher bytes" "(journalStep hasher)\<^sup>*\<^sup>* bytes bytes'"
  shows "\<exists>before later. parseJournalBytes hasher bytes = Inr before \<and> parseJournalBytes hasher bytes' = Inr (before @ later)"
proof -
  obtain rs where rs: "journalGood hasher rs bytes" using journalReach_good [OF assms(1,2)] by blast
  then obtain ss where "journalGood hasher (rs @ ss) bytes'" using journalSteps_good [OF assms(1,3)] by blast
  then show ?thesis using journalGood_events [OF assms(1)] rs by fastforce
qed

text \<open>
  C9: A crash in the middle of an append cannot hide or change what was recorded: record lines followed by any
  piece of a line are read back as exactly the events of the records, in order, and the piece as an incomplete tail.
\<close>

theorem torn_journal_reads:
  assumes "hexHasher hasher" "list_all (recordGood hasher) rs" "distinct (batchIds rs)" "n < length (recordBytes r)"
    "length (logBytes rs) + n \<le> MAX_JOURNAL_AUTHORITY_BYTES"
  shows "\<exists>snapshot. inspectTail hasher rawHasher reliableIo (logBytes rs @ take n (recordBytes r)) = Inr (snapshot, n)
    \<and> asEvents snapshot = logEvents rs \<and> asPrefix snapshot = logBytes rs"
proof -
  have jf: "journalFile hasher rs (logBytes rs @ take n (recordBytes r))"
    using assms torn_line [OF assms(4)] by (auto simp: journalFile_def)
  have events: "scEvents (logScan rs) = logEvents rs" using assms(3) logScan_fields by (simp add: logEvents_def)
  have "readScanned hasher reliableIo (logBytes rs @ take n (recordBytes r)) = Inr (logBytes rs @ take n (recordBytes r), logScan rs)"
    using assms(4,5)
    by (simp add: readScanned_def readBoundedJournalHandle_def reliableIo_def journalFile_reads(1) [OF assms(1) jf])
  then show ?thesis
    using assms(4) events journalFile_reads(3) [OF assms(1) jf] by (simp add: inspectTail_def authorityOf_def)
qed

lemma reliable_open:
  assumes "hexHasher hasher" "journalFile hasher rs bytes" "length bytes \<le> MAX_JOURNAL_AUTHORITY_BYTES"
  shows "openScanned hasher reliableIo bytes = (logBytes rs, Inr (logScan rs))"
  using assms(3)
  by (simp add: openScanned_def reliableIo_def readBoundedJournalHandle_def Let_def journalFile_reads [OF assms(1,2)])

lemma reliable_write:
  assumes "hexHasher hasher" "eventGood hasher e" "scVerified sc + length (recordBytes (EventRecord e)) \<le> MAX_JOURNAL_AUTHORITY_BYTES"
    and "apAccepted plan = [e]"
  shows "writePlan hasher reliableIo sc plan False bytes = (bytes @ recordBytes (EventRecord e),
    Inr \<lparr>awDispositions = apDispositions plan, awRefresh = apRefresh plan, awDurable = True\<rparr>)"
proof -
  have "recordGood hasher (EventRecord e)" using assms(2) by (simp add: recordGood_def)
  then have line: "recordLine (EventRecord e) = Inr (recordText (EventRecord e) @ [10])" by (rule scanLine_record(1) [OF assms(1)])
  have "\<not> int MAX_JOURNAL_AUTHORITY_BYTES - int (scVerified sc) < int (byteLength (recordText (EventRecord e) @ [10]))"
    using assms(3) by (simp add: byteLength_def recordBytes_def)
  then show ?thesis
    using assms(4) line
    by (simp add: writePlan_def plannedRecord_def recordBatchId_def writeLine_def reliableIo_def recordBytes_def)
qed

text \<open>
  C8: When the file system works and the file has room, a single append succeeds and the journal is exactly the
  specified log afterwards: the event is recorded unless the run has ended or its progress is already known.
\<close>

theorem reliable_append_succeeds:
  assumes "hexHasher hasher" "journalReach hasher bytes" "eventGood hasher e"
    and "length bytes + length (recordBytes (EventRecord e)) \<le> MAX_JOURNAL_AUTHORITY_BYTES"
  shows "\<exists>before bytes' out. parseJournalBytes hasher bytes = Inr before
    \<and> appendTransaction hasher reliableIo [e] False bytes = (bytes', Inr out)
    \<and> parseJournalBytes hasher bytes' = Inr (logAppend before [e])"
proof -
  obtain rs where rs: "journalGood hasher rs bytes" using journalReach_good [OF assms(1,2)] by blast
  then have jf: "journalFile hasher rs bytes" by (simp add: journalGood_def)
  have ev: "scEvents (logScan rs) = logEvents rs" and len: "scVerified (logScan rs) \<le> length bytes"
    using jf logScan_fields [of rs] by (auto simp: journalFile_def logEvents_def)
  have op: "openScanned hasher reliableIo bytes = (logBytes rs, Inr (logScan rs))"
    by (rule reliable_open [OF assms(1) jf]) (use assms(4) in simp)
  have "\<exists>plan. planAppend hasher (logScan rs) [e] False = Inr plan \<and> apAccepted plan = admitted (logEvents rs) [e]"
    by (simp add: planAppend_def admitted_def ev resBind_def split: prod.split)
  then obtain plan where plan: "planAppend hasher (logScan rs) [e] False = Inr plan" "apAccepted plan = admitted (logEvents rs) [e]"
    by blast
  define bytes' where "bytes' = (if apAccepted plan = [] then logBytes rs else logBytes rs @ recordBytes (EventRecord e))"
  have acc: "apAccepted plan = [] \<or> apAccepted plan = [e]" by (simp add: plan(2) admitted_def)
  have "\<exists>w. writePlan hasher reliableIo (logScan rs) plan False (logBytes rs) = (bytes', Inr w)"
    using acc
  proof
    assume "apAccepted plan = []"
    then show ?thesis by (simp add: writePlan_def bytes'_def)
  next
    assume one: "apAccepted plan = [e]"
    then show ?thesis
      using reliable_write [OF assms(1,3) _ one, of "logScan rs" "logBytes rs"] assms(4) len by (simp add: bytes'_def)
  qed
  moreover have finish: "\<exists>out. finishAppend reliableIo w = Inr out" for w by (simp add: finishAppend_def reliableIo_def)
  ultimately obtain out where run: "appendTransaction hasher reliableIo [e] False bytes = (bytes', Inr out)"
    by (fastforce simp: appendTransaction_def op plan(1))
  have "parseJournalBytes hasher bytes' = Inr (logAppend (logEvents rs) [e])"
  proof (cases "apAccepted plan = []")
    case True
    then have "bytes' = logBytes rs" "logAppend (logEvents rs) [e] = logEvents rs"
      using plan(2) by (simp_all add: bytes'_def logAppend_def)
    then show ?thesis using journal_events [OF assms(1) journalFile_log [OF jf]] by simp
  next
    case False
    then have "bytes' = logBytes (rs @ [EventRecord e])" "logAppend (logEvents rs) [e] = logEvents (rs @ [EventRecord e])"
      using plan(2) acc by (simp_all add: bytes'_def logAppend_def recordEvents_def)
    moreover have "freshRecord hasher rs (EventRecord e)"
      using assms(3) by (simp add: freshRecord_def recordGood_def recordBatchId_def)
    ultimately show ?thesis using journal_events [OF assms(1) journalFile_snoc [OF jf]] by simp
  qed
  then show ?thesis using run journal_events [OF assms(1) jf] by blast
qed

section \<open>Witnesses\<close>

definition zeroHash :: hasher where
  "zeroHash = (\<lambda>_. js ''0000000000000000000000000000000000000000000000000000000000000000'')"

definition sampleEvent :: props where
  "sampleEvent = [(js ''type'', JStr (js ''run_cancelled'')), (js ''runId'', JStr (js ''r'')), (js ''code'', JStr (js ''CANCELLED'')),
     (js ''message'', JStr (js ''stop''))]"

lemma zeroHash_hex: "hexHasher zeroHash"
proof -
  have "isSha256 (js ''0000000000000000000000000000000000000000000000000000000000000000'')" by code_simp
  then show ?thesis by (simp add: hexHasher_def zeroHash_def)
qed

lemma sampleEvent_good: "eventGood zeroHash sampleEvent"
proof -
  have "treeOk (Suc (Suc l)) (JObj sampleEvent)" for l
    by (simp add: sampleEvent_def MAX_EVENT_KEYS_def MAX_EVENT_STRING_def)
  from this [of 4] have "treeOk (MAX_EVENT_DEPTH + 1) (JObj sampleEvent)"
    by (simp only: MAX_EVENT_DEPTH_def) (simp only: eval_nat_numeral BitM.simps One_nat_def add_Suc_right add_0_right)
  moreover have "nodes (JObj sampleEvent) \<le> MAX_EVENT_NODES" by (simp add: sampleEvent_def MAX_EVENT_NODES_def)
  moreover have "validEvent zeroHash sampleEvent" "jsonOrdered (JObj sampleEvent)" by code_simp+
  moreover have "jsonDoubles (JObj sampleEvent)" by (simp add: sampleEvent_def)
  ultimately show ?thesis by (simp add: eventGood_iff)
qed

lemma sampleHistory:
  "journalStep zeroHash [] (fst (appendTransaction zeroHash reliableIo [sampleEvent] False []))"
  by (rule journalStep.appended [where batch = "[sampleEvent]" and batched = False and io = reliableIo])
    (simp_all add: sampleEvent_good prod_eq_iff)

lemma sampleReach: "journalReach zeroHash (fst (appendTransaction zeroHash reliableIo [sampleEvent] False []))"
  unfolding journalReach_def using sampleHistory by (rule r_into_rtranclp)

lemma append_refines_log_witness:
  "\<exists>before after. parseJournalBytes zeroHash [] = Inr before
     \<and> parseJournalBytes zeroHash (fst (appendTransaction zeroHash reliableIo [sampleEvent] False [])) = Inr after
     \<and> after \<in> {before, logAppend before [sampleEvent]}"
proof -
  have "journalReach zeroHash []" by (simp add: journalReach_def)
  from append_refines_log [OF zeroHash_hex this, of "[sampleEvent]" False reliableIo]
  show ?thesis using sampleEvent_good by (fastforce simp: prod_eq_iff)
qed

lemma journal_stays_readable_witness:
  "\<exists>before. parseJournalBytes zeroHash (fst (appendTransaction zeroHash reliableIo [sampleEvent] False [])) = Inr before
     \<and> list_all (\<lambda>e. \<not> isTerminal e) (butlast before)"
  using journal_stays_readable [OF zeroHash_hex sampleReach] by blast

lemma journal_keeps_events_witness:
  "\<exists>before later. parseJournalBytes zeroHash [] = Inr before
     \<and> parseJournalBytes zeroHash (fst (appendTransaction zeroHash reliableIo [sampleEvent] False [])) = Inr (before @ later)"
  using journal_keeps_events [OF zeroHash_hex _ r_into_rtranclp [of "journalStep zeroHash", OF sampleHistory]]
  by (auto simp: journalReach_def)

lemma sampleText: "recordText (EventRecord sampleEvent)
    = js [CHR 0x7B, CHR 0x22] @ js ''code'' @ [34, 58, 34] @ js ''CANCELLED'' @ [34, 44, 34] @ js ''message'' @ [34, 58, 34] @ js ''stop''
      @ [34, 44, 34] @ js ''runId'' @ [34, 58, 34] @ js ''r'' @ [34, 44, 34] @ js ''type'' @ [34, 58, 34] @ js ''run_cancelled'' @ [34, 125]"
  by code_simp

lemma ascii_scalars: "\<forall>u\<in>set us. u < 128 \<Longrightarrow> scalars us = us"
  by (induction us rule: scalars.induct) (auto simp: isHigh_def isLow_def)

lemma ascii_length:
  assumes "list_all (\<lambda>u. unat u < 128) t"
  shows "length (encode t) = length t"
proof -
  have "codePoints t = map unat t"
    unfolding codePoints_def by (rule ascii_scalars) (use assms in \<open>auto simp: list_all_iff\<close>)
  moreover have "utf8s us = us" if "\<forall>u\<in>set us. u < 128" for us
    using that by (induction us) (simp_all add: utf8s_def utf8_def)
  moreover have "\<forall>u\<in>set (map unat t). u < 128" using assms by (auto simp: list_all_iff)
  ultimately show ?thesis by (simp add: encode_def)
qed

lemma sampleBytes: "length (recordBytes (EventRecord sampleEvent)) = 73"
proof -
  have "list_all (\<lambda>u. unat u < 128) (recordText (EventRecord sampleEvent)) \<and> length (recordText (EventRecord sampleEvent)) = 72"
    unfolding sampleText by code_simp
  then show ?thesis unfolding recordBytes_line(1) by (simp add: ascii_length)
qed

lemma torn_journal_reads_witness:
  "\<exists>snapshot. inspectTail zeroHash (\<lambda>_. []) reliableIo
       (logBytes [EventRecord sampleEvent] @ take 5 (recordBytes (EventRecord sampleEvent))) = Inr (snapshot, 5)
     \<and> asEvents snapshot = [canonProps sampleEvent]"
proof -
  have "5 < length (recordBytes (EventRecord sampleEvent))" by (simp add: sampleBytes)
  then show ?thesis
    using torn_journal_reads [OF zeroHash_hex, of "[EventRecord sampleEvent]" 5 "EventRecord sampleEvent" "\<lambda>_. []"] sampleEvent_good
    by (auto simp: recordGood_def recordEvents_def sampleBytes MAX_JOURNAL_AUTHORITY_BYTES_def)
qed

lemma reliable_append_succeeds_witness:
  "\<exists>bytes' out. appendTransaction zeroHash reliableIo [sampleEvent] False [] = (bytes', Inr out)
     \<and> parseJournalBytes zeroHash bytes' = Inr [canonProps sampleEvent]"
proof -
  have "logAppend [] [sampleEvent] = [canonProps sampleEvent]" by (simp add: logAppend_def admitted_def)
  moreover have "parseJournalBytes zeroHash [] = Inr []" by code_simp
  moreover have "length (recordBytes (EventRecord sampleEvent)) \<le> MAX_JOURNAL_AUTHORITY_BYTES"
    by (simp add: sampleBytes MAX_JOURNAL_AUTHORITY_BYTES_def)
  ultimately show ?thesis
    using reliable_append_succeeds [OF zeroHash_hex _ sampleEvent_good, of "[]"] by (auto simp: journalReach_def)
qed

end
