(* ===== verification/KeyBinding.thy ===== *)
theory KeyBinding
  imports JournalStore
begin

text \<open>
  Stable keys (\<open>bindKeys\<close> of \<open>src/src/runtime/broker.ts\<close>).  Before a call has any effect, its key is bound to the
  identity of the call: one \<open>key_bound\<close> event per key, whoever comes first.  Calls run concurrently; between two
  awaits a call runs alone, so each definition below that changes the state is one uninterrupted piece of the
  function, and a transition system interleaves the pieces.  Binding objects live in a heap, as a call keeps a
  reference to a binding after the registry has dropped it.
\<close>

section \<open>Claims\<close>

record frame_ref =
  frFrameId :: jstr
  frLineage :: "jstr option"

record key_claim =
  kcFrame :: frame_ref
  kcKind :: call_kind
  kcKey :: jstr
  kcIdentity :: json

record bind_request =
  brqClaim :: key_claim
  brqCanonical :: jstr
  brqHash :: jstr

datatype bind_error =
    DslFailure dsl_error_code jstr
  | ThrownFailure js_exn
  | AppendFailure append_error
  | OtherFailure

definition keyRegistryId :: "call_kind \<Rightarrow> jstr \<Rightarrow> frame_ref \<Rightarrow> jstr" where
  "keyRegistryId kind key frame =
     (if kind = KRecurse
      then kindText kind @ [0] @ (case frLineage frame of Some l \<Rightarrow> l | None \<Rightarrow> frFrameId frame) @ [0] @ key
      else kindText kind @ [0] @ key)"

definition keyChanged :: "key_claim \<Rightarrow> bind_error" where
  "keyChanged c = DslFailure KEY_IDENTITY_CHANGED
     (kindText (kcKind c) @ js '' key \"'' @ kcKey c @ js ''\" was reused with a different identity'')"

definition claimRequest :: "hasher \<Rightarrow> key_claim \<Rightarrow> js_exn + bind_request" where
  "claimRequest hasher c =
     resBind (canonicalStringify (kcIdentity c)) (\<lambda>canonical.
     resBind (identityHash hasher (kcIdentity c)) (\<lambda>h.
     Inr \<lparr>brqClaim = c, brqCanonical = canonical, brqHash = h\<rparr>))"

text \<open>The \<open>requested\<close> map, in insertion order.\<close>

fun requestKeys :: "hasher \<Rightarrow> key_claim list \<Rightarrow> (jstr \<times> bind_request) list \<Rightarrow> bind_error + (jstr \<times> bind_request) list" where
  "requestKeys hasher [] requested = Inr requested"
| "requestKeys hasher (c # cs) requested =
     (case claimRequest hasher c of
        Inl e \<Rightarrow> Inl (ThrownFailure e)
      | Inr r \<Rightarrow>
          (let i = keyRegistryId (kcKind c) (kcKey c) (kcFrame c)
           in case map_of requested i of
                Some prior \<Rightarrow>
                  if brqCanonical prior \<noteq> brqCanonical r then Inl (keyChanged c) else requestKeys hasher cs requested
              | None \<Rightarrow> requestKeys hasher cs (requested @ [(i, r)])))"

section \<open>Bindings\<close>

datatype binding_state = BindPending | BindDurable | BindDurableFailed bind_error

text \<open>The promise \<open>ready\<close> of a binding.\<close>

datatype ready = Unsettled | Resolved | Rejected bind_error

record identity_binding =
  kyCanonical :: "jstr option"
  kyHash :: jstr
  kyReady :: ready
  kyState :: binding_state

record bind_world =
  bwHeap :: "identity_binding list"
  bwRegistry :: "jstr \<Rightarrow> nat option"

definition setBinding :: "nat \<Rightarrow> ready \<Rightarrow> binding_state \<Rightarrow> bind_world \<Rightarrow> bind_world" where
  "setBinding b r st w = w\<lparr>bwHeap := (bwHeap w)[b := (bwHeap w ! b)\<lparr>kyReady := r, kyState := st\<rparr>]\<rparr>"

text \<open>The scan of one round: what to wait for and what to install, or the error.\<close>

fun scanRequests :: "bind_world \<Rightarrow> (jstr \<times> bind_request) list \<Rightarrow> nat list \<Rightarrow> (jstr \<times> bind_request) list
    \<Rightarrow> bind_error + nat list \<times> (jstr \<times> bind_request) list" where
  "scanRequests w [] pending additions = Inr (pending, additions)"
| "scanRequests w ((i, r) # rs) pending additions =
     (case bwRegistry w i of
        None \<Rightarrow> scanRequests w rs pending (additions @ [(i, r)])
      | Some b \<Rightarrow>
          if kyHash (bwHeap w ! b) \<noteq> brqHash r then Inl (keyChanged (brqClaim r))
          else (case kyState (bwHeap w ! b) of
             BindDurableFailed e \<Rightarrow> Inl e
           | BindPending \<Rightarrow> scanRequests w rs (pending @ [b]) additions
           | BindDurable \<Rightarrow> scanRequests w rs pending additions))"

type_synonym installed = "(jstr \<times> bind_request \<times> nat) list"

definition installBinding :: "jstr \<Rightarrow> bind_request \<Rightarrow> bind_world \<Rightarrow> bind_world" where
  "installBinding i r w =
     w\<lparr>bwHeap := bwHeap w @ [\<lparr>kyCanonical = Some (brqCanonical r), kyHash = brqHash r, kyReady = Unsettled, kyState = BindPending\<rparr>],
       bwRegistry := (bwRegistry w)(i \<mapsto> length (bwHeap w))\<rparr>"

fun installAll :: "(jstr \<times> bind_request) list \<Rightarrow> bind_world \<Rightarrow> bind_world \<times> installed" where
  "installAll [] w = (w, [])"
| "installAll ((i, r) # rs) w = apsnd (Cons (i, r, length (bwHeap w))) (installAll rs (installBinding i r w))"

text \<open>
  Where a call is: awaiting the bindings of others, awaiting the append for an index of its installed bindings, or
  done.
\<close>

datatype bind_pc = Waiting "nat list" | Appending installed nat | Returned | Threw bind_error

text \<open>One round of the loop, up to the next await or the end.\<close>

definition enterLoop :: "(jstr \<times> bind_request) list \<Rightarrow> bind_world \<Rightarrow> bind_world \<times> bind_pc" where
  "enterLoop requested w =
     (case scanRequests w requested [] [] of
        Inl e \<Rightarrow> (w, Threw e)
      | Inr (pending, additions) \<Rightarrow>
          if pending \<noteq> [] then (w, Waiting pending)
          else if additions = [] then (w, Returned)
          else apsnd (\<lambda>inst. Appending inst 0) (installAll additions w))"

text \<open>The continuation of an append: it succeeded, or it failed with an error.\<close>

definition appendSucceeded :: "installed \<Rightarrow> nat \<Rightarrow> bind_world \<Rightarrow> bind_world \<times> bind_pc" where
  "appendSucceeded inst k w =
     (case inst ! k of (i, r, b) \<Rightarrow>
        (setBinding b Resolved BindDurable w, if k + 1 < length inst then Appending inst (k + 1) else Returned))"

definition eventIsDurable :: "bind_error \<Rightarrow> bool" where
  "eventIsDurable e = (case e of AppendFailure a \<Rightarrow> aeEventDurable a | _ \<Rightarrow> False)"

definition deleteBinding :: "jstr \<Rightarrow> nat \<Rightarrow> bind_world \<Rightarrow> bind_world" where
  "deleteBinding i b w = (if bwRegistry w i = Some b then w\<lparr>bwRegistry := (bwRegistry w)(i := None)\<rparr> else w)"

definition dropBinding :: "bind_error \<Rightarrow> jstr \<times> bind_request \<times> nat \<Rightarrow> bind_world \<Rightarrow> bind_world" where
  "dropBinding e x w =
     (case x of (i, r, b) \<Rightarrow> setBinding b (Rejected e) (kyState (bwHeap w ! b)) (deleteBinding i b w))"

definition appendFailed :: "bind_error \<Rightarrow> installed \<Rightarrow> nat \<Rightarrow> bind_world \<Rightarrow> bind_world \<times> bind_pc" where
  "appendFailed e inst k w =
     (let w1 = (case inst ! k of (i, r, b) \<Rightarrow>
            if eventIsDurable e then setBinding b (Rejected e) (BindDurableFailed e) w else dropBinding e (i, r, b) w)
      in (fold (dropBinding e) (drop (k + 1) inst) w1, Threw e))"

record bind_caller =
  caClaims :: "key_claim list"
  caRequested :: "(jstr \<times> bind_request) list"
  caPc :: bind_pc

definition startCall :: "hasher \<Rightarrow> key_claim list \<Rightarrow> bind_world \<Rightarrow> bind_world \<times> bind_caller" where
  "startCall hasher claims w =
     (case requestKeys hasher claims [] of
        Inl e \<Rightarrow> (w, \<lparr>caClaims = claims, caRequested = [], caPc = Threw e\<rparr>)
      | Inr requested \<Rightarrow> apsnd (\<lambda>pc. \<lparr>caClaims = claims, caRequested = requested, caPc = pc\<rparr>) (enterLoop requested w))"

text \<open>A run starts with no bindings, or with the durable ones of the journal it resumes.\<close>

fun hydratedKeyBindings :: "(jstr \<times> jstr) list \<Rightarrow> bind_world \<Rightarrow> bind_world" where
  "hydratedKeyBindings [] w = w"
| "hydratedKeyBindings ((i, h) # es) w =
     hydratedKeyBindings es
       (w\<lparr>bwHeap := bwHeap w @ [\<lparr>kyCanonical = None, kyHash = h, kyReady = Resolved, kyState = BindDurable\<rparr>],
          bwRegistry := (bwRegistry w)(i \<mapsto> length (bwHeap w))\<rparr>)"

definition noBindings :: bind_world where
  "noBindings = \<lparr>bwHeap = [], bwRegistry = Map.empty\<rparr>"

section \<open>Interleavings\<close>

text \<open>
  The keys the journal holds, the world and the calls.  An append that succeeds was recorded unless the run had
  ended; a failed one was recorded when its error says so.  A waiting call goes on when all its bindings are
  resolved, and throws when one is rejected.
\<close>

record bind_system =
  bsRecorded :: "(jstr \<times> jstr) list"
  bsWorld :: bind_world
  bsCalls :: "bind_caller list"

definition record_if :: "bool \<Rightarrow> jstr \<times> bind_request \<times> nat \<Rightarrow> (jstr \<times> jstr) list \<Rightarrow> (jstr \<times> jstr) list" where
  "record_if p x es = (case x of (i, r, b) \<Rightarrow> if p then es @ [(i, brqHash r)] else es)"

inductive bindMove :: "bind_system \<Rightarrow> bind_system \<Rightarrow> bool" where
  wakes: "n < length (bsCalls s) \<Longrightarrow> caPc (bsCalls s ! n) = Waiting bids
    \<Longrightarrow> list_all (\<lambda>b. kyReady (bwHeap (bsWorld s) ! b) = Resolved) bids
    \<Longrightarrow> enterLoop (caRequested (bsCalls s ! n)) (bsWorld s) = (w, pc)
    \<Longrightarrow> bindMove s (s\<lparr>bsWorld := w, bsCalls := (bsCalls s)[n := (bsCalls s ! n)\<lparr>caPc := pc\<rparr>]\<rparr>)"
| rejects: "n < length (bsCalls s) \<Longrightarrow> caPc (bsCalls s ! n) = Waiting bids \<Longrightarrow> b \<in> set bids
    \<Longrightarrow> kyReady (bwHeap (bsWorld s) ! b) = Rejected e
    \<Longrightarrow> bindMove s (s\<lparr>bsCalls := (bsCalls s)[n := (bsCalls s ! n)\<lparr>caPc := Threw e\<rparr>]\<rparr>)"
| succeeds: "n < length (bsCalls s) \<Longrightarrow> caPc (bsCalls s ! n) = Appending inst k
    \<Longrightarrow> appendSucceeded inst k (bsWorld s) = (w, pc)
    \<Longrightarrow> bindMove s (s\<lparr>bsRecorded := record_if (d = DispCommitted) (inst ! k) (bsRecorded s), bsWorld := w,
          bsCalls := (bsCalls s)[n := (bsCalls s ! n)\<lparr>caPc := pc\<rparr>]\<rparr>)"
| fails: "n < length (bsCalls s) \<Longrightarrow> caPc (bsCalls s ! n) = Appending inst k
    \<Longrightarrow> appendFailed e inst k (bsWorld s) = (w, pc)
    \<Longrightarrow> bindMove s (s\<lparr>bsRecorded := record_if (eventIsDurable e) (inst ! k) (bsRecorded s), bsWorld := w,
          bsCalls := (bsCalls s)[n := (bsCalls s ! n)\<lparr>caPc := pc\<rparr>]\<rparr>)"

inductive bindReach :: "hasher \<Rightarrow> bind_system \<Rightarrow> bool" for hasher where
  initial: "distinct (map fst recovered)
    \<Longrightarrow> bindReach hasher \<lparr>bsRecorded = recovered, bsWorld = hydratedKeyBindings recovered noBindings, bsCalls = []\<rparr>"
| starts: "bindReach hasher s \<Longrightarrow> startCall hasher claims (bsWorld s) = (w, c)
    \<Longrightarrow> bindReach hasher (s\<lparr>bsWorld := w, bsCalls := bsCalls s @ [c]\<rparr>)"
| moves: "bindReach hasher s \<Longrightarrow> bindMove s s' \<Longrightarrow> bindReach hasher s'"

end
