(* ===== verification/KeyBindingProof.thy ===== *)
theory KeyBindingProof
  imports KeyBinding "HOL-Library.Multiset"
begin

text \<open>
  Correctness of key binding under every interleaving: an invariant that ties each unsettled binding to the one call
  that will append its event, a measure that every move decreases, and from them agreement of the calls that
  returned, freedom from deadlock, and a registry that binds each key once.
\<close>

section \<open>The invariant\<close>

definition settledOk :: "identity_binding \<Rightarrow> bool" where
  "settledOk k \<longleftrightarrow> (kyReady k = Resolved \<longleftrightarrow> kyState k = BindDurable) \<and> (kyReady k = Unsettled \<longrightarrow> kyState k = BindPending)
     \<and> (\<forall>e. kyState k = BindDurableFailed e \<longrightarrow> kyReady k = Rejected e)"

definition bindingOf :: "bind_request \<Rightarrow> identity_binding" where
  "bindingOf r = \<lparr>kyCanonical = Some (brqCanonical r), kyHash = brqHash r, kyReady = Unsettled, kyState = BindPending\<rparr>"

text \<open>
  A world whose unsettled bindings are exactly those some call has still to append: \<open>P\<close> lists them with their
  keys, each once.
\<close>

definition worldOk :: "bind_world \<Rightarrow> installed \<Rightarrow> bool" where
  "worldOk w P \<longleftrightarrow>
     (\<forall>i b. bwRegistry w i = Some b \<longrightarrow> b < length (bwHeap w)
        \<and> (kyState (bwHeap w ! b) = BindPending \<longrightarrow> kyReady (bwHeap w ! b) = Unsettled))
     \<and> (\<forall>i j b. bwRegistry w i = Some b \<and> bwRegistry w j = Some b \<longrightarrow> i = j)
     \<and> (\<forall>b < length (bwHeap w). settledOk (bwHeap w ! b))
     \<and> distinct (map (snd \<circ> snd) P)
     \<and> (\<forall>i r b. (i, r, b) \<in> set P \<longrightarrow> bwRegistry w i = Some b \<and> bwHeap w ! b = bindingOf r)
     \<and> (\<forall>b < length (bwHeap w). kyReady (bwHeap w ! b) = Unsettled \<longrightarrow> (\<exists>i r. (i, r, b) \<in> set P))"

lemma worldOk_mset:
  assumes "mset P = mset Q"
  shows "worldOk w P = worldOk w Q"
proof -
  have "set P = set Q" by (rule mset_eq_setD [OF assms])
  moreover have "mset (map (snd \<circ> snd) P) = mset (map (snd \<circ> snd) Q)" using assms by simp
  then have "distinct (map (snd \<circ> snd) P) = distinct (map (snd \<circ> snd) Q)" by (rule mset_eq_imp_distinct_iff)
  ultimately show ?thesis by (simp add: worldOk_def)
qed

lemma worldOkD:
  assumes "worldOk w P"
  shows "bwRegistry w i = Some b \<Longrightarrow> b < length (bwHeap w)"
    "bwRegistry w i = Some b \<Longrightarrow> kyState (bwHeap w ! b) = BindPending \<Longrightarrow> kyReady (bwHeap w ! b) = Unsettled"
    "bwRegistry w i = Some b \<Longrightarrow> bwRegistry w j = Some b \<Longrightarrow> i = j"
    "b < length (bwHeap w) \<Longrightarrow> settledOk (bwHeap w ! b)"
    "distinct (map (snd \<circ> snd) P)"
    "(i, r, b) \<in> set P \<Longrightarrow> bwRegistry w i = Some b \<and> bwHeap w ! b = bindingOf r \<and> b < length (bwHeap w)"
    "b < length (bwHeap w) \<Longrightarrow> kyReady (bwHeap w ! b) = Unsettled \<Longrightarrow> \<exists>i r. (i, r, b) \<in> set P"
  using assms unfolding worldOk_def by blast+

lemma worldOkI:
  assumes "\<And>i b. bwRegistry w i = Some b \<Longrightarrow> b < length (bwHeap w)"
    "\<And>i b. bwRegistry w i = Some b \<Longrightarrow> kyState (bwHeap w ! b) = BindPending \<Longrightarrow> kyReady (bwHeap w ! b) = Unsettled"
    "\<And>i j b. bwRegistry w i = Some b \<Longrightarrow> bwRegistry w j = Some b \<Longrightarrow> i = j"
    "\<And>b. b < length (bwHeap w) \<Longrightarrow> settledOk (bwHeap w ! b)"
    "distinct (map (snd \<circ> snd) P)"
    "\<And>i r b. (i, r, b) \<in> set P \<Longrightarrow> bwRegistry w i = Some b \<and> bwHeap w ! b = bindingOf r"
    "\<And>b. b < length (bwHeap w) \<Longrightarrow> kyReady (bwHeap w ! b) = Unsettled \<Longrightarrow> \<exists>i r. (i, r, b) \<in> set P"
  shows "worldOk w P"
  using assms unfolding worldOk_def by blast

lemma worldOk_head:
  assumes "worldOk w ((i, r, b) # P)"
  shows "bwRegistry w i = Some b" "bwHeap w ! b = bindingOf r" "b < length (bwHeap w)"
    "(j, q, c) \<in> set P \<Longrightarrow> c \<noteq> b \<and> j \<noteq> i" "bwRegistry w j = Some b \<Longrightarrow> j = i" "distinct (map (snd \<circ> snd) P)"
proof -
  show r: "bwRegistry w i = Some b" "bwHeap w ! b = bindingOf r" "b < length (bwHeap w)"
    using worldOkD(6) [OF assms, of i r b] by simp_all
  show "distinct (map (snd \<circ> snd) P)" using worldOkD(5) [OF assms] by simp
  show "bwRegistry w j = Some b \<Longrightarrow> j = i" using worldOkD(3) [OF assms] r(1) by blast
  show "(j, q, c) \<in> set P \<Longrightarrow> c \<noteq> b \<and> j \<noteq> i"
  proof
    assume p: "(j, q, c) \<in> set P"
    then show "c \<noteq> b" using worldOkD(5) [OF assms] by force
    moreover have "bwRegistry w j = Some c" using worldOkD(6) [OF assms, of j q c] p by simp
    ultimately show "j \<noteq> i" using r(1) by auto
  qed
qed

text \<open>What no step undoes: settled keys stay, promises stay rejected, and a binding leaves the registry by rejection.\<close>

definition keeps :: "bind_world \<Rightarrow> bind_world \<Rightarrow> bool" where
  "keeps w w' \<longleftrightarrow>
     length (bwHeap w) \<le> length (bwHeap w')
     \<and> (\<forall>i b. bwRegistry w i = Some b \<and> kyState (bwHeap w ! b) \<noteq> BindPending \<longrightarrow>
          bwRegistry w' i = Some b \<and> bwHeap w' ! b = bwHeap w ! b)
     \<and> (\<forall>i b. bwRegistry w i = Some b \<longrightarrow> bwRegistry w' i = Some b \<or> (\<exists>e. kyReady (bwHeap w' ! b) = Rejected e))
     \<and> (\<forall>b e. b < length (bwHeap w) \<and> kyReady (bwHeap w ! b) = Rejected e \<longrightarrow> kyReady (bwHeap w' ! b) = Rejected e)"

lemma keepsI:
  assumes "length (bwHeap w) \<le> length (bwHeap w')"
    "\<And>i b. bwRegistry w i = Some b \<Longrightarrow> kyState (bwHeap w ! b) \<noteq> BindPending \<Longrightarrow> bwRegistry w' i = Some b \<and> bwHeap w' ! b = bwHeap w ! b"
    "\<And>i b. bwRegistry w i = Some b \<Longrightarrow> bwRegistry w' i = Some b \<or> (\<exists>e. kyReady (bwHeap w' ! b) = Rejected e)"
    "\<And>b e. b < length (bwHeap w) \<Longrightarrow> kyReady (bwHeap w ! b) = Rejected e \<Longrightarrow> kyReady (bwHeap w' ! b) = Rejected e"
  shows "keeps w w'"
  using assms unfolding keeps_def by blast

lemma keeps_refl: "keeps w w"
  by (simp add: keeps_def)

lemma keeps_trans:
  assumes "keeps u v" "keeps v w" "worldOk u P"
  shows "keeps u w"
proof -
  have reg: "b < length (bwHeap v)" if "bwRegistry u i = Some b" for i b
    using that assms(1,3) unfolding worldOk_def keeps_def by (meson order_less_le_trans)
  have len: "length (bwHeap u) \<le> length (bwHeap v)" using assms(1) by (simp add: keeps_def)
  show ?thesis
    unfolding keeps_def
  proof (intro conjI allI impI)
    show "length (bwHeap u) \<le> length (bwHeap w)" using assms(1,2) by (simp add: keeps_def)
  next
    fix i b assume b: "bwRegistry u i = Some b \<and> kyState (bwHeap u ! b) \<noteq> BindPending"
    then have "bwRegistry v i = Some b \<and> bwHeap v ! b = bwHeap u ! b" using assms(1) unfolding keeps_def by blast
    then show "bwRegistry w i = Some b" "bwHeap w ! b = bwHeap u ! b"
      using assms(2) b unfolding keeps_def by metis+
  next
    fix i b assume b: "bwRegistry u i = Some b"
    then consider "bwRegistry v i = Some b" | e where "kyReady (bwHeap v ! b) = Rejected e"
      using assms(1) unfolding keeps_def by blast
    then show "bwRegistry w i = Some b \<or> (\<exists>e. kyReady (bwHeap w ! b) = Rejected e)"
      using assms(2) reg [OF b] unfolding keeps_def by cases blast+
  next
    fix b e assume b: "b < length (bwHeap u) \<and> kyReady (bwHeap u ! b) = Rejected e"
    then have "kyReady (bwHeap v ! b) = Rejected e" using assms(1) unfolding keeps_def by blast
    then show "kyReady (bwHeap w ! b) = Rejected e" using assms(2) b len unfolding keeps_def by simp
  qed
qed

text \<open>The four ways the world changes.\<close>

lemma install_ok:
  assumes "worldOk w P" "bwRegistry w i = None"
  shows "worldOk (installBinding i r w) ((i, r, length (bwHeap w)) # P)" "keeps w (installBinding i r w)"
proof -
  note D = worldOkD [OF assms(1)]
  have lt: "\<And>j b. bwRegistry w j = Some b \<Longrightarrow> b \<noteq> length (bwHeap w)" "\<And>j q b. (j, q, b) \<in> set P \<Longrightarrow> b \<noteq> length (bwHeap w) \<and> j \<noteq> i"
    using D(1) D(6) assms(2) by fastforce+
  show "keeps w (installBinding i r w)"
    using assms(2) D(1) by (auto simp: keeps_def installBinding_def nth_append)
  show "worldOk (installBinding i r w) ((i, r, length (bwHeap w)) # P)"
  proof (rule worldOkI, goal_cases)
    case (1 j b)
    then show ?case using D(1) [of j b] by (auto simp: installBinding_def split: if_splits)
  next
    case (2 j b)
    then show ?case using D(1,2) [of j b] by (auto simp: installBinding_def nth_append split: if_splits)
  next
    case (3 j k b)
    then show ?case using D(3) [of j b k] lt(1) by (auto simp: installBinding_def split: if_splits)
  next
    case (4 b)
    then show ?case using D(4) [of b] by (auto simp: installBinding_def nth_append settledOk_def)
  next
    case 5
    then show ?case using D(5) lt(2) by fastforce
  next
    case (6 j q b)
    then show ?case using D(6) [of j q b] lt(2) by (auto simp: installBinding_def nth_append bindingOf_def)
  next
    case (7 b)
    then show ?case using D(7) [of b] by (auto simp: installBinding_def nth_append less_Suc_eq split: if_splits)
  qed
qed

lemma settle_ok:
  assumes "worldOk w ((i, r, b) # P)" "st = BindDurable \<and> rd = Resolved \<or> st = BindDurableFailed e \<and> rd = Rejected e"
  shows "worldOk (setBinding b rd st w) P" "keeps w (setBinding b rd st w)"
    "bwRegistry (setBinding b rd st w) i = Some b" "kyState (bwHeap (setBinding b rd st w) ! b) = st"
    "kyHash (bwHeap (setBinding b rd st w) ! b) = brqHash r"
proof -
  note h = worldOk_head [OF assms(1)]
  note D = worldOkD [OF assms(1)]
  show "bwRegistry (setBinding b rd st w) i = Some b" "kyState (bwHeap (setBinding b rd st w) ! b) = st"
    "kyHash (bwHeap (setBinding b rd st w) ! b) = brqHash r"
    using h(1-3) by (simp_all add: setBinding_def bindingOf_def)
  show "keeps w (setBinding b rd st w)"
    using h(1-3) by (auto simp: keeps_def setBinding_def nth_list_update bindingOf_def)
  show "worldOk (setBinding b rd st w) P"
  proof (rule worldOkI, goal_cases)
    case (1 j c)
    then show ?case using D(1) [of j c] by (simp add: setBinding_def)
  next
    case (2 j c)
    then show ?case using D(2) [of j c] assms(2) h(3) by (cases "c = b") (auto simp: setBinding_def)
  next
    case (3 j k c)
    then show ?case using D(3) [of j c k] by (simp add: setBinding_def)
  next
    case (4 c)
    then show ?case using D(4) [of c] assms(2) h(3) by (cases "c = b") (auto simp: setBinding_def settledOk_def)
  next
    case 5
    then show ?case by (rule h(6))
  next
    case (6 j q c)
    then show ?case using D(6) [of j q c] h(4) [of j q c] by (auto simp: setBinding_def)
  next
    case (7 c)
    then show ?case using D(7) [of c] assms(2) h(3) by (cases "c = b") (auto simp: setBinding_def)
  qed
qed

lemma drop_ok:
  assumes "worldOk w ((i, r, b) # P)"
  shows "worldOk (dropBinding e (i, r, b) w) P" "keeps w (dropBinding e (i, r, b) w)"
proof -
  note h = worldOk_head [OF assms]
  note D = worldOkD [OF assms]
  have eq: "dropBinding e (i, r, b) w = w\<lparr>bwRegistry := (bwRegistry w)(i := None),
      bwHeap := (bwHeap w)[b := (bindingOf r)\<lparr>kyReady := Rejected e\<rparr>]\<rparr>"
    using h(1,2) by (simp add: dropBinding_def deleteBinding_def setBinding_def bindingOf_def)
  show "keeps w (dropBinding e (i, r, b) w)"
    unfolding eq
  proof (rule keepsI, goal_cases)
    case 1
    then show ?case by simp
  next
    case (2 j c)
    then have "c \<noteq> b" using h(2) by (auto simp: bindingOf_def)
    then show ?case using 2 h(1) by auto
  next
    case (3 j c)
    then show ?case using h(1,3) by (cases "c = b"; cases "j = i") auto
  next
    case (4 c f)
    then have "c \<noteq> b" using h(2) by (auto simp: bindingOf_def)
    then show ?case using 4 by simp
  qed
  show "worldOk (dropBinding e (i, r, b) w) P"
    unfolding eq
  proof (rule worldOkI, goal_cases)
    case (1 j c)
    then show ?case using D(1) [of j c] by (simp split: if_splits)
  next
    case (2 j c)
    then have "c \<noteq> b" using h(5) by (auto split: if_splits)
    then show ?case using 2 D(2) [of j c] by (simp split: if_splits)
  next
    case (3 j k c)
    then show ?case using D(3) [of j c k] by (simp split: if_splits)
  next
    case (4 c)
    then show ?case using D(4) [of c] h(3) by (cases "c = b") (auto simp: settledOk_def bindingOf_def)
  next
    case 5
    then show ?case by (rule h(6))
  next
    case (6 j q c)
    then show ?case using D(6) [of j q c] h(4) [of j q c] by auto
  next
    case (7 c)
    then show ?case using D(7) [of c] h(3) by (cases "c = b") auto
  qed
qed

lemma drop_all_ok:
  "worldOk w (Q @ P) \<Longrightarrow> worldOk (fold (dropBinding e) Q w) P \<and> keeps w (fold (dropBinding e) Q w)"
proof (induction Q arbitrary: w)
  case Nil
  then show ?case by (simp add: keeps_refl)
next
  case (Cons x Q)
  obtain i r b where x: "x = (i, r, b)" by (cases x)
  have w: "worldOk (dropBinding e x w) (Q @ P)" "keeps w (dropBinding e x w)"
    using drop_ok Cons.prems x by auto
  from Cons.IH [OF w(1)] have "worldOk (fold (dropBinding e) Q (dropBinding e x w)) P"
    "keeps (dropBinding e x w) (fold (dropBinding e) Q (dropBinding e x w))" by simp_all
  then show ?case using keeps_trans [OF w(2) _ Cons.prems] by simp
qed

lemma install_all_ok:
  assumes "worldOk w P" "distinct (map fst rs)" "\<And>i r. (i, r) \<in> set rs \<Longrightarrow> bwRegistry w i = None" "installAll rs w = (w', inst)"
  shows "worldOk w' (inst @ P) \<and> keeps w w' \<and> map (\<lambda>(i, r, b). (i, r)) inst = rs"
  using assms
proof (induction rs w arbitrary: P inst rule: installAll.induct)
  case (1 w)
  then show ?case by (simp add: keeps_refl)
next
  case (2 i r rs w)
  let ?v = "installBinding i r w"
  obtain inst' where inst: "installAll rs ?v = (w', inst')" "inst = (i, r, length (bwHeap w)) # inst'"
    using "2.prems"(4) by (cases "installAll rs ?v") auto
  have free: "bwRegistry w i = None" using "2.prems"(3) by auto
  note v = install_ok [OF "2.prems"(1) free, of r]
  have "bwRegistry ?v j = None" if "(j, q) \<in> set rs" for j q
    using that "2.prems"(2,3) by (force simp: installBinding_def)
  from "2.IH" [OF v(1) _ this inst(1)] "2.prems"(2)
  have ih: "worldOk w' (inst' @ (i, r, length (bwHeap w)) # P)" "keeps ?v w'" "map (\<lambda>(i, r, b). (i, r)) inst' = rs" by auto
  have "mset (inst' @ (i, r, length (bwHeap w)) # P) = mset (inst @ P)" by (simp add: inst(2))
  then have "worldOk w' (inst @ P)" using ih(1) worldOk_mset by blast
  then show ?case using ih keeps_trans [OF v(2) ih(2) "2.prems"(1)] by (simp add: inst(2))
qed

section \<open>Calls\<close>

definition durableFor :: "bind_world \<Rightarrow> jstr \<Rightarrow> jstr \<Rightarrow> bool" where
  "durableFor w i h \<longleftrightarrow>
     (\<exists>b. bwRegistry w i = Some b \<and> kyState (bwHeap w ! b) = BindDurable \<and> kyHash (bwHeap w ! b) = h)"

definition claimed :: "bind_world \<Rightarrow> (jstr \<times> bind_request) list \<Rightarrow> installed \<Rightarrow> bool" where
  "claimed w requested Q \<longleftrightarrow> (\<forall>i r. (i, r) \<in> set requested \<longrightarrow> durableFor w i (brqHash r) \<or> (\<exists>b. (i, r, b) \<in> set Q))"

fun remaining :: "bind_pc \<Rightarrow> installed" where
  "remaining (Appending inst k) = drop k inst"
| "remaining _ = []"

definition awaited :: "bind_world \<Rightarrow> (jstr \<times> bind_request) list \<Rightarrow> nat \<Rightarrow> bool" where
  "awaited w requested b \<longleftrightarrow> b < length (bwHeap w)
     \<and> (\<exists>i r. (i, r) \<in> set requested \<and> (bwRegistry w i = Some b \<or> (\<exists>e. kyReady (bwHeap w ! b) = Rejected e)))"

fun pcOk :: "bind_world \<Rightarrow> (jstr \<times> bind_request) list \<Rightarrow> bind_pc \<Rightarrow> bool" where
  "pcOk w requested (Waiting bids) = (bids \<noteq> [] \<and> list_all (awaited w requested) bids)"
| "pcOk w requested (Appending inst k) = (k < length inst \<and> claimed w requested (drop k inst))"
| "pcOk w requested Returned = claimed w requested []"
| "pcOk w requested (Threw e) = True"

lemma durableFor_keeps: "durableFor w i h \<Longrightarrow> keeps w w' \<Longrightarrow> durableFor w' i h"
  unfolding durableFor_def keeps_def by (metis binding_state.distinct(1))

lemma pcOk_keeps:
  assumes "pcOk w requested pc" "keeps w w'"
  shows "pcOk w' requested pc"
proof -
  have claim: "claimed w requested Q \<Longrightarrow> claimed w' requested Q" for Q
    using durableFor_keeps assms(2) unfolding claimed_def by blast
  have await: "awaited w requested b \<Longrightarrow> awaited w' requested b" for b
    using assms(2) unfolding awaited_def keeps_def by (meson order_less_le_trans)
  show ?thesis using assms(1) claim await by (cases pc) (auto simp: list_all_iff)
qed

definition covered :: "bind_world \<Rightarrow> nat list \<Rightarrow> jstr \<Rightarrow> bind_request \<Rightarrow> bool" where
  "covered w q i r \<longleftrightarrow> bwRegistry w i = None \<or> durableFor w i (brqHash r) \<or> (\<exists>b\<in>set q. bwRegistry w i = Some b)"

definition pendingOn :: "bind_world \<Rightarrow> (jstr \<times> bind_request) list \<Rightarrow> nat \<Rightarrow> bool" where
  "pendingOn w rs b \<longleftrightarrow> kyState (bwHeap w ! b) = BindPending \<and> (\<exists>i r. (i, r) \<in> set rs \<and> bwRegistry w i = Some b)"

lemma covered_more: "covered w q i r \<Longrightarrow> covered w (b # q) i r"
  by (auto simp: covered_def)

lemma pendingOn_more: "pendingOn w rs b \<Longrightarrow> pendingOn w (x # rs) b"
  by (auto simp: pendingOn_def)

lemma scan_facts:
  assumes "scanRequests w rs p a = Inr (p', a')"
  shows "\<exists>q. p' = p @ q \<and> a' = a @ filter (\<lambda>x. bwRegistry w (fst x) = None) rs
    \<and> (\<forall>x\<in>set rs. covered w q (fst x) (snd x)) \<and> list_all (pendingOn w rs) q"
  using assms
proof (induction w rs p a arbitrary: p' a' rule: scanRequests.induct)
  case (1 w p a)
  then show ?case by simp
next
  case (2 w i r rs p a)
  have more: "list_all (pendingOn w rs) q \<Longrightarrow> list_all (pendingOn w ((i, r) # rs)) q" for q
    using pendingOn_more by (auto simp: list_all_iff)
  show ?case
  proof (cases "bwRegistry w i")
    case None
    from 2(4) None have "scanRequests w rs p (a @ [(i, r)]) = Inr (p', a')" by simp
    from 2(1) [OF None this] obtain q where q: "p' = p @ q"
        "a' = (a @ [(i, r)]) @ filter (\<lambda>x. bwRegistry w (fst x) = None) rs"
        "\<forall>x\<in>set rs. covered w q (fst x) (snd x)" "list_all (pendingOn w rs) q" by blast
    have "covered w q i r" using None by (simp add: covered_def)
    then show ?thesis using q None more by (intro exI [of _ q]) simp
  next
    case (Some b)
    with 2(4) have h: "kyHash (bwHeap w ! b) = brqHash r" by (auto split: if_splits)
    show ?thesis
    proof (cases "kyState (bwHeap w ! b)")
      case BindPending
      with 2(4) Some h have "scanRequests w rs (p @ [b]) a = Inr (p', a')" by simp
      with 2(2) Some h BindPending obtain q where q: "p' = (p @ [b]) @ q" "a' = a @ filter (\<lambda>x. bwRegistry w (fst x) = None) rs"
        "\<forall>x\<in>set rs. covered w q (fst x) (snd x)" "list_all (pendingOn w rs) q" by blast
      have "covered w (b # q) i r" "pendingOn w ((i, r) # rs) b"
        using Some BindPending by (auto simp: covered_def pendingOn_def)
      then show ?thesis using q Some more covered_more by (intro exI [of _ "b # q"]) simp
    next
      case BindDurable
      with 2(4) Some h have "scanRequests w rs p a = Inr (p', a')" by simp
      with 2(3) Some h BindDurable obtain q where q: "p' = p @ q" "a' = a @ filter (\<lambda>x. bwRegistry w (fst x) = None) rs"
        "\<forall>x\<in>set rs. covered w q (fst x) (snd x)" "list_all (pendingOn w rs) q" by blast
      have "covered w q i r" using Some h BindDurable by (simp add: covered_def durableFor_def)
      then show ?thesis using q Some more by (intro exI [of _ q]) simp
    next
      case (BindDurableFailed e)
      with 2(4) Some h show ?thesis by simp
    qed
  qed
qed

text \<open>How far a call is from its end, whatever the others do.\<close>

definition settledKey :: "bind_world \<Rightarrow> nat list \<Rightarrow> jstr \<times> bind_request \<Rightarrow> bool" where
  "settledKey w bids x \<longleftrightarrow>
     (case bwRegistry w (fst x) of Some b \<Rightarrow> kyState (bwHeap w ! b) = BindDurable \<and> b \<notin> set bids | None \<Rightarrow> False)"

fun pcWeight :: "bind_world \<Rightarrow> (jstr \<times> bind_request) list \<Rightarrow> bind_pc \<Rightarrow> nat" where
  "pcWeight w requested (Waiting bids) = Suc (length (filter (\<lambda>x. \<not> settledKey w bids x) requested))"
| "pcWeight w requested (Appending inst k) = length inst - k"
| "pcWeight w requested _ = 0"

lemma filter_length_mono: "(\<And>x. P x \<Longrightarrow> Q x) \<Longrightarrow> length (filter P xs) \<le> length (filter Q xs)"
  by (induction xs) (auto simp: le_SucI)

lemma filter_length_less:
  assumes "\<And>x. P x \<Longrightarrow> Q x" "x \<in> set xs" "Q x" "\<not> P x"
  shows "length (filter P xs) < length (filter Q xs)"
proof -
  obtain ys zs where xs: "xs = ys @ x # zs" using split_list [OF assms(2)] by blast
  show ?thesis
    using filter_length_mono [of P Q ys, OF assms(1)] filter_length_mono [of P Q zs, OF assms(1)] assms(3,4)
    by (simp add: xs)
qed

lemma pcWeight_keeps: "keeps w w' \<Longrightarrow> pcWeight w' requested pc \<le> pcWeight w requested pc"
proof (cases pc)
  case (Waiting bids)
  assume k: "keeps w w'"
  have "settledKey w bids x \<Longrightarrow> settledKey w' bids x" for x
  proof -
    assume "settledKey w bids x"
    then obtain b where b: "bwRegistry w (fst x) = Some b" "kyState (bwHeap w ! b) = BindDurable" "b \<notin> set bids"
      by (auto simp: settledKey_def split: option.splits)
    then have "bwRegistry w' (fst x) = Some b \<and> bwHeap w' ! b = bwHeap w ! b"
      using k unfolding keeps_def by (metis binding_state.distinct(1))
    then show "settledKey w' bids x" using b by (simp add: settledKey_def)
  qed
  then have "length (filter (\<lambda>x. \<not> settledKey w' bids x) requested) \<le> length (filter (\<lambda>x. \<not> settledKey w bids x) requested)"
    by (intro filter_length_mono) blast
  then show ?thesis using Waiting by simp
qed simp_all

lemma enterLoop_ok:
  assumes "worldOk w P" "distinct (map fst requested)" "enterLoop requested w = (w', pc)"
  shows "worldOk w' (remaining pc @ P)" "keeps w w'" "pcOk w' requested pc"
    "pcWeight w requested pc \<le> Suc (length (filter (\<lambda>x. \<not> settledKey w [] x) requested))"
proof -
  have "worldOk w' (remaining pc @ P) \<and> keeps w w' \<and> pcOk w' requested pc
      \<and> pcWeight w requested pc \<le> Suc (length (filter (\<lambda>x. \<not> settledKey w [] x) requested))"
  proof (cases "scanRequests w requested [] []")
    case (Inl e)
    then show ?thesis using assms(1,3) by (auto simp: enterLoop_def keeps_refl)
  next
    case (Inr x)
    obtain q a where x: "x = (q, a)" by (cases x)
    from scan_facts [of w requested "[]" "[]" q a] Inr x
    have a: "a = filter (\<lambda>x. bwRegistry w (fst x) = None) requested"
      and cover: "\<And>i r. (i, r) \<in> set requested \<Longrightarrow> covered w q i r" and pending: "\<And>b. b \<in> set q \<Longrightarrow> pendingOn w requested b"
      by (auto simp: list_all_iff)
    show ?thesis
    proof (cases "q = []")
      case False
      then have r: "w' = w" "pc = Waiting q" using assms(3) Inr x by (auto simp: enterLoop_def)
      have "awaited w requested b" if "b \<in> set q" for b
        using pending [OF that] worldOkD(1) [OF assms(1)] unfolding awaited_def pendingOn_def by blast
      moreover have "settledKey w [] y \<Longrightarrow> settledKey w q y" for y
        using pending by (auto simp: settledKey_def pendingOn_def split: option.splits)
      from this have "length (filter (\<lambda>x. \<not> settledKey w q x) requested) \<le> length (filter (\<lambda>x. \<not> settledKey w [] x) requested)"
        by (intro filter_length_mono) auto
      ultimately show ?thesis using assms(1) r False by (simp add: keeps_refl list_all_iff)
    next
      case none: True
      show ?thesis
      proof (cases "a = []")
        case True
        then have r: "w' = w" "pc = Returned" using assms(3) Inr x none by (auto simp: enterLoop_def)
        have some: "bwRegistry w i \<noteq> None" if "(i, r) \<in> set requested" for i r
          using True a that by (auto simp: filter_empty_conv)
        have "durableFor w i (brqHash r)" if "(i, r) \<in> set requested" for i r
          using cover [OF that] some [OF that] none by (simp add: covered_def)
        then have "claimed w requested []" by (simp add: claimed_def)
        then show ?thesis using assms(1) r by (simp add: keeps_refl)
      next
        case False
        then obtain inst where inst: "installAll a w = (w', inst)" "pc = Appending inst 0"
          using assms(3) Inr x none by (cases "installAll a w") (auto simp: enterLoop_def)
        have "distinct (map fst a)" using assms(2) by (simp add: a distinct_map_filter)
        from install_all_ok [OF assms(1) this _ inst(1)] a
        have w': "worldOk w' (inst @ P)" "keeps w w'" "map (\<lambda>(i, r, b). (i, r)) inst = a" by auto
        have mem: "\<exists>b. (i, r, b) \<in> set inst" if "(i, r) \<in> set a" for i r
          using that unfolding w'(3) [symmetric] by auto
        have "durableFor w' i (brqHash r) \<or> (\<exists>b. (i, r, b) \<in> set inst)" if "(i, r) \<in> set requested" for i r
        proof (cases "bwRegistry w i")
          case None
          then show ?thesis using mem [of i r] that by (simp add: a)
        next
          case (Some b)
          then have "durableFor w i (brqHash r)" using cover [OF that] none by (simp add: covered_def)
          then show ?thesis using durableFor_keeps [OF _ w'(2)] by blast
        qed
        moreover have "length inst = length a" using arg_cong [OF w'(3), of length] by simp
        moreover have "length a \<le> length (filter (\<lambda>x. \<not> settledKey w [] x) requested)"
          unfolding a by (rule filter_length_mono) (simp add: settledKey_def)
        ultimately show ?thesis using w'(1,2) inst(2) False by (simp add: claimed_def)
      qed
    qed
  qed
  then show "worldOk w' (remaining pc @ P)" "keeps w w'" "pcOk w' requested pc"
    "pcWeight w requested pc \<le> Suc (length (filter (\<lambda>x. \<not> settledKey w [] x) requested))" by blast+
qed

lemma appendSucceeded_ok:
  assumes "worldOk w (drop k inst @ P)" "pcOk w requested (Appending inst k)" "appendSucceeded inst k w = (w', pc)" "inst ! k = (i, r, b)"
  shows "worldOk w' (remaining pc @ P)" "keeps w w'" "pcOk w' requested pc" "pcWeight w requested pc < length inst - k"
    "durableFor w' i (brqHash r)" "bwRegistry w i = Some b \<and> kyState (bwHeap w ! b) = BindPending"
proof -
  have k: "k < length inst" "claimed w requested (drop k inst)" using assms(2) by simp_all
  have drop: "drop k inst = (i, r, b) # drop (Suc k) inst" using k(1) assms(4) by (metis Cons_nth_drop_Suc)
  then have ok: "worldOk w ((i, r, b) # drop (Suc k) inst @ P)" using assms(1) by simp
  have w': "w' = setBinding b Resolved BindDurable w" "pc = (if k + 1 < length inst then Appending inst (k + 1) else Returned)"
    using assms(3,4) by (auto simp: appendSucceeded_def)
  note s = settle_ok [OF ok, of BindDurable Resolved, folded w'(1), simplified]
  have rest: "remaining pc = drop (Suc k) inst" using w'(2) by simp
  show "worldOk w' (remaining pc @ P)" using s(1) rest by simp
  show keep: "keeps w w'" by (rule s(2))
  show fin: "durableFor w' i (brqHash r)" using s(3-5) by (auto simp: durableFor_def)
  show "bwRegistry w i = Some b \<and> kyState (bwHeap w ! b) = BindPending" using worldOk_head(1,2) [OF ok] by (simp add: bindingOf_def)
  have "claimed w' requested (drop (Suc k) inst)"
  proof -
    have "durableFor w' j (brqHash q) \<or> (\<exists>c. (j, q, c) \<in> set (drop (Suc k) inst))" if "(j, q) \<in> set requested" for j q
    proof -
      have "durableFor w j (brqHash q) \<or> (\<exists>c. (j, q, c) \<in> set ((i, r, b) # drop (Suc k) inst))"
        using k(2) that unfolding claimed_def drop by blast
      then consider "durableFor w j (brqHash q)" | "j = i" "q = r" | c where "(j, q, c) \<in> set (drop (Suc k) inst)" by auto
      then show ?thesis using fin durableFor_keeps [OF _ keep] by cases blast+
    qed
    then show ?thesis by (simp add: claimed_def)
  qed
  then show "pcOk w' requested pc" using w'(2) by (cases "Suc k < length inst") simp_all
  show "pcWeight w requested pc < length inst - k" using w'(2) k(1) by auto
qed

lemma appendFailed_ok:
  assumes "worldOk w (drop k inst @ P)" "pcOk w requested (Appending inst k)" "appendFailed e inst k w = (w', pc)" "inst ! k = (i, r, b)"
  shows "worldOk w' P" "keeps w w'" "pc = Threw e" "bwRegistry w i = Some b \<and> kyState (bwHeap w ! b) = BindPending"
    "eventIsDurable e \<Longrightarrow> \<exists>b. bwRegistry w' i = Some b \<and> kyHash (bwHeap w' ! b) = brqHash r \<and> kyState (bwHeap w' ! b) \<noteq> BindPending"
proof -
  have k: "k < length inst" using assms(2) by simp
  have drop: "drop k inst = (i, r, b) # drop (Suc k) inst" using k assms(4) by (metis Cons_nth_drop_Suc)
  then have ok: "worldOk w ((i, r, b) # drop (Suc k) inst @ P)" using assms(1) by simp
  define v where "v = (if eventIsDurable e then setBinding b (Rejected e) (BindDurableFailed e) w else dropBinding e (i, r, b) w)"
  have w': "w' = fold (dropBinding e) (drop (Suc k) inst) v" "pc = Threw e"
    using assms(3,4) by (auto simp: appendFailed_def v_def)
  have v: "worldOk v (drop (Suc k) inst @ P)" "keeps w v"
    unfolding v_def using settle_ok(1,2) [OF ok, of "BindDurableFailed e" "Rejected e" e] drop_ok [OF ok, of e] by auto
  have f: "worldOk w' P" "keeps v w'" using drop_all_ok [OF v(1), of e] w'(1) by simp_all
  show "worldOk w' P" "pc = Threw e" by (rule f(1), rule w'(2))
  show "keeps w w'" by (rule keeps_trans [OF v(2) f(2) assms(1)])
  show "bwRegistry w i = Some b \<and> kyState (bwHeap w ! b) = BindPending" using worldOk_head(1,2) [OF ok] by (simp add: bindingOf_def)
  show "\<exists>b. bwRegistry w' i = Some b \<and> kyHash (bwHeap w' ! b) = brqHash r \<and> kyState (bwHeap w' ! b) \<noteq> BindPending"
    if "eventIsDurable e"
  proof -
    have "v = setBinding b (Rejected e) (BindDurableFailed e) w" using that by (simp add: v_def)
    then have "bwRegistry v i = Some b" "kyState (bwHeap v ! b) = BindDurableFailed e" "kyHash (bwHeap v ! b) = brqHash r"
      using settle_ok(3-5) [OF ok, of "BindDurableFailed e" "Rejected e" e] by simp_all
    moreover from this f(2) have "bwRegistry w' i = Some b \<and> bwHeap w' ! b = bwHeap v ! b"
      unfolding keeps_def by (metis binding_state.distinct(3))
    ultimately show ?thesis by simp
  qed
qed

section \<open>The system\<close>

definition outstanding :: "bind_caller list \<Rightarrow> installed" where
  "outstanding cs = concat (map (\<lambda>c. remaining (caPc c)) cs)"

definition recordedOk :: "bind_world \<Rightarrow> (jstr \<times> jstr) list \<Rightarrow> bool" where
  "recordedOk w es \<longleftrightarrow> distinct (map fst es)
     \<and> (\<forall>i h. (i, h) \<in> set es \<longrightarrow>
          (\<exists>b. bwRegistry w i = Some b \<and> kyHash (bwHeap w ! b) = h \<and> kyState (bwHeap w ! b) \<noteq> BindPending))"

definition callOk :: "bind_world \<Rightarrow> bind_caller \<Rightarrow> bool" where
  "callOk w c \<longleftrightarrow> distinct (map fst (caRequested c)) \<and> pcOk w (caRequested c) (caPc c)"

definition systemOk :: "bind_system \<Rightarrow> bool" where
  "systemOk s \<longleftrightarrow> worldOk (bsWorld s) (outstanding (bsCalls s)) \<and> list_all (callOk (bsWorld s)) (bsCalls s)
     \<and> recordedOk (bsWorld s) (bsRecorded s)"

definition callWeight :: "bind_world \<Rightarrow> bind_caller \<Rightarrow> nat" where
  "callWeight w c = pcWeight w (caRequested c) (caPc c)"

definition systemWeight :: "bind_system \<Rightarrow> nat" where
  "systemWeight s = sum_list (map (callWeight (bsWorld s)) (bsCalls s))"

lemma recordedOk_keeps: "recordedOk w es \<Longrightarrow> keeps w w' \<Longrightarrow> recordedOk w' es"
  unfolding recordedOk_def keeps_def by metis

lemma recordedOk_snoc:
  assumes "recordedOk w es" "keeps w w'" "bwRegistry w i = Some b \<and> kyState (bwHeap w ! b) = BindPending"
    "\<exists>b. bwRegistry w' i = Some b \<and> kyHash (bwHeap w' ! b) = h \<and> kyState (bwHeap w' ! b) \<noteq> BindPending"
  shows "recordedOk w' (es @ [(i, h)])"
proof -
  have "i \<notin> fst ` set es" using assms(1,3) unfolding recordedOk_def by fastforce
  then show ?thesis using recordedOk_keeps [OF assms(1,2)] assms(4) unfolding recordedOk_def by auto
qed

lemma callOk_keeps: "callOk w c \<Longrightarrow> keeps w w' \<Longrightarrow> callOk w' c"
  using pcOk_keeps by (auto simp: callOk_def)

lemma outstanding_split:
  assumes "n < length cs"
  obtains P where "mset (outstanding cs) = mset (remaining (caPc (cs ! n)) @ P)"
    "\<And>c. mset (outstanding (cs[n := c])) = mset (remaining (caPc c) @ P)"
proof
  show "mset (outstanding cs) = mset (remaining (caPc (cs ! n)) @ outstanding (take n cs @ drop (Suc n) cs))"
    by (subst id_take_nth_drop [OF assms]) (simp add: outstanding_def)
  show "mset (outstanding (cs[n := c])) = mset (remaining (caPc c) @ outstanding (take n cs @ drop (Suc n) cs))" for c
    using assms by (simp add: upd_conv_take_nth_drop outstanding_def)
qed

text \<open>One call moves on: it settles what it owned or leaves it, and the others only see the world grow.\<close>

lemma call_moves:
  assumes s: "systemOk s" and n: "n < length (bsCalls s)"
    and P: "mset (outstanding (bsCalls s)) = mset (remaining (caPc (bsCalls s ! n)) @ P)"
      "\<And>c. mset (outstanding ((bsCalls s)[n := c])) = mset (remaining (caPc c) @ P)"
    and w: "worldOk w (remaining pc @ P)" "keeps (bsWorld s) w" "pcOk w (caRequested (bsCalls s ! n)) pc" "recordedOk w es"
    and less: "pcWeight w (caRequested (bsCalls s ! n)) pc < callWeight (bsWorld s) (bsCalls s ! n)"
    and s': "s' = s\<lparr>bsRecorded := es, bsWorld := w, bsCalls := (bsCalls s)[n := (bsCalls s ! n)\<lparr>caPc := pc\<rparr>]\<rparr>"
  shows "systemOk s' \<and> systemWeight s' < systemWeight s \<and> keeps (bsWorld s) (bsWorld s')"
proof -
  have all: "list_all (callOk (bsWorld s)) (bsCalls s)" using s by (simp add: systemOk_def)
  let ?c = "(bsCalls s ! n)\<lparr>caPc := pc\<rparr>"
  have c: "callOk w ?c"
    using list_all_length [THEN iffD1, OF all, rule_format, OF n] w(3) by (simp add: callOk_def)
  have "list_all (callOk w) (bsCalls s)" using all callOk_keeps [OF _ w(2)] by (auto simp: list_all_iff)
  then have "list_all (callOk w) ((bsCalls s)[n := ?c])" using c by (auto simp: list_all_iff dest: set_update_subset_insert [THEN subsetD])
  moreover have "worldOk w (outstanding ((bsCalls s)[n := ?c]))"
    using worldOk_mset [OF P(2) [of ?c]] w(1) by simp
  ultimately have "systemOk s'" using w(4) by (simp add: systemOk_def s')
  moreover have "systemWeight s' < systemWeight s"
  proof -
    have le: "callWeight w c \<le> callWeight (bsWorld s) c" for c
      using pcWeight_keeps [OF w(2)] by (simp add: callWeight_def)
    have "sum_list (map (callWeight w) ((bsCalls s)[n := ?c])) + callWeight w (bsCalls s ! n)
        = sum_list (map (callWeight w) (bsCalls s)) + callWeight w ?c"
      by (subst (2) id_take_nth_drop [OF n]) (simp add: upd_conv_take_nth_drop n)
    moreover have "sum_list (map (callWeight w) (bsCalls s)) + callWeight (bsWorld s) (bsCalls s ! n)
        \<le> sum_list (map (callWeight (bsWorld s)) (bsCalls s)) + callWeight w (bsCalls s ! n)"
    proof -
      have t: "sum_list (map (callWeight w) xs) \<le> sum_list (map (callWeight (bsWorld s)) xs)" for xs
        by (rule sum_list_mono) (rule le)
      show ?thesis
        using t [of "take n (bsCalls s)"] t [of "drop (Suc n) (bsCalls s)"]
        by (subst (1 3) id_take_nth_drop [OF n]) simp
    qed
    moreover have "callWeight w ?c < callWeight (bsWorld s) (bsCalls s ! n)" using less by (simp add: callWeight_def)
    ultimately show ?thesis by (simp add: systemWeight_def s')
  qed
  ultimately show ?thesis using w(2) by (simp add: s')
qed

lemma bindMove_ok:
  assumes "systemOk s" "bindMove s s'"
  shows "systemOk s' \<and> systemWeight s' < systemWeight s \<and> keeps (bsWorld s) (bsWorld s')"
  using assms(2)
proof cases
  case (wakes n bids w pc)
  let ?c = "bsCalls s ! n"
  have all: "callOk (bsWorld s) ?c" using assms(1) wakes(2) by (simp add: systemOk_def list_all_length)
  have world: "worldOk (bsWorld s) (outstanding (bsCalls s))" using assms(1) by (simp add: systemOk_def)
  obtain P where P: "mset (outstanding (bsCalls s)) = mset (remaining (caPc ?c) @ P)"
    "\<And>c. mset (outstanding ((bsCalls s)[n := c])) = mset (remaining (caPc c) @ P)" using outstanding_split [OF wakes(2)] by blast
  have "worldOk (bsWorld s) P" using world worldOk_mset [OF P(1)] wakes(3) by simp
  note e = enterLoop_ok [OF this _ wakes(5)]
  have d: "distinct (map fst (caRequested ?c))" using all by (simp add: callOk_def)
  have bids: "bids \<noteq> []" "list_all (awaited (bsWorld s) (caRequested ?c)) bids" using all wakes(3) by (simp_all add: callOk_def)
  then obtain b where b: "b \<in> set bids" by (cases bids) auto
  then have "awaited (bsWorld s) (caRequested ?c) b" "kyReady (bwHeap (bsWorld s) ! b) = Resolved"
    using bids(2) wakes(4) by (auto simp: list_all_iff)
  then obtain i r where i: "(i, r) \<in> set (caRequested ?c)" "bwRegistry (bsWorld s) i = Some b" "b < length (bwHeap (bsWorld s))"
    by (auto simp: awaited_def)
  have "kyState (bwHeap (bsWorld s) ! b) = BindDurable"
    using worldOkD(4) [OF world i(3)] \<open>kyReady (bwHeap (bsWorld s) ! b) = Resolved\<close> by (simp add: settledOk_def)
  then have "settledKey (bsWorld s) [] (i, r)" "\<not> settledKey (bsWorld s) bids (i, r)" using i(2) b by (simp_all add: settledKey_def)
  then have "length (filter (\<lambda>x. \<not> settledKey (bsWorld s) [] x) (caRequested ?c))
      < length (filter (\<lambda>x. \<not> settledKey (bsWorld s) bids x) (caRequested ?c))"
    using i(1) by (intro filter_length_less [where x = "(i, r)"]) (auto simp: settledKey_def split: option.splits)
  moreover have "pcWeight w (caRequested ?c) pc \<le> Suc (length (filter (\<lambda>x. \<not> settledKey (bsWorld s) [] x) (caRequested ?c)))"
    using e(4) [OF d] pcWeight_keeps [OF e(2) [OF d]] order_trans by blast
  ultimately have "pcWeight w (caRequested ?c) pc < callWeight (bsWorld s) ?c" using wakes(3) by (simp add: callWeight_def)
  moreover have "recordedOk w (bsRecorded s)"
    using assms(1) recordedOk_keeps e(2) [OF d] by (auto simp: systemOk_def)
  moreover have "s' = s\<lparr>bsRecorded := bsRecorded s, bsWorld := w, bsCalls := (bsCalls s)[n := ?c\<lparr>caPc := pc\<rparr>]\<rparr>"
    using wakes(1) by simp
  ultimately show ?thesis by (intro call_moves [OF assms(1) wakes(2) P e(1-3) [OF d]])
next
  case (rejects n bids b e)
  obtain P where P: "mset (outstanding (bsCalls s)) = mset (remaining (caPc (bsCalls s ! n)) @ P)"
    "\<And>c. mset (outstanding ((bsCalls s)[n := c])) = mset (remaining (caPc c) @ P)" using outstanding_split [OF rejects(2)] by blast
  have "worldOk (bsWorld s) (remaining (Threw e) @ P)"
    using assms(1) worldOk_mset [OF P(1)] rejects(3) by (simp add: systemOk_def)
  from call_moves [OF assms(1) rejects(2) P this keeps_refl, of "bsRecorded s" s'] show ?thesis
    using assms(1) rejects(1,3) by (simp add: systemOk_def callWeight_def)
next
  case (succeeds n inst k w pc d)
  let ?c = "bsCalls s ! n"
  obtain P where P: "mset (outstanding (bsCalls s)) = mset (remaining (caPc ?c) @ P)"
    "\<And>c. mset (outstanding ((bsCalls s)[n := c])) = mset (remaining (caPc c) @ P)" using outstanding_split [OF succeeds(2)] by blast
  have world: "worldOk (bsWorld s) (drop k inst @ P)"
    using assms(1) worldOk_mset [OF P(1)] succeeds(3) by (simp add: systemOk_def)
  have pc: "pcOk (bsWorld s) (caRequested ?c) (Appending inst k)"
    using assms(1) succeeds(2,3) by (auto simp: systemOk_def callOk_def list_all_length)
  obtain i r b where x: "inst ! k = (i, r, b)" by (cases "inst ! k")
  note a = appendSucceeded_ok [OF world pc succeeds(4) x]
  have rec: "recordedOk (bsWorld s) (bsRecorded s)" using assms(1) by (simp add: systemOk_def)
  have "\<exists>b. bwRegistry w i = Some b \<and> kyHash (bwHeap w ! b) = brqHash r \<and> kyState (bwHeap w ! b) \<noteq> BindPending"
    using a(5) by (auto simp: durableFor_def)
  then have "recordedOk w (record_if (d = DispCommitted) (inst ! k) (bsRecorded s))"
    using recordedOk_snoc [OF rec a(2) a(6)] recordedOk_keeps [OF rec a(2)] by (auto simp: record_if_def x)
  then show ?thesis
    using call_moves [OF assms(1) succeeds(2) P a(1-3)] pcWeight_keeps [OF a(2)] a(4) succeeds(1,3)
    by (simp add: callWeight_def) (meson order_le_less_trans)
next
  case (fails n inst k e w pc)
  let ?c = "bsCalls s ! n"
  obtain P where P: "mset (outstanding (bsCalls s)) = mset (remaining (caPc ?c) @ P)"
    "\<And>c. mset (outstanding ((bsCalls s)[n := c])) = mset (remaining (caPc c) @ P)" using outstanding_split [OF fails(2)] by blast
  have world: "worldOk (bsWorld s) (drop k inst @ P)"
    using assms(1) worldOk_mset [OF P(1)] fails(3) by (simp add: systemOk_def)
  have pc: "pcOk (bsWorld s) (caRequested ?c) (Appending inst k)"
    using assms(1) fails(2,3) by (auto simp: systemOk_def callOk_def list_all_length)
  obtain i r b where x: "inst ! k = (i, r, b)" by (cases "inst ! k")
  note a = appendFailed_ok [OF world pc fails(4) x]
  have rec: "recordedOk (bsWorld s) (bsRecorded s)" using assms(1) by (simp add: systemOk_def)
  have "recordedOk w (record_if (eventIsDurable e) (inst ! k) (bsRecorded s))"
    using recordedOk_snoc [OF rec a(2) a(4)] a(5) recordedOk_keeps [OF rec a(2)] by (auto simp: record_if_def x)
  moreover have "worldOk w (remaining pc @ P)" "pcOk w (caRequested ?c) pc" using a(1,3) by simp_all
  moreover have "pcWeight w (caRequested ?c) pc < callWeight (bsWorld s) ?c"
    using a(3) pc fails(3) by (simp add: callWeight_def)
  ultimately show ?thesis using fails(1) by (intro call_moves [OF assms(1) fails(2) P _ a(2)])
qed

lemma requestKeys_distinct:
  "requestKeys hasher claims requested = Inr rs \<Longrightarrow> distinct (map fst requested) \<Longrightarrow> distinct (map fst rs)"
proof (induction hasher claims requested arbitrary: rs rule: requestKeys.induct)
  case (2 hasher c cs requested)
  obtain r where r: "claimRequest hasher c = Inr r" using 2(3) by (auto split: sum.splits)
  let ?i = "keyRegistryId (kcKind c) (kcKey c) (kcFrame c)"
  show ?case
  proof (cases "map_of requested ?i")
    case None
    then have "distinct (map fst (requested @ [(?i, r)]))" using 2(4) by (auto simp: map_of_eq_None_iff)
    then show ?thesis using 2(1) [OF r refl None] 2(3) r None by (simp add: Let_def)
  next
    case (Some prior)
    then show ?thesis using 2(2) [OF r refl Some] 2(3,4) r Some by (auto simp: Let_def split: if_splits)
  qed
qed simp

lemma hydrated_ok:
  assumes "worldOk w []" "distinct (map fst es)" "\<And>i h. (i, h) \<in> set es \<Longrightarrow> bwRegistry w i = None"
  shows "worldOk (hydratedKeyBindings es w) [] \<and> keeps w (hydratedKeyBindings es w)
    \<and> (\<forall>i h. (i, h) \<in> set es \<longrightarrow> durableFor (hydratedKeyBindings es w) i h)"
  using assms
proof (induction es w rule: hydratedKeyBindings.induct)
  case (1 w)
  then show ?case by (simp add: keeps_refl)
next
  case (2 i h es w)
  define r where "r = \<lparr>brqClaim = undefined, brqCanonical = [], brqHash = h\<rparr>"
  let ?v = "w\<lparr>bwHeap := bwHeap w @ [\<lparr>kyCanonical = None, kyHash = h, kyReady = Resolved, kyState = BindDurable\<rparr>],
          bwRegistry := (bwRegistry w)(i \<mapsto> length (bwHeap w))\<rparr>"
  have free: "bwRegistry w i = None" using 2(4) by auto
  note D = worldOkD [OF 2(2)]
  have keep: "keeps w ?v"
    using free D(1) by (auto simp: keeps_def nth_append)
  have ok: "worldOk ?v []"
  proof (rule worldOkI, goal_cases)
    case (1 j b)
    then show ?case using D(1) [of j b] by (auto split: if_splits)
  next
    case (2 j b)
    then show ?case using D(1,2) [of j b] by (auto simp: nth_append split: if_splits)
  next
    case (3 j k b)
    then show ?case using D(3) [of j b k] D(1) [of j b] D(1) [of k b] by (auto split: if_splits)
  next
    case (4 b)
    then show ?case using D(4) [of b] by (auto simp: nth_append settledOk_def)
  next
    case (7 b)
    then show ?case using D(7) [of b] by (auto simp: nth_append split: if_splits)
  qed simp_all
  have "bwRegistry ?v j = None" if "(j, q) \<in> set es" for j q using that 2(3,4) by force
  moreover have "distinct (map fst es)" using 2(3) by simp
  ultimately have ih: "worldOk (hydratedKeyBindings es ?v) []" "keeps ?v (hydratedKeyBindings es ?v)"
    "\<forall>j q. (j, q) \<in> set es \<longrightarrow> durableFor (hydratedKeyBindings es ?v) j q" using 2(1) [OF ok] by blast+
  have "durableFor ?v i h" by (simp add: durableFor_def)
  then have "durableFor (hydratedKeyBindings es ?v) i h" using durableFor_keeps ih(2) by blast
  then show ?case using ih keeps_trans [OF keep ih(2) 2(2)] by auto
qed

lemma durableFor_settled:
  "durableFor w i h \<Longrightarrow> \<exists>b. bwRegistry w i = Some b \<and> kyHash (bwHeap w ! b) = h \<and> kyState (bwHeap w ! b) \<noteq> BindPending"
  by (auto simp: durableFor_def)

lemma bindReach_ok: "bindReach hasher s \<Longrightarrow> systemOk s"
proof (induction rule: bindReach.induct)
  case (initial recovered)
  have "worldOk noBindings []" by (simp add: worldOk_def noBindings_def)
  from hydrated_ok [OF this initial] have "worldOk (hydratedKeyBindings recovered noBindings) []"
    "\<forall>i h. (i, h) \<in> set recovered \<longrightarrow> durableFor (hydratedKeyBindings recovered noBindings) i h"
    by (simp_all add: noBindings_def)
  then show ?case using initial durableFor_settled by (auto simp: systemOk_def outstanding_def recordedOk_def)
next
  case (starts s claims w c)
  have world: "worldOk (bsWorld s) (outstanding (bsCalls s))" using starts(3) by (simp add: systemOk_def)
  have new: "worldOk w (outstanding (bsCalls s @ [c])) \<and> keeps (bsWorld s) w \<and> callOk w c"
  proof (cases "requestKeys hasher claims []")
    case (Inl e)
    then show ?thesis using starts(2) world by (auto simp: startCall_def outstanding_def callOk_def keeps_refl)
  next
    case (Inr requested)
    then obtain pc where pc: "enterLoop requested (bsWorld s) = (w, pc)" "c = \<lparr>caClaims = claims, caRequested = requested, caPc = pc\<rparr>"
      using starts(2) by (cases "enterLoop requested (bsWorld s)") (auto simp: startCall_def)
    have d: "distinct (map fst requested)" using requestKeys_distinct [OF Inr] by simp
    note e = enterLoop_ok [OF world d pc(1)]
    have "mset (remaining pc @ outstanding (bsCalls s)) = mset (outstanding (bsCalls s @ [c]))"
      by (simp add: outstanding_def pc(2))
    from worldOk_mset [OF this] have "worldOk w (outstanding (bsCalls s @ [c]))" using e(1) by blast
    then show ?thesis using e(2,3) d by (simp add: callOk_def pc(2))
  qed
  have "callOk w x" if "x \<in> set (bsCalls s)" for x
    using starts(3) that callOk_keeps new by (auto simp: systemOk_def list_all_iff)
  moreover have "recordedOk w (bsRecorded s)" using starts(3) recordedOk_keeps new by (auto simp: systemOk_def)
  ultimately show ?case using new by (simp add: systemOk_def list_all_iff)
next
  case (moves s s')
  then show ?case using bindMove_ok by blast
qed

section \<open>What a call has bound\<close>

definition requestedFor :: "hasher \<Rightarrow> bind_caller \<Rightarrow> bool" where
  "requestedFor hasher c \<longleftrightarrow> (\<exists>e. caPc c = Threw e) \<or> requestKeys hasher (caClaims c) [] = Inr (caRequested c)"

lemma bindReach_requested: "bindReach hasher s \<Longrightarrow> list_all (requestedFor hasher) (bsCalls s)"
proof (induction rule: bindReach.induct)
  case (initial recovered)
  then show ?case by simp
next
  case (starts s claims w c)
  have "requestedFor hasher c"
  proof (cases "requestKeys hasher claims []")
    case (Inr requested)
    then show ?thesis
      using starts(2) by (cases "enterLoop requested (bsWorld s)") (auto simp: startCall_def requestedFor_def)
  qed (use starts(2) in \<open>auto simp: startCall_def requestedFor_def\<close>)
  then show ?case using starts(3) by simp
next
  case (moves s s')
  have kept: "list_all (requestedFor hasher) ((bsCalls s)[n := (bsCalls s ! n)\<lparr>caPc := pc\<rparr>])"
    if "n < length (bsCalls s)" "\<nexists>e. caPc (bsCalls s ! n) = Threw e" for n pc
  proof -
    have "requestedFor hasher (bsCalls s ! n)" using moves(3) that(1) by (simp add: list_all_length)
    then have "requestedFor hasher ((bsCalls s ! n)\<lparr>caPc := pc\<rparr>)" using that(2) by (simp add: requestedFor_def)
    then show ?thesis using moves(3) by (auto simp: list_all_iff dest: set_update_subset_insert [THEN subsetD])
  qed
  from moves(2) show ?case by cases (auto intro!: kept)
qed

lemma durableFor_unique: "durableFor w i h \<Longrightarrow> durableFor w i k \<Longrightarrow> h = k"
  by (auto simp: durableFor_def)

lemma claimRequest_Inr:
  "claimRequest hasher c = Inr r \<longleftrightarrow>
     (\<exists>t h. canonicalStringify (kcIdentity c) = Inr t \<and> identityHash hasher (kcIdentity c) = Inr h
        \<and> r = \<lparr>brqClaim = c, brqCanonical = t, brqHash = h\<rparr>)"
  by (auto simp: claimRequest_def resBind_eq_Inr)

text \<open>What is requested under a key stands for every claim of that key: same canonical text, same hash.\<close>

definition standsFor :: "hasher \<Rightarrow> (jstr \<times> bind_request) list \<Rightarrow> key_claim \<Rightarrow> bool" where
  "standsFor hasher rs c \<longleftrightarrow> (\<exists>r t. map_of rs (keyRegistryId (kcKind c) (kcKey c) (kcFrame c)) = Some r
     \<and> canonicalStringify (kcIdentity c) = Inr t \<and> brqCanonical r = t \<and> fullDigest hasher t = Inr (brqHash r))"

definition requestHashed :: "hasher \<Rightarrow> bind_request \<Rightarrow> bool" where
  "requestHashed hasher r \<longleftrightarrow> fullDigest hasher (brqCanonical r) = Inr (brqHash r)"

lemma claimRequest_hashed:
  assumes "claimRequest hasher c = Inr r"
  shows "requestHashed hasher r" "canonicalStringify (kcIdentity c) = Inr (brqCanonical r)"
  using assms by (auto simp: claimRequest_Inr identityHash_def requestHashed_def)

lemma standsFor_more: "standsFor hasher rs c \<Longrightarrow> standsFor hasher (rs @ xs) c"
  by (auto simp: standsFor_def map_add_def split: option.splits)

lemma requestKeys_stand:
  assumes "requestKeys hasher claims requested = Inr rs" "\<forall>r\<in>snd ` set requested. requestHashed hasher r"
  shows "(\<exists>xs. rs = requested @ xs) \<and> (\<forall>c\<in>set claims. standsFor hasher rs c)"
  using assms
proof (induction hasher claims requested arbitrary: rs rule: requestKeys.induct)
  case (1 hasher requested)
  then show ?case by simp
next
  case (2 hasher c cs requested)
  obtain r where r: "claimRequest hasher c = Inr r" using 2(3) by (auto split: sum.splits)
  note h = claimRequest_hashed [OF r]
  let ?i = "keyRegistryId (kcKind c) (kcKey c) (kcFrame c)"
  show ?case
  proof (cases "map_of requested ?i")
    case None
    then have eq: "requestKeys hasher cs (requested @ [(?i, r)]) = Inr rs" using 2(3) r by (simp add: Let_def)
    have "\<forall>r\<in>snd ` set (requested @ [(?i, r)]). requestHashed hasher r" using 2(4) h(1) by auto
    from 2(1) [OF r refl None eq this] obtain xs where xs: "rs = (requested @ [(?i, r)]) @ xs" "\<forall>c\<in>set cs. standsFor hasher rs c" by blast
    have "standsFor hasher (requested @ [(?i, r)]) c"
      using None h by (simp add: standsFor_def requestHashed_def map_add_def)
    then have "standsFor hasher rs c" unfolding xs(1) by (rule standsFor_more)
    then show ?thesis using xs by simp
  next
    case (Some prior)
    then have eq: "brqCanonical prior = brqCanonical r" "requestKeys hasher cs requested = Inr rs"
      using 2(3) r by (auto simp: Let_def split: if_splits)
    from 2(2) [OF r refl Some _ eq(2) 2(4)] eq(1) obtain xs where xs: "rs = requested @ xs" "\<forall>c\<in>set cs. standsFor hasher rs c" by auto
    have "requestHashed hasher prior" using 2(4) map_of_SomeD [OF Some] by force
    then have "standsFor hasher requested c"
      using Some h(2) eq(1) by (simp add: standsFor_def requestHashed_def)
    then have "standsFor hasher rs c" unfolding xs(1) by (rule standsFor_more)
    then show ?thesis using xs by simp
  qed
qed

definition claimBound :: "hasher \<Rightarrow> bind_world \<Rightarrow> key_claim \<Rightarrow> bool" where
  "claimBound hasher w c \<longleftrightarrow> (case identityHash hasher (kcIdentity c) of
     Inr h \<Rightarrow> durableFor w (keyRegistryId (kcKind c) (kcKey c) (kcFrame c)) h | Inl _ \<Rightarrow> False)"

lemma claimBoundE:
  assumes "claimBound hasher w c"
  obtains h where "identityHash hasher (kcIdentity c) = Inr h" "durableFor w (keyRegistryId (kcKind c) (kcKey c) (kcFrame c)) h"
  using assms by (cases "identityHash hasher (kcIdentity c)") (auto simp: claimBound_def)

lemma returned_bound:
  assumes "bindReach hasher s" "c \<in> set (bsCalls s)" "caPc c = Returned" "x \<in> set (caClaims c)"
  shows "claimBound hasher (bsWorld s) x"
proof -
  have "requestedFor hasher c" using bindReach_requested [OF assms(1)] assms(2) by (simp add: list_all_iff)
  then have "requestKeys hasher (caClaims c) [] = Inr (caRequested c)" using assms(3) by (simp add: requestedFor_def)
  from requestKeys_stand [OF this] assms(4) have "standsFor hasher (caRequested c) x" by simp
  then obtain r where r: "(keyRegistryId (kcKind x) (kcKey x) (kcFrame x), r) \<in> set (caRequested c)"
      "identityHash hasher (kcIdentity x) = Inr (brqHash r)"
    by (auto simp: standsFor_def identityHash_def dest: map_of_SomeD)
  have "callOk (bsWorld s) c" using bindReach_ok [OF assms(1)] assms(2) by (simp add: systemOk_def list_all_iff)
  then have "claimed (bsWorld s) (caRequested c) []" using assms(3) by (simp add: callOk_def)
  then show ?thesis using r by (auto simp: claimBound_def claimed_def)
qed

definition callDone :: "bind_caller \<Rightarrow> bool" where
  "callDone c \<longleftrightarrow> caPc c = Returned \<or> (\<exists>e. caPc c = Threw e)"

lemma appending_moves: "c \<in> set (bsCalls s) \<Longrightarrow> caPc c = Appending inst k \<Longrightarrow> \<exists>s'. bindMove s s'"
  using bindMove.succeeds by (metis in_set_conv_nth surj_pair)

lemma unfinished_moves:
  assumes "systemOk s" "c \<in> set (bsCalls s)" "\<not> callDone c"
  shows "\<exists>s'. bindMove s s'"
proof (cases "caPc c")
  case (Waiting bids)
  obtain n where n: "n < length (bsCalls s)" "bsCalls s ! n = c" using assms(2) by (metis in_set_conv_nth)
  have ok: "list_all (awaited (bsWorld s) (caRequested c)) bids"
    using assms(1,2) Waiting by (auto simp: systemOk_def list_all_iff callOk_def)
  have world: "worldOk (bsWorld s) (outstanding (bsCalls s))" using assms(1) by (simp add: systemOk_def)
  consider "list_all (\<lambda>b. kyReady (bwHeap (bsWorld s) ! b) = Resolved) bids"
    | b e where "b \<in> set bids" "kyReady (bwHeap (bsWorld s) ! b) = Rejected e"
    | b where "b \<in> set bids" "kyReady (bwHeap (bsWorld s) ! b) = Unsettled"
  proof -
    have "kyReady k = Resolved \<or> kyReady k = Unsettled \<or> (\<exists>e. kyReady k = Rejected e)" for k by (cases "kyReady k") auto
    then show ?thesis using that unfolding list_all_iff by blast
  qed
  then show ?thesis
  proof cases
    case 1
    obtain w pc where "enterLoop (caRequested (bsCalls s ! n)) (bsWorld s) = (w, pc)" by fastforce
    from bindMove.wakes [OF n(1) _ 1 this] n(2) Waiting show ?thesis by blast
  next
    case 2
    then show ?thesis using bindMove.rejects [OF n(1) _ 2] n(2) Waiting by blast
  next
    case 3
    then have "b < length (bwHeap (bsWorld s))" using ok by (auto simp: list_all_iff awaited_def)
    from worldOkD(7) [OF world this 3(2)] obtain i r where "(i, r, b) \<in> set (outstanding (bsCalls s))" by blast
    then obtain d where d: "d \<in> set (bsCalls s)" "(i, r, b) \<in> set (remaining (caPc d))" by (auto simp: outstanding_def)
    then obtain inst k where "caPc d = Appending inst k" by (cases "caPc d") auto
    then show ?thesis using d(1) appending_moves by blast
  qed
next
  case (Appending inst k)
  then show ?thesis using assms(2) appending_moves by blast
qed (use assms(3) in \<open>auto simp: callDone_def\<close>)

lemma moves_bounded: "(bindMove ^^ n) s s' \<Longrightarrow> systemOk s \<Longrightarrow> systemOk s' \<and> systemWeight s' + n \<le> systemWeight s"
proof (induction n arbitrary: s')
  case (Suc n)
  then obtain v where v: "(bindMove ^^ n) s v" "bindMove v s'" by auto
  then have ih: "systemOk v" "systemWeight v + n \<le> systemWeight s" using Suc by auto
  from bindMove_ok [OF ih(1) v(2)] ih(2) show ?case by linarith
qed simp

text \<open>The keys that are settled for good, with the hash of their identity.\<close>

definition keyMap :: "bind_world \<Rightarrow> jstr \<Rightarrow> jstr option" where
  "keyMap w i = (case bwRegistry w i of
     Some b \<Rightarrow> if kyState (bwHeap w ! b) = BindPending then None else Some (kyHash (bwHeap w ! b)) | None \<Rightarrow> None)"

lemma keyMap_keeps: "keeps w w' \<Longrightarrow> keyMap w \<subseteq>\<^sub>m keyMap w'"
  by (auto simp: map_le_def keyMap_def keeps_def dom_def split: option.splits if_splits)

lemma recorded_keyMap: "recordedOk w es \<Longrightarrow> distinct (map fst es) \<and> map_of es \<subseteq>\<^sub>m keyMap w"
  by (fastforce simp: recordedOk_def map_le_def keyMap_def dest: map_of_SomeD)

section \<open>Properties\<close>

text \<open>
  C18: A call whose \<open>bindKeys\<close> returned has every one of its keys durably bound to the hash of its own identity,
  whatever ran concurrently; so two calls that returned and share a key have the same identity hash.
\<close>

theorem returned_calls_agree:
  assumes "bindReach hasher s" "c \<in> set (bsCalls s)" "caPc c = Returned" "d \<in> set (bsCalls s)" "caPc d = Returned"
    and "x \<in> set (caClaims c)" "y \<in> set (caClaims d)"
    and "keyRegistryId (kcKind x) (kcKey x) (kcFrame x) = keyRegistryId (kcKind y) (kcKey y) (kcFrame y)"
  shows "claimBound hasher (bsWorld s) x \<and> identityHash hasher (kcIdentity x) = identityHash hasher (kcIdentity y)"
proof -
  have b: "claimBound hasher (bsWorld s) x" "claimBound hasher (bsWorld s) y"
    using returned_bound [OF assms(1)] assms(2-7) by blast+
  obtain h where h: "identityHash hasher (kcIdentity x) = Inr h"
      "durableFor (bsWorld s) (keyRegistryId (kcKind x) (kcKey x) (kcFrame x)) h" by (rule claimBoundE [OF b(1)])
  obtain k where k: "identityHash hasher (kcIdentity y) = Inr k"
      "durableFor (bsWorld s) (keyRegistryId (kcKind y) (kcKey y) (kcFrame y)) k" by (rule claimBoundE [OF b(2)])
  have "h = k" by (rule durableFor_unique [OF h(2) k(2) [folded assms(8)]])
  then show ?thesis using b(1) h(1) k(1) by simp
qed

text \<open>
  C17: Key binding never deadlocks or spins.  From any reachable state at most \<open>systemWeight\<close> further pieces of the
  running calls can be executed in any order, and where none is left every call has returned or thrown.
\<close>

theorem binding_terminates:
  assumes "bindReach hasher s" "(bindMove ^^ n) s s'"
  shows "n \<le> systemWeight s \<and> ((\<exists>s''. bindMove s' s'') \<or> list_all callDone (bsCalls s'))"
proof -
  have m: "systemOk s'" "systemWeight s' + n \<le> systemWeight s" using moves_bounded [OF assms(2) bindReach_ok [OF assms(1)]] by simp_all
  then show ?thesis using unfinished_moves [OF m(1)] by (auto simp: list_all_iff)
qed

text \<open>
  C19: The registry is a write-once map.  No move unbinds or rebinds a settled key, the journal records no key twice,
  and a recorded key is settled with the recorded hash.
\<close>

theorem keys_bound_once:
  assumes "bindReach hasher s" "bindMove s s'"
  shows "keyMap (bsWorld s) \<subseteq>\<^sub>m keyMap (bsWorld s') \<and> map_of (bsRecorded s') \<subseteq>\<^sub>m keyMap (bsWorld s')
    \<and> distinct (map fst (bsRecorded s'))"
proof -
  from bindMove_ok [OF bindReach_ok [OF assms(1)] assms(2)] have "systemOk s'" "keeps (bsWorld s) (bsWorld s')" by simp_all
  then show ?thesis using keyMap_keeps recorded_keyMap by (auto simp: systemOk_def)
qed

section \<open>Witnesses\<close>

definition sampleClaim :: key_claim where
  "sampleClaim = \<lparr>kcFrame = \<lparr>frFrameId = js ''f'', frLineage = None\<rparr>, kcKind = KLlm, kcKey = js ''k'', kcIdentity = JStr (js ''p'')\<rparr>"

definition sampleHash :: hasher where
  "sampleHash = (\<lambda>_. js ''0000000000000000000000000000000000000000000000000000000000000000'')"

text \<open>A call that has installed its binding, and the same call after its append succeeded.\<close>

definition startedSystem :: bind_system where
  "startedSystem = (case startCall sampleHash [sampleClaim] noBindings of (w, c) \<Rightarrow>
     \<lparr>bsRecorded = [], bsWorld = w, bsCalls = [c]\<rparr>)"

definition returnedSystem :: "disposition \<Rightarrow> bind_system" where
  "returnedSystem d = (case caPc (hd (bsCalls startedSystem)) of Appending inst k \<Rightarrow>
     (case appendSucceeded inst k (bsWorld startedSystem) of (w, pc) \<Rightarrow>
        startedSystem\<lparr>bsRecorded := record_if (d = DispCommitted) (inst ! k) [], bsWorld := w,
          bsCalls := [(hd (bsCalls startedSystem))\<lparr>caPc := pc\<rparr>]\<rparr>)
     | _ \<Rightarrow> startedSystem)"

lemma started_reach: "bindReach sampleHash startedSystem"
proof -
  obtain w c where start: "startCall sampleHash [sampleClaim] noBindings = (w, c)" by fastforce
  have "bindReach sampleHash \<lparr>bsRecorded = [], bsWorld = noBindings, bsCalls = []\<rparr>"
    using bindReach.initial [of "[]" sampleHash] by simp
  from bindReach.starts [OF this, of "[sampleClaim]"] start show ?thesis by (simp add: startedSystem_def)
qed

lemma started_calls: "\<exists>c x. bsCalls startedSystem = [c] \<and> caPc c = Appending [x] 0"
proof -
  have "map (\<lambda>c. case caPc c of Appending inst k \<Rightarrow> (length inst, k) | _ \<Rightarrow> (0, 0)) (bsCalls startedSystem) = [(1, 0)]"
    by code_simp
  then obtain c where "bsCalls startedSystem = [c]" "(case caPc c of Appending inst k \<Rightarrow> (length inst, k) | _ \<Rightarrow> (0, 0)) = (1, 0)"
    by auto
  then show ?thesis by (cases "caPc c") (auto simp: length_Suc_conv)
qed

lemma started_move: "bindMove startedSystem (returnedSystem d)"
proof -
  obtain c x where c: "bsCalls startedSystem = [c]" "caPc c = Appending [x] 0"
    using started_calls by blast
  have r: "bsRecorded startedSystem = []" by (simp add: startedSystem_def split: prod.split)
  obtain w pc where a: "appendSucceeded [x] 0 (bsWorld startedSystem) = (w, pc)" by fastforce
  from bindMove.succeeds [of 0 startedSystem "[x]" 0 w pc d] c a r show ?thesis by (simp add: returnedSystem_def)
qed

lemma returned_reach: "bindReach sampleHash (returnedSystem d)"
  using started_reach started_move by (rule bindReach.moves)

lemma returned_call: "\<exists>c. bsCalls (returnedSystem d) = [c] \<and> caPc c = Returned \<and> caClaims c = [sampleClaim]"
proof -
  obtain c x where c: "bsCalls startedSystem = [c]" "caPc c = Appending [x] 0" using started_calls by blast
  have "caClaims c = [sampleClaim]"
    using c(1) by (auto simp: startedSystem_def startCall_def apsnd_def map_prod_def split: prod.splits sum.splits)
  moreover have "snd (appendSucceeded [x] 0 w) = Returned" for w by (simp add: appendSucceeded_def split: prod.split)
  ultimately show ?thesis using c by (simp add: returnedSystem_def split: prod.split) (metis snd_conv)
qed


lemma returned_calls_agree_witness: "claimBound sampleHash (bsWorld (returnedSystem DispCommitted)) sampleClaim"
  using returned_call [of DispCommitted] returned_calls_agree [OF returned_reach, of _ DispCommitted _ sampleClaim sampleClaim]
  by auto

lemma binding_terminates_witness:
  "(1::nat) \<le> systemWeight startedSystem
     \<and> ((\<exists>s. bindMove (returnedSystem DispCommitted) s) \<or> list_all callDone (bsCalls (returnedSystem DispCommitted)))"
proof -
  have "(bindMove ^^ 1) startedSystem (returnedSystem DispCommitted)" by (simp only: relpowp_1) (rule started_move)
  from binding_terminates [OF started_reach this] show ?thesis .
qed

lemma keys_bound_once_witness:
  "map_of (bsRecorded (returnedSystem DispCommitted)) \<subseteq>\<^sub>m keyMap (bsWorld (returnedSystem DispCommitted))"
  using keys_bound_once [OF started_reach started_move] by blast

end
