(* ===== verification/Provider.thy ===== *)
theory Provider
  imports JournalStore Semaphore RunProgress
begin

text \<open>
  The pure parts of the model-invocation boundary, \<open>src/src/runtime/provider.ts\<close>: what a request is and what
  identifies it, the token reservation it needs, and how untrusted responses and failures are read and turned
  into usage records and call errors.  Requests are JSON trees in property order; responses and errors are heap
  values, read getter-free.
\<close>

section \<open>Requests\<close>

definition DEFAULT_MAX_OUTPUT_TOKENS :: jsnum where
  "DEFAULT_MAX_OUTPUT_TOKENS = Num 512"

text \<open>The path of the first value \<open>strictJsonSnapshot\<close> rejects; on a tree only numbers can be rejected.\<close>

fun strictPath :: "jstr \<Rightarrow> json \<Rightarrow> jstr option"
  and strictItems :: "jstr \<Rightarrow> nat \<Rightarrow> json list \<Rightarrow> jstr option"
  and strictProps :: "jstr \<Rightarrow> (jstr \<times> json) list \<Rightarrow> jstr option" where
  "strictPath path (JNum n) = (if isFinite n then None else Some path)"
| "strictPath path (JArr vs) = strictItems path 0 vs"
| "strictPath path (JObj ps) = strictProps path ps"
| "strictPath path JNull = None"
| "strictPath path (JBool b) = None"
| "strictPath path (JStr s) = None"
| "strictItems path i [] = None"
| "strictItems path i (v # vs) =
     (case strictPath (path @ js ''['' @ natString i @ js '']'') v of
        Some p \<Rightarrow> Some p
      | None \<Rightarrow> strictItems path (Suc i) vs)"
| "strictProps path [] = None"
| "strictProps path ((k, v) # ps) =
     (case strictPath (path @ js ''.'' @ k) v of Some p \<Rightarrow> Some p | None \<Rightarrow> strictProps path ps)"

definition strictJsonSnapshot :: "json \<Rightarrow> string \<Rightarrow> js_exn + json" where
  "strictJsonSnapshot v label =
     (case strictPath (js ''$'') v of
        None \<Rightarrow> Inr v
      | Some path \<Rightarrow> Inl (ThrowTypeError (js label @ js '' is not strict JSON at '' @ path)))"

record model_client =
  mcId :: jstr
  mcIdentity :: json

type_synonym model_request = "(jstr \<times> json) list"

text \<open>\<open>request.maxOutputTokens ?? DEFAULT_MAX_OUTPUT_TOKENS\<close>, as a property of the normalized request.\<close>

definition normalizedRequest :: "model_request \<Rightarrow> model_request" where
  "normalizedRequest ps =
     propSet ps (js ''maxOutputTokens'')
       (case map_of ps (js ''maxOutputTokens'') of
          None \<Rightarrow> JNum DEFAULT_MAX_OUTPUT_TOKENS
        | Some JNull \<Rightarrow> JNum DEFAULT_MAX_OUTPUT_TOKENS
        | Some v \<Rightarrow> v)"

text \<open>The request without the owner's signal, and the canonical text that identifies it.\<close>

definition prepareModelRequest :: "model_client \<Rightarrow> model_request \<Rightarrow> js_exn + model_request \<times> jstr" where
  "prepareModelRequest client input =
     (let requestInput = filter (\<lambda>p. fst p \<noteq> js ''signal'') input
      in resBind (strictJsonSnapshot (JObj requestInput) ''model request'') (\<lambda>_.
         let normalized = normalizedRequest requestInput
         in if mcId client = [] then Inl (ThrowTypeError (js ''model client.id must be a nonempty string''))
            else resBind (strictJsonSnapshot (JObj
                   [(js ''version'', JStr PROVIDER_REQUEST_IDENTITY_VERSION),
                    (js ''modelClient'', JObj [(js ''id'', JStr (mcId client)), (js ''identity'', mcIdentity client)]),
                    (js ''request'', JObj normalized)]) ''provider request identity'') (\<lambda>identity.
                 resBind (canonicalStringify identity) (\<lambda>canonical. Inr (normalized, canonical)))))"

record external_identity =
  eiVersion :: jstr
  eiSha256 :: jstr

definition providerRequestIdentity :: "hasher \<Rightarrow> model_client \<Rightarrow> model_request \<Rightarrow> js_exn + external_identity" where
  "providerRequestIdentity sha256 client request =
     map_sum id (\<lambda>(_, canonical). \<lparr>eiVersion = PROVIDER_REQUEST_IDENTITY_VERSION, eiSha256 = sha256 canonical\<rparr>)
       (prepareModelRequest client request)"

definition externalExtractorRequestIdentity ::
  "hasher \<Rightarrow> jstr \<Rightarrow> jstr \<Rightarrow> jstr \<Rightarrow> js_exn + external_identity" where
  "externalExtractorRequestIdentity sha256 manifestHash projectionVersion projectionSha256 =
     (if \<not> isSha256 manifestHash \<or> \<not> isSha256 projectionSha256 \<or> projectionVersion = []
      then Inl (ThrowTypeError (js ''external extractor request identity is invalid''))
      else map_sum id (\<lambda>canonical. \<lparr>eiVersion = EXTERNAL_EXTRACTOR_REQUEST_IDENTITY_VERSION, eiSha256 = sha256 canonical\<rparr>)
        (canonicalStringify (JObj
           [(js ''version'', JStr EXTERNAL_EXTRACTOR_REQUEST_IDENTITY_VERSION), (js ''manifestHash'', JStr manifestHash),
            (js ''projectionVersion'', JStr projectionVersion), (js ''projectionSha256'', JStr projectionSha256)])))"

definition invalidRequest :: "string \<Rightarrow> call_error" where
  "invalidRequest message = callError INVALID_REQUEST (js message)"

definition isTextValue :: "json \<Rightarrow> bool" where
  "isTextValue v \<longleftrightarrow> (case v of JStr _ \<Rightarrow> True | _ \<Rightarrow> False)"

definition validOutputTokens :: "jsnum \<Rightarrow> bool" where
  "validOutputTokens n \<longleftrightarrow> isSafeInteger n \<and> \<not> jleq n (Num 0) \<and> \<not> jless MAX_CALL_TOKENS n"

definition validateRequest :: "model_request \<Rightarrow> call_error option" where
  "validateRequest ps =
     (let is = (\<lambda>k ok. case map_of ps (js k) of None \<Rightarrow> True | Some v \<Rightarrow> ok v)
      in if \<not> (case map_of ps (js ''prompt'') of Some v \<Rightarrow> isTextValue v | None \<Rightarrow> False)
         then Some (invalidRequest ''model prompt must be a string'')
         else if \<not> is ''system'' isTextValue then Some (invalidRequest ''model system prompt must be a string'')
         else if \<not> is ''context'' (\<lambda>v. case v of JArr vs \<Rightarrow> list_all isTextValue vs | _ \<Rightarrow> False)
         then Some (invalidRequest ''model context must contain strings'')
         else if \<not> is ''maxOutputTokens'' (\<lambda>v. case v of JNum n \<Rightarrow> validOutputTokens n | _ \<Rightarrow> False)
         then Some (callError INVALID_REQUEST
                (js ''maxOutputTokens must be a positive safe integer at most '' @ numString MAX_CALL_TOKENS))
         else None)"

section \<open>Token reservations\<close>

text \<open>The part of a valid request that the estimate reads.\<close>

record token_request =
  trPrompt :: jstr
  trSystem :: "jstr option"
  trContext :: "jstr list option"
  trSchema :: "json option"
  trMaxOutputTokens :: "jsnum option"

fun promptText :: "json \<Rightarrow> jstr" where
  "promptText (JStr s) = s"
| "promptText _ = []"

fun contextTexts :: "json \<Rightarrow> jstr list" where
  "contextTexts (JArr vs) = map promptText vs"
| "contextTexts _ = []"

fun tokenCount :: "json \<Rightarrow> jsnum" where
  "tokenCount (JNum n) = n"
| "tokenCount _ = NaN"

definition tokenRequest :: "model_request \<Rightarrow> token_request" where
  "tokenRequest ps =
     \<lparr>trPrompt = case_option [] promptText (map_of ps (js ''prompt'')),
      trSystem = map_option promptText (map_of ps (js ''system'')),
      trContext = map_option contextTexts (map_of ps (js ''context'')),
      trSchema = map_of ps (js ''schema''),
      trMaxOutputTokens = map_option tokenCount (map_of ps (js ''maxOutputTokens''))\<rparr>"

text \<open>The byte count of the inputs, as long as it stays a safe integer.\<close>

fun sumBytes :: "jstr list \<Rightarrow> int \<Rightarrow> int option" where
  "sumBytes [] n = Some n"
| "sumBytes (s # ss) n =
     (let bytes = int (byteLength s) in if MAX_SAFE_INTEGER - bytes < n then None else sumBytes ss (n + bytes))"

text \<open>\<open>Math.ceil(inputBytes / 4)\<close>: dividing a double by four only changes its exponent, so the quotient is exact.\<close>

definition ceilQuarter :: "int \<Rightarrow> int" where
  "ceilQuarter n = (n + 3) div 4"

definition schemaInputs :: "token_request \<Rightarrow> jstr list option" where
  "schemaInputs r =
     (case trSchema r of
        None \<Rightarrow> Some []
      | Some v \<Rightarrow> (case canonicalStringify v of Inl _ \<Rightarrow> None | Inr t \<Rightarrow> Some [t]))"

definition requestInputs :: "token_request \<Rightarrow> jstr list" where
  "requestInputs r = trPrompt r # case_option [] (\<lambda>s. [s]) (trSystem r) @ case_option [] id (trContext r)"

definition tokenReservation :: "token_request \<Rightarrow> jsnum option" where
  "tokenReservation r =
     (let m = case_option DEFAULT_MAX_OUTPUT_TOKENS id (trMaxOutputTokens r)
      in if \<not> validOutputTokens m then None
         else case schemaInputs r of
                None \<Rightarrow> None
              | Some extra \<Rightarrow>
                  (case sumBytes (requestInputs r @ extra) 0 of
                     None \<Rightarrow> None
                   | Some inputBytes \<Rightarrow>
                       let inputTokens = JI (ceilQuarter inputBytes)
                       in if jleq inputTokens (jsub MAX_CALL_TOKENS m) then Some (jadd inputTokens m) else None))"

section \<open>Responses and failures\<close>

definition usageLimitsFor :: "jsnum \<Rightarrow> usage_limits" where
  "usageLimitsFor wallMs =
     \<lparr>ulMaxAttempts = MAX_CALL_ATTEMPTS, ulMaxTokens = MAX_CALL_TOKENS, ulMaxCostUsd = MAX_CALL_COST_USD,
      ulMaxDurationMs = jmin MAX_CALL_DURATION_MS wallMs\<rparr>"

text \<open>\<open>None\<close> is \<open>found: false\<close>; an accessor is found, and its value is \<open>undefined\<close>.\<close>

definition ownDataValue :: "jsobj \<Rightarrow> string \<Rightarrow> jsval option" where
  "ownDataValue obj key =
     (case obj of
        OArray _ \<Rightarrow> None
      | OObject props \<Rightarrow>
          (case map_of props (js key) of
             None \<Rightarrow> None
           | Some Hole \<Rightarrow> None
           | Some (Accessor _) \<Rightarrow> Some VUndefined
           | Some (Data v) \<Rightarrow> Some v))"

definition boundedOwnString :: "jsobj \<Rightarrow> string \<Rightarrow> jstr option" where
  "boundedOwnString obj key =
     (case ownDataValue obj key of
        Some (VStr s) \<Rightarrow> if 0 < length s \<and> length s \<le> ERROR_DETAIL_MAX_LENGTH then Some s else None
      | _ \<Rightarrow> None)"

definition normalizeOwnedUsage :: "heap \<Rightarrow> jsval \<Rightarrow> usage_limits \<Rightarrow> call_usage option" where
  "normalizeOwnedUsage h v ls =
     (case normalizeCallUsage h v ls of
        Inl _ \<Rightarrow> None
      | Inr u \<Rightarrow>
          let owned = u\<lparr>uAttempts := Num 1\<rparr>;
              parts = jadd (case_option (Num 0) id (uInputTokens owned)) (case_option (Num 0) id (uOutputTokens owned))
          in if \<not> isSafeInteger parts \<or> (case uTotalTokens owned of None \<Rightarrow> False | Some t \<Rightarrow> jless t parts) then None
             else Some owned)"

definition normalizeModelResponse :: "heap \<Rightarrow> jsval \<Rightarrow> usage_limits \<Rightarrow> (jstr \<times> call_usage) option" where
  "normalizeModelResponse h v ls =
     (case v of
        VRef a \<Rightarrow>
          (case (ownDataValue (h a) ''text'', ownDataValue (h a) ''usage'') of
             (Some (VStr text), Some rawUsage) \<Rightarrow> map_option (Pair text) (normalizeOwnedUsage h rawUsage ls)
           | _ \<Rightarrow> None)
      | _ \<Rightarrow> None)"

definition PI_ERROR_CODES :: "jstr list" where
  "PI_ERROR_CODES = map js [''CANCELLED'', ''PROVIDER_ERROR'', ''OUTPUT_TRUNCATED'', ''UNEXPECTED_TOOL_USE'', ''MISSING_TEXT'']"

definition PI_STOP_REASONS :: "jstr list" where
  "PI_STOP_REASONS = map js [''stop'', ''length'', ''toolUse'', ''error'', ''aborted'']"

record pi_failure =
  pfCode :: jstr
  pfStopReason :: jstr
  pfProvider :: jstr
  pfModel :: jstr
  pfUsage :: call_usage

definition normalizePiFailure :: "heap \<Rightarrow> nat \<Rightarrow> usage_limits \<Rightarrow> pi_failure option" where
  "normalizePiFailure h a ls =
     (case (boundedOwnString (h a) ''code'', boundedOwnString (h a) ''stopReason'', boundedOwnString (h a) ''provider'',
            boundedOwnString (h a) ''model'',
            case ownDataValue (h a) ''usage'' of None \<Rightarrow> None | Some v \<Rightarrow> normalizeOwnedUsage h v ls) of
        (Some code, Some stop, Some provider, Some model, Some u) \<Rightarrow>
          if code \<in> set PI_ERROR_CODES \<and> stop \<in> set PI_STOP_REASONS
          then Some \<lparr>pfCode = code, pfStopReason = stop, pfProvider = provider, pfModel = model, pfUsage = u\<rparr>
          else None
      | _ \<Rightarrow> None)"

text \<open>The normalized failure as the object that becomes the details of the call error.\<close>

definition usageSlots :: "call_usage \<Rightarrow> (jstr \<times> slot) list" where
  "usageSlots u =
     (let opt = (\<lambda>k x. case x of None \<Rightarrow> [] | Some n \<Rightarrow> [(js k, Data (VNum n))])
      in [(js ''attempts'', Data (VNum (uAttempts u))), (js ''durationMs'', Data (VNum (uDurationMs u)))]
         @ opt ''inputTokens'' (uInputTokens u) @ opt ''outputTokens'' (uOutputTokens u)
         @ opt ''totalTokens'' (uTotalTokens u) @ opt ''costUsd'' (uCostUsd u))"

definition failureHeap :: "pi_failure \<Rightarrow> heap" where
  "failureHeap f a =
     (if a = 0
      then OObject [(js ''code'', Data (VStr (pfCode f))), (js ''stopReason'', Data (VStr (pfStopReason f))),
             (js ''provider'', Data (VStr (pfProvider f))), (js ''model'', Data (VStr (pfModel f))), (js ''usage'', Data (VRef 1))]
      else OObject (usageSlots (pfUsage f)))"

definition piFailure :: "pi_failure \<Rightarrow> call_error" where
  "piFailure f =
     (let code = (if pfCode f = js ''CANCELLED'' then CANCELLED
                  else if pfCode f = js ''PROVIDER_ERROR'' then FAILED else INVALID_RESULT)
      in callErrorWith (failureHeap f) (VRef 0) code
           (js (if code = CANCELLED then ''model completion cancelled''
                else if code = FAILED then ''model provider failed''
                else ''model completion returned an invalid result'')))"

definition elapsedMs :: "jsnum \<Rightarrow> jsnum \<Rightarrow> jsnum" where
  "elapsedMs startedMs completedMs =
     (if \<not> isFinite startedMs \<or> \<not> isFinite completedMs \<or> jleq completedMs startedMs then Num 0
      else jmin (jfloor (jsub completedMs startedMs)) MAX_CALL_DURATION_MS)"

definition measuredUsage :: "jsnum \<Rightarrow> jsnum \<Rightarrow> call_usage" where
  "measuredUsage startedMs completedMs =
     \<lparr>uAttempts = Num 1, uInputTokens = None, uOutputTokens = None, uTotalTokens = None, uCostUsd = None,
      uDurationMs = elapsedMs startedMs completedMs\<rparr>"

definition hasAttemptCapacity :: "ledger \<Rightarrow> bool" where
  "hasAttemptCapacity l \<longleftrightarrow> jless (attempts (usage l)) (maxAttempts (limits l))"

end
