(* ===== verification/ProviderSystem.thy ===== *)
theory ProviderSystem
  imports Provider
begin

text \<open>
  The stateful part of \<open>src/src/runtime/provider.ts\<close>: \<open>createModelOperation\<close> and its three ways to make an external
  call.  All calls of a run share its ledger, semaphore, journal and usage scopes.  Between two awaits a call runs
  alone, so each definition that changes the state is one uninterrupted piece of \<open>complete\<close>, \<open>runExternal\<close> or
  \<open>runExternalReported\<close>, and a transition system interleaves the pieces with one another, with aborts, with the
  end of the run's authority and with the other users of the ledger.  A piece that reads the clock several times
  takes its readings as a function.
\<close>

section \<open>State\<close>

datatype effect_error = PiModelError heap nat | AbortedError | OtherError

record external_result =
  erHeap :: heap
  erValue :: jsval
  erUsage :: jsval
  erOutcome :: jsval
  erErrorCode :: jsval

datatype effect_reply = EffectFulfilled heap jsval | EffectReported external_result | EffectRejected effect_error

datatype provider_failure =
    ModelInvocationError call_error call_usage
  | OperationAborted
  | JournalFailed append_error
  | ThrownBy js_exn
  | ExternalThrew effect_error

datatype provider_value = ModelResponse jstr call_usage | ExternalValue effect_reply

type_synonym provider_reply = "provider_failure + provider_value"

record provider_env =
  peRunId :: jstr
  peHasher :: hasher
  peSha256 :: hasher
  peWallMs :: jsnum

record model_operation =
  moFrameId :: jstr
  moUsageScopes :: "jstr list"
  moOperationId :: jstr
  moKind :: operation_kind
  moKey :: jstr
  moSignal :: nat
  moDeadlineMs :: jsnum
  moLogicalReserved :: bool
  moAggregate :: call_usage
  moPoison :: "append_error option"
  moAttemptOrdinal :: jsnum

record provider_world =
  pwLedger :: ledger
  pwSemaphore :: semaphore
  pwJournal :: "rlm_event list"
  pwScopeUsage :: "jstr \<Rightarrow> call_usage option"
  pwAttempts :: "jstr \<Rightarrow> jsnum option"
  pwAuthority :: bool

definition attemptKey :: "jstr \<Rightarrow> jstr \<Rightarrow> jstr" where
  "attemptKey frameId operationId = frameId @ [0] @ operationId"

definition createModelOperation ::
  "jstr \<Rightarrow> jstr list \<Rightarrow> jstr \<Rightarrow> operation_kind \<Rightarrow> jstr \<Rightarrow> nat \<Rightarrow> jsnum \<Rightarrow> provider_world \<Rightarrow> model_operation" where
  "createModelOperation frameId scopes operationId kind key signal deadline w =
     \<lparr>moFrameId = frameId, moUsageScopes = scopes, moOperationId = operationId, moKind = kind, moKey = key,
      moSignal = signal, moDeadlineMs = deadline, moLogicalReserved = False, moAggregate = ZERO_CALL_USAGE,
      moPoison = None, moAttemptOrdinal = case_option (Num 0) id (pwAttempts w (attemptKey frameId operationId))\<rparr>"

definition poison :: "append_error \<Rightarrow> model_operation \<Rightarrow> model_operation" where
  "poison e op = (if moPoison op \<noteq> None then op else op\<lparr>moPoison := Some e\<rparr>)"

definition invocationError :: "model_operation \<Rightarrow> call_error \<Rightarrow> provider_failure" where
  "invocationError op e = ModelInvocationError e (moAggregate op)"

definition setLedger :: "ledger \<Rightarrow> provider_world \<Rightarrow> provider_world" where
  "setLedger l w = w\<lparr>pwLedger := l\<rparr>"

section \<open>Pieces shared by the three calls\<close>

definition signalOn :: "model_operation \<Rightarrow> provider_world \<Rightarrow> bool" where
  "signalOn op w = signalAborted (Some (moSignal op)) (pwSemaphore w)"

definition checkpoint :: "jsnum \<Rightarrow> provider_world \<Rightarrow> model_operation \<Rightarrow> provider_failure option" where
  "checkpoint now w op =
     (case moPoison op of
        Some e \<Rightarrow> Some (JournalFailed e)
      | None \<Rightarrow>
          if signalOn op w then Some OperationAborted
          else if jleq (moDeadlineMs op) now
          then Some (invocationError op (callError BUDGET_DEADLINE (js ''run deadline reached'')))
          else None)"

definition reserve :: "jsnum \<Rightarrow> jsnum \<Rightarrow> jsnum \<Rightarrow> provider_world \<Rightarrow> model_operation
    \<Rightarrow> call_error + operation_reservation \<times> provider_world \<times> model_operation" where
  "reserve now1 now2 tokens w op =
     resBind (if moLogicalReserved op then Inr (pwLedger w) else reserveLogicalCall (pwLedger w) now1) (\<lambda>logical.
     resBind (reserveAttempt logical now2 tokens) (\<lambda>l.
       let ordinal = jadd (moAttemptOrdinal op) (Num 1)
       in Inr (\<lparr>resLogicalCalls = if moLogicalReserved op then Num 0 else Num 1, resAttempts = Num 1, resTokens = tokens\<rparr>,
               w\<lparr>pwLedger := l, pwAttempts := (pwAttempts w)(attemptKey (moFrameId op) (moOperationId op) \<mapsto> ordinal)\<rparr>,
               op\<lparr>moLogicalReserved := True, moAttemptOrdinal := ordinal\<rparr>)))"

text \<open>Every scope is read before any is written.\<close>

fun scopedUpdates :: "(jstr \<Rightarrow> call_usage option) \<Rightarrow> call_usage \<Rightarrow> jstr list \<Rightarrow> usage_error + (jstr \<times> call_usage) list" where
  "scopedUpdates scopeUsage u [] = Inr []"
| "scopedUpdates scopeUsage u (scope # scopes) =
     resBind (addUsage (case_option ZERO_CALL_USAGE id (scopeUsage scope)) u) (\<lambda>scoped.
     resBind (scopedUpdates scopeUsage u scopes) (\<lambda>rest. Inr ((scope, scoped) # rest)))"

definition usageFailure :: "usage_error \<Rightarrow> call_error" where
  "usageFailure e = (case e of InvalidUsage message \<Rightarrow> callError INVALID_RESULT message)"

definition addAccounting :: "call_usage \<Rightarrow> provider_world \<Rightarrow> model_operation
    \<Rightarrow> call_error option \<times> provider_world \<times> model_operation" where
  "addAccounting u w op =
     (case addUsage (moAggregate op) u of
        Inl e \<Rightarrow> (Some (usageFailure e), w, op)
      | Inr combined \<Rightarrow>
          (case scopedUpdates (pwScopeUsage w) u (moUsageScopes op) of
             Inl e \<Rightarrow> (Some (usageFailure e), w, op)
           | Inr updates \<Rightarrow>
               (None, w\<lparr>pwScopeUsage := fold (\<lambda>(scope, x) m. m(scope \<mapsto> x)) updates (pwScopeUsage w)\<rparr>,
                op\<lparr>moAggregate := combined\<rparr>)))"

text \<open>The settlement of a reservation with nothing used, when it can be settled.\<close>

definition releaseReservation :: "jsnum \<Rightarrow> provider_world \<Rightarrow> provider_world" where
  "releaseReservation tokens w =
     (case settleAttempt (pwLedger w) tokens (Num 0) of Inl _ \<Rightarrow> w | Inr l \<Rightarrow> setLedger l w)"

definition accountUsage :: "jsnum \<Rightarrow> call_usage \<Rightarrow> provider_world \<Rightarrow> model_operation
    \<Rightarrow> call_error option \<times> provider_world \<times> model_operation" where
  "accountUsage reservedTokens u w op =
     (case settleAttemptUsage (pwLedger w) reservedTokens u of
        Inl e \<Rightarrow> (Some e, releaseReservation reservedTokens w, op)
      | Inr l \<Rightarrow> addAccounting u (setLedger l w) op)"

text \<open>The event of \<open>appendIntent\<close>, or the error thrown before it is appended.\<close>

definition intentEvent :: "provider_env \<Rightarrow> external_identity \<Rightarrow> operation_reservation \<Rightarrow> model_operation
    \<Rightarrow> provider_failure + operation_intended" where
  "intentEvent env identity reservation op =
     (if \<not> operationRequestVersionAllowed (moKind op) (eiVersion identity) \<or> \<not> isSha256 (eiSha256 identity)
      then Inl (invocationError op (invalidRequest ''external request identity is invalid''))
      else
        let i = \<lparr>oiSchemaVersion = OPERATION_JOURNAL_SCHEMA_VERSION, oiRunId = peRunId env, oiFrameId = moFrameId op,
                 oiOperationId = moOperationId op, oiKind = moKind op, oiKey = moKey op, oiAttempt = moAttemptOrdinal op,
                 oiRequestIdentityVersion = eiVersion identity, oiRequestSha256 = eiSha256 identity,
                 oiReservation = reservation\<rparr>
        in case deriveOperationIntentId (peHasher env) i of
             Inl e \<Rightarrow> Inl (ThrownBy e)
           | Inr intentId \<Rightarrow> Inr (operation_identity.extend i (operation_intended.fields intentId)))"

text \<open>How an append to the journal ends, whether the event was recorded, and the error the caller raises from it.\<close>

datatype append_reply = AppendResolved disposition status_cache | AppendRejected append_error

definition recordedBy :: "append_reply \<Rightarrow> bool" where
  "recordedBy r = (case r of AppendResolved d _ \<Rightarrow> d = DispCommitted | AppendRejected e \<Rightarrow> aeEventDurable e)"

definition appendFailure :: "string \<Rightarrow> append_reply \<Rightarrow> append_error option" where
  "appendFailure what r =
     (case r of
        AppendRejected e \<Rightarrow> Some e
      | AppendResolved d c \<Rightarrow>
          if d \<noteq> DispCommitted
          then Some \<lparr>aePhase = EventPhase, aeEventDurable = (d = DispDeduplicated),
                 aeCause = ThrownCause (ThrowError (js ''operation '' @ js what @ js '' was not newly committed''))\<rparr>
          else case c of CacheFailed e \<Rightarrow> Some e | _ \<Rightarrow> None)"

definition recordEvent :: "append_reply \<Rightarrow> rlm_event \<Rightarrow> provider_world \<Rightarrow> provider_world" where
  "recordEvent r event w = (if recordedBy r then w\<lparr>pwJournal := pwJournal w @ [event]\<rparr> else w)"

section \<open>Calls\<close>

datatype call_shape = CompleteCall | ExternalCall | ReportedCall

datatype provider_call = Complete model_client model_request | RunExternal external_identity | RunExternalReported external_identity

text \<open>What a call still has to do with its result once the settlement is written.\<close>

datatype continuation = ThrowCall call_error | Rethrow effect_error | Resolve provider_value

datatype invocation_pc =
    AwaitPermit
  | AwaitIntent nat jsnum operation_intended
  | AwaitEffect nat jsnum operation_intended jsnum
  | AwaitSettlement nat operation_settled continuation
  | Finished provider_reply
  | Abandoned jsnum provider_reply

record invocation =
  ivOperation :: nat
  ivShape :: call_shape
  ivIdentity :: external_identity
  ivTokens :: jsnum
  ivLaunched :: "operation_intended option"
  ivPc :: invocation_pc

text \<open>The checks of \<open>complete\<close> before it asks for a permit; the other calls reserve no tokens.\<close>

fun exnMessage :: "js_exn \<Rightarrow> jstr" where
  "exnMessage (ThrowTypeError m) = m"
| "exnMessage (ThrowRangeError m) = m"
| "exnMessage (ThrowError m) = m"

definition prepareCall :: "provider_env \<Rightarrow> provider_call \<Rightarrow> call_error + call_shape \<times> external_identity \<times> jsnum" where
  "prepareCall env call =
     (case call of
        Complete client request \<Rightarrow>
          (case prepareModelRequest client request of
             Inl e \<Rightarrow> Inl (callError INVALID_REQUEST (exnMessage e))
           | Inr (normalized, canonical) \<Rightarrow>
               (case validateRequest normalized of
                  Some e \<Rightarrow> Inl e
                | None \<Rightarrow>
                    (case tokenReservation (tokenRequest normalized) of
                       None \<Rightarrow> Inl (invalidRequest ''call token reservation exceeds per-call maximum'')
                     | Some tokens \<Rightarrow> Inr (CompleteCall,
                         \<lparr>eiVersion = PROVIDER_REQUEST_IDENTITY_VERSION, eiSha256 = peSha256 env canonical\<rparr>, tokens))))
      | RunExternal identity \<Rightarrow> Inr (ExternalCall, identity, Num 0)
      | RunExternalReported identity \<Rightarrow> Inr (ReportedCall, identity, Num 0))"

text \<open>Request \<open>n\<close> of the semaphore is the \<open>n\<close>th call.\<close>

definition startInvocation :: "provider_env \<Rightarrow> jsnum \<Rightarrow> nat \<Rightarrow> nat \<Rightarrow> provider_call \<Rightarrow> provider_world \<Rightarrow> model_operation
    \<Rightarrow> provider_world \<times> invocation" where
  "startInvocation env now n k call w op =
     (let rejected = (\<lambda>shape f. (w, \<lparr>ivOperation = k, ivShape = shape, ivIdentity = \<lparr>eiVersion = [], eiSha256 = []\<rparr>,
            ivTokens = Num 0, ivLaunched = None, ivPc = Finished (Inl f)\<rparr>))
      in case prepareCall env call of
           Inl e \<Rightarrow> rejected CompleteCall (invocationError op e)
         | Inr (shape, identity, tokens) \<Rightarrow>
             (case checkpoint now w op of
                Some f \<Rightarrow> rejected shape f
              | None \<Rightarrow>
                  (w\<lparr>pwSemaphore := acquire n (Some (moSignal op)) (pwSemaphore w)\<rparr>,
                   \<lparr>ivOperation = k, ivShape = shape, ivIdentity = identity, ivTokens = tokens, ivLaunched = None, ivPc = AwaitPermit\<rparr>)))"

definition cancelledMessage :: "call_shape \<Rightarrow> string" where
  "cancelledMessage shape =
     (case shape of CompleteCall \<Rightarrow> ''model completion cancelled'' | ExternalCall \<Rightarrow> ''external model operation cancelled''
      | ReportedCall \<Rightarrow> ''external operation cancelled'')"

definition permitDenied :: "jsnum \<Rightarrow> call_shape \<Rightarrow> provider_world \<Rightarrow> model_operation \<Rightarrow> invocation_pc" where
  "permitDenied now shape w op =
     Finished (Inl (case checkpoint now w op of
        Some f \<Rightarrow> f
      | None \<Rightarrow> invocationError op (callError CANCELLED (js (cancelledMessage shape)))))"

text \<open>
  The block between the permit and the append of the intent: the state it leaves, the tokens pending and whether a
  leaf slot is taken, and the error or the event to append.
\<close>

definition reserveCapacity :: "provider_env \<Rightarrow> (nat \<Rightarrow> jsnum) \<Rightarrow> invocation \<Rightarrow> provider_world \<Rightarrow> model_operation
    \<Rightarrow> provider_world \<times> model_operation \<times> jsnum \<times> bool \<times> (provider_failure + operation_intended)" where
  "reserveCapacity env now c w op =
     (case checkpoint (now 0) w op of
        Some f \<Rightarrow> (w, op, Num 0, False, Inl f)
      | None \<Rightarrow>
          (case reserve (now 1) (now 2) (ivTokens c) w op of
             Inl e \<Rightarrow> (w, op, Num 0, False, Inl (invocationError op e))
           | Inr (reservation, w1, op1) \<Rightarrow>
               (case acquireLeaf (pwLedger w1) of
                  None \<Rightarrow> (w1, op1, ivTokens c, False,
                    Inl (invocationError op1 (callError INVALID_RESULT (js ''model concurrency accounting diverged''))))
                | Some l \<Rightarrow>
                    (setLedger l w1, op1, ivTokens c, True,
                     case (if ivShape c = CompleteCall then checkpoint (now 3) (setLedger l w1) op1 else None) of
                       Some f \<Rightarrow> Inl f
                     | None \<Rightarrow> intentEvent env (ivIdentity c) reservation op1))))"

definition releasePermit :: "nat \<Rightarrow> provider_world \<Rightarrow> provider_world" where
  "releasePermit p w = w\<lparr>pwSemaphore := Semaphore.release p (pwSemaphore w)\<rparr>"

definition dropLeaf :: "provider_world \<Rightarrow> provider_world" where
  "dropLeaf w = setLedger (releaseLeaf (pwLedger w)) w"

definition rollback :: "nat \<Rightarrow> jsnum \<Rightarrow> bool \<Rightarrow> provider_world \<Rightarrow> provider_world" where
  "rollback p tokens active w =
     (let w1 = (if jless (Num 0) tokens then releaseReservation tokens w else w);
          w2 = (if active then dropLeaf w1 else w1)
      in releasePermit p w2)"

definition permitGranted :: "provider_env \<Rightarrow> (nat \<Rightarrow> jsnum) \<Rightarrow> nat \<Rightarrow> invocation \<Rightarrow> provider_world \<Rightarrow> model_operation
    \<Rightarrow> provider_world \<times> model_operation \<times> invocation_pc" where
  "permitGranted env now p c w op =
     (case reserveCapacity env now c w op of
        (w1, op1, tokens, active, Inl f) \<Rightarrow> (rollback p tokens active w1, op1, Finished (Inl f))
      | (w1, op1, tokens, active, Inr intent) \<Rightarrow> (w1, op1, AwaitIntent p tokens intent))"

text \<open>The intent's append ends; on success the effect is launched and \<open>startedMs\<close> read.\<close>

definition intentReplied :: "append_reply \<Rightarrow> jsnum \<Rightarrow> nat \<Rightarrow> jsnum \<Rightarrow> operation_intended \<Rightarrow> provider_world \<Rightarrow> model_operation
    \<Rightarrow> provider_world \<times> model_operation \<times> invocation_pc" where
  "intentReplied r now p tokens intent w op =
     (let w1 = recordEvent r (OperationIntended intent) w
      in case appendFailure ''intent'' r of
           Some e \<Rightarrow> (rollback p tokens True w1, poison e op, Finished (Inl (JournalFailed e)))
         | None \<Rightarrow> (w1, op, AwaitEffect p tokens intent now))"

section \<open>Results\<close>

definition wasAborted :: "effect_error \<Rightarrow> provider_world \<Rightarrow> model_operation \<Rightarrow> bool" where
  "wasAborted e w op \<longleftrightarrow> signalOn op w \<or> e = AbortedError"

definition codeText :: "call_error_code \<Rightarrow> jstr" where
  "codeText c = js (case c of
     FAILED \<Rightarrow> ''FAILED'' | DENIED \<Rightarrow> ''DENIED'' | CANCELLED \<Rightarrow> ''CANCELLED'' | INTERRUPTED \<Rightarrow> ''INTERRUPTED''
   | TIMED_OUT \<Rightarrow> ''TIMED_OUT'' | ACCEPTANCE_FAILED \<Rightarrow> ''ACCEPTANCE_FAILED'' | INVALID_REQUEST \<Rightarrow> ''INVALID_REQUEST''
   | INVALID_RESULT \<Rightarrow> ''INVALID_RESULT'' | UNAVAILABLE_CONTEXT \<Rightarrow> ''UNAVAILABLE_CONTEXT''
   | SOURCE_CHANGED \<Rightarrow> ''SOURCE_CHANGED'' | UNKNOWN_EFFECT \<Rightarrow> ''UNKNOWN_EFFECT'' | BUDGET_DEPTH \<Rightarrow> ''BUDGET_DEPTH''
   | BUDGET_FRAMES \<Rightarrow> ''BUDGET_FRAMES'' | BUDGET_CALLS \<Rightarrow> ''BUDGET_CALLS'' | BUDGET_ATTEMPTS \<Rightarrow> ''BUDGET_ATTEMPTS''
   | BUDGET_TOKENS \<Rightarrow> ''BUDGET_TOKENS'' | BUDGET_BYTES \<Rightarrow> ''BUDGET_BYTES'' | BUDGET_DEADLINE \<Rightarrow> ''BUDGET_DEADLINE'')"

text \<open>What a result leads to: the accounting error if any, the outcome, usage and error code to journal, and the rest.\<close>

record settlement =
  stOutcome :: operation_outcome
  stUsage :: call_usage
  stErrorCode :: "jstr option"
  stContinuation :: continuation

definition failedSettlement :: "operation_outcome \<Rightarrow> call_usage \<Rightarrow> call_error \<Rightarrow> settlement" where
  "failedSettlement oc u failure =
     \<lparr>stOutcome = oc, stUsage = u, stErrorCode = Some (codeText (errCode failure)), stContinuation = ThrowCall failure\<rparr>"

definition abortOutcome :: "bool \<Rightarrow> operation_outcome" where
  "abortOutcome cancelled = (if cancelled then OutCancelled else OutError)"

text \<open>\<open>complete\<close>: the client rejected, and the client returned.\<close>

definition completeRejected :: "provider_env \<Rightarrow> jsnum \<Rightarrow> jsnum \<Rightarrow> jsnum \<Rightarrow> effect_error \<Rightarrow> provider_world \<Rightarrow> model_operation
    \<Rightarrow> provider_world \<times> model_operation \<times> settlement" where
  "completeRejected env started now tokens e w op =
     (let typed = (case e of PiModelError h a \<Rightarrow> normalizePiFailure h a (usageLimitsFor (peWallMs env)) | _ \<Rightarrow> None);
          u = (case typed of Some f \<Rightarrow> pfUsage f | None \<Rightarrow> measuredUsage started now);
          providerFailure = (case typed of
              Some f \<Rightarrow> piFailure f
            | None \<Rightarrow> if wasAborted e w op then callError CANCELLED (js ''model completion cancelled'')
                else callError FAILED (js ''model completion failed''))
      in case accountUsage tokens u w op of
           (Some accountingError, w1, op1) \<Rightarrow> (w1, op1, failedSettlement OutInvalidResult u accountingError)
         | (None, w1, op1) \<Rightarrow>
             (w1, op1, failedSettlement (abortOutcome (errCode providerFailure = CANCELLED)) u providerFailure))"

definition completeFulfilled :: "provider_env \<Rightarrow> jsnum \<Rightarrow> jsnum \<Rightarrow> jsnum \<Rightarrow> heap \<Rightarrow> jsval \<Rightarrow> provider_world \<Rightarrow> model_operation
    \<Rightarrow> provider_world \<times> model_operation \<times> settlement" where
  "completeFulfilled env started now tokens h v w op =
     (case normalizeModelResponse h v (usageLimitsFor (peWallMs env)) of
        None \<Rightarrow>
          (let u = measuredUsage started now
           in case accountUsage tokens u w op of
                (accountingError, w1, op1) \<Rightarrow>
                  (w1, op1, failedSettlement OutInvalidResult u
                     (case accountingError of Some e \<Rightarrow> e | None \<Rightarrow> callError INVALID_RESULT (js ''model returned invalid usage''))))
      | Some (text, u) \<Rightarrow>
          (case accountUsage tokens u w op of
             (Some accountingError, w1, op1) \<Rightarrow> (w1, op1, failedSettlement OutInvalidResult u accountingError)
           | (None, w1, op1) \<Rightarrow>
               (w1, op1, \<lparr>stOutcome = OutOk, stUsage = u, stErrorCode = None, stContinuation = Resolve (ModelResponse text u)\<rparr>)))"

text \<open>\<open>runExternal\<close> and \<open>runExternalReported\<close>: the effect rejected.  The first one rethrows the effect's own error.\<close>

definition externalRejected :: "call_shape \<Rightarrow> jsnum \<Rightarrow> jsnum \<Rightarrow> effect_error \<Rightarrow> provider_world \<Rightarrow> model_operation
    \<Rightarrow> provider_world \<times> model_operation \<times> settlement" where
  "externalRejected shape started now e w op =
     (let u = measuredUsage started now; cancelled = wasAborted e w op
      in case accountUsage (Num 0) u w op of
           (Some accountingError, w1, op1) \<Rightarrow> (w1, op1, failedSettlement OutInvalidResult u accountingError)
         | (None, w1, op1) \<Rightarrow>
             (let failure = callError (if cancelled then CANCELLED else FAILED)
                    (js (if cancelled then ''external operation cancelled'' else ''external operation failed''));
                  s = failedSettlement (abortOutcome cancelled) u failure
              in (w1, op1, if shape = ExternalCall then s\<lparr>stContinuation := Rethrow e\<rparr> else s)))"

definition externalFulfilled :: "jsnum \<Rightarrow> jsnum \<Rightarrow> effect_reply \<Rightarrow> provider_world \<Rightarrow> model_operation
    \<Rightarrow> provider_world \<times> model_operation \<times> settlement" where
  "externalFulfilled started now reply w op =
     (let u = measuredUsage started now
      in case accountUsage (Num 0) u w op of
           (Some accountingError, w1, op1) \<Rightarrow> (w1, op1, failedSettlement OutInvalidResult u accountingError)
         | (None, w1, op1) \<Rightarrow>
             (w1, op1, \<lparr>stOutcome = OutOk, stUsage = u, stErrorCode = None, stContinuation = Resolve (ExternalValue reply)\<rparr>))"

definition reportedOutcome :: "jsval \<Rightarrow> operation_outcome option" where
  "reportedOutcome v =
     (if v = VStr (js ''ok'') then Some OutOk else if v = VStr (js ''error'') then Some OutError
      else if v = VStr (js ''cancelled'') then Some OutCancelled
      else if v = VStr (js ''invalid_result'') then Some OutInvalidResult else None)"

definition reportedCode :: "operation_outcome \<Rightarrow> jsval \<Rightarrow> jstr option option" where
  "reportedCode oc v =
     (if oc = OutOk then (if v = VUndefined then Some None else None)
      else case v of VStr s \<Rightarrow> if isErrorCode s then Some (Some s) else None | _ \<Rightarrow> None)"

definition reportedFulfilled :: "provider_env \<Rightarrow> jsnum \<Rightarrow> jsnum \<Rightarrow> external_result \<Rightarrow> provider_world \<Rightarrow> model_operation
    \<Rightarrow> provider_world \<times> model_operation \<times> settlement" where
  "reportedFulfilled env started now result w op =
     (let invalid = (\<lambda>u message. case accountUsage (Num 0) u w op of
            (accountingError, w1, op1) \<Rightarrow>
              (w1, op1, failedSettlement OutInvalidResult u
                 (case accountingError of Some e \<Rightarrow> e | None \<Rightarrow> callError INVALID_RESULT (js message))));
          measured = measuredUsage started now
      in case (if erUsage result = VUndefined then Inr measured
               else map_sum id (\<lambda>u. u\<lparr>uAttempts := Num 1\<rparr>)
                 (normalizeCallUsage (erHeap result) (erUsage result) (usageLimitsFor (peWallMs env)))) of
           Inl _ \<Rightarrow> invalid measured ''external operation returned invalid usage''
         | Inr u \<Rightarrow>
             (case reportedOutcome (erOutcome result) of
                None \<Rightarrow> invalid u ''external operation returned an invalid outcome''
              | Some oc \<Rightarrow>
                  (case reportedCode oc (erErrorCode result) of
                     None \<Rightarrow> invalid u ''external operation returned an invalid outcome''
                   | Some code \<Rightarrow>
                       (case accountUsage (Num 0) u w op of
                          (Some accountingError, w1, op1) \<Rightarrow> (w1, op1, failedSettlement OutInvalidResult u accountingError)
                        | (None, w1, op1) \<Rightarrow>
                            (w1, op1, \<lparr>stOutcome = oc, stUsage = u, stErrorCode = code,
                               stContinuation = Resolve (ExternalValue (EffectReported result))\<rparr>)))))"

definition settleEffect :: "provider_env \<Rightarrow> call_shape \<Rightarrow> jsnum \<Rightarrow> jsnum \<Rightarrow> jsnum \<Rightarrow> effect_reply \<Rightarrow> provider_world \<Rightarrow> model_operation
    \<Rightarrow> provider_world \<times> model_operation \<times> settlement" where
  "settleEffect env shape started now tokens reply w op =
     (case reply of
        EffectRejected e \<Rightarrow>
          if shape = CompleteCall then completeRejected env started now tokens e w op
          else externalRejected shape started now e w op
      | EffectFulfilled h v \<Rightarrow>
          if shape = CompleteCall then completeFulfilled env started now tokens h v w op
          else externalFulfilled started now reply w op
      | EffectReported result \<Rightarrow> reportedFulfilled env started now result w op)"

text \<open>The kinds of result each call can get: a model's or a plain value, or a reported one.\<close>

definition replyFits :: "call_shape \<Rightarrow> effect_reply \<Rightarrow> bool" where
  "replyFits shape reply \<longleftrightarrow>
     (case reply of EffectRejected _ \<Rightarrow> True | EffectFulfilled _ _ \<Rightarrow> shape \<noteq> ReportedCall | EffectReported _ \<Rightarrow> shape = ReportedCall)"

definition settledEvent :: "provider_env \<Rightarrow> operation_intended \<Rightarrow> settlement \<Rightarrow> model_operation \<Rightarrow> operation_settled" where
  "settledEvent env intent s op =
     \<lparr>osSchemaVersion = OPERATION_JOURNAL_SCHEMA_VERSION, osRunId = peRunId env, osFrameId = moFrameId op,
      osIntentId = oiIntentId intent, osOutcome = stOutcome s, osUsage = stUsage s, osErrorCode = stErrorCode s\<rparr>"

text \<open>Once the run has taken the authority away, a result only frees its permit.\<close>

definition effectReplied :: "provider_env \<Rightarrow> call_shape \<Rightarrow> jsnum \<Rightarrow> nat \<Rightarrow> jsnum \<Rightarrow> operation_intended \<Rightarrow> jsnum \<Rightarrow> effect_reply
    \<Rightarrow> provider_world \<Rightarrow> model_operation \<Rightarrow> provider_world \<times> model_operation \<times> invocation_pc" where
  "effectReplied env shape now p tokens intent started reply w op =
     (if \<not> pwAuthority w
      then (releasePermit p w, op, Abandoned tokens
        (case reply of EffectRejected e \<Rightarrow> Inl (ExternalThrew e) | _ \<Rightarrow> Inr (ExternalValue reply)))
      else case settleEffect env shape started now tokens reply w op of
             (w1, op1, s) \<Rightarrow> (w1, op1, AwaitSettlement p (settledEvent env intent s op) (stContinuation s)))"

definition continueWith :: "model_operation \<Rightarrow> continuation \<Rightarrow> provider_reply" where
  "continueWith op k =
     (case k of ThrowCall e \<Rightarrow> Inl (invocationError op e) | Rethrow e \<Rightarrow> Inl (ExternalThrew e) | Resolve v \<Rightarrow> Inr v)"

definition settlementReplied :: "append_reply \<Rightarrow> nat \<Rightarrow> operation_settled \<Rightarrow> continuation \<Rightarrow> provider_world \<Rightarrow> model_operation
    \<Rightarrow> provider_world \<times> model_operation \<times> invocation_pc" where
  "settlementReplied r p event k w op =
     (let w1 = releasePermit p (dropLeaf (recordEvent r (OperationSettled event) w))
      in case appendFailure ''settlement'' r of
           Some e \<Rightarrow> (w1, poison e op, Finished (Inl (JournalFailed e)))
         | None \<Rightarrow> (w1, op, Finished (continueWith op k)))"

section \<open>Interleavings\<close>

record provider_system =
  psWorld :: provider_world
  psOperations :: "model_operation list"
  psCalls :: "invocation list"

definition opOf :: "provider_system \<Rightarrow> nat \<Rightarrow> model_operation" where
  "opOf s n = psOperations s ! ivOperation (psCalls s ! n)"

definition settleCall :: "nat \<Rightarrow> provider_world \<times> model_operation \<times> invocation_pc \<Rightarrow> provider_system \<Rightarrow> provider_system" where
  "settleCall n r s =
     (case r of (w, op, pc) \<Rightarrow>
        s\<lparr>psWorld := w, psOperations := (psOperations s)[ivOperation (psCalls s ! n) := op],
          psCalls := (psCalls s)[n := (psCalls s ! n)
            \<lparr>ivPc := pc, ivLaunched := (case pc of AwaitEffect _ _ intent _ \<Rightarrow> Some intent | _ \<Rightarrow> ivLaunched (psCalls s ! n))\<rparr>]\<rparr>)"

text \<open>The other users of the ledger: frames, controller turns, child frames and stored bytes.\<close>

inductive otherUse :: "ledger \<Rightarrow> ledger \<Rightarrow> bool" where
  "openFrame l d = Inr l' \<Longrightarrow> otherUse l l'"
| "reserveControllerTurn l now = Inr l' \<Longrightarrow> otherUse l l'"
| "reserveLogicalCall l now = Inr l' \<Longrightarrow> otherUse l l'"
| "reserveBytes l b = Inr l' \<Longrightarrow> otherUse l l'"
| "releaseBytes l b = Inr l' \<Longrightarrow> otherUse l l'"

text \<open>The events only this component writes.\<close>

definition isOperationEvent :: "rlm_event \<Rightarrow> bool" where
  "isOperationEvent e = (case e of OperationIntended _ \<Rightarrow> True | OperationSettled _ \<Rightarrow> True | _ \<Rightarrow> False)"

inductive providerMove :: "provider_env \<Rightarrow> provider_system \<Rightarrow> provider_system \<Rightarrow> bool" for env where
  creates: "providerMove env s (s\<lparr>psOperations := psOperations s @
      [createModelOperation frameId scopes operationId kind key signal deadline (psWorld s)]\<rparr>)"
| starts: "k < length (psOperations s) \<Longrightarrow> startInvocation env now (length (psCalls s)) k call (psWorld s) (psOperations s ! k) = (w, c)
    \<Longrightarrow> providerMove env s (s\<lparr>psWorld := w, psCalls := psCalls s @ [c]\<rparr>)"
| denied: "n < length (psCalls s) \<Longrightarrow> ivPc (psCalls s ! n) = AwaitPermit \<Longrightarrow> (n, None) \<in> set (settled (pwSemaphore (psWorld s)))
    \<Longrightarrow> providerMove env s (settleCall n (psWorld s, opOf s n, permitDenied now (ivShape (psCalls s ! n)) (psWorld s) (opOf s n)) s)"
| granted: "n < length (psCalls s) \<Longrightarrow> ivPc (psCalls s ! n) = AwaitPermit \<Longrightarrow> (n, Some p) \<in> set (settled (pwSemaphore (psWorld s)))
    \<Longrightarrow> providerMove env s (settleCall n (permitGranted env now p (psCalls s ! n) (psWorld s) (opOf s n)) s)"
| intended: "n < length (psCalls s) \<Longrightarrow> ivPc (psCalls s ! n) = AwaitIntent p tokens intent
    \<Longrightarrow> providerMove env s (settleCall n (intentReplied r now p tokens intent (psWorld s) (opOf s n)) s)"
| ended: "n < length (psCalls s) \<Longrightarrow> ivPc (psCalls s ! n) = AwaitEffect p tokens intent started
    \<Longrightarrow> replyFits (ivShape (psCalls s ! n)) reply
    \<Longrightarrow> providerMove env s (settleCall n
          (effectReplied env (ivShape (psCalls s ! n)) now p tokens intent started reply (psWorld s) (opOf s n)) s)"
| settled: "n < length (psCalls s) \<Longrightarrow> ivPc (psCalls s ! n) = AwaitSettlement p event k
    \<Longrightarrow> providerMove env s (settleCall n (settlementReplied r p event k (psWorld s) (opOf s n)) s)"
| aborts: "providerMove env s (s\<lparr>psWorld := (psWorld s)\<lparr>pwSemaphore :=
      (pwSemaphore (psWorld s))\<lparr>abortedSignals := insert g (abortedSignals (pwSemaphore (psWorld s)))\<rparr>\<rparr>\<rparr>)"
| listens: "providerMove env s (s\<lparr>psWorld := (psWorld s)\<lparr>pwSemaphore := onAbort n (pwSemaphore (psWorld s))\<rparr>\<rparr>)"
| closes: "providerMove env s (s\<lparr>psWorld := (psWorld s)\<lparr>pwAuthority := False\<rparr>\<rparr>)"
| others: "otherUse (pwLedger (psWorld s)) l \<Longrightarrow> providerMove env s (s\<lparr>psWorld := setLedger l (psWorld s)\<rparr>)"
| scopes: "providerMove env s (s\<lparr>psWorld := (psWorld s)\<lparr>pwScopeUsage := m\<rparr>\<rparr>)"
| journals: "\<not> isOperationEvent e \<Longrightarrow> providerMove env s (s\<lparr>psWorld := (psWorld s)\<lparr>pwJournal := pwJournal (psWorld s) @ [e]\<rparr>\<rparr>)"

text \<open>A run starts, or resumes from a checkpoint, with no call in flight.\<close>

definition initialProvider :: "ledger \<Rightarrow> int \<Rightarrow> (jstr \<Rightarrow> jsnum option) \<Rightarrow> rlm_event list \<Rightarrow> provider_system" where
  "initialProvider l permits ordinals journal =
     \<lparr>psWorld = \<lparr>pwLedger = l, pwSemaphore = newSemaphore permits, pwJournal = journal, pwScopeUsage = Map.empty,
        pwAttempts = ordinals, pwAuthority = True\<rparr>, psOperations = [], psCalls = []\<rparr>"

inductive providerReach :: "provider_env \<Rightarrow> provider_system \<Rightarrow> provider_system \<Rightarrow> bool" for env s0 where
  initially: "providerReach env s0 s0"
| later: "providerReach env s0 s \<Longrightarrow> providerMove env s s' \<Longrightarrow> providerReach env s0 s'"

end
