(* ===== verification/ProviderLedger.thy ===== *)
theory ProviderLedger
  imports ProviderSystem
begin

text \<open>
  What each uninterrupted piece of a provider call (\<open>src/src/runtime/provider.ts\<close>) does to the shared ledger: the
  leaf slots, the reserved tokens and the attempts it adds or gives back, for every reply of the journal and the
  effect.  The measures \<open>leafOf\<close> and \<open>pendingOf\<close> say what a call holds at each point.
\<close>

section \<open>What each piece does to the ledger\<close>

text \<open>The ledger is in order, and its cost is a double, so that rounding it again does not overflow.\<close>

definition ledgerGood :: "ledger \<Rightarrow> bool" where
  "ledgerGood l \<longleftrightarrow> ledgerOk l \<and> isDouble (costUsd (usage l))"

text \<open>Changes of the leaf slots, the reserved tokens and the attempts.\<close>

definition ledgerDelta :: "int \<Rightarrow> int \<Rightarrow> int \<Rightarrow> ledger \<Rightarrow> ledger \<Rightarrow> bool" where
  "ledgerDelta leaves tokens tries l l' \<longleftrightarrow> ledgerGood l' \<and> limits l' = limits l
     \<and> jint (activeLeafCalls (usage l')) = jint (activeLeafCalls (usage l)) + leaves
     \<and> jint (tokensReserved (usage l')) = jint (tokensReserved (usage l)) + tokens
     \<and> jint (attempts (usage l')) = jint (attempts (usage l)) + tries"

named_theorems deltas

lemma ledgerDelta_refl [deltas]: "ledgerGood l \<Longrightarrow> ledgerDelta 0 0 0 l l"
  by (simp add: ledgerDelta_def)

lemma ledgerDelta_good: "ledgerDelta a b c l l' \<Longrightarrow> ledgerGood l'"
  by (simp add: ledgerDelta_def)

lemma ledgerDelta_trans:
  "ledgerDelta a b c l l1 \<Longrightarrow> ledgerDelta a' b' c' l1 l2 \<Longrightarrow> a'' = a + a' \<Longrightarrow> b'' = b + b' \<Longrightarrow> c'' = c + c'
    \<Longrightarrow> ledgerDelta a'' b'' c'' l l2"
  by (simp add: ledgerDelta_def)

lemma otherUse_delta:
  assumes "otherUse l l'" "ledgerGood l"
  shows "ledgerDelta 0 0 0 l l'"
  using assms
proof (induction rule: otherUse.induct)
  case (1 l d l')
  then show ?case using openFrame_ok [of l d l'] by (auto simp: ledgerDelta_def ledgerGood_def openFrame_Inr)
next
  case (2 l now l')
  then show ?case using reserveControllerTurn_ok [of l now l'] by (auto simp: ledgerDelta_def ledgerGood_def reserveControllerTurn_Inr)
next
  case (3 l now l')
  then show ?case using reserveLogicalCall_ok [of l now l'] by (auto simp: ledgerDelta_def ledgerGood_def reserveLogicalCall_Inr)
next
  case (4 l b l')
  then show ?case using reserveBytes_ok [of l b l'] by (auto simp: ledgerDelta_def ledgerGood_def reserveBytes_def patch_def split: if_splits)
next
  case (5 l b l')
  then show ?case using releaseBytes_ok [of l b l'] by (auto simp: ledgerDelta_def ledgerGood_def releaseBytes_def patch_def split: if_splits)
qed

lemma reserve_Inr:
  assumes "reserve now1 now2 tokens w op = Inr (reservation, w', op')" "ledgerGood (pwLedger w)"
  shows "ledgerDelta 0 (jint tokens) 1 (pwLedger w) (pwLedger w')" "isCount tokens"
    and "w' = w\<lparr>pwLedger := pwLedger w', pwAttempts := pwAttempts w'\<rparr>"
    and "\<exists>ordinal. op' = op\<lparr>moLogicalReserved := True, moAttemptOrdinal := ordinal\<rparr>"
proof -
  obtain l1 l2 where l: "(if moLogicalReserved op then Inr (pwLedger w) else reserveLogicalCall (pwLedger w) now1) = Inr l1"
    and a: "reserveAttempt l1 now2 tokens = Inr l2"
    and eqs: "w' = w\<lparr>pwLedger := l2, pwAttempts := (pwAttempts w)(attemptKey (moFrameId op) (moOperationId op) \<mapsto>
        jadd (moAttemptOrdinal op) (Num 1))\<rparr>"
      "op' = op\<lparr>moLogicalReserved := True, moAttemptOrdinal := jadd (moAttemptOrdinal op) (Num 1)\<rparr>"
    using assms(1) unfolding reserve_def resBind_eq_Inr Let_def by fastforce
  have w': "pwLedger w' = l2" and eq: "w' = w\<lparr>pwLedger := pwLedger w', pwAttempts := pwAttempts w'\<rparr>"
      "\<exists>ordinal. op' = op\<lparr>moLogicalReserved := True, moAttemptOrdinal := ordinal\<rparr>"
    using eqs by auto
  have l1: "ledgerDelta 0 0 0 (pwLedger w) l1"
  proof (cases "moLogicalReserved op")
    case True
    then show ?thesis using l assms(2) by (simp add: deltas)
  next
    case False
    then have "otherUse (pwLedger w) l1" using l otherUse.intros(3) by simp
    then show ?thesis by (rule otherUse_delta) (rule assms(2))
  qed
  then have good: "ledgerOk l1" by (simp add: ledgerDelta_def ledgerGood_def)
  note r = reserveAttempt_Inr [OF good a]
  have "ledgerDelta 0 (jint tokens) 1 l1 l2"
    using r l1 reserveAttempt_ok [OF good a] by (simp add: ledgerDelta_def ledgerGood_def)
  then show "ledgerDelta 0 (jint tokens) 1 (pwLedger w) (pwLedger w')"
    unfolding w' by (rule ledgerDelta_trans [OF l1]) simp_all
  show "isCount tokens" by (rule r(1))
  show "w' = w\<lparr>pwLedger := pwLedger w', pwAttempts := pwAttempts w'\<rparr>" "\<exists>ordinal. op' = op\<lparr>moLogicalReserved := True, moAttemptOrdinal := ordinal\<rparr>"
    by (rule eq)+
qed

lemma acquireLeaf_delta:
  assumes "acquireLeaf l = Some l'" "ledgerGood l"
  shows "ledgerDelta 1 0 0 l l'"
  using assms capped_inc [of "maxConcurrency (limits l)" "activeLeafCalls (usage l)"] acquireLeaf_ok [of l l']
  by (auto simp: ledgerDelta_def ledgerGood_def acquireLeaf_Some ledgerOk_iff usageOk_iff limitsOk_def)

lemma releaseLeaf_delta:
  assumes "ledgerGood l" "1 \<le> jint (activeLeafCalls (usage l))"
  shows "ledgerDelta (- 1) 0 0 l (releaseLeaf l)"
  using assms releaseLeaf_ok [of l] count_dec [of "activeLeafCalls (usage l)"]
  by (auto simp: ledgerDelta_def ledgerGood_def releaseLeaf_def ledgerOk_iff usageOk_iff)

text \<open>A settlement gives exactly its reservation back.\<close>

lemma isDouble_add:
  assumes "isDouble c" "isFinite (jadd c d)" "isCost c" "isCost d"
  shows "isDouble (jadd c d)"
proof -
  obtain x y where c: "c = Num x" "d = Num y" "0 \<le> x" "0 \<le> y"
    using assms(3,4) by (auto simp: isCost_def isFinite_iff)
  then obtain z where z: "round64 (x + y) = Num z" using assms(2) by (auto simp: isFinite_iff)
  have "round64 z = Num z"
  proof (cases "x + y = 0")
    case True
    then show ?thesis using z by (simp add: round64_def)
  next
    case False
    then show ?thesis using z c by (intro round64_double [OF _ z]) linarith
  qed
  then show ?thesis using c z by (simp add: isDouble_def)
qed

lemma settleAccounting_delta:
  assumes "settleAccounting l r a i out c d = Inr l'" "ledgerGood l"
  shows "ledgerDelta 0 (- jint r) 0 l l'"
proof -
  have ok: "ledgerOk l" and dbl: "isDouble (costUsd (usage l))" and cost: "isCost (costUsd (usage l))"
    using assms(2) by (auto simp: ledgerGood_def ledgerOk_iff usageOk_iff)
  note s = settleAccounting_Inr [OF ok assms(1)]
  have "isFinite (jadd (costUsd (usage l)) c)" "isCost c"
    using assms(1) by (auto simp: settleAccounting_def Let_def isCost_def split: if_splits)
  then have "isDouble (costUsd (usage l'))" using isDouble_add [OF dbl] cost s(8) by simp
  then show ?thesis
    using s settleAccounting_ok [OF ok assms(1)] by (simp add: ledgerDelta_def ledgerGood_def)
qed

lemma settleAttempt_nothing:
  assumes "ledgerGood l" "isCount r" "jint r \<le> jint (tokensReserved (usage l))"
  shows "\<exists>l'. settleAttempt l r (Num 0) = Inr l'"
proof -
  let ?u = "usage l"
  have ok: "isCount (tokensReserved ?u)" "isCount (tokensUsed ?u)" "isCount (inputTokensUsed ?u)"
    "isCount (outputTokensUsed ?u)" "isCost (costUsd ?u)" "isCount (providerDurationMs ?u)" "isDouble (costUsd ?u)"
    using assms(1) by (auto simp: ledgerGood_def ledgerOk_iff usageOk_iff)
  obtain x where x: "costUsd ?u = Num x" "round64 x = Num x"
    using ok(7) by (auto simp: isDouble_def split: jsnum.splits)
  have le: "\<not> jless (tokensReserved ?u) r" using assms(2,3) ok(1) by (simp add: count_jless)
  have safe: "isCount maxSafe" "jint maxSafe = MAX_SAFE_INTEGER" by (auto simp: isCount_iff)
  have fits: "\<not> jless (jsub maxSafe (Num 0)) n" if "isCount n" for n
    using count_jless_sub [OF safe(1) isCount_zero that] safe(2) isCount_bounds [OF that] by simp
  have "\<not> jless (Num 0) (jadd (Num 0) (Num 0))" by (simp add: round64_def)
  then show ?thesis
    using ok x le fits assms(2)
    by (auto simp: settleAttempt_def settleAccounting_def Let_def notCount_iff isCost_def
        MAX_CALL_TOKENS_def MAX_CALL_COST_USD_def MAX_CALL_DURATION_MS_def simp del: jsub_def)
qed

lemma setLedger_simps [simp]: "pwLedger (setLedger l w) = l" "pwSemaphore (setLedger l w) = pwSemaphore w"
  "pwJournal (setLedger l w) = pwJournal w" "pwAuthority (setLedger l w) = pwAuthority w"
  by (simp_all add: setLedger_def)

lemma releaseReservation_delta:
  assumes "ledgerGood (pwLedger w)" "isCount r" "jint r \<le> jint (tokensReserved (usage (pwLedger w)))"
  shows "ledgerDelta 0 (- jint r) 0 (pwLedger w) (pwLedger (releaseReservation r w))"
proof -
  obtain l' where "settleAttempt (pwLedger w) r (Num 0) = Inr l'" using settleAttempt_nothing [OF assms] by blast
  then show ?thesis
    using settleAccounting_delta [of "pwLedger w" r] assms(1) by (simp add: releaseReservation_def settleAttempt_def)
qed

text \<open>A piece other than those of the semaphore leaves the semaphore, the journal and the authority alone.\<close>

definition sameRest :: "provider_world \<Rightarrow> provider_world \<Rightarrow> bool" where
  "sameRest w w' \<longleftrightarrow> pwSemaphore w' = pwSemaphore w \<and> pwJournal w' = pwJournal w \<and> pwAuthority w' = pwAuthority w"

lemma releaseReservation_rest [simp]: "sameRest w (releaseReservation r w)"
  by (simp add: sameRest_def releaseReservation_def split: sum.splits)

lemma addAccounting_world:
  "pwLedger (fst (snd (addAccounting u w op))) = pwLedger w \<and> sameRest w (fst (snd (addAccounting u w op)))"
  by (simp add: addAccounting_def sameRest_def split: sum.splits)

lemma accountUsage_delta:
  assumes "accountUsage r u w op = (e, w', op')" "ledgerGood (pwLedger w)" "isCount r"
    and "jint r \<le> jint (tokensReserved (usage (pwLedger w)))"
  shows "ledgerDelta 0 (- jint r) 0 (pwLedger w) (pwLedger w') \<and> sameRest w w'"
proof (cases "settleAttemptUsage (pwLedger w) r u")
  case (Inl e')
  then show ?thesis using assms releaseReservation_delta [OF assms(2,3,4)] by (auto simp: accountUsage_def)
next
  case (Inr l)
  then have l: "ledgerDelta 0 (- jint r) 0 (pwLedger w) l"
    using settleAccounting_delta assms(2) by (auto simp: settleAttemptUsage_def Let_def)
  have a: "addAccounting u (setLedger l w) op = (e, w', op')" using Inr assms(1) by (simp add: accountUsage_def)
  have "pwLedger w' = l \<and> sameRest w w'"
    using addAccounting_world [of u "setLedger l w" op] unfolding a by (simp add: sameRest_def)
  then show ?thesis using l by blast
qed

section \<open>What a call holds at each point\<close>

fun permitOf :: "invocation_pc \<Rightarrow> nat option" where
  "permitOf (AwaitIntent p _ _) = Some p"
| "permitOf (AwaitEffect p _ _ _) = Some p"
| "permitOf (AwaitSettlement p _ _) = Some p"
| "permitOf _ = None"

fun leafOf :: "invocation_pc \<Rightarrow> int" where
  "leafOf AwaitPermit = 0"
| "leafOf (Finished _) = 0"
| "leafOf _ = 1"

fun pendingOf :: "invocation_pc \<Rightarrow> jsnum" where
  "pendingOf (AwaitIntent _ t _) = t"
| "pendingOf (AwaitEffect _ t _ _) = t"
| "pendingOf (Abandoned t _) = t"
| "pendingOf _ = Num 0"

abbreviation pendingTokens :: "invocation_pc \<Rightarrow> int" where
  "pendingTokens pc \<equiv> jint (pendingOf pc)"

text \<open>
  The effect of a piece on the shared state: the leaf slots and tokens follow the program counter, and the permit
  is kept or given back.
\<close>

definition pieceDelta :: "nat \<Rightarrow> invocation_pc \<Rightarrow> int \<Rightarrow> provider_world \<Rightarrow> provider_world \<times> model_operation \<times> invocation_pc \<Rightarrow> bool" where
  "pieceDelta p pc tries w r \<longleftrightarrow> (case r of (w', op', pc') \<Rightarrow>
     ledgerDelta (leafOf pc' - leafOf pc) (pendingTokens pc' - pendingTokens pc) tries (pwLedger w) (pwLedger w')
     \<and> isCount (pendingOf pc') \<and> pwAuthority w' = pwAuthority w
     \<and> (pwSemaphore w' = pwSemaphore w \<and> permitOf pc' = Some p
        \<or> pwSemaphore w' = Semaphore.release p (pwSemaphore w) \<and> permitOf pc' = None \<and> pc' \<noteq> AwaitPermit))"

lemma releasePermit_simps [simp]:
  "pwLedger (releasePermit p w) = pwLedger w" "pwJournal (releasePermit p w) = pwJournal w"
  "pwAuthority (releasePermit p w) = pwAuthority w" "pwSemaphore (releasePermit p w) = Semaphore.release p (pwSemaphore w)"
  by (simp_all add: releasePermit_def)

lemma dropLeaf_simps [simp]:
  "pwLedger (dropLeaf w) = releaseLeaf (pwLedger w)" "pwJournal (dropLeaf w) = pwJournal w"
  "pwAuthority (dropLeaf w) = pwAuthority w" "pwSemaphore (dropLeaf w) = pwSemaphore w"
  by (simp_all add: dropLeaf_def)

lemma recordEvent_simps [simp]:
  "pwLedger (recordEvent r e w) = pwLedger w" "pwAuthority (recordEvent r e w) = pwAuthority w"
  "pwSemaphore (recordEvent r e w) = pwSemaphore w"
  "pwJournal (recordEvent r e w) = pwJournal w @ (if recordedBy r then [e] else [])"
  by (simp_all add: recordEvent_def)

lemma rollback_rest: "pwJournal (rollback p t a w) = pwJournal w \<and> pwAuthority (rollback p t a w) = pwAuthority w
    \<and> pwSemaphore (rollback p t a w) = Semaphore.release p (pwSemaphore w)"
  using releaseReservation_rest [of w t] by (simp add: rollback_def Let_def sameRest_def)

lemma rollback_delta:
  assumes "ledgerGood (pwLedger w)" "isCount t" "jint t \<le> jint (tokensReserved (usage (pwLedger w)))"
    and "a \<Longrightarrow> 1 \<le> jint (activeLeafCalls (usage (pwLedger w)))"
  shows "ledgerDelta (if a then - 1 else 0) (- jint t) 0 (pwLedger w) (pwLedger (rollback p t a w))"
proof -
  define w1 where "w1 = (if jless (Num 0) t then releaseReservation t w else w)"
  have w1: "ledgerDelta 0 (- jint t) 0 (pwLedger w) (pwLedger w1)"
  proof (cases "jless (Num 0) t")
    case True
    then show ?thesis using releaseReservation_delta [OF assms(1,2,3)] by (simp add: w1_def)
  next
    case False
    then have "jint t = 0" using assms(2) count_jless [OF isCount_zero assms(2)] isCount_bounds [OF assms(2)] by simp
    then show ?thesis using False assms(1) by (simp add: w1_def deltas)
  qed
  have eq: "pwLedger (rollback p t a w) = (if a then releaseLeaf (pwLedger w1) else pwLedger w1)"
    by (simp add: rollback_def Let_def w1_def)
  show ?thesis
  proof (cases a)
    case True
    have "ledgerDelta (- 1) 0 0 (pwLedger w1) (releaseLeaf (pwLedger w1))"
      using w1 assms(4) [OF True] by (intro releaseLeaf_delta) (simp_all add: ledgerDelta_def)
    from ledgerDelta_trans [OF w1 this] True eq show ?thesis by simp
  qed (use w1 eq in simp)
qed

lemma reserveCapacity_delta:
  assumes "reserveCapacity env now c w op = (w1, op1, t, a, x)" "ledgerGood (pwLedger w)"
  shows "\<exists>k. 0 \<le> k \<and> k \<le> 1 \<and> (isOk x \<longrightarrow> a \<and> k = 1)
      \<and> ledgerDelta (if a then 1 else 0) (jint t) k (pwLedger w) (pwLedger w1)"
    and "sameRest w w1" and "isCount t"
proof -
  have "(\<exists>k. 0 \<le> k \<and> k \<le> 1 \<and> (isOk x \<longrightarrow> a \<and> k = 1) \<and> ledgerDelta (if a then 1 else 0) (jint t) k (pwLedger w) (pwLedger w1))
    \<and> sameRest w w1 \<and> isCount t"
  proof (cases "checkpoint (now 0) w op = None \<and> isOk (reserve (now 1) (now 2) (ivTokens c) w op)")
    case False
    then have "w1 = w" "t = Num 0" "\<not> a" "\<not> isOk x"
      using assms(1) by (auto simp: reserveCapacity_def isOk_iff split: option.splits sum.splits)
    then show ?thesis using assms(2) by (intro conjI exI [of _ 0]) (simp_all add: deltas sameRest_def)
  next
    case True
    then obtain reservation w2 op2 where r: "reserve (now 1) (now 2) (ivTokens c) w op = Inr (reservation, w2, op2)"
      by (auto simp: isOk_iff)
    note d = reserve_Inr [OF r assms(2)]
    have w2: "sameRest w w2" by (subst d(3)) (simp add: sameRest_def)
    show ?thesis
    proof (cases "acquireLeaf (pwLedger w2)")
      case None
      then have "w1 = w2" "t = ivTokens c" "\<not> a" "\<not> isOk x"
        using assms(1) True r by (auto simp: reserveCapacity_def)
      then show ?thesis using d(1,2) w2 by (intro conjI exI [of _ 1]) simp_all
    next
      case (Some l)
      then have e: "w1 = setLedger l w2" "t = ivTokens c" a
        using assms(1) True r by (auto simp: reserveCapacity_def)
      have "ledgerDelta 1 (jint t) 1 (pwLedger w) l"
        unfolding e(2) by (rule ledgerDelta_trans [OF d(1) acquireLeaf_delta [OF Some ledgerDelta_good [OF d(1)]]]) simp_all
      then show ?thesis using e d(2) w2 by (intro conjI exI [of _ 1]) (simp_all add: sameRest_def)
    qed
  qed
  then show "\<exists>k. 0 \<le> k \<and> k \<le> 1 \<and> (isOk x \<longrightarrow> a \<and> k = 1)
      \<and> ledgerDelta (if a then 1 else 0) (jint t) k (pwLedger w) (pwLedger w1)" "sameRest w w1" "isCount t"
    by blast+
qed

lemma counts_nonneg:
  assumes "ledgerGood l"
  shows "0 \<le> jint (activeLeafCalls (usage l))" "0 \<le> jint (tokensReserved (usage l))"
  using assms isCount_bounds by (auto simp: ledgerGood_def ledgerOk_iff usageOk_iff)

text \<open>The four pieces.  A granted permit leads to at most one more attempt, and to one exactly when an intent follows.\<close>

lemma permitGranted_delta:
  assumes "ledgerGood (pwLedger w)"
  shows "\<exists>k. 0 \<le> k \<and> k \<le> 1 \<and> ((\<exists>t i. snd (snd (permitGranted env now p c w op)) = AwaitIntent p t i) \<longrightarrow> k = 1)
    \<and> pieceDelta p AwaitPermit k w (permitGranted env now p c w op)"
proof -
  obtain w1 op1 t a x where r: "reserveCapacity env now c w op = (w1, op1, t, a, x)" by (metis surj_pair)
  note d = reserveCapacity_delta [OF r assms]
  obtain k where k: "0 \<le> k" "k \<le> 1" "isOk x \<longrightarrow> a \<and> k = 1"
    and kd: "ledgerDelta (if a then 1 else 0) (jint t) k (pwLedger w) (pwLedger w1)"
    using d(1) by blast
  show ?thesis
  proof (cases x)
    case (Inl f)
    have "ledgerDelta (if a then - 1 else 0) (- jint t) 0 (pwLedger w1) (pwLedger (rollback p t a w1))"
      using kd counts_nonneg [OF assms] by (intro rollback_delta d(3)) (auto simp: ledgerDelta_def)
    from ledgerDelta_trans [OF kd this, of 0 0 k] have "ledgerDelta 0 0 k (pwLedger w) (pwLedger (rollback p t a w1))"
      by simp
    then have "pieceDelta p AwaitPermit k w (permitGranted env now p c w op)"
      using d(2) rollback_rest [of p t a w1] by (simp add: pieceDelta_def permitGranted_def r Inl sameRest_def)
    then show ?thesis using k(1,2) by (intro exI [of _ k]) (simp add: permitGranted_def r Inl)
  next
    case (Inr i)
    then have "pieceDelta p AwaitPermit 1 w (permitGranted env now p c w op)"
      using d k(3) kd by (simp add: pieceDelta_def permitGranted_def r sameRest_def)
    then show ?thesis by (intro exI [of _ 1]) simp
  qed
qed

lemma intentReplied_delta:
  assumes "ledgerGood (pwLedger w)" "isCount t" "jint t \<le> jint (tokensReserved (usage (pwLedger w)))"
    and "1 \<le> jint (activeLeafCalls (usage (pwLedger w)))"
  shows "pieceDelta p (AwaitIntent p t i) 0 w (intentReplied r now p t i w op)"
proof (cases "appendFailure ''intent'' r")
  case None
  then show ?thesis using assms(1,2) by (simp add: intentReplied_def pieceDelta_def deltas)
next
  case (Some e)
  let ?w = "recordEvent r (OperationIntended i) w"
  have "ledgerDelta (- 1) (- jint t) 0 (pwLedger ?w) (pwLedger (rollback p t True ?w))"
    using rollback_delta [of ?w t True p] assms by simp
  then show ?thesis
    using Some rollback_rest [of p t True ?w] by (simp add: intentReplied_def pieceDelta_def Let_def)
qed

lemma settleEffect_delta:
  assumes "settleEffect env shape started now t reply w op = (w', op', s)" "ledgerGood (pwLedger w)" "isCount t"
    and "jint t \<le> jint (tokensReserved (usage (pwLedger w)))" and "shape \<noteq> CompleteCall \<Longrightarrow> t = Num 0" and "replyFits shape reply"
  shows "ledgerDelta 0 (- jint t) 0 (pwLedger w) (pwLedger w') \<and> sameRest w w'"
proof -
  have zero: "accountUsage (Num 0) u w op = accountUsage t u w op" if "shape \<noteq> CompleteCall" for u
    using assms(5) that by simp
  have "\<exists>u e. accountUsage t u w op = (e, w', op')"
    using assms(1,6) zero
    by (auto simp: settleEffect_def completeRejected_def completeFulfilled_def externalRejected_def externalFulfilled_def
        reportedFulfilled_def replyFits_def Let_def split: effect_reply.splits if_splits option.splits prod.splits sum.splits)
  then show ?thesis using accountUsage_delta assms(2,3,4) by blast
qed

lemma effectReplied_delta:
  assumes "ledgerGood (pwLedger w)" "isCount t" "jint t \<le> jint (tokensReserved (usage (pwLedger w)))"
    and "shape \<noteq> CompleteCall \<Longrightarrow> t = Num 0" and "replyFits shape reply"
  shows "pieceDelta p (AwaitEffect p t i started) 0 w (effectReplied env shape now p t i started reply w op)"
proof (cases "pwAuthority w")
  case False
  then show ?thesis using assms(1,2) by (simp add: effectReplied_def pieceDelta_def deltas)
next
  case True
  obtain w' op' x where e: "settleEffect env shape started now t reply w op = (w', op', x)" by (metis surj_pair)
  from settleEffect_delta [OF e assms(1,2,3,4,5)] True show ?thesis
    by (simp add: effectReplied_def pieceDelta_def e sameRest_def)
qed

lemma settlementReplied_delta:
  assumes "ledgerGood (pwLedger w)" "1 \<le> jint (activeLeafCalls (usage (pwLedger w)))"
  shows "pieceDelta p (AwaitSettlement p e k) 0 w (settlementReplied r p e k w op)"
  using releaseLeaf_delta [OF assms]
  by (simp add: settlementReplied_def pieceDelta_def Let_def split: option.splits)

end
