(* ===== verification/ProviderPermits.thy ===== *)
theory ProviderPermits
  imports ProviderLedger
begin

text \<open>
  The permits of provider calls: the log of the semaphore (\<open>src/src/runtime/semaphore.ts\<close>) grants each permit once
  and answers each request once, so a permit is held exactly while the call it was granted to has not woken up or is
  at a point that owns it.
\<close>

section \<open>The log of the semaphore\<close>

text \<open>
  Every request waits or was resolved once, and every permit was granted once.  \<open>semEvolves X R s s'\<close> says that the
  permits \<open>X\<close> were given up, the requests \<open>R\<close> were new, and what was granted went to requests that waited or were new.
\<close>

definition semLog :: "semaphore \<Rightarrow> bool" where
  "semLog s \<longleftrightarrow> distinct (map wRequest (waiters s) @ map fst (settled s))
     \<and> (\<forall>r p. (r, Some p) \<in> set (settled s) \<longrightarrow> p < nextPermit s)
     \<and> (\<forall>r r' p. (r, Some p) \<in> set (settled s) \<longrightarrow> (r', Some p) \<in> set (settled s) \<longrightarrow> r = r')"

definition requested :: "semaphore \<Rightarrow> nat set" where
  "requested s = wRequest ` set (waiters s) \<union> fst ` set (settled s)"

definition grantedIn :: "(nat \<times> nat option) list \<Rightarrow> nat set" where
  "grantedIn xs = {p. \<exists>r. (r, Some p) \<in> set xs}"

lemma grantedIn_simps [simp]:
  "grantedIn [] = {}" "grantedIn (xs @ ys) = grantedIn xs \<union> grantedIn ys"
  "grantedIn ((r, None) # xs) = grantedIn xs" "grantedIn ((r, Some p) # xs) = insert p (grantedIn xs)"
  by (auto simp: grantedIn_def)

definition semEvolves :: "nat set \<Rightarrow> nat set \<Rightarrow> semaphore \<Rightarrow> semaphore \<Rightarrow> bool" where
  "semEvolves X R s s' \<longleftrightarrow> semLog s' \<and> (\<exists>new. settled s' = settled s @ new \<and> held s' = (held s - X) \<union> grantedIn new
     \<and> wRequest ` set (waiters s') \<union> fst ` set new = wRequest ` set (waiters s) \<union> R)"

lemma semLog_resolve: "semLog s \<Longrightarrow> r \<notin> requested s \<Longrightarrow> semLog (resolveRequest r None s)"
  by (auto simp: semLog_def requested_def)

lemma semLog_grant: "semLog s \<Longrightarrow> r \<notin> requested s \<Longrightarrow> semLog (grantPermit r s)"
  by (auto simp: semLog_def requested_def less_SucI)

lemma requested_simps [simp]:
  "requested (resolveRequest r p s) = insert r (requested s)" "requested (grantPermit r s) = insert r (requested s)"
  by (auto simp: requested_def)

lemma acquire_evolves:
  assumes "semLog s" "r \<notin> requested s"
  shows "semEvolves {} {r} s (acquire r g s)"
proof -
  let ?w = "s\<lparr>waiters := waiters s @ [\<lparr>wRequest = r, wSignal = g\<rparr>]\<rparr>"
  have "semLog ?w" using assms by (auto simp: semLog_def requested_def)
  then have w: "semEvolves {} {r} s ?w" by (auto simp: semEvolves_def)
  have "semLog (s\<lparr>available := available s - 1\<rparr>)" "r \<notin> requested (s\<lparr>available := available s - 1\<rparr>)"
    using assms by (simp_all add: semLog_def requested_def)
  then have "semLog (grantPermit r (s\<lparr>available := available s - 1\<rparr>))" by (rule semLog_grant)
  then have g: "semEvolves {} {r} s (grantPermit r (s\<lparr>available := available s - 1\<rparr>))" by (auto simp: semEvolves_def)
  have "semEvolves {} {r} s (resolveRequest r None s)"
    using semLog_resolve [OF assms] by (auto simp: semEvolves_def)
  with w g show ?thesis by (simp add: acquire_def)
qed

lemma onAbort_evolves:
  assumes "semLog s"
  shows "semEvolves {} {} s (onAbort r s)"
proof (cases "r \<in> wRequest ` set (waiters s)")
  case True
  let ?s = "s\<lparr>waiters := filter (\<lambda>w. wRequest w \<noteq> r) (waiters s)\<rparr>"
  have "distinct (map wRequest (filter (\<lambda>w. wRequest w \<noteq> r) (waiters s)))"
    using assms distinct_map_filter by (auto simp: semLog_def)
  then have "semLog ?s" using assms by (auto simp: semLog_def)
  moreover have "r \<notin> requested ?s" using assms True by (auto simp: semLog_def requested_def)
  ultimately have "semLog (resolveRequest r None ?s)" by (rule semLog_resolve)
  then show ?thesis using True by (auto simp: semEvolves_def onAbort_def)
qed (use assms in \<open>simp add: semEvolves_def onAbort_def\<close>)

lemma handOff_evolves:
  assumes "semLog (s\<lparr>waiters := ws\<rparr>)"
  shows "semEvolves {} {} (s\<lparr>waiters := ws\<rparr>) (handOff ws s)"
  using assms
proof (induction ws s rule: handOff.induct)
  case (1 s)
  then show ?case by (auto simp: semEvolves_def semLog_def)
next
  case (2 w ws s)
  let ?s = "s\<lparr>waiters := ws\<rparr>"
  have log: "semLog ?s" and new: "wRequest w \<notin> requested ?s" using 2(2) by (auto simp: semLog_def requested_def)
  show ?case
  proof (cases "signalAborted (wSignal w) s")
    case True
    have eq: "(resolveRequest (wRequest w) None s)\<lparr>waiters := ws\<rparr> = resolveRequest (wRequest w) None ?s"
      by (simp add: resolveRequest_def)
    have "semEvolves {} {} (resolveRequest (wRequest w) None ?s) (handOff ws (resolveRequest (wRequest w) None s))"
      using 2(1) [OF True] semLog_resolve [OF log new] unfolding eq by blast
    then show ?thesis using True by (auto simp: semEvolves_def)
  next
    case False
    then show ?thesis using semLog_grant [OF log new] by (auto simp: semEvolves_def)
  qed
qed

lemma release_evolves:
  assumes "semLog s"
  shows "semEvolves {p} {} s (Semaphore.release p s)"
proof (cases "p \<in> held s")
  case True
  have "semLog ((s\<lparr>held := held s - {p}\<rparr>)\<lparr>waiters := waiters s\<rparr>)" using assms by (simp add: semLog_def)
  from handOff_evolves [OF this] True show ?thesis by (simp add: semEvolves_def Semaphore.release_def)
qed (use assms in \<open>simp add: semEvolves_def Semaphore.release_def\<close>)

section \<open>Permits and calls\<close>

text \<open>
  \<open>P\<close> gives the program counters of the first \<open>N\<close> calls.  A permit is held exactly while the call it was granted to
  has not woken up yet or is at a point that owns it.
\<close>

definition ownsPermit :: "invocation_pc \<Rightarrow> nat \<Rightarrow> bool" where
  "ownsPermit pc p \<longleftrightarrow> pc = AwaitPermit \<or> permitOf pc = Some p"

definition permitsOk :: "semaphore \<Rightarrow> nat \<Rightarrow> (nat \<Rightarrow> invocation_pc) \<Rightarrow> bool" where
  "permitsOk sem N P \<longleftrightarrow> semOk sem \<and> semLog sem \<and> requested sem \<subseteq> {..<N}
     \<and> (\<forall>w\<in>set (waiters sem). P (wRequest w) = AwaitPermit)
     \<and> (\<forall>n<N. \<forall>p. permitOf (P n) = Some p \<longrightarrow> (n, Some p) \<in> set (settled sem))
     \<and> held sem = {p. \<exists>n. (n, Some p) \<in> set (settled sem) \<and> ownsPermit (P n) p}"

lemma requested_new:
  assumes "settled sem' = settled sem @ new" "requested sem \<subseteq> S"
    and "\<And>r. r \<in> wRequest ` set (waiters sem') \<union> fst ` set new \<Longrightarrow> r \<in> S"
  shows "requested sem' \<subseteq> S"
proof -
  have "requested sem' = wRequest ` set (waiters sem') \<union> fst ` set new \<union> fst ` set (settled sem)"
    by (simp add: requested_def assms(1) image_Un Un_ac)
  moreover have "fst ` set (settled sem) \<subseteq> S" using assms(2) by (simp add: requested_def)
  ultimately show ?thesis using assms(3) by blast
qed

lemma settled_not_waiting: "semLog sem \<Longrightarrow> (n, x) \<in> set (settled sem) \<Longrightarrow> w \<in> set (waiters sem) \<Longrightarrow> wRequest w \<noteq> n"
proof
  assume log: "semLog sem" and n: "(n, x) \<in> set (settled sem)" and w: "w \<in> set (waiters sem)" "wRequest w = n"
  have "wRequest ` set (waiters sem) \<inter> fst ` set (settled sem) = {}" using log by (simp add: semLog_def)
  moreover have "n \<in> fst ` set (settled sem)" using n by force
  ultimately show False using w by blast
qed

lemma permitsOkD:
  assumes "permitsOk sem N P"
  shows "semOk sem" "semLog sem" "requested sem \<subseteq> {..<N}"
    and "w \<in> set (waiters sem) \<Longrightarrow> P (wRequest w) = AwaitPermit"
    and "n < N \<Longrightarrow> permitOf (P n) = Some p \<Longrightarrow> (n, Some p) \<in> set (settled sem)"
    and "p \<in> held sem \<longleftrightarrow> (\<exists>n. (n, Some p) \<in> set (settled sem) \<and> ownsPermit (P n) p)"
  using assms unfolding permitsOk_def by blast+

lemma permitsOkI:
  assumes "semOk sem" "semLog sem" "requested sem \<subseteq> {..<N}"
    and "\<And>w. w \<in> set (waiters sem) \<Longrightarrow> P (wRequest w) = AwaitPermit"
    and "\<And>n p. n < N \<Longrightarrow> permitOf (P n) = Some p \<Longrightarrow> (n, Some p) \<in> set (settled sem)"
    and "\<And>p. p \<in> held sem \<Longrightarrow> \<exists>n. (n, Some p) \<in> set (settled sem) \<and> ownsPermit (P n) p"
    and "\<And>n p. (n, Some p) \<in> set (settled sem) \<Longrightarrow> ownsPermit (P n) p \<Longrightarrow> p \<in> held sem"
  shows "permitsOk sem N P"
  unfolding permitsOk_def using assms by blast

lemma settled_requested: "(n, x) \<in> set (settled sem) \<Longrightarrow> n \<in> requested sem"
  by (force simp: requested_def)

lemma permitsOk_cong:
  assumes ok: "permitsOk sem N P" and same: "\<And>n. n < N \<Longrightarrow> P' n = P n"
  shows "permitsOk sem N P'"
proof -
  note d = permitsOkD [OF ok]
  have settled: "P' n = P n" if "(n, x) \<in> set (settled sem)" for n x
    using same d(3) settled_requested [OF that] by blast
  have waiting: "P' (wRequest w) = P (wRequest w)" if "w \<in> set (waiters sem)" for w
    using same d(3) that by (auto simp: requested_def)
  show ?thesis
  proof (rule permitsOkI)
    show "semOk sem" "semLog sem" "requested sem \<subseteq> {..<N}" using d(1,2,3) by blast+
    show "P' (wRequest w) = AwaitPermit" if "w \<in> set (waiters sem)" for w
      using waiting [OF that] d(4) [OF that] by simp
    show "(n, Some p) \<in> set (settled sem)" if "n < N" "permitOf (P' n) = Some p" for n p
      using d(5) [of n p] that same [of n] by simp
    show "\<exists>n. (n, Some p) \<in> set (settled sem) \<and> ownsPermit (P' n) p" if "p \<in> held sem" for p
      using that settled unfolding d(6) by metis
    show "p \<in> held sem" if "(n, Some p) \<in> set (settled sem)" "ownsPermit (P' n) p" for n p
      using that settled unfolding d(6) by metis
  qed
qed

lemma permitsOk_more: "permitsOk sem N P \<Longrightarrow> N \<le> M \<Longrightarrow> (\<And>n. N \<le> n \<Longrightarrow> n < M \<Longrightarrow> permitOf (P n) = None) \<Longrightarrow> permitsOk sem M P"
  unfolding permitsOk_def by (metis lessThan_subset_iff not_le option.distinct(1) subset_trans)

text \<open>A step of the semaphore grants permits to calls that wait for one.\<close>

lemma permitsOk_evolves:
  assumes ok: "permitsOk sem N P" and ev: "semEvolves {} R sem sem'" and sok: "semOk sem'"
    and R: "\<And>r. r \<in> R \<Longrightarrow> r < N \<and> P r = AwaitPermit"
  shows "permitsOk sem' N P"
proof -
  obtain new where new: "settled sem' = settled sem @ new" "held sem' = held sem \<union> grantedIn new"
    and req: "wRequest ` set (waiters sem') \<union> fst ` set new = wRequest ` set (waiters sem) \<union> R" and log: "semLog sem'"
    using ev by (auto simp: semEvolves_def)
  have wait: "r < N \<and> P r = AwaitPermit" if "r \<in> wRequest ` set (waiters sem') \<union> fst ` set new" for r
    using that R ok unfolding req permitsOk_def requested_def by auto
  note d = permitsOkD [OF ok]
  have mem: "(n, x) \<in> set (settled sem') \<longleftrightarrow> (n, x) \<in> set (settled sem) \<or> (n, x) \<in> set new" for n x
    by (simp add: new(1))
  have own: "ownsPermit (P n) p \<and> p \<in> grantedIn new" if "(n, Some p) \<in> set new" for n p
    using wait [of n] that by (force simp: ownsPermit_def grantedIn_def)
  show ?thesis
  proof (rule permitsOkI)
    show "semOk sem'" "semLog sem'" by (rule sok, rule log)
    show "requested sem' \<subseteq> {..<N}" by (rule requested_new [OF new(1) d(3)]) (use wait in simp)
    show "P (wRequest w) = AwaitPermit" if "w \<in> set (waiters sem')" for w
      using wait that by blast
    show "(n, Some p) \<in> set (settled sem')" if "n < N" "permitOf (P n) = Some p" for n p
      using d(5) [OF that] mem by blast
    show "\<exists>n. (n, Some p) \<in> set (settled sem') \<and> ownsPermit (P n) p" if p: "p \<in> held sem'" for p
    proof -
      consider "p \<in> held sem" | "p \<in> grantedIn new" using p new(2) by blast
      then show ?thesis
      proof cases
        case 1
        then show ?thesis using mem unfolding d(6) by blast
      next
        case 2
        then obtain n where "(n, Some p) \<in> set new" by (auto simp: grantedIn_def)
        then show ?thesis using mem own by blast
      qed
    qed
    show "p \<in> held sem'" if "(n, Some p) \<in> set (settled sem')" "ownsPermit (P n) p" for n p
      using that mem own d(6) new(2) by blast
  qed
qed

text \<open>A call that owns a permit keeps it or gives it back.\<close>

lemma permitsOk_keep:
  assumes ok: "permitsOk sem N P" and n: "n < N" "(n, Some p) \<in> set (settled sem)" "ownsPermit (P n) p"
    and pc: "permitOf pc = Some p"
  shows "permitsOk sem N (P(n := pc))"
proof -
  have log: "semLog sem" using ok by (simp add: permitsOk_def)
  have uniq: "q = p" if "(n, Some q) \<in> set (settled sem)" for q
    using that n(2) log unfolding semLog_def by (auto dest: eq_key_imp_eq_value)
  have notn: "wRequest w \<noteq> n" if "w \<in> set (waiters sem)" for w
    by (rule settled_not_waiting [OF log n(2) that])
  note d = permitsOkD [OF ok]
  have own: "ownsPermit ((P(n := pc)) m) q \<longleftrightarrow> ownsPermit (P m) q" if "(m, Some q) \<in> set (settled sem)" for m q
  proof (cases "m = n")
    case True
    then have "q = p" using uniq that by blast
    then show ?thesis using True n(3) pc by (simp add: ownsPermit_def)
  qed simp
  show ?thesis
  proof (rule permitsOkI)
    show "semOk sem" "semLog sem" "requested sem \<subseteq> {..<N}" using d(1,2,3) by blast+
    show "(P(n := pc)) (wRequest w) = AwaitPermit" if "w \<in> set (waiters sem)" for w
      using notn [OF that] d(4) [OF that] by simp
    show "(m, Some q) \<in> set (settled sem)" if "m < N" "permitOf ((P(n := pc)) m) = Some q" for m q
      using that n(2) pc d(5) [of m q] by (cases "m = n") simp_all
    show "\<exists>m. (m, Some q) \<in> set (settled sem) \<and> ownsPermit ((P(n := pc)) m) q" if "q \<in> held sem" for q
      using that own unfolding d(6) by blast
    show "q \<in> held sem" if "(m, Some q) \<in> set (settled sem)" "ownsPermit ((P(n := pc)) m) q" for m q
      using that own unfolding d(6) by blast
  qed
qed

lemma permitsOk_giveBack:
  assumes ok: "permitsOk sem N P" and n: "n < N" "(n, Some p) \<in> set (settled sem)" "ownsPermit (P n) p"
    and pc: "permitOf pc = None" "pc \<noteq> AwaitPermit"
  shows "permitsOk (Semaphore.release p sem) N (P(n := pc))"
proof -
  have log: "semLog sem" and sok: "semOk sem" using ok by (simp_all add: permitsOk_def)
  let ?s = "Semaphore.release p sem"
  obtain new where new: "settled ?s = settled sem @ new" "held ?s = (held sem - {p}) \<union> grantedIn new"
    and req: "wRequest ` set (waiters ?s) \<union> fst ` set new = wRequest ` set (waiters sem)" and log': "semLog ?s"
    using release_evolves [OF log, of p] by (auto simp: semEvolves_def)
  have notn: "n \<notin> wRequest ` set (waiters sem)" using settled_not_waiting [OF log n(2)] by blast
  have wait: "r < N \<and> r \<noteq> n \<and> P r = AwaitPermit" if "r \<in> wRequest ` set (waiters ?s) \<union> fst ` set new" for r
    using that ok notn unfolding req permitsOk_def requested_def by auto
  have newr: "r < N \<and> r \<noteq> n \<and> P r = AwaitPermit" if "(r, x) \<in> set new" for r x
    using wait [of r] that by force
  have uniq: "m = n" if "(m, Some p) \<in> set (settled sem)" for m
    using that n(2) log unfolding semLog_def by blast
  note d = permitsOkD [OF ok]
  have mem: "(m, x) \<in> set (settled ?s) \<longleftrightarrow> (m, x) \<in> set (settled sem) \<or> (m, x) \<in> set new" for m x
    by (simp add: new(1))
  have other: "q \<noteq> p" if "(m, Some q) \<in> set (settled sem)" "m \<noteq> n" for m q
    using uniq that by blast
  have mine: "q = p" if "(n, Some q) \<in> set (settled sem)" for q
    using that n(2) log unfolding semLog_def by (auto dest: eq_key_imp_eq_value)
  show ?thesis
  proof (rule permitsOkI)
    show "semOk ?s" "semLog ?s" by (rule release_ok [OF sok], rule log')
    show "requested ?s \<subseteq> {..<N}" by (rule requested_new [OF new(1) d(3)]) (use wait in simp)
    show "(P(n := pc)) (wRequest w) = AwaitPermit" if "w \<in> set (waiters ?s)" for w
      using wait [of "wRequest w"] that by simp
    show "(m, Some q) \<in> set (settled ?s)" if "m < N" "permitOf ((P(n := pc)) m) = Some q" for m q
      using that pc d(5) [of m q] mem by (cases "m = n") simp_all
    show "\<exists>m. (m, Some q) \<in> set (settled ?s) \<and> ownsPermit ((P(n := pc)) m) q" if q: "q \<in> held ?s" for q
    proof -
      consider "q \<in> held sem" "q \<noteq> p" | "q \<in> grantedIn new" using q new(2) by blast
      then show ?thesis
      proof cases
        case 1
        then obtain m where m: "(m, Some q) \<in> set (settled sem)" "ownsPermit (P m) q" using d(6) by blast
        then have "m \<noteq> n" using mine 1(2) by blast
        then show ?thesis using m mem by (intro exI [of _ m]) simp
      next
        case 2
        then obtain r where r: "(r, Some q) \<in> set new" by (auto simp: grantedIn_def)
        from newr [OF r] r mem show ?thesis by (intro exI [of _ r]) (simp add: ownsPermit_def)
      qed
    qed
    show "q \<in> held ?s" if m: "(m, Some q) \<in> set (settled ?s)" "ownsPermit ((P(n := pc)) m) q" for m q
    proof -
      have mn: "m \<noteq> n" using m(2) pc by (auto simp: ownsPermit_def)
      from m(1) mem consider "(m, Some q) \<in> set (settled sem)" | "(m, Some q) \<in> set new" by blast
      then show ?thesis
      proof cases
        case 1
        moreover have "ownsPermit (P m) q" using m(2) mn by simp
        ultimately show ?thesis using d(6) other [OF 1 mn] new(2) by blast
      qed (use new(2) in \<open>auto simp: grantedIn_def\<close>)
    qed
  qed
qed

text \<open>A call whose request was denied may end.\<close>

lemma permitsOk_deny:
  assumes ok: "permitsOk sem N P" and n: "(n, None) \<in> set (settled sem)" and pc: "permitOf pc = None"
  shows "permitsOk sem N (P(n := pc))"
proof -
  have log: "semLog sem" using ok by (simp add: permitsOk_def)
  have none: "(n, Some q) \<notin> set (settled sem)" for q
    using n log unfolding semLog_def by (auto dest: eq_key_imp_eq_value)
  have notn: "wRequest w \<noteq> n" if "w \<in> set (waiters sem)" for w
    by (rule settled_not_waiting [OF log n that])
  note d = permitsOkD [OF ok]
  show ?thesis
  proof (rule permitsOkI)
    show "semOk sem" "semLog sem" "requested sem \<subseteq> {..<N}" using d(1,2,3) by blast+
    show "(P(n := pc)) (wRequest w) = AwaitPermit" if "w \<in> set (waiters sem)" for w
      using notn [OF that] d(4) [OF that] by simp
    show "(m, Some q) \<in> set (settled sem)" if "m < N" "permitOf ((P(n := pc)) m) = Some q" for m q
      using that pc d(5) [of m q] by (cases "m = n") simp_all
    show "\<exists>m. (m, Some q) \<in> set (settled sem) \<and> ownsPermit ((P(n := pc)) m) q" if "q \<in> held sem" for q
      using that none unfolding d(6) by (metis fun_upd_other)
    show "q \<in> held sem" if "(m, Some q) \<in> set (settled sem)" "ownsPermit ((P(n := pc)) m) q" for m q
      using that none unfolding d(6) by (metis fun_upd_other)
  qed
qed

text \<open>The calls that own a permit are at most as many as the permits held; so they leave room for one that just got its own.\<close>

lemma owners_held:
  assumes ok: "permitsOk sem N P"
  shows "card {n. n < N \<and> permitOf (P n) \<noteq> None} \<le> card (held sem)"
    and "n < N \<Longrightarrow> P n = AwaitPermit \<Longrightarrow> (n, Some p) \<in> set (settled sem)
      \<Longrightarrow> card {n. n < N \<and> permitOf (P n) \<noteq> None} < card (held sem)"
proof -
  let ?A = "{n. n < N \<and> permitOf (P n) \<noteq> None}"
  have log: "semLog sem" and fin: "finite (held sem)" using permitsOkD(1,2) [OF ok] by (simp_all add: semOk_def)
  have owner: "(m, permitOf (P m)) \<in> set (settled sem) \<and> the (permitOf (P m)) \<in> held sem" if m: "m \<in> ?A" for m
  proof -
    obtain q where q: "m < N" "permitOf (P m) = Some q" using m by auto
    then have "(m, Some q) \<in> set (settled sem)" by (rule permitsOkD(5) [OF ok])
    then show ?thesis using q(2) permitsOkD(6) [OF ok, of q] by (auto simp: ownsPermit_def)
  qed
  have inj: "inj_on (\<lambda>n. the (permitOf (P n))) ?A"
  proof (rule inj_onI)
    fix m k assume m: "m \<in> ?A" "k \<in> ?A" and eq: "the (permitOf (P m)) = the (permitOf (P k))"
    then obtain q where "permitOf (P m) = Some q" "permitOf (P k) = Some q" by auto
    with owner [OF m(1)] owner [OF m(2)] show "m = k" using log unfolding semLog_def by metis
  qed
  have sub: "(\<lambda>n. the (permitOf (P n))) ` ?A \<subseteq> held sem" using owner by auto
  show "card ?A \<le> card (held sem)" using card_inj_on_le [OF inj sub fin] .
  assume n: "n < N" "P n = AwaitPermit" and grant: "(n, Some p) \<in> set (settled sem)"
  have "p \<in> held sem" using permitsOkD(6) [OF ok, of p] n grant by (auto simp: ownsPermit_def)
  moreover have "p \<notin> (\<lambda>n. the (permitOf (P n))) ` ?A"
  proof
    assume "p \<in> (\<lambda>n. the (permitOf (P n))) ` ?A"
    then obtain m where m: "m \<in> ?A" "p = the (permitOf (P m))" by blast
    then have "permitOf (P m) = Some p" by auto
    then have "(m, Some p) \<in> set (settled sem)" using owner [OF m(1)] by simp
    then have "m = n" using grant log unfolding semLog_def by blast
    then show False using \<open>permitOf (P m) = Some p\<close> n(2) by simp
  qed
  ultimately have "(\<lambda>n. the (permitOf (P n))) ` ?A \<subset> held sem" using sub by blast
  then have "card ((\<lambda>n. the (permitOf (P n))) ` ?A) < card (held sem)" by (rule psubset_card_mono [OF fin])
  then show "card ?A < card (held sem)" by (simp only: card_image [OF inj])
qed

end
