(* ===== verification/ProviderInvariant.thy ===== *)
theory ProviderInvariant
  imports ProviderPermits RecoveryJournal
begin

text \<open>
  The invariants of the interleaved provider calls: the ledger holds what the calls hold and the semaphore what they
  own (\<open>providerOk\<close>), intents precede launches and launches settlements (\<open>walOk\<close>), and the settlements written are in
  order (\<open>settlesOk\<close>).
\<close>

section \<open>The invariant\<close>

definition sumOver :: "(invocation_pc \<Rightarrow> int) \<Rightarrow> invocation list \<Rightarrow> int" where
  "sumOver f cs = sum_list (map (\<lambda>c. f (ivPc c)) cs)"

lemma sumOver_simps [simp]: "sumOver f [] = 0" "sumOver f (cs @ [c]) = sumOver f cs + f (ivPc c)"
  by (simp_all add: sumOver_def)

lemma sumOver_update: "n < length cs \<Longrightarrow> sumOver f (cs[n := c]) = sumOver f cs + f (ivPc c) - f (ivPc (cs ! n))"
  by (induction cs arbitrary: n) (auto simp: sumOver_def nth_Cons split: nat.splits)

lemma sumOver_member:
  assumes "n < length cs" "\<And>c. c \<in> set cs \<Longrightarrow> 0 \<le> f (ivPc c)"
  shows "f (ivPc (cs ! n)) \<le> sumOver f cs"
  using assms
proof (induction cs arbitrary: n)
  case (Cons c cs)
  have "0 \<le> sumOver f cs" using Cons(3) unfolding sumOver_def by (intro sum_list_nonneg) auto
  moreover have "0 \<le> f (ivPc c)" using Cons(3) by simp
  moreover have "f (ivPc (cs ! m)) \<le> sumOver f cs" if "n = Suc m" for m
    using Cons(1) [of m] Cons(2,3) that by simp
  ultimately show ?case by (cases n) (auto simp: sumOver_def)
qed simp

text \<open>A call refers to an operation, and only a completion reserves tokens.\<close>

definition callOk :: "nat \<Rightarrow> invocation \<Rightarrow> bool" where
  "callOk N c \<longleftrightarrow> ivOperation c < N \<and> isCount (pendingOf (ivPc c))
     \<and> (pendingOf (ivPc c) = Num 0 \<or> pendingOf (ivPc c) = ivTokens c) \<and> (ivShape c = CompleteCall \<or> ivTokens c = Num 0)"

definition abandoned :: "invocation_pc \<Rightarrow> bool" where
  "abandoned pc \<longleftrightarrow> (case pc of Abandoned _ _ \<Rightarrow> True | _ \<Rightarrow> False)"

definition providerOk :: "ledger \<Rightarrow> int \<Rightarrow> provider_system \<Rightarrow> bool" where
  "providerOk l0 permits s \<longleftrightarrow>
     (let w = psWorld s; cs = psCalls s
      in ledgerGood (pwLedger w) \<and> limits (pwLedger w) = limits l0
         \<and> jint (activeLeafCalls (usage (pwLedger w))) = sumOver leafOf cs
         \<and> jint (tokensReserved (usage (pwLedger w))) = sumOver pendingTokens cs
         \<and> (\<forall>c\<in>set cs. callOk (length (psOperations s)) c)
         \<and> permitsOk (pwSemaphore w) (length cs) (\<lambda>n. ivPc (cs ! n)) \<and> capacity (pwSemaphore w) = max 1 permits
         \<and> (pwAuthority w \<longrightarrow> (\<forall>c\<in>set cs. \<not> abandoned (ivPc c))))"

lemma providerOkD:
  assumes "providerOk l0 permits s"
  shows "ledgerGood (pwLedger (psWorld s))" "limits (pwLedger (psWorld s)) = limits l0"
    and "jint (activeLeafCalls (usage (pwLedger (psWorld s)))) = sumOver leafOf (psCalls s)"
    and "jint (tokensReserved (usage (pwLedger (psWorld s)))) = sumOver pendingTokens (psCalls s)"
    and "c \<in> set (psCalls s) \<Longrightarrow> callOk (length (psOperations s)) c"
    and "permitsOk (pwSemaphore (psWorld s)) (length (psCalls s)) (\<lambda>n. ivPc (psCalls s ! n))"
    and "capacity (pwSemaphore (psWorld s)) = max 1 permits"
    and "pwAuthority (psWorld s) \<Longrightarrow> c \<in> set (psCalls s) \<Longrightarrow> \<not> abandoned (ivPc c)"
  using assms unfolding providerOk_def Let_def by blast+

lemma providerOkI:
  assumes "ledgerGood (pwLedger (psWorld s))" "limits (pwLedger (psWorld s)) = limits l0"
    and "jint (activeLeafCalls (usage (pwLedger (psWorld s)))) = sumOver leafOf (psCalls s)"
    and "jint (tokensReserved (usage (pwLedger (psWorld s)))) = sumOver pendingTokens (psCalls s)"
    and "\<And>c. c \<in> set (psCalls s) \<Longrightarrow> callOk (length (psOperations s)) c"
    and "permitsOk (pwSemaphore (psWorld s)) (length (psCalls s)) (\<lambda>n. ivPc (psCalls s ! n))"
    and "capacity (pwSemaphore (psWorld s)) = max 1 permits"
    and "\<And>c. pwAuthority (psWorld s) \<Longrightarrow> c \<in> set (psCalls s) \<Longrightarrow> \<not> abandoned (ivPc c)"
  shows "providerOk l0 permits s"
  using assms unfolding providerOk_def Let_def by blast

lemma leafOf_nonneg: "0 \<le> leafOf pc"
  by (cases pc) simp_all

text \<open>What a call holds is covered by the ledger's counters.\<close>

lemma call_covered:
  assumes "providerOk l0 permits s" "n < length (psCalls s)"
  shows "leafOf (ivPc (psCalls s ! n)) \<le> jint (activeLeafCalls (usage (pwLedger (psWorld s))))"
    and "pendingTokens (ivPc (psCalls s ! n)) \<le> jint (tokensReserved (usage (pwLedger (psWorld s))))"
proof -
  note d = providerOkD [OF assms(1)]
  show "leafOf (ivPc (psCalls s ! n)) \<le> jint (activeLeafCalls (usage (pwLedger (psWorld s))))"
    unfolding d(3) by (rule sumOver_member [OF assms(2)]) (rule leafOf_nonneg)
  have "0 \<le> pendingTokens (ivPc c)" if "c \<in> set (psCalls s)" for c
    using d(5) [OF that] isCount_bounds by (auto simp: callOk_def)
  then show "pendingTokens (ivPc (psCalls s ! n)) \<le> jint (tokensReserved (usage (pwLedger (psWorld s))))"
    unfolding d(4) by (rule sumOver_member [OF assms(2)])
qed

lemma settleCall_simps [simp]:
  "psWorld (settleCall n (w, op, pc) s) = w"
  "length (psOperations (settleCall n r s)) = length (psOperations s)"
  "length (psCalls (settleCall n r s)) = length (psCalls s)"
  by (simp_all add: settleCall_def split: prod.splits)

lemma settleCall_calls:
  "psCalls (settleCall n (w, op, pc) s) = (psCalls s)[n := (psCalls s ! n)\<lparr>ivPc := pc,
     ivLaunched := (case pc of AwaitEffect _ _ i _ \<Rightarrow> Some i | _ \<Rightarrow> ivLaunched (psCalls s ! n))\<rparr>]"
  by (simp add: settleCall_def)

lemma release_capacity [simp]: "capacity (Semaphore.release p sem) = capacity sem"
  using sem_step_capacity [OF sem_step.releases] by simp

lemma settleCall_ok:
  assumes ok: "providerOk l0 permits s" and n: "n < length (psCalls s)"
    and own: "(n, Some p) \<in> set (settled (pwSemaphore (psWorld s)))" "ownsPermit (ivPc (psCalls s ! n)) p"
    and piece: "pieceDelta p (ivPc (psCalls s ! n)) k (psWorld s) r"
    and pend: "pendingOf (snd (snd r)) = Num 0 \<or> pendingOf (snd (snd r)) = ivTokens (psCalls s ! n)"
    and auth: "pwAuthority (psWorld s) \<Longrightarrow> \<not> abandoned (snd (snd r))"
  shows "providerOk l0 permits (settleCall n r s)"
proof -
  obtain w op pc where r: "r = (w, op, pc)" by (cases r)
  note d = providerOkD [OF ok]
  note p = piece [unfolded pieceDelta_def r prod.case]
  have l: "ledgerDelta (leafOf pc - leafOf (ivPc (psCalls s ! n))) (pendingTokens pc - pendingTokens (ivPc (psCalls s ! n))) k
      (pwLedger (psWorld s)) (pwLedger w)" and count: "isCount (pendingOf pc)" and a: "pwAuthority w = pwAuthority (psWorld s)"
    and sem: "pwSemaphore w = pwSemaphore (psWorld s) \<and> permitOf pc = Some p
        \<or> pwSemaphore w = Semaphore.release p (pwSemaphore (psWorld s)) \<and> permitOf pc = None \<and> pc \<noteq> AwaitPermit"
    using p by blast+
  let ?s = "settleCall n r s"
  have cs: "psCalls ?s = (psCalls s)[n := (psCalls s ! n)\<lparr>ivPc := pc,
      ivLaunched := (case pc of AwaitEffect _ _ i _ \<Rightarrow> Some i | _ \<Rightarrow> ivLaunched (psCalls s ! n))\<rparr>]"
    unfolding r by (rule settleCall_calls)
  have mem: "c \<in> set (psCalls ?s) \<Longrightarrow> c \<in> set (psCalls s) \<or> c = (psCalls s ! n)\<lparr>ivPc := pc,
      ivLaunched := (case pc of AwaitEffect _ _ i _ \<Rightarrow> Some i | _ \<Rightarrow> ivLaunched (psCalls s ! n))\<rparr>" for c
    unfolding cs using set_update_subset_insert by fastforce
  have sums: "sumOver f (psCalls ?s) = sumOver f (psCalls s) + f pc - f (ivPc (psCalls s ! n))" for f
    unfolding cs using sumOver_update [OF n] by simp
  have P: "(\<lambda>m. ivPc (psCalls ?s ! m)) = (\<lambda>m. ivPc (psCalls s ! m))(n := pc)"
    unfolding cs using n by (auto simp: fun_eq_iff nth_list_update)
  have c0: "callOk (length (psOperations s)) (psCalls s ! n)" using d(5) n by simp
  show ?thesis
  proof (rule providerOkI)
    show "ledgerGood (pwLedger (psWorld ?s))" "limits (pwLedger (psWorld ?s)) = limits l0"
      using l d(2) by (simp_all add: r ledgerDelta_def)
    show "jint (activeLeafCalls (usage (pwLedger (psWorld ?s)))) = sumOver leafOf (psCalls ?s)"
      "jint (tokensReserved (usage (pwLedger (psWorld ?s)))) = sumOver pendingTokens (psCalls ?s)"
      using l d(3,4) unfolding sums by (simp_all add: r ledgerDelta_def)
    show "callOk (length (psOperations ?s)) c" if "c \<in> set (psCalls ?s)" for c
      using mem [OF that] d(5) [of c] c0 count pend by (auto simp: callOk_def r)
    have "permitsOk (pwSemaphore w) (length (psCalls s)) ((\<lambda>m. ivPc (psCalls s ! m))(n := pc))"
      using sem permitsOk_keep [OF d(6) n own] permitsOk_giveBack [OF d(6) n own] by auto
    then show "permitsOk (pwSemaphore (psWorld ?s)) (length (psCalls ?s)) (\<lambda>m. ivPc (psCalls ?s ! m))"
      unfolding P by (simp add: r)
    show "capacity (pwSemaphore (psWorld ?s)) = max 1 permits" using sem d(7) by (auto simp: r)
    show "\<not> abandoned (ivPc c)" if "pwAuthority (psWorld ?s)" "c \<in> set (psCalls ?s)" for c
      using mem [OF that(2)] that(1) d(8) [of c] auth a by (auto simp: r)
  qed
qed


text \<open>The pieces keep the pending tokens to those of the call, and abandon a call only without authority.\<close>

lemma permitGranted_pc:
  "(pendingOf (snd (snd (permitGranted env now p c w op))) = Num 0 \<or> pendingOf (snd (snd (permitGranted env now p c w op))) = ivTokens c)
    \<and> \<not> abandoned (snd (snd (permitGranted env now p c w op)))"
  by (auto simp: permitGranted_def reserveCapacity_def abandoned_def Let_def split: option.splits sum.splits prod.splits if_splits)

lemma intentReplied_pc:
  "(pendingOf (snd (snd (intentReplied r now p t i w op))) = Num 0 \<or> pendingOf (snd (snd (intentReplied r now p t i w op))) = t)
    \<and> \<not> abandoned (snd (snd (intentReplied r now p t i w op)))"
  by (simp add: intentReplied_def abandoned_def Let_def split: option.splits)

lemma effectReplied_pc:
  "(pendingOf (snd (snd (effectReplied env shape now p t i started reply w op))) = Num 0
      \<or> pendingOf (snd (snd (effectReplied env shape now p t i started reply w op))) = t)
    \<and> (pwAuthority w \<longrightarrow> \<not> abandoned (snd (snd (effectReplied env shape now p t i started reply w op))))"
  by (simp add: effectReplied_def abandoned_def split: prod.splits)

lemma settlementReplied_pc:
  "pendingOf (snd (snd (settlementReplied r p e k w op))) = Num 0 \<and> \<not> abandoned (snd (snd (settlementReplied r p e k w op)))"
  by (simp add: settlementReplied_def abandoned_def Let_def split: option.splits)

lemma startInvocation_cases:
  assumes "startInvocation env now n k call w op = (w', c)"
  shows "(\<exists>f. w' = w \<and> ivPc c = Finished (Inl f) \<and> ivTokens c = Num 0)
    \<or> (w' = w\<lparr>pwSemaphore := acquire n (Some (moSignal op)) (pwSemaphore w)\<rparr> \<and> ivPc c = AwaitPermit)"
    and "ivOperation c = k" "ivLaunched c = None" "ivShape c = CompleteCall \<or> ivTokens c = Num 0"
  using assms
  by (auto simp: startInvocation_def prepareCall_def Let_def split: sum.splits option.splits provider_call.splits prod.splits)

lemma permitsOk_start:
  assumes ok: "permitsOk sem N P" and P: "P N = AwaitPermit"
  shows "permitsOk (acquire N g sem) (Suc N) P"
proof (rule permitsOk_evolves [where R = "{N}"])
  show "permitsOk sem (Suc N) P" by (rule permitsOk_more [OF ok]) (auto simp: P less_Suc_eq)
  have "N \<notin> requested sem" using permitsOkD(3) [OF ok] by auto
  then show "semEvolves {} {N} sem (acquire N g sem)" by (rule acquire_evolves [OF permitsOkD(2) [OF ok]])
  show "semOk (acquire N g sem)" by (rule acquire_ok [OF permitsOkD(1) [OF ok]])
qed (use P in simp)

lemma acquire_capacity [simp]: "capacity (acquire n g sem) = capacity sem"
  using sem_step_capacity [OF sem_step.acquires] by simp

lemma onAbort_capacity [simp]: "capacity (onAbort n sem) = capacity sem"
  using sem_step_capacity [OF sem_step.listens] by simp

lemma start_ok:
  assumes ok: "providerOk l0 permits s" and k: "k < length (psOperations s)"
    and start: "startInvocation env now (length (psCalls s)) k call (psWorld s) op = (w, c)"
  shows "providerOk l0 permits (s\<lparr>psWorld := w, psCalls := psCalls s @ [c]\<rparr>)"
proof -
  note d = providerOkD [OF ok] and c = startInvocation_cases [OF start]
  let ?N = "length (psCalls s)" and ?s = "s\<lparr>psWorld := w, psCalls := psCalls s @ [c]\<rparr>"
  have P: "permitsOk (pwSemaphore (psWorld s)) ?N (\<lambda>n. ivPc ((psCalls s @ [c]) ! n))"
    by (rule permitsOk_cong [OF d(6)]) (simp add: nth_append)
  have same: "pwLedger w = pwLedger (psWorld s)" "pwAuthority w = pwAuthority (psWorld s)"
    and zero: "leafOf (ivPc c) = 0" "pendingOf (ivPc c) = Num 0" "\<not> abandoned (ivPc c)"
    using c(1) by (auto simp: abandoned_def)
  show ?thesis
  proof (rule providerOkI)
    show "ledgerGood (pwLedger (psWorld ?s))" "limits (pwLedger (psWorld ?s)) = limits l0"
      "jint (activeLeafCalls (usage (pwLedger (psWorld ?s)))) = sumOver leafOf (psCalls ?s)"
      "jint (tokensReserved (usage (pwLedger (psWorld ?s)))) = sumOver pendingTokens (psCalls ?s)"
      using d(1-4) by (simp_all add: same zero)
    show "callOk (length (psOperations ?s)) c'" if "c' \<in> set (psCalls ?s)" for c'
      using that d(5) [of c'] c(2,4) k zero by (auto simp: callOk_def)
    show "permitsOk (pwSemaphore (psWorld ?s)) (length (psCalls ?s)) (\<lambda>n. ivPc (psCalls ?s ! n))"
      using c(1)
    proof (elim disjE exE conjE)
      fix f assume "w = psWorld s" "ivPc c = Finished (Inl f)"
      then show ?thesis using permitsOk_more [OF P, of "Suc ?N"] by (simp add: less_Suc_eq)
    next
      assume "w = (psWorld s)\<lparr>pwSemaphore := acquire ?N (Some (moSignal op)) (pwSemaphore (psWorld s))\<rparr>" "ivPc c = AwaitPermit"
      then show ?thesis using permitsOk_start [OF P] by simp
    qed
    show "capacity (pwSemaphore (psWorld ?s)) = max 1 permits" using c(1) d(7) by auto
    show "\<not> abandoned (ivPc c')" if "pwAuthority (psWorld ?s)" "c' \<in> set (psCalls ?s)" for c'
      using that d(8) [of c'] zero(3) same(2) by auto
  qed
qed

lemma permitsOk_signals:
  assumes "permitsOk sem N P"
  shows "permitsOk (sem\<lparr>abortedSignals := A\<rparr>) N P"
proof -
  note d = permitsOkD [OF assms]
  have "semEvolves {} {} sem (sem\<lparr>abortedSignals := A\<rparr>)" using d(2) by (simp add: semEvolves_def semLog_def)
  then show ?thesis by (rule permitsOk_evolves [OF assms]) (simp_all add: abort_ok d(1))
qed

text \<open>The point at which a call owns its permit.\<close>

lemma owner_settled:
  assumes "providerOk l0 permits s" "n < length (psCalls s)" "permitOf (ivPc (psCalls s ! n)) = Some p"
  shows "(n, Some p) \<in> set (settled (pwSemaphore (psWorld s)))" "ownsPermit (ivPc (psCalls s ! n)) p"
  using permitsOkD(5) [OF providerOkD(6) [OF assms(1)] assms(2,3)] assms(3) by (simp_all add: ownsPermit_def)

lemma deny_ok:
  assumes ok: "providerOk l0 permits s" and n: "n < length (psCalls s)" and await: "ivPc (psCalls s ! n) = AwaitPermit"
    and denied: "(n, None) \<in> set (settled (pwSemaphore (psWorld s)))"
  shows "providerOk l0 permits (settleCall n (psWorld s, op, Finished x) s)"
proof -
  note d = providerOkD [OF ok]
  let ?c = "(psCalls s ! n)\<lparr>ivPc := Finished x\<rparr>" and ?s = "settleCall n (psWorld s, op, Finished x) s"
  have cs: "psCalls ?s = (psCalls s)[n := ?c]" by (simp add: settleCall_def)
  have mem: "c \<in> set (psCalls ?s) \<Longrightarrow> c \<in> set (psCalls s) \<or> c = ?c" for c
    unfolding cs using set_update_subset_insert by fastforce
  have sums: "sumOver f (psCalls ?s) = sumOver f (psCalls s) + f (Finished x) - f AwaitPermit" for f
    unfolding cs using sumOver_update [OF n] await by simp
  have P: "(\<lambda>m. ivPc (psCalls ?s ! m)) = (\<lambda>m. ivPc (psCalls s ! m))(n := Finished x)"
    unfolding cs using n by (auto simp: fun_eq_iff nth_list_update)
  have c0: "callOk (length (psOperations s)) (psCalls s ! n)" using d(5) n by simp
  show ?thesis
  proof (rule providerOkI)
    show "ledgerGood (pwLedger (psWorld ?s))" "limits (pwLedger (psWorld ?s)) = limits l0" using d(1,2) by simp_all
    show "jint (activeLeafCalls (usage (pwLedger (psWorld ?s)))) = sumOver leafOf (psCalls ?s)"
      "jint (tokensReserved (usage (pwLedger (psWorld ?s)))) = sumOver pendingTokens (psCalls ?s)"
      using d(3,4) unfolding sums by simp_all
    show "callOk (length (psOperations ?s)) c" if "c \<in> set (psCalls ?s)" for c
      using mem [OF that] d(5) [of c] c0 by (auto simp: callOk_def)
    show "permitsOk (pwSemaphore (psWorld ?s)) (length (psCalls ?s)) (\<lambda>m. ivPc (psCalls ?s ! m))"
      unfolding P using permitsOk_deny [OF d(6) denied] by simp
    show "capacity (pwSemaphore (psWorld ?s)) = max 1 permits" using d(7) by simp
    show "\<not> abandoned (ivPc c)" if "pwAuthority (psWorld ?s)" "c \<in> set (psCalls ?s)" for c
      using mem [OF that(2)] that(1) d(8) [of c] by (auto simp: abandoned_def)
  qed
qed

lemma providerMove_ok:
  assumes "providerMove env s s'" "providerOk l0 permits s"
  shows "providerOk l0 permits s'"
  using assms
proof (induction rule: providerMove.induct)
  case (creates s frameId scopes operationId kind key signal deadline)
  then show ?case by (auto simp: providerOk_def callOk_def Let_def intro: less_SucI)
next
  case (starts k s now call w c)
  then show ?case using start_ok by blast
next
  case (denied n s now)
  then show ?case unfolding permitDenied_def using deny_ok by blast
next
  case (granted n s p now)
  obtain k where "pieceDelta p AwaitPermit k (psWorld s) (permitGranted env now p (psCalls s ! n) (psWorld s) (opOf s n))"
    using permitGranted_delta [OF providerOkD(1) [OF granted(4)]] by blast
  then show ?case
    using granted permitGranted_pc [of env now p "psCalls s ! n" "psWorld s" "opOf s n"]
    by (intro settleCall_ok [where p = p and k = k]) (simp_all add: ownsPermit_def)
next
  case (intended n s p tokens intent r now)
  have c: "callOk (length (psOperations s)) (psCalls s ! n)" using providerOkD(5) [OF intended(3)] intended(1) by simp
  have "pieceDelta p (ivPc (psCalls s ! n)) 0 (psWorld s) (intentReplied r now p tokens intent (psWorld s) (opOf s n))"
    using call_covered [OF intended(3,1)] c providerOkD(1) [OF intended(3)] unfolding intended(2)
    by (intro intentReplied_delta) (simp_all add: callOk_def intended(2))
  moreover have "pendingOf (snd (snd (intentReplied r now p tokens intent (psWorld s) (opOf s n)))) = Num 0
      \<or> pendingOf (snd (snd (intentReplied r now p tokens intent (psWorld s) (opOf s n)))) = ivTokens (psCalls s ! n)"
    using intentReplied_pc [of r now p tokens intent "psWorld s" "opOf s n"] c by (auto simp: callOk_def intended(2))
  ultimately show ?case
    using owner_settled [OF intended(3,1), of p] intentReplied_pc [of r now p tokens intent "psWorld s" "opOf s n"] intended(1,2,3)
    by (intro settleCall_ok [where p = p]) simp_all
next
  case (ended n s p tokens intent started reply now)
  have c: "callOk (length (psOperations s)) (psCalls s ! n)" using providerOkD(5) [OF ended(4)] ended(1) by simp
  let ?r = "effectReplied env (ivShape (psCalls s ! n)) now p tokens intent started reply (psWorld s) (opOf s n)"
  have "pieceDelta p (ivPc (psCalls s ! n)) 0 (psWorld s) ?r"
    using call_covered [OF ended(4,1)] c providerOkD(1) [OF ended(4)] ended(3) unfolding ended(2)
    by (intro effectReplied_delta) (auto simp: callOk_def ended(2))
  moreover have "pendingOf (snd (snd ?r)) = Num 0 \<or> pendingOf (snd (snd ?r)) = ivTokens (psCalls s ! n)"
    using effectReplied_pc [of env "ivShape (psCalls s ! n)" now p tokens intent started reply "psWorld s" "opOf s n"] c
    by (auto simp: callOk_def ended(2))
  ultimately show ?case
    using owner_settled [OF ended(4,1), of p] ended(1,2,4)
      effectReplied_pc [of env "ivShape (psCalls s ! n)" now p tokens intent started reply "psWorld s" "opOf s n"]
    by (intro settleCall_ok [where p = p]) simp_all
next
  case (settled n s p event k r)
  have "pieceDelta p (ivPc (psCalls s ! n)) 0 (psWorld s) (settlementReplied r p event k (psWorld s) (opOf s n))"
    using call_covered [OF settled(3,1)] providerOkD(1) [OF settled(3)] unfolding settled(2)
    by (intro settlementReplied_delta) (simp_all add: settled(2))
  then show ?case
    using owner_settled [OF settled(3,1), of p] settled settlementReplied_pc [of r p event k "psWorld s" "opOf s n"]
    by (intro settleCall_ok [where p = p]) simp_all
next
  case (aborts s g)
  note d = providerOkD [OF aborts]
  show ?case using d permitsOk_signals [OF d(6)] by (intro providerOkI) simp_all
next
  case (listens s n)
  note d = providerOkD [OF listens]
  have "permitsOk (onAbort n (pwSemaphore (psWorld s))) (length (psCalls s)) (\<lambda>n. ivPc (psCalls s ! n))"
    using onAbort_evolves [OF permitsOkD(2) [OF d(6)]] onAbort_ok [OF permitsOkD(1) [OF d(6)]]
    by (intro permitsOk_evolves [OF d(6), where R = "{}"]) simp_all
  then show ?case using d by (intro providerOkI) simp_all
next
  case (closes s)
  note d = providerOkD [OF closes]
  show ?case using d by (intro providerOkI) simp_all
next
  case (others s l)
  note d = providerOkD [OF others(2)]
  show ?case using d otherUse_delta [OF others(1) d(1)] by (intro providerOkI) (simp_all add: ledgerDelta_def)
next
  case (scopes s m)
  note d = providerOkD [OF scopes]
  show ?case using d by (intro providerOkI) simp_all
next
  case (journals e s)
  note d = providerOkD [OF journals(2)]
  show ?case using d by (intro providerOkI) simp_all
qed

section \<open>Write-ahead order\<close>

text \<open>
  The events after the run's initial journal; the counts of calls that await their intent, that are between launch
  and settlement, and that have launched their effect.
\<close>

definition newEvents :: "rlm_event list \<Rightarrow> provider_system \<Rightarrow> rlm_event list" where
  "newEvents j0 s = drop (length j0) (pwJournal (psWorld s))"

fun awaitsIntent :: "invocation_pc \<Rightarrow> int" where
  "awaitsIntent (AwaitIntent _ _ _) = 1"
| "awaitsIntent _ = 0"

fun unsettledCall :: "invocation_pc \<Rightarrow> int" where
  "unsettledCall (AwaitEffect _ _ _ _) = 1"
| "unsettledCall (AwaitSettlement _ _ _) = 1"
| "unsettledCall _ = 0"

definition launchedCalls :: "invocation list \<Rightarrow> nat" where
  "launchedCalls cs = length (filter (\<lambda>c. ivLaunched c \<noteq> None) cs)"

text \<open>Every settlement comes after an intent with its identity.\<close>

definition settledAfterIntent :: "rlm_event list \<Rightarrow> bool" where
  "settledAfterIntent es \<longleftrightarrow> (\<forall>k<length es. \<forall>e. es ! k = OperationSettled e
     \<longrightarrow> (\<exists>i. OperationIntended i \<in> set (take k es) \<and> oiIntentId i = osIntentId e))"

lemma settledAfterIntent_simps [simp]:
  "settledAfterIntent []"
  "settledAfterIntent (es @ [x]) \<longleftrightarrow> settledAfterIntent es
     \<and> (\<forall>e. x = OperationSettled e \<longrightarrow> (\<exists>i. OperationIntended i \<in> set es \<and> oiIntentId i = osIntentId e))"
  by (auto simp: settledAfterIntent_def nth_append less_Suc_eq)

definition launchOk :: "rlm_event list \<Rightarrow> invocation \<Rightarrow> bool" where
  "launchOk es c \<longleftrightarrow> (case ivLaunched c of
       None \<Rightarrow> unsettledCall (ivPc c) = 0
     | Some i \<Rightarrow> OperationIntended i \<in> set es \<and> (case ivPc c of
           AwaitEffect _ _ i' _ \<Rightarrow> i' = i
         | AwaitSettlement _ e _ \<Rightarrow> osIntentId e = oiIntentId i
         | AwaitPermit \<Rightarrow> False
         | AwaitIntent _ _ _ \<Rightarrow> False
         | _ \<Rightarrow> True))"

definition walOk :: "ledger \<Rightarrow> rlm_event list \<Rightarrow> provider_system \<Rightarrow> bool" where
  "walOk l0 j0 s \<longleftrightarrow> (let new = newEvents j0 s; cs = psCalls s
     in length j0 \<le> length (pwJournal (psWorld s)) \<and> settledAfterIntent new \<and> (\<forall>c\<in>set cs. launchOk new c)
        \<and> int (length (intendedOf new)) + sumOver awaitsIntent cs
            \<le> jint (attempts (usage (pwLedger (psWorld s)))) - jint (attempts (usage l0))
        \<and> launchedCalls cs \<le> length (intendedOf new)
        \<and> int (length (settledOf new)) + sumOver unsettledCall cs \<le> int (launchedCalls cs))"

lemma walOkD:
  assumes "walOk l0 j0 s"
  shows "length j0 \<le> length (pwJournal (psWorld s))" "settledAfterIntent (newEvents j0 s)"
    and "c \<in> set (psCalls s) \<Longrightarrow> launchOk (newEvents j0 s) c"
    and "int (length (intendedOf (newEvents j0 s))) + sumOver awaitsIntent (psCalls s)
      \<le> jint (attempts (usage (pwLedger (psWorld s)))) - jint (attempts (usage l0))"
    and "launchedCalls (psCalls s) \<le> length (intendedOf (newEvents j0 s))"
    and "int (length (settledOf (newEvents j0 s))) + sumOver unsettledCall (psCalls s) \<le> int (launchedCalls (psCalls s))"
  using assms unfolding walOk_def Let_def by blast+

lemma walOkI:
  assumes "length j0 \<le> length (pwJournal (psWorld s))" "settledAfterIntent (newEvents j0 s)"
    and "\<And>c. c \<in> set (psCalls s) \<Longrightarrow> launchOk (newEvents j0 s) c"
    and "int (length (intendedOf (newEvents j0 s))) + sumOver awaitsIntent (psCalls s)
      \<le> jint (attempts (usage (pwLedger (psWorld s)))) - jint (attempts (usage l0))"
    and "launchedCalls (psCalls s) \<le> length (intendedOf (newEvents j0 s))"
    and "int (length (settledOf (newEvents j0 s))) + sumOver unsettledCall (psCalls s) \<le> int (launchedCalls (psCalls s))"
  shows "walOk l0 j0 s"
  using assms unfolding walOk_def Let_def by blast

lemma launchOk_more: "launchOk es c \<Longrightarrow> launchOk (es @ fs) c"
  by (auto simp: launchOk_def split: option.splits)

lemma launchedCalls_update:
  assumes "n < length cs"
  shows "int (launchedCalls (cs[n := c])) = int (launchedCalls cs) + of_bool (ivLaunched c \<noteq> None) - of_bool (ivLaunched (cs ! n) \<noteq> None)"
  using assms
proof (induction cs arbitrary: n)
  case (Cons a cs)
  have cons: "int (launchedCalls (b # bs)) = of_bool (ivLaunched b \<noteq> None) + int (launchedCalls bs)" for b bs
    by (simp add: launchedCalls_def)
  show ?case
  proof (cases n)
    case (Suc m)
    then show ?thesis using Cons(1) [of m] Cons(2) by (simp only: list_update_code nth_Cons_Suc cons) simp
  next
    case 0
    then show ?thesis by (simp only: list_update_code nth_Cons_0 cons)
  qed
qed simp

text \<open>A move of the \<open>n\<close>th call that appends the events \<open>ev\<close> and adds \<open>k\<close> attempts.\<close>

lemma wal_settleCall:
  assumes ok: "walOk l0 j0 s" and n: "n < length (psCalls s)" and r: "r = (w, op, pc)"
    and j: "pwJournal w = pwJournal (psWorld s) @ ev"
    and tries: "jint (attempts (usage (pwLedger w))) = jint (attempts (usage (pwLedger (psWorld s)))) + k"
    and order: "settledAfterIntent (newEvents j0 s) \<Longrightarrow> settledAfterIntent (newEvents j0 s @ ev)"
    and c': "c' = (psCalls s ! n)\<lparr>ivPc := pc, ivLaunched := (case pc of AwaitEffect _ _ i _ \<Rightarrow> Some i | _ \<Rightarrow> ivLaunched (psCalls s ! n))\<rparr>"
    and launch: "launchOk (newEvents j0 s @ ev) c'"
    and intents: "int (length (intendedOf ev)) + awaitsIntent pc - awaitsIntent (ivPc (psCalls s ! n)) \<le> k"
    and launches: "of_bool (ivLaunched c' \<noteq> None) - of_bool (ivLaunched (psCalls s ! n) \<noteq> None) \<le> int (length (intendedOf ev))"
    and settles: "int (length (settledOf ev)) + unsettledCall pc - unsettledCall (ivPc (psCalls s ! n))
      \<le> of_bool (ivLaunched c' \<noteq> None) - of_bool (ivLaunched (psCalls s ! n) \<noteq> None)"
  shows "walOk l0 j0 (settleCall n r s)"
proof -
  note d = walOkD [OF ok]
  let ?s = "settleCall n r s"
  have cs: "psCalls ?s = (psCalls s)[n := c']" unfolding r c' by (rule settleCall_calls)
  have new: "newEvents j0 ?s = newEvents j0 s @ ev" using d(1) by (simp add: newEvents_def r j)
  have mem: "c \<in> set (psCalls ?s) \<Longrightarrow> c \<in> set (psCalls s) \<or> c = c'" for c
    unfolding cs using set_update_subset_insert by fastforce
  have sums: "sumOver f (psCalls ?s) = sumOver f (psCalls s) + f pc - f (ivPc (psCalls s ! n))" for f
    unfolding cs using sumOver_update [OF n] by (simp add: c')
  note lc = launchedCalls_update [OF n, of c', folded cs]
  show ?thesis
  proof (rule walOkI, unfold new sums)
    show "length j0 \<le> length (pwJournal (psWorld ?s))" using d(1) by (simp add: r j)
    show "settledAfterIntent (newEvents j0 s @ ev)" by (rule order [OF d(2)])
    show "launchOk (newEvents j0 s @ ev) c" if "c \<in> set (psCalls ?s)" for c
      using mem [OF that] launch launchOk_more d(3) by blast
    show "int (length (intendedOf (newEvents j0 s @ ev)))
        + (sumOver awaitsIntent (psCalls s) + awaitsIntent pc - awaitsIntent (ivPc (psCalls s ! n)))
      \<le> jint (attempts (usage (pwLedger (psWorld ?s)))) - jint (attempts (usage l0))"
      using d(4) intents tries by (simp add: r)
    show "launchedCalls (psCalls ?s) \<le> length (intendedOf (newEvents j0 s @ ev))"
      using d(5) launches lc by simp
    show "int (length (settledOf (newEvents j0 s @ ev)))
        + (sumOver unsettledCall (psCalls s) + unsettledCall pc - unsettledCall (ivPc (psCalls s ! n)))
      \<le> int (launchedCalls (psCalls ?s))"
      using d(6) settles lc by simp
  qed
qed

lemma wal_same:
  assumes "walOk l0 j0 s" "psCalls s' = psCalls s" "pwJournal (psWorld s') = pwJournal (psWorld s)"
    and "jint (attempts (usage (pwLedger (psWorld s')))) = jint (attempts (usage (pwLedger (psWorld s))))"
  shows "walOk l0 j0 s'"
  using assms by (simp add: walOk_def newEvents_def Let_def)

lemma permitGranted_journal: "pwJournal (fst (permitGranted env now p c w op)) = pwJournal w"
proof -
  obtain w1 op1 t a x where r: "reserveCapacity env now c w op = (w1, op1, t, a, x)" by (metis surj_pair)
  have "pwJournal w1 = pwJournal w"
    using r by (auto simp: reserveCapacity_def reserve_def resBind_eq_Inr Let_def split: option.splits sum.splits prod.splits)
  then show ?thesis using rollback_rest [of p t a w1] by (simp add: permitGranted_def r split: sum.splits)
qed

lemma appendFailure_None: "appendFailure what r = None \<Longrightarrow> recordedBy r"
  by (auto simp: appendFailure_def recordedBy_def split: append_reply.splits if_splits)

lemma rest_journal: "sameRest w w' \<Longrightarrow> pwJournal w' = pwJournal w"
  by (simp add: sameRest_def)

lemma providerMove_wal:
  assumes "providerMove env s s'" "providerOk l0 permits s" "walOk l0 j0 s"
  shows "walOk l0 j0 s'"
  using assms
proof (induction rule: providerMove.induct)
  case (creates s frameId scopes operationId kind key signal deadline)
  then show ?case by (elim wal_same) simp_all
next
  case (starts k s now call w c)
  note d = walOkD [OF starts(4)] and c = startInvocation_cases [OF starts(2)]
  have w: "pwJournal w = pwJournal (psWorld s)" "pwLedger w = pwLedger (psWorld s)" using c(1) by auto
  have "launchOk es c" for es using c by (auto simp: launchOk_def)
  moreover have "awaitsIntent (ivPc c) = 0" "unsettledCall (ivPc c) = 0" using c(1) by auto
  ultimately show ?case
    using d c(3) w by (intro walOkI) (auto simp: newEvents_def launchedCalls_def)
next
  case (denied n s now)
  note d = walOkD [OF denied(5)]
  have c: "launchOk (newEvents j0 s) (psCalls s ! n)" using d(3) denied(1) by simp
  then have "ivLaunched (psCalls s ! n) = None" using denied(2) by (auto simp: launchOk_def split: option.splits)
  then show ?case
    unfolding permitDenied_def
    by (intro wal_settleCall [where ev = "[]" and k = 0, OF denied(5,1) refl _ _ _ refl]) (simp_all add: denied(2) launchOk_def)
next
  case (granted n s p now)
  note d = walOkD [OF granted(5)]
  have c: "launchOk (newEvents j0 s) (psCalls s ! n)" using d(3) granted(1) by simp
  then have none: "ivLaunched (psCalls s ! n) = None" using granted(2) by (auto simp: launchOk_def split: option.splits)
  obtain w op pc where r: "permitGranted env now p (psCalls s ! n) (psWorld s) (opOf s n) = (w, op, pc)" by (metis surj_pair)
  obtain k where k: "0 \<le> k" "(\<exists>t i. pc = AwaitIntent p t i) \<longrightarrow> k = 1" "pieceDelta p AwaitPermit k (psWorld s) (w, op, pc)"
    using permitGranted_delta [OF providerOkD(1) [OF granted(4)], of env now p "psCalls s ! n" "opOf s n"] by (auto simp: r)
  have pc: "(\<exists>x. pc = Finished x) \<or> (\<exists>t i. pc = AwaitIntent p t i)"
    using r by (auto simp: permitGranted_def split: prod.splits sum.splits)
  show ?case
  proof (rule wal_settleCall [where ev = "[]" and k = k, OF granted(5,1) r _ _ _ refl])
    show "pwJournal w = pwJournal (psWorld s) @ []"
      using permitGranted_journal [of env now p "psCalls s ! n" "psWorld s" "opOf s n"] by (simp add: r)
    show "jint (attempts (usage (pwLedger w))) = jint (attempts (usage (pwLedger (psWorld s)))) + k"
      using k(3) by (simp add: pieceDelta_def ledgerDelta_def)
  qed (use pc k none granted(2) in \<open>auto simp: launchOk_def\<close>)
next
  case (intended n s p tokens intent r now)
  note d = walOkD [OF intended(4)] and o = providerOkD [OF intended(3)]
  have c: "launchOk (newEvents j0 s) (psCalls s ! n)" using d(3) intended(1) by simp
  then have none: "ivLaunched (psCalls s ! n) = None" using intended(2) by (auto simp: launchOk_def split: option.splits)
  have co: "callOk (length (psOperations s)) (psCalls s ! n)" using o(5) intended(1) by simp
  obtain w op pc where r: "intentReplied r now p tokens intent (psWorld s) (opOf s n) = (w, op, pc)" by (metis surj_pair)
  have "pieceDelta p (AwaitIntent p tokens intent) 0 (psWorld s) (intentReplied r now p tokens intent (psWorld s) (opOf s n))"
    using call_covered [OF intended(3,1)] co o(1) by (intro intentReplied_delta) (simp_all add: callOk_def intended(2))
  then have tries: "jint (attempts (usage (pwLedger w))) = jint (attempts (usage (pwLedger (psWorld s)))) + 0"
    by (simp add: pieceDelta_def ledgerDelta_def r)
  have j: "pwJournal w = pwJournal (psWorld s) @ (if recordedBy r then [OperationIntended intent] else [])"
    using r rollback_rest by (auto simp: intentReplied_def Let_def split: option.splits)
  have pc: "(\<exists>x. pc = Finished x) \<or> recordedBy r \<and> pc = AwaitEffect p tokens intent now"
    using r appendFailure_None by (auto simp: intentReplied_def Let_def split: option.splits)
  show ?case
    by (rule wal_settleCall [where k = 0, OF intended(4,1) r j tries _ refl])
      (use pc none intended(2) in \<open>auto simp: launchOk_def\<close>)
next
  case (ended n s p tokens intent started reply now)
  note d = walOkD [OF ended(5)] and o = providerOkD [OF ended(4)]
  have c: "launchOk (newEvents j0 s) (psCalls s ! n)" using d(3) ended(1) by simp
  then have some: "ivLaunched (psCalls s ! n) = Some intent" "OperationIntended intent \<in> set (newEvents j0 s)"
    using ended(2) by (auto simp: launchOk_def split: option.splits)
  have co: "callOk (length (psOperations s)) (psCalls s ! n)" using o(5) ended(1) by simp
  obtain w op pc where r: "effectReplied env (ivShape (psCalls s ! n)) now p tokens intent started reply (psWorld s) (opOf s n) = (w, op, pc)"
    by (metis surj_pair)
  have "pieceDelta p (AwaitEffect p tokens intent started) 0 (psWorld s) (w, op, pc)"
    unfolding r [symmetric] using call_covered [OF ended(4,1)] co o(1) ended(3)
    by (intro effectReplied_delta) (auto simp: callOk_def ended(2))
  then have tries: "jint (attempts (usage (pwLedger w))) = jint (attempts (usage (pwLedger (psWorld s)))) + 0"
    by (simp add: pieceDelta_def ledgerDelta_def)
  have j: "pwJournal w = pwJournal (psWorld s) @ []"
  proof (cases "pwAuthority (psWorld s)")
    case False
    then show ?thesis using r by (auto simp: effectReplied_def)
  next
    case True
    obtain w' op' x where e: "settleEffect env (ivShape (psCalls s ! n)) started now tokens reply (psWorld s) (opOf s n) = (w', op', x)"
      by (metis surj_pair)
    have "sameRest (psWorld s) w'"
      using settleEffect_delta [OF e o(1)] call_covered [OF ended(4,1)] co ended(3) by (auto simp: callOk_def ended(2))
    then show ?thesis using True r rest_journal by (auto simp: effectReplied_def e)
  qed
  have pc: "(\<exists>t x. pc = Abandoned t x) \<or> (\<exists>e k. pc = AwaitSettlement p e k \<and> osIntentId e = oiIntentId intent)"
    using r by (auto simp: effectReplied_def settledEvent_def split: if_splits prod.splits)
  show ?case
    by (rule wal_settleCall [where k = 0, OF ended(5,1) r j tries _ refl])
      (use pc some ended(2) in \<open>auto simp: launchOk_def\<close>)
next
  case (settled n s p event k r)
  note d = walOkD [OF settled(4)] and o = providerOkD [OF settled(3)]
  have c: "launchOk (newEvents j0 s) (psCalls s ! n)" using d(3) settled(1) by simp
  then obtain i where some: "ivLaunched (psCalls s ! n) = Some i" "OperationIntended i \<in> set (newEvents j0 s)"
      "osIntentId event = oiIntentId i"
    using settled(2) by (auto simp: launchOk_def split: option.splits)
  obtain w op pc where r: "settlementReplied r p event k (psWorld s) (opOf s n) = (w, op, pc)" by (metis surj_pair)
  have "pieceDelta p (AwaitSettlement p event k) 0 (psWorld s) (w, op, pc)"
    unfolding r [symmetric] using call_covered [OF settled(3,1)] o(1)
    by (intro settlementReplied_delta) (simp_all add: settled(2))
  then have tries: "jint (attempts (usage (pwLedger w))) = jint (attempts (usage (pwLedger (psWorld s)))) + 0"
    by (simp add: pieceDelta_def ledgerDelta_def)
  have j: "pwJournal w = pwJournal (psWorld s) @ (if recordedBy r then [OperationSettled event] else [])"
    using r by (auto simp: settlementReplied_def Let_def split: option.splits)
  have pc: "\<exists>x. pc = Finished x" using r by (auto simp: settlementReplied_def Let_def split: option.splits)
  show ?case
    by (rule wal_settleCall [where k = 0, OF settled(4,1) r j tries _ refl])
      (use pc some settled(2) in \<open>auto simp: launchOk_def intro: exI [of _ i]\<close>)
next
  case (others s l)
  note d = providerOkD [OF others(2)]
  show ?case using otherUse_delta [OF others(1) d(1)] by (intro wal_same [OF others(3)]) (simp_all add: ledgerDelta_def)
next
  case (journals e s)
  note d = walOkD [OF journals(3)]
  have new: "newEvents j0 (s\<lparr>psWorld := (psWorld s)\<lparr>pwJournal := pwJournal (psWorld s) @ [e]\<rparr>\<rparr>) = newEvents j0 s @ [e]"
    using d(1) by (simp add: newEvents_def)
  have e: "intendedOf [e] = []" "settledOf [e] = []" "\<forall>x. e \<noteq> OperationSettled x"
    using journals(1) by (auto simp: isOperationEvent_def split: rlm_event.splits)
  show ?case using d e launchOk_more unfolding walOk_def Let_def new by auto
qed (erule wal_same; simp)+

section \<open>Settlement records\<close>

text \<open>What the decoder and the recovery require of a settlement's usage and error code, and of its token parts.\<close>

definition settlementOk :: "operation_settled \<Rightarrow> bool" where
  "settlementOk e \<longleftrightarrow> isOk (normalizeUsage (osUsage e) CALL_USAGE_LIMITS) \<and> uAttempts (osUsage e) = Num 1
     \<and> (case osErrorCode e of None \<Rightarrow> osOutcome e = OutOk | Some c \<Rightarrow> osOutcome e \<noteq> OutOk \<and> isErrorCode c)"

definition partsOk :: "call_usage \<Rightarrow> bool" where
  "partsOk u \<longleftrightarrow> (case uTotalTokens u of None \<Rightarrow> True | Some t \<Rightarrow> usageParts u \<le> jint t)"

lemma isErrorCode_codeText [simp]: "isErrorCode (codeText c)"
  by (induction c) code_simp+

lemma elapsedMs_within: "countWithin MAX_CALL_DURATION_MS (elapsedMs s c)"
proof (cases "\<not> isFinite s \<or> \<not> isFinite c \<or> jleq c s")
  case True
  then show ?thesis by (simp add: elapsedMs_def countWithin_def isSafeInteger_def MAX_CALL_DURATION_MS_def MAX_SAFE_INTEGER_def)
next
  case False
  then obtain x y where xy: "s = Num x" "c = Num y" "x < y" by (auto simp: isFinite_iff)
  have sub: "jsub c s = round64 (y - x)" by (simp add: xy jsub_def)
  have "0 \<le> y - x" using xy(3) by simp
  then consider "jsub c s = PosInf" | z where "jsub c s = Num z" "0 \<le> z"
    using round64_nonneg [of "y - x"] sub by auto
  then show ?thesis
  proof cases
    case 1
    then show ?thesis
      using False by (simp add: elapsedMs_def jmin_def countWithin_def isSafeInteger_def MAX_CALL_DURATION_MS_def MAX_SAFE_INTEGER_def)
  next
    case 2
    have "0 \<le> \<lfloor>z\<rfloor>" using 2(2) by simp
    then show ?thesis
      using False 2(1) by (auto simp: elapsedMs_def jmin_def countWithin_def isSafeInteger_def MAX_CALL_DURATION_MS_def MAX_SAFE_INTEGER_def)
  qed
qed

lemma measuredUsage_ok: "isOk (normalizeUsage (measuredUsage s c) CALL_USAGE_LIMITS)" "partsOk (measuredUsage s c)"
    "uAttempts (measuredUsage s c) = Num 1"
proof -
  have "usageWithin CALL_USAGE_LIMITS (measuredUsage s c)"
    using elapsedMs_within [of s c]
    by (simp add: usageWithin_def CALL_USAGE_LIMITS_def measuredUsage_def MAX_CALL_ATTEMPTS_def countWithin_def
        isSafeInteger_def MAX_SAFE_INTEGER_def)
  then show "isOk (normalizeUsage (measuredUsage s c) CALL_USAGE_LIMITS)" by (auto simp: isOk_iff normalizeUsage_iff)
qed (simp_all add: measuredUsage_def partsOk_def)

lemma limited_within:
  assumes "usageWithin (usageLimitsFor wall) u"
  shows "usageWithin CALL_USAGE_LIMITS (u\<lparr>uAttempts := Num 1\<rparr>)"
proof -
  have "countWithin MAX_CALL_DURATION_MS (uDurationMs u)"
  proof -
    have "countWithin (jmin MAX_CALL_DURATION_MS wall) (uDurationMs u)"
      using assms by (simp add: usageWithin_def usageLimitsFor_def)
    then show ?thesis
      by (cases wall; cases "uDurationMs u")
        (auto simp: countWithin_def jmin_def MAX_CALL_DURATION_MS_def jleq_def jeq_def split: if_splits)
  qed
  moreover have "countWithin MAX_CALL_ATTEMPTS (Num 1)"
    by (simp add: countWithin_def MAX_CALL_ATTEMPTS_def isSafeInteger_def MAX_SAFE_INTEGER_def)
  ultimately show ?thesis using assms by (simp add: usageWithin_def usageLimitsFor_def CALL_USAGE_LIMITS_def)
qed

lemma normalizeOwnedUsage_ok:
  assumes "normalizeOwnedUsage h v (usageLimitsFor wall) = Some u"
  shows "isOk (normalizeUsage u CALL_USAGE_LIMITS)" "partsOk u" "uAttempts u = Num 1"
proof -
  let ?parts = "jadd (case_option (Num 0) id (uInputTokens u)) (case_option (Num 0) id (uOutputTokens u))"
  obtain u0 where u0: "normalizeCallUsage h v (usageLimitsFor wall) = Inr u0" "u = u0\<lparr>uAttempts := Num 1\<rparr>"
    and parts: "\<not> (case uTotalTokens u of None \<Rightarrow> False | Some t \<Rightarrow> jless t ?parts)"
    using assms by (auto simp: normalizeOwnedUsage_def Let_def split: sum.splits if_splits)
  have "usageWithin (usageLimitsFor wall) u0"
    using u0(1) by (auto simp: normalizeCallUsage_def invalidUsage_def split: jsval.splits dest: normalizeFields_within)
  then have w: "usageWithin CALL_USAGE_LIMITS u" unfolding u0(2) by (rule limited_within)
  then show "isOk (normalizeUsage u CALL_USAGE_LIMITS)" by (auto simp: isOk_iff normalizeUsage_iff)
  show "uAttempts u = Num 1" by (simp add: u0(2))
  have count: "isCount (case_option (Num 0) id x) \<and> jint (case_option (Num 0) id x) \<le> 10000000
      \<and> jint (case_option (Num 0) id x) = countOf x"
    if "pred_option (countWithin MAX_CALL_TOKENS) x" for x
    using that by (cases x) (auto simp: countWithin_safe MAX_CALL_TOKENS_def MAX_SAFE_INTEGER_def jint_def)
  have io: "pred_option (countWithin MAX_CALL_TOKENS) (uInputTokens u)" "pred_option (countWithin MAX_CALL_TOKENS) (uOutputTokens u)"
    "pred_option (countWithin MAX_CALL_TOKENS) (uTotalTokens u)"
    using w by (simp_all add: usageWithin_def CALL_USAGE_LIMITS_def)
  note c = count [OF io(1)] count [OF io(2)]
  then have sum: "isCount ?parts" "jint ?parts = usageParts u"
    using count_add [of "case_option (Num 0) id (uInputTokens u)" "case_option (Num 0) id (uOutputTokens u)"]
    by (simp_all add: MAX_SAFE_INTEGER_def usageParts_def)
  show "partsOk u"
  proof (cases "uTotalTokens u")
    case (Some t)
    then have "isCount t" using io(3) by (simp add: countWithin_safe MAX_CALL_TOKENS_def MAX_SAFE_INTEGER_def)
    then show ?thesis using Some parts sum count_jless [of t ?parts] by (simp add: partsOk_def)
  qed (simp add: partsOk_def)
qed

lemma failedSettlement_ok:
  "oc \<noteq> OutOk \<Longrightarrow> isOk (normalizeUsage u CALL_USAGE_LIMITS) \<Longrightarrow> uAttempts u = Num 1
    \<Longrightarrow> settlementOk (settledEvent env i (failedSettlement oc u f) op)"
  by (simp add: settlementOk_def settledEvent_def failedSettlement_def)

lemma abortOutcome_fails [simp]: "abortOutcome b \<noteq> OutOk"
  by (simp add: abortOutcome_def)

lemma settledEvent_usage [simp]: "osUsage (settledEvent env i s op) = stUsage s"
  "osIntentId (settledEvent env i s op) = oiIntentId i"
  by (simp_all add: settledEvent_def)

lemma failedSettlement_simps [simp]: "stUsage (failedSettlement oc u f) = u" "stOutcome (failedSettlement oc u f) = oc"
  "stErrorCode (failedSettlement oc u f) = Some (codeText (errCode f))"
  by (simp_all add: failedSettlement_def)

lemma failure_ok:
  "stOutcome s \<noteq> OutOk \<Longrightarrow> stErrorCode s = Some (codeText c) \<Longrightarrow> isOk (normalizeUsage (stUsage s) CALL_USAGE_LIMITS)
    \<Longrightarrow> uAttempts (stUsage s) = Num 1 \<Longrightarrow> settlementOk (settledEvent env i s op)"
  by (simp add: settlementOk_def settledEvent_def)

text \<open>The usage of each call's settlement.\<close>

lemma completeRejected_ok:
  assumes "completeRejected env started now t e w op = (w', op', s)"
  shows "settlementOk (settledEvent env i s op0) \<and> partsOk (stUsage s)"
proof -
  define typed where "typed = (case e of PiModelError h a \<Rightarrow> normalizePiFailure h a (usageLimitsFor (peWallMs env)) | _ \<Rightarrow> None)"
  define u where "u = (case typed of Some f \<Rightarrow> pfUsage f | None \<Rightarrow> measuredUsage started now)"
  have "isOk (normalizeUsage u CALL_USAGE_LIMITS) \<and> partsOk u \<and> uAttempts u = Num 1"
  proof (cases typed)
    case (Some f)
    then obtain h v where "normalizeOwnedUsage h v (usageLimitsFor (peWallMs env)) = Some (pfUsage f)"
      by (auto simp: typed_def normalizePiFailure_def split: effect_error.splits option.splits if_splits)
    then show ?thesis using normalizeOwnedUsage_ok Some by (simp add: u_def)
  qed (simp add: u_def measuredUsage_ok)
  moreover have "stOutcome s \<noteq> OutOk \<and> stUsage s = u \<and> (\<exists>c. stErrorCode s = Some (codeText c))"
  proof -
    obtain x w1 op1 where acc: "accountUsage t u w op = (x, w1, op1)" by (metis surj_pair)
    show ?thesis
      using assms acc
      by (cases x) (auto simp: completeRejected_def Let_def typed_def [symmetric] u_def [symmetric])
  qed
  ultimately show ?thesis using failure_ok by auto
qed

lemma okSettlement_ok:
  "isOk (normalizeUsage u CALL_USAGE_LIMITS) \<Longrightarrow> uAttempts u = Num 1
    \<Longrightarrow> settlementOk (settledEvent env i \<lparr>stOutcome = OutOk, stUsage = u, stErrorCode = None, stContinuation = k\<rparr> op)"
  by (simp add: settlementOk_def settledEvent_def)

lemma completeFulfilled_ok:
  assumes "completeFulfilled env started now t h v w op = (w', op', s)"
  shows "settlementOk (settledEvent env i s op0) \<and> partsOk (stUsage s)"
proof (cases "normalizeModelResponse h v (usageLimitsFor (peWallMs env))")
  case None
  then show ?thesis
    using assms measuredUsage_ok [of started now]
    by (auto simp: completeFulfilled_def Let_def failedSettlement_ok split: prod.splits)
next
  case (Some x)
  obtain body u where x: "x = (body, u)" by (cases x)
  then obtain raw where "normalizeOwnedUsage h raw (usageLimitsFor (peWallMs env)) = Some u"
    using Some by (auto simp: normalizeModelResponse_def split: jsval.splits option.splits)
  note u = normalizeOwnedUsage_ok [OF this]
  show ?thesis
    using assms Some x u by (auto simp: completeFulfilled_def failedSettlement_ok okSettlement_ok split: prod.splits option.splits)
qed

lemma externalFulfilled_ok:
  assumes "externalFulfilled started now reply w op = (w', op', s)"
  shows "settlementOk (settledEvent env i s op0) \<and> partsOk (stUsage s)"
  using assms measuredUsage_ok [of started now]
  by (auto simp: externalFulfilled_def Let_def failedSettlement_ok okSettlement_ok split: prod.splits option.splits)

lemma externalRejected_ok:
  assumes "externalRejected shape started now e w op = (w', op', s)"
  shows "settlementOk (settledEvent env i s op0) \<and> partsOk (stUsage s)"
proof -
  obtain x w1 op1 where acc: "accountUsage (Num 0) (measuredUsage started now) w op = (x, w1, op1)" by (metis surj_pair)
  have "stOutcome s \<noteq> OutOk \<and> stUsage s = measuredUsage started now \<and> (\<exists>c. stErrorCode s = Some (codeText c))"
    using assms acc by (cases x; cases "shape = ExternalCall") (auto simp: externalRejected_def Let_def)
  then show ?thesis using measuredUsage_ok [of started now] failure_ok by auto
qed

lemma reportedFulfilled_ok:
  assumes "reportedFulfilled env started now x w op = (w', op', s)"
  shows "settlementOk (settledEvent env i s op0)"
proof -
  define norm where "norm = (if erUsage x = VUndefined then Inr (measuredUsage started now)
      else map_sum id (\<lambda>u. u\<lparr>uAttempts := Num 1\<rparr>)
        (normalizeCallUsage (erHeap x) (erUsage x) (usageLimitsFor (peWallMs env))))"
  have norm: "isOk (normalizeUsage u CALL_USAGE_LIMITS) \<and> uAttempts u = Num 1" if u: "norm = Inr u" for u
  proof (cases "erUsage x = VUndefined")
    case True
    then show ?thesis using u measuredUsage_ok by (auto simp: norm_def)
  next
    case False
    then obtain u0 where u0: "normalizeCallUsage (erHeap x) (erUsage x) (usageLimitsFor (peWallMs env)) = Inr u0"
      "u = u0\<lparr>uAttempts := Num 1\<rparr>"
      using u by (cases "normalizeCallUsage (erHeap x) (erUsage x) (usageLimitsFor (peWallMs env))") (auto simp: norm_def)
    then have "usageWithin (usageLimitsFor (peWallMs env)) u0"
      by (auto simp: normalizeCallUsage_def invalidUsage_def split: jsval.splits dest: normalizeFields_within)
    then show ?thesis using limited_within u0(2) by (auto simp: isOk_iff normalizeUsage_iff)
  qed
  have "(\<exists>u oc f. isOk (normalizeUsage u CALL_USAGE_LIMITS) \<and> uAttempts u = Num 1 \<and> oc \<noteq> OutOk \<and> s = failedSettlement oc u f)
    \<or> (\<exists>u oc code k. norm = Inr u \<and> reportedCode oc (erErrorCode x) = Some code
        \<and> s = \<lparr>stOutcome = oc, stUsage = u, stErrorCode = code, stContinuation = k\<rparr>)"
    using assms norm measuredUsage_ok [of started now] unfolding reportedFulfilled_def norm_def [symmetric] Let_def
    by (auto split: sum.splits option.splits prod.splits; blast)
  then show ?thesis
  proof (elim disjE exE conjE)
    fix u oc code k
    assume "norm = Inr u" "reportedCode oc (erErrorCode x) = Some code"
      "s = \<lparr>stOutcome = oc, stUsage = u, stErrorCode = code, stContinuation = k\<rparr>"
    then show ?thesis
      using norm by (auto simp: settlementOk_def settledEvent_def reportedCode_def split: if_splits jsval.splits option.splits)
  qed (simp add: failedSettlement_ok)
qed

lemma settleEffect_ok:
  assumes "settleEffect env shape started now t reply w op = (w', op', s)" "replyFits shape reply"
  shows "settlementOk (settledEvent env i s op0) \<and> (shape \<noteq> ReportedCall \<longrightarrow> partsOk (stUsage s))"
  using assms completeRejected_ok completeFulfilled_ok externalRejected_ok externalFulfilled_ok reportedFulfilled_ok
  by (auto simp: settleEffect_def replyFits_def split: effect_reply.splits if_splits)

section \<open>The settlements a run writes\<close>

text \<open>Every settlement that is about to be or was written is in order; its token parts too, unless the call was a reported one.\<close>

definition fromReported :: "provider_system \<Rightarrow> operation_settled \<Rightarrow> bool" where
  "fromReported s e \<longleftrightarrow> (\<exists>c\<in>set (psCalls s). ivShape c = ReportedCall \<and> (\<exists>i. ivLaunched c = Some i \<and> oiIntentId i = osIntentId e))"

definition settlesOk :: "rlm_event list \<Rightarrow> provider_system \<Rightarrow> bool" where
  "settlesOk j0 s \<longleftrightarrow>
     (\<forall>c\<in>set (psCalls s). case ivPc c of AwaitSettlement _ e _ \<Rightarrow> settlementOk e \<and> (ivShape c \<noteq> ReportedCall \<longrightarrow> partsOk (osUsage e)) | _ \<Rightarrow> True)
     \<and> (\<forall>e\<in>set (settledOf (newEvents j0 s)). settlementOk e \<and> (partsOk (osUsage e) \<or> fromReported s e))"

lemma settlesOkD:
  assumes "settlesOk j0 s"
  shows "c \<in> set (psCalls s) \<Longrightarrow> ivPc c = AwaitSettlement p e k
      \<Longrightarrow> settlementOk e \<and> (ivShape c \<noteq> ReportedCall \<longrightarrow> partsOk (osUsage e))"
    and "e \<in> set (settledOf (newEvents j0 s)) \<Longrightarrow> settlementOk e \<and> (partsOk (osUsage e) \<or> fromReported s e)"
  using assms unfolding settlesOk_def by (force, blast)

text \<open>A call keeps its shape and, once launched, its intent.\<close>

lemma fromReported_settleCall:
  assumes "fromReported s e" "n < length (psCalls s)"
    and keep: "\<And>i. ivLaunched (psCalls s ! n) = Some i \<Longrightarrow> (\<forall>p t j started. pc = AwaitEffect p t j started \<longrightarrow> j = i)"
  shows "fromReported (settleCall n (w, op, pc) s) e"
proof -
  obtain c i where c: "c \<in> set (psCalls s)" "ivShape c = ReportedCall" "ivLaunched c = Some i" "oiIntentId i = osIntentId e"
    using assms(1) by (auto simp: fromReported_def)
  then obtain m where m: "m < length (psCalls s)" "psCalls s ! m = c" by (auto simp: in_set_conv_nth)
  let ?c = "psCalls (settleCall n (w, op, pc) s) ! m"
  have "ivShape ?c = ReportedCall \<and> ivLaunched ?c = Some i"
    using c m keep by (cases "m = n") (auto simp: settleCall_calls split: invocation_pc.splits)
  moreover have "?c \<in> set (psCalls (settleCall n (w, op, pc) s))" using m(1) by simp
  ultimately show ?thesis using c(4) unfolding fromReported_def by blast
qed

lemma settles_settleCall:
  assumes ok: "settlesOk j0 s" and wal: "walOk l0 j0 s" and n: "n < length (psCalls s)" and r: "r = (w, op, pc)"
    and j: "pwJournal w = pwJournal (psWorld s) @ ev"
    and keep: "\<And>i. ivLaunched (psCalls s ! n) = Some i \<Longrightarrow> (\<forall>p t j started. pc = AwaitEffect p t j started \<longrightarrow> j = i)"
    and mine: "\<And>p e k. pc = AwaitSettlement p e k \<Longrightarrow> settlementOk e \<and> (ivShape (psCalls s ! n) \<noteq> ReportedCall \<longrightarrow> partsOk (osUsage e))"
    and ev: "\<And>e. e \<in> set (settledOf ev) \<Longrightarrow> settlementOk e \<and> (partsOk (osUsage e) \<or> fromReported s e)"
  shows "settlesOk j0 (settleCall n r s)"
proof -
  let ?s = "settleCall n r s"
  let ?c = "(psCalls s ! n)\<lparr>ivPc := pc, ivLaunched := (case pc of AwaitEffect _ _ i _ \<Rightarrow> Some i | _ \<Rightarrow> ivLaunched (psCalls s ! n))\<rparr>"
  have new: "newEvents j0 ?s = newEvents j0 s @ ev" using walOkD(1) [OF wal] by (simp add: newEvents_def r j)
  have "psCalls ?s = (psCalls s)[n := ?c]" unfolding r by (rule settleCall_calls)
  then have mem: "c \<in> set (psCalls ?s) \<Longrightarrow> c \<in> set (psCalls s) \<or> c = ?c" for c
    using set_update_subset_insert by fastforce
  have "case ivPc c of AwaitSettlement _ e _ \<Rightarrow> settlementOk e \<and> (ivShape c \<noteq> ReportedCall \<longrightarrow> partsOk (osUsage e)) | _ \<Rightarrow> True"
    if "c \<in> set (psCalls ?s)" for c
    using mem [OF that] mine ok unfolding settlesOk_def by (auto split: invocation_pc.splits)
  moreover have "settlementOk e \<and> (partsOk (osUsage e) \<or> fromReported ?s e)" if "e \<in> set (settledOf (newEvents j0 ?s))" for e
  proof -
    have "settlementOk e \<and> (partsOk (osUsage e) \<or> fromReported s e)"
      using that settlesOkD(2) [OF ok] ev unfolding new by auto
    then show ?thesis using fromReported_settleCall [OF _ n, of e pc w op] keep r by blast
  qed
  ultimately show ?thesis unfolding settlesOk_def by blast
qed

lemma settles_same:
  assumes "settlesOk j0 s" "psCalls s' = psCalls s" "newEvents j0 s' = newEvents j0 s @ ev" "settledOf ev = []"
  shows "settlesOk j0 s'"
  using assms by (auto simp: settlesOk_def fromReported_def)

lemma providerMove_settles:
  assumes "providerMove env s s'" "providerOk l0 permits s" "walOk l0 j0 s" "settlesOk j0 s"
  shows "settlesOk j0 s'"
  using assms
proof (induction rule: providerMove.induct)
  case (starts k s now call w c)
  note c = startInvocation_cases [OF starts(2)]
  have "newEvents j0 (s\<lparr>psWorld := w, psCalls := psCalls s @ [c]\<rparr>) = newEvents j0 s" using c(1) by (auto simp: newEvents_def)
  moreover have "fromReported s e \<Longrightarrow> fromReported (s\<lparr>psWorld := w, psCalls := psCalls s @ [c]\<rparr>) e" for e
    by (auto simp: fromReported_def)
  ultimately show ?case using starts(5) c(1) unfolding settlesOk_def by auto
next
  case (denied n s now)
  show ?case
    unfolding permitDenied_def
    by (rule settles_settleCall [OF denied(6,5,1) refl, where ev = "[]"]) simp_all
next
  case (granted n s p now)
  obtain w op pc where r: "permitGranted env now p (psCalls s ! n) (psWorld s) (opOf s n) = (w, op, pc)" by (metis surj_pair)
  have pc: "(\<exists>x. pc = Finished x) \<or> (\<exists>t i. pc = AwaitIntent p t i)"
    using r by (auto simp: permitGranted_def split: prod.splits sum.splits)
  have "pwJournal w = pwJournal (psWorld s) @ []"
    using permitGranted_journal [of env now p "psCalls s ! n" "psWorld s" "opOf s n"] by (simp add: r)
  from settles_settleCall [OF granted(6,5,1) r this] pc show ?case by auto
next
  case (intended n s p tokens intent r now)
  obtain w op pc where e: "intentReplied r now p tokens intent (psWorld s) (opOf s n) = (w, op, pc)" by (metis surj_pair)
  have "launchOk (newEvents j0 s) (psCalls s ! n)" using walOkD(3) [OF intended(4)] intended(1) by simp
  then have none: "ivLaunched (psCalls s ! n) = None" using intended(2) by (auto simp: launchOk_def split: option.splits)
  have j: "pwJournal w = pwJournal (psWorld s) @ (if recordedBy r then [OperationIntended intent] else [])"
    using e rollback_rest by (auto simp: intentReplied_def Let_def split: option.splits)
  have "(\<exists>x. pc = Finished x) \<or> pc = AwaitEffect p tokens intent now"
    using e by (auto simp: intentReplied_def Let_def split: option.splits)
  with none show ?case by (intro settles_settleCall [OF intended(5,4,1) e j]) (auto split: if_splits)
next
  case (ended n s p tokens intent started reply now)
  note o = providerOkD [OF ended(4)]
  have co: "callOk (length (psOperations s)) (psCalls s ! n)" using o(5) ended(1) by simp
  obtain w op pc where r: "effectReplied env (ivShape (psCalls s ! n)) now p tokens intent started reply (psWorld s) (opOf s n) = (w, op, pc)"
    by (metis surj_pair)
  obtain w' op' x where e: "settleEffect env (ivShape (psCalls s ! n)) started now tokens reply (psWorld s) (opOf s n) = (w', op', x)"
    by (metis surj_pair)
  have "sameRest (psWorld s) w'"
    using settleEffect_delta [OF e o(1)] call_covered [OF ended(4,1)] co ended(3) by (auto simp: callOk_def ended(2))
  then have j: "pwJournal w = pwJournal (psWorld s) @ []"
    using r rest_journal by (auto simp: effectReplied_def e split: if_splits)
  have "(\<exists>t y. pc = Abandoned t y)
      \<or> pc = AwaitSettlement p (settledEvent env intent x (opOf s n)) (stContinuation x)"
    using r by (auto simp: effectReplied_def e split: if_splits)
  then show ?case
    using settleEffect_ok [OF e ended(3), of intent "opOf s n"]
    by (intro settles_settleCall [OF ended(6,5,1) r j]) auto
next
  case (settled n s p event k r)
  obtain w op pc where e: "settlementReplied r p event k (psWorld s) (opOf s n) = (w, op, pc)" by (metis surj_pair)
  have j: "pwJournal w = pwJournal (psWorld s) @ (if recordedBy r then [OperationSettled event] else [])"
    using e by (auto simp: settlementReplied_def Let_def split: option.splits)
  have pc: "\<exists>x. pc = Finished x" using e by (auto simp: settlementReplied_def Let_def split: option.splits)
  have mem: "psCalls s ! n \<in> set (psCalls s)" using settled(1) by simp
  have "launchOk (newEvents j0 s) (psCalls s ! n)" by (rule walOkD(3) [OF settled(4) mem])
  then have "\<exists>i. ivLaunched (psCalls s ! n) = Some i \<and> oiIntentId i = osIntentId event"
    using settled(2) by (auto simp: launchOk_def split: option.splits)
  then have "settlementOk event \<and> (partsOk (osUsage event) \<or> fromReported s event)"
    using settlesOkD(1) [OF settled(5) mem settled(2)] mem unfolding fromReported_def by blast
  then show ?case using pc by (intro settles_settleCall [OF settled(5,4,1) e j]) (auto split: if_splits)
next
  case (journals e s)
  have "newEvents j0 (s\<lparr>psWorld := (psWorld s)\<lparr>pwJournal := pwJournal (psWorld s) @ [e]\<rparr>\<rparr>) = newEvents j0 s @ [e]"
    using walOkD(1) [OF journals(3)] by (simp add: newEvents_def)
  moreover have "settledOf [e] = []" using journals(1) by (auto simp: isOperationEvent_def split: rlm_event.splits)
  ultimately show ?case using settles_same [OF journals(4)] by simp
qed (erule settles_same [where ev = "[]"]; simp add: newEvents_def)+

section \<open>Reachable states\<close>

text \<open>A run begins with a ledger in order, no leaf slot taken and no token reserved.\<close>

definition freshLedger :: "ledger \<Rightarrow> bool" where
  "freshLedger l \<longleftrightarrow> ledgerGood l \<and> jint (activeLeafCalls (usage l)) = 0 \<and> jint (tokensReserved (usage l)) = 0"

lemma providerReach_ok:
  assumes "providerReach env (initialProvider l0 permits ordinals j0) s" "freshLedger l0"
  shows "providerOk l0 permits s \<and> walOk l0 j0 s \<and> settlesOk j0 s"
  using assms(1)
proof (induction rule: providerReach.induct)
  case initially
  have "semLog (newSemaphore permits)" by (simp add: semLog_def newSemaphore_def)
  moreover have "waiters (newSemaphore permits) = []" "settled (newSemaphore permits) = []" "held (newSemaphore permits) = {}"
    by (simp_all add: newSemaphore_def)
  ultimately have "permitsOk (newSemaphore permits) 0 P" for P
    by (intro permitsOkI newSemaphore_ok) (simp_all add: requested_def)
  moreover have "capacity (newSemaphore permits) = max 1 permits" by (simp add: newSemaphore_def)
  ultimately show ?case
    using assms(2)
    by (auto simp: providerOk_def walOk_def settlesOk_def initialProvider_def freshLedger_def newEvents_def launchedCalls_def
        Let_def)
next
  case (later s s')
  then show ?case using providerMove_ok providerMove_wal providerMove_settles by blast
qed

end
