(* ===== verification/ProviderProof.thy ===== *)
theory ProviderProof
  imports ProviderInvariant
begin

text \<open>
  The properties of the model-invocation boundary (\<open>src/src/runtime/provider.ts\<close>), and a sample run that satisfies
  their hypotheses.
\<close>

section \<open>Properties\<close>

lemma acquireLeaf_free:
  assumes "ledgerOk l" "jint (activeLeafCalls (usage l)) < jint (maxConcurrency (limits l))"
  shows "\<exists>l'. acquireLeaf l = Some l'"
proof -
  have "\<not> jless (maxConcurrency (limits l)) (jadd (activeLeafCalls (usage l)) (Num 1))"
    using assms count_full [of "maxConcurrency (limits l)" "activeLeafCalls (usage l)"]
    by (auto simp: ledgerOk_iff usageOk_iff limitsOk_def)
  then show ?thesis by (simp add: acquireLeaf_def)
qed

lemma sumOver_zero: "(\<And>c. c \<in> set cs \<Longrightarrow> f (ivPc c) = 0) \<Longrightarrow> sumOver f cs = 0"
  by (induction cs) (simp_all add: sumOver_def)

lemma sumOver_leafOf: "sumOver leafOf cs = int (length (filter (\<lambda>c. leafOf (ivPc c) = 1) cs))"
proof (induction cs)
  case (Cons c cs)
  have "leafOf (ivPc c) = 0 \<or> leafOf (ivPc c) = 1" by (cases "ivPc c") simp_all
  then show ?case using Cons by (auto simp: sumOver_def)
qed (simp add: sumOver_def)

definition isFinished :: "invocation_pc \<Rightarrow> bool" where
  "isFinished pc \<longleftrightarrow> (case pc of Finished _ \<Rightarrow> True | _ \<Rightarrow> False)"

lemma isFinished_simps: "isFinished pc \<Longrightarrow> leafOf pc = 0 \<and> pendingOf pc = Num 0 \<and> permitOf pc = None \<and> pc \<noteq> AwaitPermit"
  by (cases pc) (simp_all add: isFinished_def)

text \<open>
  C10: whatever calls are in flight and however they interleave, the active leaf calls of the ledger are the calls
  that took a slot and have not given it back, the reserved tokens are the sum of what those calls still hold, no
  more calls own a permit than the semaphore has, and once every call has finished the ledger holds no slot and no
  reservation and the semaphore is idle.
\<close>

theorem provider_conserves_budget:
  assumes "providerReach env (initialProvider l0 permits ordinals j0) s" and "freshLedger l0"
  shows "jint (activeLeafCalls (usage (pwLedger (psWorld s)))) = int (length (filter (\<lambda>c. leafOf (ivPc c) = 1) (psCalls s)))
    \<and> jint (tokensReserved (usage (pwLedger (psWorld s)))) = (\<Sum>c\<leftarrow>psCalls s. pendingTokens (ivPc c))
    \<and> int (card {n. n < length (psCalls s) \<and> permitOf (ivPc (psCalls s ! n)) \<noteq> None}) \<le> max 1 permits
    \<and> (list_all (\<lambda>c. isFinished (ivPc c)) (psCalls s) \<longrightarrow>
         jint (activeLeafCalls (usage (pwLedger (psWorld s)))) = 0 \<and> jint (tokensReserved (usage (pwLedger (psWorld s)))) = 0
         \<and> isIdle (pwSemaphore (psWorld s)))"
proof -
  have ok: "providerOk l0 permits s" using providerReach_ok [OF assms] by blast
  note d = providerOkD [OF ok]
  note p = permitsOkD [OF d(6)]
  let ?sem = "pwSemaphore (psWorld s)"
  have "int (card {n. n < length (psCalls s) \<and> permitOf (ivPc (psCalls s ! n)) \<noteq> None}) \<le> int (card (held ?sem))"
    using owners_held(1) [OF d(6)] by simp
  also have "\<dots> \<le> max 1 permits" using p(1) d(7) by (simp add: semOk_def)
  finally have owners: "int (card {n. n < length (psCalls s) \<and> permitOf (ivPc (psCalls s ! n)) \<noteq> None}) \<le> max 1 permits" .
  have finished: "sumOver leafOf (psCalls s) = 0 \<and> sumOver pendingTokens (psCalls s) = 0 \<and> isIdle ?sem"
    if fin: "list_all (\<lambda>c. isFinished (ivPc c)) (psCalls s)"
  proof -
    have f: "isFinished (ivPc c)" if "c \<in> set (psCalls s)" for c using fin that by (simp add: list_all_iff)
    have sums: "sumOver leafOf (psCalls s) = 0" "sumOver pendingTokens (psCalls s) = 0"
      using isFinished_simps [OF f] by (simp_all add: sumOver_zero)
    have call: "psCalls s ! n \<in> set (psCalls s)" if "n \<in> requested ?sem" for n
      using p(3) that by auto
    have "held ?sem = {}"
    proof (rule ccontr)
      assume "held ?sem \<noteq> {}"
      then obtain q n where "(n, Some q) \<in> set (settled ?sem)" "ownsPermit (ivPc (psCalls s ! n)) q" using p(6) by blast
      then show False using isFinished_simps [OF f [OF call [OF settled_requested]]] by (auto simp: ownsPermit_def)
    qed
    moreover have "waiters ?sem = []"
    proof (rule ccontr)
      assume "waiters ?sem \<noteq> []"
      then have w: "hd (waiters ?sem) \<in> set (waiters ?sem)" by simp
      then have "wRequest (hd (waiters ?sem)) \<in> requested ?sem" by (simp add: requested_def)
      then show False using isFinished_simps [OF f [OF call]] p(4) [OF w] by simp
    qed
    ultimately show ?thesis using sums p(1) by (simp add: isIdle_def semOk_def)
  qed
  show ?thesis using d(3,4) owners finished by (simp add: sumOver_leafOf) (simp add: sumOver_def)
qed

text \<open>
  C12: while the run keeps its authority, and with as many permits as the ledger allows concurrent leaf calls, a call
  that got a permit and reserved its attempt always finds a leaf slot, so the code's error of diverged accounting
  never occurs.
\<close>

theorem leaf_follows_permit:
  assumes "providerReach env (initialProvider l0 permits ordinals j0) s" and "freshLedger l0"
    and "jint (maxConcurrency (limits l0)) = max 1 permits" and "pwAuthority (psWorld s)"
    and "n < length (psCalls s)" and "ivPc (psCalls s ! n) = AwaitPermit"
    and "(n, Some p) \<in> set (settled (pwSemaphore (psWorld s)))"
    and "reserve now1 now2 tokens (psWorld s) op = Inr (reservation, w1, op1)"
  shows "\<exists>l. acquireLeaf (pwLedger w1) = Some l"
proof -
  have ok: "providerOk l0 permits s" using providerReach_ok [OF assms(1,2)] by blast
  note d = providerOkD [OF ok]
  let ?A = "{n. n < length (psCalls s) \<and> permitOf (ivPc (psCalls s ! n)) \<noteq> None}"
  have leaf: "leafOf (ivPc c) = 1 \<longleftrightarrow> permitOf (ivPc c) \<noteq> None" if "c \<in> set (psCalls s)" for c
    using d(8) [OF assms(4) that] by (cases "ivPc c") (simp_all add: abandoned_def)
  have "filter (\<lambda>c. leafOf (ivPc c) = 1) (psCalls s) = filter (\<lambda>c. permitOf (ivPc c) \<noteq> None) (psCalls s)"
    using leaf by (intro filter_cong) simp_all
  then have "jint (activeLeafCalls (usage (pwLedger (psWorld s)))) = int (card ?A)"
    unfolding d(3) sumOver_leafOf by (simp add: length_filter_conv_card)
  moreover have "card ?A < card (held (pwSemaphore (psWorld s)))" by (rule owners_held(2) [OF d(6) assms(5,6,7)])
  moreover have "int (card (held (pwSemaphore (psWorld s)))) \<le> max 1 permits"
    using permitsOkD(1) [OF d(6)] d(7) by (simp add: semOk_def)
  ultimately have less: "jint (activeLeafCalls (usage (pwLedger (psWorld s)))) < jint (maxConcurrency (limits l0))"
    using assms(3) by linarith
  have r: "ledgerDelta 0 (jint tokens) 1 (pwLedger (psWorld s)) (pwLedger w1)" by (rule reserve_Inr(1) [OF assms(8) d(1)])
  then have g: "ledgerOk (pwLedger w1)" "limits (pwLedger w1) = limits l0"
    "jint (activeLeafCalls (usage (pwLedger w1))) < jint (maxConcurrency (limits (pwLedger w1)))"
    using less d(2) by (simp_all add: ledgerDelta_def ledgerGood_def)
  then show ?thesis by (intro acquireLeaf_free) simp_all
qed

text \<open>
  C11: an effect is launched only after its intent is in the journal, every settlement comes after an intent with its
  identity, there are no more settlements than launches and no more launches than intents, and the intents use up
  attempts of the ledger, so a run never launches more effects than its attempt limit leaves.
\<close>

theorem effects_follow_intents:
  assumes "providerReach env (initialProvider l0 permits ordinals j0) s" and "freshLedger l0"
  shows "(\<forall>c i. c \<in> set (psCalls s) \<longrightarrow> ivLaunched c = Some i \<longrightarrow> OperationIntended i \<in> set (newEvents j0 s))
    \<and> settledAfterIntent (newEvents j0 s)
    \<and> length (settledOf (newEvents j0 s)) \<le> launchedCalls (psCalls s)
    \<and> launchedCalls (psCalls s) \<le> length (intendedOf (newEvents j0 s))
    \<and> int (length (intendedOf (newEvents j0 s))) \<le> jint (maxAttempts (limits l0)) - jint (attempts (usage l0))"
proof -
  have ok: "providerOk l0 permits s" "walOk l0 j0 s" using providerReach_ok [OF assms] by blast+
  note d = providerOkD [OF ok(1)] and w = walOkD [OF ok(2)]
  have "OperationIntended i \<in> set (newEvents j0 s)" if "c \<in> set (psCalls s)" "ivLaunched c = Some i" for c i
    using w(3) [OF that(1)] that(2) by (simp add: launchOk_def)
  moreover have nonneg: "0 \<le> sumOver f (psCalls s)" if "\<And>pc. 0 \<le> f pc" for f
    unfolding sumOver_def using that by (intro sum_list_nonneg) auto
  have "0 \<le> awaitsIntent pc" "0 \<le> unsettledCall pc" for pc by (cases pc; simp)+
  then have n: "0 \<le> sumOver awaitsIntent (psCalls s)" "0 \<le> sumOver unsettledCall (psCalls s)" using nonneg by blast+
  have "jint (attempts (usage (pwLedger (psWorld s)))) \<le> jint (maxAttempts (limits l0))"
    using d(1,2) by (auto simp: ledgerGood_def ledgerOk_iff usageOk_iff)
  ultimately show ?thesis using w n by auto
qed

text \<open>
  C13: every settlement the run writes carries a normalized usage of one attempt and an error code exactly when its
  outcome is not ok; and unless the call was a reported one, recovery never finds its usage invalid.
\<close>

theorem settlements_in_order:
  assumes "providerReach env (initialProvider l0 permits ordinals j0) s" and "freshLedger l0"
    and "e \<in> set (settledOf (newEvents j0 s))"
  shows "settlementOk e \<and> (fromReported s e \<or> (\<forall>d st. onSettled d e st \<noteq> semantic ''operation settlement usage is invalid''))"
proof -
  have "settlementOk e \<and> (partsOk (osUsage e) \<or> fromReported s e)"
    using providerReach_ok [OF assms(1,2)] settlesOkD(2) [OF _ assms(3)] by blast
  moreover have "onSettled d e st \<noteq> semantic ''operation settlement usage is invalid''"
    if "settlementOk e" "partsOk (osUsage e)" for d st
    using that by (auto simp: settlementOk_def partsOk_def onSettled_def Let_def split: option.splits sum.splits)
  ultimately show ?thesis by blast
qed

text \<open>
  C15: a reported result whose token parts exceed its total is not refused but journaled as it is, and recovery
  refuses the settlement in every state.
\<close>

theorem reported_settlement_refused:
  assumes "pwAuthority w" and "erUsage x \<noteq> VUndefined"
    and "normalizeCallUsage (erHeap x) (erUsage x) (usageLimitsFor (peWallMs env)) = Inr u"
    and "uTotalTokens u = Some t" and "jint t < usageParts u"
  shows "\<exists>w' op' e k. effectReplied env ReportedCall now p (Num 0) i started (EffectReported x) w op = (w', op', AwaitSettlement p e k)
    \<and> osUsage e = u\<lparr>uAttempts := Num 1\<rparr> \<and> (\<forall>d st. \<not> isOk (onSettled d e st))"
proof -
  obtain w' op' s where e: "reportedFulfilled env started now x w op = (w', op', s)" by (metis surj_pair)
  obtain y w1 op1 where acc: "accountUsage (Num 0) (u\<lparr>uAttempts := Num 1\<rparr>) w op = (y, w1, op1)" by (metis surj_pair)
  have s: "stUsage s = u\<lparr>uAttempts := Num 1\<rparr>"
    using e acc assms(2,3) by (auto simp: reportedFulfilled_def Let_def split: option.splits)
  have "\<not> isOk (onSettled d (settledEvent env i s op) st)" for d st
    using assms(4,5) by (auto simp: onSettled_def s usageParts_def Let_def split: option.splits)
  then show ?thesis using assms(1) s by (auto simp: effectReplied_def settleEffect_def e)
qed

lemma scopedUpdates_Inr: "scopedUpdates m u scopes = Inr xs
    \<Longrightarrow> map fst xs = scopes \<and> (\<forall>(scope, x)\<in>set xs. addUsage (case_option ZERO_CALL_USAGE id (m scope)) u = Inr x)"
  by (induction scopes arbitrary: xs) (auto simp: resBind_eq_Inr)

lemma fold_scopes:
  assumes "\<forall>(scope, x)\<in>set xs. f scope = Inr x"
  shows "scope \<in> fst ` set xs \<Longrightarrow> \<exists>x. fold (\<lambda>(scope, x) m. m(scope \<mapsto> x)) xs m scope = Some x \<and> f scope = Inr x"
    and "scope \<notin> fst ` set xs \<Longrightarrow> fold (\<lambda>(scope, x) m. m(scope \<mapsto> x)) xs m scope = m scope"
  using assms by (induction xs arbitrary: m rule: rev_induct) (auto split: prod.splits)

definition chargedTokens :: "call_usage \<Rightarrow> int" where
  "chargedTokens u = (case uTotalTokens u of Some t \<Rightarrow> jint t | None \<Rightarrow> usageParts u)"

text \<open>The ledger's charge: the reported total, or the sum of the parts.\<close>

lemma settleAttemptUsage_charges:
  assumes "ledgerGood l" "settleAttemptUsage l r u = Inr l'"
  shows "jint (tokensUsed (usage l')) = jint (tokensUsed (usage l)) + chargedTokens u"
    and "jint (tokensReserved (usage l')) = jint (tokensReserved (usage l)) - jint r"
    and "activeLeafCalls (usage l') = activeLeafCalls (usage l)"
proof -
  let ?i = "case_option (Num 0) id (uInputTokens u)" and ?o = "case_option (Num 0) id (uOutputTokens u)"
  let ?t = "case_option (jadd ?i ?o) id (uTotalTokens u)"
  have ok: "ledgerOk l" using assms(1) by (simp add: ledgerGood_def)
  have s: "settleAccounting l r ?t ?i ?o (case_option (Num 0) id (uCostUsd u)) (uDurationMs u) = Inr l'"
    using assms(2) by (simp add: settleAttemptUsage_def Let_def)
  note a = settleAccounting_Inr [OF ok s]
  have "\<not> jless MAX_CALL_TOKENS ?i" "\<not> jless MAX_CALL_TOKENS ?o"
    using s by (simp_all add: settleAccounting_def Let_def split: if_splits)
  moreover have max: "isCount MAX_CALL_TOKENS" "jint MAX_CALL_TOKENS = 10000000"
    by (simp_all add: MAX_CALL_TOKENS_def MAX_SAFE_INTEGER_def jint_def)
  ultimately have "jint ?i \<le> 10000000" "jint ?o \<le> 10000000"
    using count_jless [OF max(1) a(3)] count_jless [OF max(1) a(4)] by simp_all
  then have "jint (jadd ?i ?o) = jint ?i + jint ?o"
    using count_add [OF a(3,4)] by (simp add: MAX_SAFE_INTEGER_def)
  moreover have "jint (case_option (Num 0) id x) = countOf x" for x by (cases x) simp_all
  ultimately have "jint ?t = chargedTokens u" by (cases "uTotalTokens u") (simp_all add: chargedTokens_def usageParts_def)
  then show "jint (tokensUsed (usage l')) = jint (tokensUsed (usage l)) + chargedTokens u" using a(10) by simp
  show "jint (tokensReserved (usage l')) = jint (tokensReserved (usage l)) - jint r" using a(9) by simp
  show "activeLeafCalls (usage l') = activeLeafCalls (usage l)" by (simp add: a(8))
qed


lemma sumBytes_sum:
  "n \<le> MAX_SAFE_INTEGER \<Longrightarrow> sumBytes ss n =
    (if n + (\<Sum>s\<leftarrow>ss. int (byteLength s)) \<le> MAX_SAFE_INTEGER then Some (n + (\<Sum>s\<leftarrow>ss. int (byteLength s))) else None)"
proof (induction ss arbitrary: n)
  case (Cons s ss)
  have "0 \<le> (\<Sum>s\<leftarrow>ss. int (byteLength s))" by (rule sum_list_nonneg) auto
  then show ?case using Cons by (auto simp: Let_def add_ac)
qed simp

lemma ceilQuarter_ceiling: "ceilQuarter n = \<lceil>rat_of_int n / 4\<rceil>"
proof -
  have "\<lceil>rat_of_int n / 4\<rceil> = - (- n div 4)" using ceiling_divide_eq_div [of n 4, where ?'a = rat] by simp
  then show ?thesis by (simp add: ceilQuarter_def)
qed

lemma validOutputTokens_iff: "validOutputTokens m \<longleftrightarrow> (\<exists>k. m = JI k \<and> 1 \<le> k \<and> k \<le> 10000000)"
  by (cases m) (auto simp: validOutputTokens_def isSafeInteger_iff MAX_CALL_TOKENS_def MAX_SAFE_INTEGER_def not_less)

text \<open>
  C16: a request needs as many tokens as a quarter of its bytes, rounded up, plus its output cap; the reservation
  exists exactly when the cap is a valid one, the schema has a canonical text and the sum is at most the maximum of
  a call, and it is then exactly that sum.
\<close>

theorem tokenReservation_exact:
  "tokenReservation r = Some n \<longleftrightarrow>
    (\<exists>extra k. schemaInputs r = Some extra \<and> case_option DEFAULT_MAX_OUTPUT_TOKENS id (trMaxOutputTokens r) = JI k
      \<and> 1 \<le> k \<and> \<lceil>rat_of_int (\<Sum>s\<leftarrow>requestInputs r @ extra. int (byteLength s)) / 4\<rceil> + k \<le> 10000000
      \<and> n = JI (\<lceil>rat_of_int (\<Sum>s\<leftarrow>requestInputs r @ extra. int (byteLength s)) / 4\<rceil> + k))"
proof -
  define m where "m = case_option DEFAULT_MAX_OUTPUT_TOKENS id (trMaxOutputTokens r)"
  have rhs: "(\<lceil>rat_of_int b / 4\<rceil> + k \<le> 10000000 \<and> n = JI (\<lceil>rat_of_int b / 4\<rceil> + k)) \<longleftrightarrow>
      (case sumBytes ss 0 of None \<Rightarrow> False
       | Some inputBytes \<Rightarrow> jleq (JI (ceilQuarter inputBytes)) (jsub MAX_CALL_TOKENS (JI k))
           \<and> n = jadd (JI (ceilQuarter inputBytes)) (JI k))"
    if k: "1 \<le> k" "k \<le> 10000000" and b: "b = (\<Sum>s\<leftarrow>ss. int (byteLength s))" for k b ss
  proof -
    let ?c = "ceilQuarter b"
    have b0: "0 \<le> b" unfolding b by (rule sum_list_nonneg) auto
    have c: "0 \<le> ?c" "4 * ?c \<ge> b" "b \<le> MAX_SAFE_INTEGER \<Longrightarrow> ?c \<le> MAX_SAFE_INTEGER"
      using b0 by (simp_all add: ceilQuarter_def)
    have sub: "jsub MAX_CALL_TOKENS (JI k) = JI (10000000 - k)"
      using jsub_JI [of 10000000 k] k by (simp add: MAX_CALL_TOKENS_def)
    have sum: "sumBytes ss 0 = (if b \<le> MAX_SAFE_INTEGER then Some b else None)"
      using sumBytes_sum [of 0 ss] by (simp add: b)
    have add: "jadd (JI ?c) (JI k) = JI (?c + k)" if "?c + k \<le> 10000000" using that k c by (intro jadd_JI) simp
    show ?thesis
      using sum sub add k c by (auto simp: ceilQuarter_ceiling [symmetric] MAX_SAFE_INTEGER_def simp del: of_int_add of_int_diff)
  qed
  show ?thesis
  proof (cases "validOutputTokens m")
    case False
    have nn: "0 \<le> \<lceil>rat_of_int (\<Sum>s\<leftarrow>ss. int (byteLength s)) / 4\<rceil>" for ss
    proof -
      have "0 \<le> (\<Sum>s\<leftarrow>ss. int (byteLength s))" by (rule sum_list_nonneg) auto
      then show ?thesis unfolding ceilQuarter_ceiling [symmetric] ceilQuarter_def by simp
    qed
    have "\<not> (m = JI k \<and> 1 \<le> k \<and> \<lceil>rat_of_int (\<Sum>s\<leftarrow>ss. int (byteLength s)) / 4\<rceil> + k \<le> 10000000)" for k ss
      using False nn [of ss] unfolding validOutputTokens_iff by (metis add_le_cancel_right add_0 order_trans)
    moreover have "tokenReservation r = None" using False by (simp add: tokenReservation_def m_def [symmetric])
    ultimately show ?thesis unfolding m_def by (metis option.distinct(1))
  next
    case True
    then obtain k where k: "m = JI k" "1 \<le> k" "k \<le> 10000000" by (auto simp: validOutputTokens_iff)
    show ?thesis
    proof (cases "schemaInputs r")
      case None
      then show ?thesis by (simp add: tokenReservation_def Let_def)
    next
      case (Some extra)
      then show ?thesis
        using True rhs [OF k(2,3) refl, of "requestInputs r @ extra"] k
        by (auto simp: tokenReservation_def m_def [symmetric] Let_def split: option.splits if_splits simp del: map_append sum_list_append)
    qed
  qed
qed

section \<open>A sample run\<close>

definition sampleProviderEnv :: provider_env where
  "sampleProviderEnv = \<lparr>peRunId = js ''run'', peHasher = sampleHasher, peSha256 = sampleHasher, peWallMs = Num 1000\<rparr>"

definition sampleProvider :: provider_system where
  "sampleProvider = initialProvider (createLedger sampleLimits) 1 Map.empty []"

definition sampleIdentity :: external_identity where
  "sampleIdentity = \<lparr>eiVersion = PROVIDER_REQUEST_IDENTITY_VERSION, eiSha256 = replicate 64 97\<rparr>"

definition sampleOperation :: model_operation where
  "sampleOperation = createModelOperation (js ''f'') [] (js ''o'') OpLlm (js ''k'') 0 (Num 50) (psWorld sampleProvider)"

definition sampleCall :: invocation where
  "sampleCall = \<lparr>ivOperation = 0, ivShape = ExternalCall, ivIdentity = sampleIdentity, ivTokens = Num 0,
     ivLaunched = None, ivPc = AwaitPermit\<rparr>"

definition startedWorld :: provider_world where
  "startedWorld = (psWorld sampleProvider)\<lparr>pwSemaphore := acquire 0 (Some 0) (newSemaphore 1)\<rparr>"

lemma sample_fresh: "freshLedger (createLedger sampleLimits)"
proof -
  have "ledgerOk (createLedger sampleLimits)" by (rule createLedger_ok [OF sampleLimits_ok])
  then show ?thesis
    by (simp add: freshLedger_def ledgerGood_def createLedger_def ZERO_USAGE_def isDouble_def round64_def)
qed

lemma started_simps [simp]: "pwLedger startedWorld = createLedger sampleLimits" "pwJournal startedWorld = []" "pwAuthority startedWorld"
  "settled (pwSemaphore startedWorld) = [(0, Some 0)]" "abortedSignals (pwSemaphore startedWorld) = {}"
  by (simp_all add: startedWorld_def sampleProvider_def initialProvider_def acquire_def newSemaphore_def signalAborted_def)

lemma operation_simps [simp]: "moPoison sampleOperation = None" "moSignal sampleOperation = 0" "moDeadlineMs sampleOperation = Num 50"
  "moLogicalReserved sampleOperation = False" "moKind sampleOperation = OpLlm"
  by (simp_all add: sampleOperation_def createModelOperation_def)

lemma sample_checkpoint: "checkpoint (Num 10) startedWorld sampleOperation = None"
  "checkpoint (Num 10) (psWorld sampleProvider) sampleOperation = None"
  by (simp_all add: checkpoint_def signalOn_def signalAborted_def)
    (simp add: sampleProvider_def initialProvider_def newSemaphore_def)

lemma sample_started:
  "providerReach sampleProviderEnv sampleProvider
     \<lparr>psWorld = startedWorld, psOperations = [sampleOperation], psCalls = [sampleCall]\<rparr>"
proof -
  let ?s = "sampleProvider\<lparr>psOperations := [sampleOperation]\<rparr>"
  have none: "psOperations sampleProvider = []" "psCalls sampleProvider = []" "pwSemaphore (psWorld sampleProvider) = newSemaphore 1"
    by (simp_all add: sampleProvider_def initialProvider_def)
  have "providerMove sampleProviderEnv sampleProvider ?s"
    using providerMove.creates [of sampleProviderEnv sampleProvider "js ''f''" "[]" "js ''o''" OpLlm "js ''k''" 0 "Num 50"]
    by (simp add: none sampleOperation_def)
  then have r: "providerReach sampleProviderEnv sampleProvider ?s" using providerReach.initially providerReach.later by blast
  have "startInvocation sampleProviderEnv (Num 10) 0 0 (RunExternal sampleIdentity) (psWorld sampleProvider) sampleOperation
      = (startedWorld, sampleCall)"
    using sample_checkpoint(2) by (simp add: startInvocation_def prepareCall_def sampleCall_def startedWorld_def none Let_def)
  then have "providerMove sampleProviderEnv ?s (?s\<lparr>psWorld := startedWorld, psCalls := [sampleCall]\<rparr>)"
    using providerMove.starts [of 0 ?s sampleProviderEnv "Num 10" "RunExternal sampleIdentity" startedWorld sampleCall] by (simp add: none)
  from providerReach.later [OF r this] show ?thesis unfolding sampleProvider_def initialProvider_def by simp
qed

lemma sample_reserve: "isOk (reserve (Num 10) (Num 10) (Num 0) startedWorld sampleOperation)"
proof -
  have "isOk (reserveLogicalCall (createLedger sampleLimits) (Num 10))
    \<and> isOk (resBind (reserveLogicalCall (createLedger sampleLimits) (Num 10)) (\<lambda>l. reserveAttempt l (Num 10) (Num 0)))"
    by (simp add: budget_eval reserveLogicalCall_def js_simps del: jadd.simps)
  then show ?thesis by (auto simp: reserve_def isOk_iff Let_def)
qed

lemma deriveIntent_succeeds [simp]: "deriveOperationIntentId sampleHasher i \<noteq> Inl x"
proof -
  have "jsonDepth (identityJson i) \<le> MAX_JSON_DEPTH" by (simp add: identityJson_def MAX_JSON_DEPTH_def)
  then obtain t where "canonicalStringify (identityJson i) = Inr t" using canonicalStringify_flat by blast
  then show ?thesis
    using sampleHasher_conforming by (simp add: deriveOperationIntentId_def operationDigest_def conforming_def)
qed

lemma sample_intent:
  "\<exists>w op i. permitGranted sampleProviderEnv (\<lambda>_. Num 10) 0 sampleCall startedWorld sampleOperation = (w, op, AwaitIntent 0 (Num 0) i)"
proof -
  obtain reservation w1 op1 where r: "reserve (Num 10) (Num 10) (Num 0) startedWorld sampleOperation = Inr (reservation, w1, op1)"
    using sample_reserve by (auto simp: isOk_iff)
  have good: "ledgerGood (pwLedger startedWorld)" using sample_fresh by (simp add: freshLedger_def)
  note d = reserve_Inr [OF r good]
  have "jint (maxConcurrency (limits (pwLedger w1))) = 1" "jint (activeLeafCalls (usage (pwLedger w1))) = 0"
    using d(1) by (simp_all add: ledgerDelta_def createLedger_def sampleLimits_def ZERO_USAGE_def)
  moreover have "ledgerOk (pwLedger w1)" using d(1) by (simp add: ledgerDelta_def ledgerGood_def)
  ultimately obtain l where l: "acquireLeaf (pwLedger w1) = Some l" using acquireLeaf_free [of "pwLedger w1"] by auto
  have "moKind op1 = OpLlm" using d(4) by auto
  then have "\<exists>i. intentEvent sampleProviderEnv sampleIdentity reservation op1 = Inr i"
    using sampleHasher_conforming
    by (auto simp: intentEvent_def sampleProviderEnv_def sampleIdentity_def operationRequestVersionAllowed_def Let_def conforming_def
        sampleHasher_def split: sum.splits)
  then show ?thesis
    using r l sample_checkpoint(1)
    by (auto simp: permitGranted_def reserveCapacity_def sampleCall_def)
qed

text \<open>The run goes on: the intent is recorded, the effect fails, its settlement is recorded.\<close>

lemma sample_run:
  "\<exists>s i x. providerReach sampleProviderEnv sampleProvider s \<and> pwJournal (psWorld s) = [OperationIntended i]
     \<and> (\<exists>c. psCalls s = [c] \<and> ivShape c = ExternalCall \<and> ivLaunched c = Some i \<and> ivPc c = AwaitEffect 0 (Num 0) i x)
     \<and> length (psOperations s) = 1 \<and> pwAuthority (psWorld s)"
proof -
  let ?s1 = "\<lparr>psWorld = startedWorld, psOperations = [sampleOperation], psCalls = [sampleCall]\<rparr>"
  obtain w op i where g: "permitGranted sampleProviderEnv (\<lambda>_. Num 10) 0 sampleCall startedWorld sampleOperation
      = (w, op, AwaitIntent 0 (Num 0) i)" using sample_intent by blast
  let ?s2 = "settleCall 0 (w, op, AwaitIntent 0 (Num 0) i) ?s1"
  have op: "opOf ?s1 0 = sampleOperation" by (simp add: opOf_def sampleCall_def)
  have "providerMove sampleProviderEnv ?s1 ?s2"
    using providerMove.granted [of 0 ?s1 0 sampleProviderEnv "\<lambda>_. Num 10"] g op by (simp add: sampleCall_def)
  then have r2: "providerReach sampleProviderEnv sampleProvider ?s2" by (rule providerReach.later [OF sample_started])
  have w: "pwJournal w = []" "pwAuthority w"
  proof -
    show "pwJournal w = []"
      using permitGranted_journal [of sampleProviderEnv "\<lambda>_. Num 10" 0 sampleCall startedWorld sampleOperation] g by simp
    have "ledgerGood (pwLedger startedWorld)" using sample_fresh by (simp add: freshLedger_def)
    then obtain k where "pieceDelta 0 AwaitPermit k startedWorld (w, op, AwaitIntent 0 (Num 0) i)"
      using permitGranted_delta [of startedWorld sampleProviderEnv "\<lambda>_. Num 10" 0 sampleCall sampleOperation] unfolding g by blast
    then show "pwAuthority w" by (simp add: pieceDelta_def)
  qed
  let ?r = "AppendResolved DispCommitted CacheRefreshed"
  let ?s3 = "settleCall 0 (intentReplied ?r (Num 10) 0 (Num 0) i (psWorld ?s2) (opOf ?s2 0)) ?s2"
  have c2: "psCalls ?s2 = [sampleCall\<lparr>ivPc := AwaitIntent 0 (Num 0) i\<rparr>]" "psOperations ?s2 = [op]"
    by (simp_all add: settleCall_def sampleCall_def)
  have "providerMove sampleProviderEnv ?s2 ?s3" by (rule providerMove.intended) (simp_all add: c2)
  then have r3: "providerReach sampleProviderEnv sampleProvider ?s3" by (rule providerReach.later [OF r2])
  have reply: "intentReplied ?r (Num 10) 0 (Num 0) i (psWorld ?s2) (opOf ?s2 0)
      = (recordEvent ?r (OperationIntended i) w, op, AwaitEffect 0 (Num 0) i (Num 10))"
    using c2 by (simp add: intentReplied_def appendFailure_def Let_def opOf_def sampleCall_def)
  have "psCalls ?s3 = [sampleCall\<lparr>ivPc := AwaitEffect 0 (Num 0) i (Num 10), ivLaunched := Some i\<rparr>]"
    unfolding reply settleCall_calls c2 by simp
  moreover have "pwJournal (psWorld ?s3) = [OperationIntended i]" "pwAuthority (psWorld ?s3)" "length (psOperations ?s3) = 1"
    unfolding reply using w c2(2) by (simp_all add: recordedBy_def)
  ultimately show ?thesis using r3 by (intro exI [of _ ?s3] exI [of _ i] exI [of _ "Num 10"]) (auto simp: sampleCall_def)
qed

lemma sample_settled: "\<exists>s e. providerReach sampleProviderEnv sampleProvider s \<and> settledOf (newEvents [] s) = [e]"
proof -
  obtain s i x c where s: "providerReach sampleProviderEnv sampleProvider s" "pwJournal (psWorld s) = [OperationIntended i]"
    "psCalls s = [c]" "ivShape c = ExternalCall" "ivPc c = AwaitEffect 0 (Num 0) i x" "pwAuthority (psWorld s)"
    using sample_run by blast
  let ?reply = "EffectRejected OtherError"
  let ?e = "effectReplied sampleProviderEnv (ivShape (psCalls s ! 0)) (Num 20) 0 (Num 0) i x ?reply (psWorld s) (opOf s 0)"
  obtain w op y where y: "settleEffect sampleProviderEnv ExternalCall x (Num 20) (Num 0) ?reply (psWorld s) (opOf s 0) = (w, op, y)"
    by (metis surj_pair)
  obtain event k where e: "?e = (w, op, AwaitSettlement 0 event k)"
    using s(3,4,6) y by (simp add: effectReplied_def)
  let ?s1 = "settleCall 0 ?e s"
  have "providerMove sampleProviderEnv s ?s1"
    by (rule providerMove.ended) (use s in \<open>simp_all add: replyFits_def\<close>)
  then have r1: "providerReach sampleProviderEnv sampleProvider ?s1" by (rule providerReach.later [OF s(1)])
  have ok: "providerOk (createLedger sampleLimits) 1 s"
    using providerReach_ok [OF s(1) [unfolded sampleProvider_def] sample_fresh] by blast
  have "pwJournal w = pwJournal (psWorld s)"
    using settleEffect_delta [OF y providerOkD(1) [OF ok]] call_covered(2) [OF ok, of 0] s(3,5)
    by (simp add: sameRest_def replyFits_def)
  then have j1: "pwJournal (psWorld ?s1) = [OperationIntended i]" unfolding e using s(2) by simp
  let ?r = "AppendResolved DispCommitted CacheRefreshed"
  let ?s2 = "settleCall 0 (settlementReplied ?r 0 event k (psWorld ?s1) (opOf ?s1 0)) ?s1"
  have "providerMove sampleProviderEnv ?s1 ?s2"
    by (rule providerMove.settled) (unfold e, simp_all add: settleCall_calls s(3))
  then have r2: "providerReach sampleProviderEnv sampleProvider ?s2" by (rule providerReach.later [OF r1])
  have "pwJournal (psWorld ?s2) = [OperationIntended i, OperationSettled event]"
    using j1 by (simp add: settlementReplied_def appendFailure_def Let_def recordedBy_def)
  then have "settledOf (newEvents [] ?s2) = [event]" by (simp add: newEvents_def)
  with r2 show ?thesis by blast
qed

section \<open>Witnesses\<close>

theorem provider_conserves_budget_witness:
  "\<exists>s. providerReach sampleProviderEnv sampleProvider s \<and> jint (activeLeafCalls (usage (pwLedger (psWorld s)))) = 1"
proof -
  obtain s i x c where s: "providerReach sampleProviderEnv sampleProvider s" "psCalls s = [c]" "ivPc c = AwaitEffect 0 (Num 0) i x"
    using sample_run by blast
  then show ?thesis
    using provider_conserves_budget [OF s(1) [unfolded sampleProvider_def] sample_fresh] by (intro exI [of _ s]) simp
qed

theorem leaf_follows_permit_witness:
  "\<exists>reservation w1 op1 l. reserve (Num 10) (Num 10) (Num 0) startedWorld sampleOperation = Inr (reservation, w1, op1)
     \<and> acquireLeaf (pwLedger w1) = Some l"
proof -
  let ?s = "\<lparr>psWorld = startedWorld, psOperations = [sampleOperation], psCalls = [sampleCall]\<rparr>"
  obtain reservation w1 op1 where r: "reserve (Num 10) (Num 10) (Num 0) startedWorld sampleOperation = Inr (reservation, w1, op1)"
    using sample_reserve by (auto simp: isOk_iff)
  have "\<exists>l. acquireLeaf (pwLedger w1) = Some l"
    using leaf_follows_permit [OF sample_started [unfolded sampleProvider_def] sample_fresh, of 0 0 "Num 10" "Num 10" "Num 0"
        sampleOperation reservation w1 op1] r
    by (simp add: sampleCall_def createLedger_def sampleLimits_def)
  with r show ?thesis by blast
qed

theorem effects_follow_intents_witness:
  "\<exists>s i. providerReach sampleProviderEnv sampleProvider s \<and> launchedCalls (psCalls s) = 1 \<and> OperationIntended i \<in> set (newEvents [] s)"
proof -
  obtain s i x c where s: "providerReach sampleProviderEnv sampleProvider s" "psCalls s = [c]" "ivLaunched c = Some i"
    using sample_run by blast
  have "OperationIntended i \<in> set (newEvents [] s)"
    using effects_follow_intents [OF s(1) [unfolded sampleProvider_def] sample_fresh] s(2,3) by simp
  then show ?thesis using s by (intro exI [of _ s] exI [of _ i]) (simp add: launchedCalls_def)
qed

theorem settlements_in_order_witness:
  "\<exists>s e. providerReach sampleProviderEnv sampleProvider s \<and> e \<in> set (settledOf (newEvents [] s)) \<and> settlementOk e"
proof -
  obtain s e where s: "providerReach sampleProviderEnv sampleProvider s" "settledOf (newEvents [] s) = [e]"
    using sample_settled by blast
  have "settlementOk e"
    using settlements_in_order [OF s(1) [unfolded sampleProvider_def] sample_fresh, of e] s(2) by simp
  with s show ?thesis by (intro exI [of _ s] exI [of _ e]) simp
qed

definition sampleReport :: external_result where
  "sampleReport =
     \<lparr>erHeap = (\<lambda>_. OObject [(js ''attempts'', Data (VNum (Num 1))), (js ''durationMs'', Data (VNum (Num 5))),
        (js ''inputTokens'', Data (VNum (Num 8))), (js ''outputTokens'', Data (VNum (Num 8))), (js ''totalTokens'', Data (VNum (Num 3)))]),
      erValue = VNull, erUsage = VRef 0, erOutcome = VStr (js ''ok''), erErrorCode = VUndefined\<rparr>"

definition reportedUsage :: call_usage where
  "reportedUsage = \<lparr>uAttempts = Num 1, uInputTokens = Some (Num 8), uOutputTokens = Some (Num 8), uTotalTokens = Some (Num 3),
     uCostUsd = None, uDurationMs = Num 5\<rparr>"

lemma sampleReport_usage:
  "normalizeCallUsage (erHeap sampleReport) (erUsage sampleReport) (usageLimitsFor (peWallMs sampleProviderEnv)) = Inr reportedUsage"
  by (simp add: sampleReport_def reportedUsage_def normalizeCallUsage_def normalizeFields_def usageInteger_def optionalInteger_def
      optionalCost_def ownData_def countWithin_def usageLimitsFor_def sampleProviderEnv_def isSafeInteger_def jmin_def
      MAX_CALL_ATTEMPTS_def MAX_CALL_TOKENS_def MAX_CALL_COST_USD_def MAX_CALL_DURATION_MS_def MAX_SAFE_INTEGER_def)

theorem reported_settlement_refused_witness:
  "\<exists>i w' op' e k. effectReplied sampleProviderEnv ReportedCall (Num 20) 0 (Num 0) i (Num 10) (EffectReported sampleReport)
       (psWorld sampleProvider) sampleOperation = (w', op', AwaitSettlement 0 e k)
     \<and> uTotalTokens (osUsage e) = Some (Num 3) \<and> (\<forall>d st. \<not> isOk (onSettled d e st))"
proof -
  have "pwAuthority (psWorld sampleProvider)" by (simp add: sampleProvider_def initialProvider_def)
  moreover have "erUsage sampleReport \<noteq> VUndefined" by (simp add: sampleReport_def)
  moreover have "uTotalTokens reportedUsage = Some (Num 3)" "jint (Num 3) < usageParts reportedUsage"
    by (simp_all add: reportedUsage_def usageParts_def jint_def)
  ultimately have "\<exists>w' op' e k. effectReplied sampleProviderEnv ReportedCall (Num 20) 0 (Num 0) i (Num 10) (EffectReported sampleReport)
       (psWorld sampleProvider) sampleOperation = (w', op', AwaitSettlement 0 e k)
     \<and> uTotalTokens (osUsage e) = Some (Num 3) \<and> (\<forall>d st. \<not> isOk (onSettled d e st))" for i
    using reported_settlement_refused [OF _ _ sampleReport_usage, of "psWorld sampleProvider" "Num 3" "Num 20" 0 i "Num 10" sampleOperation]
    by (auto simp: reportedUsage_def)
  then show ?thesis by blast
qed


end
