(* ===== verification/Spec2Isabelle.thy ===== *)
theory Spec2Isabelle
  imports Prelude JsNumber JsonValue JsonCanonical CallErrors Schema Program Preview GrantHistory Grant ResumeGrant
    Ids Budget Journal Workspace Cell Trajectory Semaphore StoredBytes Profile RunProgress Retention JournalEvent
    RecoveryJournal CanonicalStream NumberText JsonText TextBytes EventText JournalStore JournalScan JournalAppend
    KeyBinding KeyBindingProof Provider ProviderSystem ProviderLedger ProviderPermits
    ProviderInvariant ProviderProof
begin

text \<open>
  A verification development for pi-rlm, a recursive-language-model runtime written in TypeScript
  (\<open>src/src\<close>).  A run interprets a program: a root frame asks a controller model for JavaScript cells, each
  cell may call language models, agents or child frames, every step is written to an append-only journal
  before it takes effect, and all frames share one budget.  The development models the pure core
  (\<open>src/src/core\<close>), the accounting and concurrency primitives of the runtime, the journal decoder and the
  semantic fold that decides whether a journal may be recovered.

  \<^bold>\<open>Conventions.\<close>  A TypeScript function is an executable definition of the same name.  Objects are records,
  unions are datatypes, a \<open>Result\<close> or a throwing function is a sum with the error on the left, and mutable
  closures and classes are records passed explicitly.  Theory \<open>Prelude\<close> has strings as lists of 16-bit code
  units and \<open>Result\<close>; \<open>JsNumber\<close> has numbers as rationals with \<open>NaN\<close> and the infinities, rounded to nearest
  as IEEE doubles, so a sum beyond the safe integers is rounded as in the program.  Untrusted values live in
  a heap with sharing, cycles, holes and accessors (\<open>JsonValue\<close>); a plain JSON value is a tree.  Code outside
  the repository is an argument: the SHA-256 hasher, the acorn parser, the collation order, the clocks.

  \<^bold>\<open>Data\<close> (\<open>src/src/core\<close>).  \<open>JsonValue\<close> and \<open>JsonCanonical\<close> model \<open>json.ts\<close>: the parser from heap values, the
  canonical form and its text.  They show that the parser accepts exactly the acyclic plain data of bounded
  depth, and that equal canonical forms mean equal values up to key order.  \<open>Schema\<close> models \<open>schema.ts\<close>:
  normalisation and validation with every message, equivalent to a declarative meaning.  \<open>Program\<close> models
  \<open>program.ts\<close>, \<open>Workspace\<close> models \<open>workspace.ts\<close>, \<open>Preview\<close> models \<open>preview.ts\<close> over the UTF-8 encoder and
  decoder, \<open>Trajectory\<close> models \<open>trajectory.ts\<close>, \<open>Cell\<close> models \<open>cell.ts\<close>, \<open>Ids\<close> models \<open>ids.ts\<close> and
  \<open>operation.ts\<close>, and \<open>CallErrors\<close> models \<open>errors.ts\<close> and \<open>usage.ts\<close>.

  \<^bold>\<open>Accounting.\<close>  \<open>Budget\<close> models \<open>budget.ts\<close>: every reachable ledger stays within its limits, reservations are
  granted exactly while the limits leave room, and releases restore the ledger.  Its locale \<open>capped_counter\<close>
  is the contract of a counter with a cap; the frame, turn, call and leaf counters and the permits of
  \<open>Semaphore\<close> (\<open>runtime/semaphore.ts\<close>) interpret it.  The semaphore is a transition system whose acquisitions,
  abort events and releases interleave in any order; it conserves permits and hands them over in order.
  \<open>StoredBytes\<close> (\<open>runtime/stored-bytes.ts\<close>) runs any interleaving of byte reservations against the ledger,
  \<open>Profile\<close> (\<open>runtime/profile.ts\<close>) resolves the limits, and \<open>RunProgress\<close> (\<open>runtime/run-progress.ts\<close>) projects
  the live snapshots.

  \<^bold>\<open>Authorisation.\<close>  \<open>GrantHistory\<close> states the contract of a one-shot grant store as the locale
  \<open>one_shot_store\<close>: over any history nothing is consumed more often than it was minted.  \<open>Grant\<close>
  (\<open>core/grant.ts\<close>) and \<open>ResumeGrant\<close> (\<open>extension/resume-grant.ts\<close>) interpret it on the code's stores and
  characterise each denial.

  \<^bold>\<open>Journal.\<close>  \<open>Journal\<close> models the event type and the status projection of \<open>core/journal.ts\<close>: replaying an
  event changes nothing, counts are exact and the first terminal event decides.  \<open>JournalEvent\<close>
  (\<open>shell/journal-event.ts\<close>) decodes untrusted records; its validators accept exactly the well-formed events.
  \<open>RecoveryJournal\<close> (\<open>runtime/run-recovery-journal.ts\<close>) folds a decoded journal against its manifest with
  one definition per event: an accepted journal settles every external operation once and after its intent,
  stays within the manifest's limits, and refers to content by its hash only.

  \<^bold>\<open>Durable text.\<close>  \<open>CanonicalStream\<close> models \<open>shell/canonical-json.ts\<close>, the streaming printer with its bounded
  buffer and hash, and the canonical-text check of \<open>runtime/run-recovery.ts\<close>; it shows where the two orders of
  object keys disagree.  \<open>NumberText\<close> and \<open>JsonText\<close> model what the code uses of the language: the shortest
  decimal text of a double, which reads back as the same double, and \<open>JSON.parse\<close>, which inverts the printer on
  every tree in property order.  \<open>TextBytes\<close> has the two UTF-8 decoders, replacing and fatal.

  \<^bold>\<open>Journal store.\<close>  \<open>JournalStore\<close> models \<open>shell/journal-store.ts\<close>: the file is a list of bytes, and a record
  \<open>journal_io\<close> says which file-system calls of a transaction fail, before or after their effect, and how much of
  an append reaches the file.  \<open>EventText\<close> shows that an event survives being written and read, \<open>JournalScan\<close> that a
  file of record lines and a torn line scans to the events of its records, and \<open>JournalAppend\<close> that every
  transaction refines an append-only log (\<open>logAppend\<close>), whatever fails, and that the file stays readable and
  loses nothing over any history of appends and repairs.

  \<^bold>\<open>Key binding.\<close>  \<open>KeyBinding\<close> models \<open>bindKeys\<close> of \<open>runtime/broker.ts\<close>, which ties each idempotency key to the
  identity of the call that uses it.  Concurrent calls share the registry of keys and a heap of bindings, and
  interleave at their await points.  \<open>KeyBindingProof\<close> has the invariant of the interleaved calls, the measure
  that bounds their moves, the agreement of returned calls that share a key, and the case in which a binding
  the journal ignored is taken for durable.

  \<^bold>\<open>Provider.\<close>  \<open>Provider\<close> models the pure parts of \<open>runtime/provider.ts\<close>, the boundary every external call passes: request
  identities, the token estimate, and the getter-free reading of responses and failures.  \<open>ProviderSystem\<close> models
  \<open>createModelOperation\<close> with \<open>complete\<close>, \<open>runExternal\<close> and \<open>runExternalReported\<close>: calls take a permit of \<open>Semaphore\<close>,
  reserve in the ledger of \<open>Budget\<close>, journal an intent, launch the effect, account for its result and journal the
  settlement, and a transition system interleaves these pieces with each other, with aborts, with the end of the
  run's authority and with the other users of the ledger and the journal.  \<open>ProviderLedger\<close> has what each piece does
  to the ledger and \<open>ProviderPermits\<close> who owns a permit; \<open>ProviderInvariant\<close> has the invariants and \<open>ProviderProof\<close>
  the properties: the ledger holds what the calls in flight hold, effects follow their journaled intents and stay
  within the attempt limit, a permit always comes with a leaf slot, and the settlements of \<open>complete\<close> and
  \<open>runExternal\<close> pass recovery's usage check, which those of \<open>runExternalReported\<close> may fail.

  \<^bold>\<open>Retention.\<close>  \<open>Retention\<close> models \<open>runtime/run-retention-policy.ts\<close> and the metadata records of
  \<open>runtime/run-retention.ts\<close>: selection removes the shortest age-ordered prefix that meets the quotas.

  \<^bold>\<open>Bounds and fuel.\<close>  All recursions are structural or have a proved measure.  The JSON walk recurses over
  \<open>MAX_JSON_DEPTH\<close> levels and the journal snapshot over \<open>MAX_EVENT_DEPTH\<close> levels, the depths at which the code
  itself stops; no other fuel is used.

  \<^bold>\<open>Not modelled.\<close>  File-system, process and terminal code (the context store, the managed-run
  store, the run-writer arbiter and its publisher, the QuickJS worker, delegation, the terminal interface and
  the live acceptance harness), the asynchronous drivers that compose the pure parts (\<open>run.ts\<close>, \<open>frame.ts\<close>,
  \<open>broker.ts\<close> outside its key binding, the controllers and extractors), and proxies, which the heap model does not have.
\<close>

end
